(* ===== verification/Prelude.thy ===== *)
theory Prelude
  imports Main "HOL-Library.Word"
begin

text \<open>
  Shared vocabulary of the development: names for the machine integers the C code uses,
  little-endian byte layouts, writing a run of bytes into a buffer, and sequencing of
  operations that pass a state and may exit early. Nothing here models a particular
  source line; the component theories build on it.
\<close>

unbundle bit_operations_syntax

type_synonym byte = "8 word"
type_synonym u16 = "16 word"
type_synonym u32 = "32 word"
type_synonym u64 = "64 word"

named_theorems layout_simps "facts about byte layouts and lengths"
named_theorems step_simps "unfoldings of the step functions of the components"

section \<open>Operations that pass a state and may exit\<close>

text \<open>
  An operation takes the state and returns a result with the state it leaves behind:
  \<open>Inl e\<close> when the process exits (or the function returns early) with \<open>e\<close>, and \<open>Inr v\<close>
  when it goes on with \<open>v\<close>. The state is returned in both cases, because the files a
  process wrote before it exits stay written.
\<close>

type_synonym ('s, 'e, 'a) op = "'s \<Rightarrow> ('e + 'a) \<times> 's"

definition retE :: "'a \<Rightarrow> ('s, 'e, 'a) op" where
  "retE a s = (Inr a, s)"

definition failE :: "'e \<Rightarrow> ('s, 'e, 'a) op" where
  "failE e s = (Inl e, s)"

definition bindE :: "('s, 'e, 'a) op \<Rightarrow> ('a \<Rightarrow> ('s, 'e, 'b) op) \<Rightarrow> ('s, 'e, 'b) op" where
  "bindE f g s = (case f s of (Inl e, t) \<Rightarrow> (Inl e, t) | (Inr a, t) \<Rightarrow> g a t)"

lemma bindE_Inr_iff:
  "bindE f g s = (Inr b, u) \<longleftrightarrow> (\<exists>a t. f s = (Inr a, t) \<and> g a t = (Inr b, u))"
  by (auto simp: bindE_def split: prod.splits sum.splits)

lemma bindE_step [simp]: "f s = (Inr a, t) \<Longrightarrow> bindE f g s = g a t"
  by (simp add: bindE_def)

lemma bindE_exit [simp]: "f s = (Inl e, t) \<Longrightarrow> bindE f g s = (Inl e, t)"
  by (simp add: bindE_def)

lemma bindE_assoc: "bindE (bindE f g) h = bindE f (\<lambda>a. bindE (g a) h)"
  by (rule ext) (simp add: bindE_def split: prod.splits sum.splits)

lemma retE_Inr_iff [simp]: "retE a s = (Inr b, t) \<longleftrightarrow> a = b \<and> s = t"
  by (simp add: retE_def)

lemma failE_not_Inr [simp]: "failE e s \<noteq> (Inr b, t)"
  by (simp add: failE_def)

text \<open>Operations that leave a part of the state as it was, whether they go on or exit, and exit only with \<open>ex\<close>.\<close>

named_theorems keeps "operations that leave a part of the state alone"

definition keeps_part :: "('s \<Rightarrow> 'v) \<Rightarrow> 'e set \<Rightarrow> ('s, 'e, 'a) op \<Rightarrow> bool" where
  "keeps_part part ex f \<longleftrightarrow> (\<forall>s. part (snd (f s)) = part s \<and> (\<forall>e. fst (f s) = Inl e \<longrightarrow> e \<in> ex))"

lemma keeps_partD: "keeps_part part ex f \<Longrightarrow> f s = (r, t) \<Longrightarrow> part t = part s"
  unfolding keeps_part_def by (metis snd_conv)

lemma keeps_part_exit: "keeps_part part ex f \<Longrightarrow> f s = (Inl e, t) \<Longrightarrow> e \<in> ex"
  unfolding keeps_part_def by (metis fst_conv)

lemma keeps_bindE [keeps]: "keeps_part part ex f \<Longrightarrow> (\<And>a. keeps_part part ex (g a)) \<Longrightarrow> keeps_part part ex (bindE f g)"
  unfolding keeps_part_def bindE_def by (auto split: prod.splits sum.splits) (metis fst_conv snd_conv)+

lemma keeps_retE [keeps]: "keeps_part part ex (retE a)"
  by (simp add: keeps_part_def retE_def)

lemma keeps_failE: "e \<in> ex \<Longrightarrow> keeps_part part ex (failE e)"
  by (simp add: keeps_part_def failE_def)

lemma keeps_mono: "keeps_part part ex f \<Longrightarrow> (\<And>s t. part s = part t \<Longrightarrow> q s = q t) \<Longrightarrow> keeps_part q ex f"
  unfolding keeps_part_def by blast

lemma keeps_dep: "(\<And>s. h s = f s s) \<Longrightarrow> (\<And>u. keeps_part part ex (f u)) \<Longrightarrow> keeps_part part ex h"
  by (simp add: keeps_part_def)

lemma keeps_after':
  "keeps_part part ex f \<Longrightarrow> part (snd (f s)) = part s \<and> (\<forall>e. fst (f s) = Inl e \<longrightarrow> e \<in> ex)"
  by (simp add: keeps_part_def)

lemma keeps_after:
  "keeps_part part ex f \<Longrightarrow> part (snd (f s)) = part s" "keeps_part part ex f \<Longrightarrow> fst (f s) = Inl e \<Longrightarrow> e \<in> ex"
  by (simp_all add: keeps_part_def)

lemma keeps_if [keeps]: "keeps_part part ex f \<Longrightarrow> keeps_part part ex g \<Longrightarrow> keeps_part part ex (if b then f else g)"
  by simp

lemma keeps_if_state [keeps]:
  "keeps_part part ex f \<Longrightarrow> keeps_part part ex g \<Longrightarrow> keeps_part part ex (\<lambda>s. if b then f s else g s)"
  by (simp add: keeps_part_def)

lemma keeps_Inr [keeps]: "keeps_part part ex (\<lambda>s. (Inr a, s))"
  by (simp add: keeps_part_def)

lemma keeps_option [keeps]:
  "keeps_part part ex f \<Longrightarrow> (\<And>x. keeps_part part ex (g x)) \<Longrightarrow>
   keeps_part part ex (case v of None \<Rightarrow> f | Some x \<Rightarrow> g x)"
  by (cases v) simp_all

lemma keeps_pair [keeps]: "(\<And>x y. keeps_part part ex (f x y)) \<Longrightarrow> keeps_part part ex (case v of (x, y) \<Rightarrow> f x y)"
  by (cases v) simp

lemma keeps_let [keeps]: "(\<And>x. keeps_part part ex (f x)) \<Longrightarrow> keeps_part part ex (let x = v in f x)"
  by simp

section \<open>Little-endian byte layouts\<close>

text \<open>The value of a byte string read little-endian, and the \<open>n\<close> low bytes of a number.\<close>

fun le_val :: "byte list \<Rightarrow> nat" where
  "le_val [] = 0"
| "le_val (b # bs) = unat b + 256 * le_val bs"

fun le_bytes :: "nat \<Rightarrow> nat \<Rightarrow> byte list" where
  "le_bytes 0 x = []"
| "le_bytes (Suc n) x = word_of_nat (x mod 256) # le_bytes n (x div 256)"

lemma length_le_bytes [simp, layout_simps]: "length (le_bytes n x) = n"
  by (induction n arbitrary: x) auto

lemma unat_byte_less [simp]: "unat (b :: byte) < 256"
  using unsigned_less [of b, where ?'a = nat] by simp

lemma le_val_le_bytes: "le_val (le_bytes n x) = x mod 256 ^ n"
proof (induction n arbitrary: x)
  case 0
  then show ?case by simp
next
  case (Suc n)
  have "unat (word_of_nat (x mod 256) :: byte) = x mod 256"
    by (simp add: unat_of_nat)
  with Suc show ?case
    by (simp add: mod_mult2_eq [of x 256 "256 ^ n"] add.commute)
qed

lemma le_val_bound: "le_val bs < 256 ^ length bs"
proof (induction bs)
  case Nil
  then show ?case by simp
next
  case (Cons b bs)
  have "unat b < 256" by simp
  moreover have "Suc (le_val bs) \<le> 256 ^ length bs" using Cons by simp
  ultimately have "unat b + 256 * le_val bs < 256 * (256 ^ length bs)" by linarith
  then show ?case by simp
qed

lemma le_bytes_le_val: "le_bytes (length bs) (le_val bs) = bs"
proof (induction bs)
  case Nil
  then show ?case by simp
next
  case (Cons b bs)
  have "unat b < 256" by simp
  with Cons show ?case by simp
qed

text \<open>32-bit words in memory, on the little-endian machines the tools run on.\<close>

definition u32_bytes :: "u32 \<Rightarrow> byte list" where
  "u32_bytes w = le_bytes 4 (unat w)"

definition u32_of :: "byte list \<Rightarrow> u32" where
  "u32_of bs = word_of_nat (le_val bs)"

lemma length_u32_bytes [simp, layout_simps]: "length (u32_bytes w) = 4"
  by (simp add: u32_bytes_def)

lemma u32_of_bytes [simp]: "u32_of (u32_bytes w) = w"
proof -
  have "unat w < 2 ^ 32" using unsigned_less [of w, where ?'a = nat] by simp
  then show ?thesis
    by (simp add: u32_of_def u32_bytes_def le_val_le_bytes)
qed

lemma u32_bytes_of: "length bs = 4 \<Longrightarrow> u32_bytes (u32_of bs) = bs"
  using le_val_bound [of bs] le_bytes_le_val [of bs]
  by (simp add: u32_of_def u32_bytes_def unat_of_nat)

text \<open>The 32-bit words of a buffer: whole groups of four bytes, what is left over is dropped.\<close>

fun u32s_of :: "byte list \<Rightarrow> u32 list" where
  "u32s_of (a # b # c # d # bs) = u32_of [a, b, c, d] # u32s_of bs"
| "u32s_of _ = []"

lemma u32s_of_append: "length xs mod 4 = 0 \<Longrightarrow> u32s_of (xs @ ys) = u32s_of xs @ u32s_of ys"
proof (induction xs rule: u32s_of.induct)
  case (1 a b c d bs)
  then show ?case by simp
qed auto

lemma length_u32s_of [simp]: "length (u32s_of bs) = length bs div 4"
  by (induction bs rule: u32s_of.induct) auto

section \<open>Buffers\<close>

text \<open>\<open>memcpy (buf + i, bs, length bs)\<close>: the bytes outside the range keep their value.\<close>

definition blit :: "nat \<Rightarrow> 'a list \<Rightarrow> 'a list \<Rightarrow> 'a list" where
  "blit i bs buf = take i buf @ bs @ drop (i + length bs) buf"

lemma length_blit [simp, layout_simps]:
  "i + length bs \<le> length buf \<Longrightarrow> length (blit i bs buf) = length buf"
  by (simp add: blit_def)

lemma blit_Nil [simp]: "blit i [] buf = buf"
  by (simp add: blit_def)

lemma blit_blit:
  "i + length xs + length ys \<le> length buf \<Longrightarrow>
   blit (i + length xs) ys (blit i xs buf) = blit i (xs @ ys) buf"
  by (simp add: blit_def min_absorb2 ac_simps)

lemma take_blit [simp]: "i \<le> length buf \<Longrightarrow> take (i + length bs) (blit i bs buf) = take i buf @ bs"
  by (simp add: blit_def)

lemma blit_0_all [simp]: "length bs = length buf \<Longrightarrow> blit 0 bs buf = bs"
  by (simp add: blit_def)

text \<open>Exclusive or of a list of words, the checksum of the firmware format.\<close>

definition xor_list :: "u32 list \<Rightarrow> u32" where
  "xor_list ws = foldl (XOR) 0 ws"

lemma foldl_xor: "foldl (XOR) a ws = a XOR xor_list (ws :: u32 list)"
proof (induction ws arbitrary: a)
  case Nil
  then show ?case by (simp add: xor_list_def)
next
  case (Cons w ws)
  have "foldl (XOR) a (w # ws) = (a XOR w) XOR xor_list ws"
    using Cons by simp
  also have "\<dots> = a XOR xor_list (w # ws)"
    using Cons [of w] by (simp add: xor_list_def xor.assoc)
  finally show ?case .
qed

lemma xor_list_Nil [simp]: "xor_list [] = 0"
  by (simp add: xor_list_def)

lemma xor_list_Cons [simp]: "xor_list (w # ws) = w XOR xor_list ws"
  using foldl_xor [of w ws] by (simp add: xor_list_def)

lemma xor_list_append [simp]: "xor_list (xs @ ys) = xor_list xs XOR xor_list ys"
  by (induction xs) (simp_all add: xor.assoc)

lemma xor_list_update:
  assumes "i < length ws" and "x \<noteq> ws ! i"
  shows "xor_list (ws[i := x]) \<noteq> xor_list ws"
proof -
  let ?a = "xor_list (take i ws)" and ?b = "xor_list (drop (Suc i) ws)"
  have new: "xor_list (ws[i := x]) = ?a XOR (x XOR ?b)"
    using assms(1) by (simp add: upd_conv_take_nth_drop)
  have old: "xor_list ws = ?a XOR (ws ! i XOR ?b)"
    using assms(1) by (subst id_take_nth_drop [of i]) simp_all
  show ?thesis
  proof
    assume "xor_list (ws[i := x]) = xor_list ws"
    with new old have "?a XOR (x XOR ?b) = ?a XOR (ws ! i XOR ?b)" by simp
    then have "?a XOR (?a XOR (x XOR ?b)) = ?a XOR (?a XOR (ws ! i XOR ?b))" by simp
    then have "x XOR ?b = ws ! i XOR ?b" by (simp add: xor.assoc [symmetric])
    then have "(x XOR ?b) XOR ?b = (ws ! i XOR ?b) XOR ?b" by simp
    then have "x = ws ! i" by (simp add: xor.assoc)
    with assms(2) show False by simp
  qed
qed

end
