(* ===== verification/CLib.thy ===== *)
theory CLib
  imports Prelude
begin

text \<open>
  The parts of the C library the sources use on strings: character classes, \<open>atoi\<close> and
  \<open>strtol\<close>, \<open>strchr\<close>, \<open>strtok\<close>, \<open>strncmp\<close> and case-insensitive comparison. A C string is
  its characters before the terminating NUL, so a \<open>string\<close> here holds no NUL. \<open>long\<close> is
  32 bits wide, as on the ARM boxes the programs run on.
\<close>

section \<open>Character classes\<close>

definition isspace :: "char \<Rightarrow> bool" where
  "isspace c \<longleftrightarrow> c \<in> {CHR '' '', CHR 0x09, CHR 0x0A, CHR 0x0B, CHR 0x0C, CHR 0x0D}"

definition code :: "char \<Rightarrow> nat" where
  "code c = of_char c"

definition isdigit :: "char \<Rightarrow> bool" where
  "isdigit c \<longleftrightarrow> 48 \<le> code c \<and> code c \<le> 57"

definition isupper :: "char \<Rightarrow> bool" where
  "isupper c \<longleftrightarrow> 65 \<le> code c \<and> code c \<le> 90"

definition islower :: "char \<Rightarrow> bool" where
  "islower c \<longleftrightarrow> 97 \<le> code c \<and> code c \<le> 122"

definition isalpha :: "char \<Rightarrow> bool" where
  "isalpha c \<longleftrightarrow> isupper c \<or> islower c"

definition isalnum :: "char \<Rightarrow> bool" where
  "isalnum c \<longleftrightarrow> isalpha c \<or> isdigit c"

definition isxdigit :: "char \<Rightarrow> bool" where
  "isxdigit c \<longleftrightarrow> isdigit c \<or> (65 \<le> code c \<and> code c \<le> 70) \<or> (97 \<le> code c \<and> code c \<le> 102)"

definition to_lower :: "char \<Rightarrow> char" where
  "to_lower c = (if isupper c then char_of (code c + 32) else c)"

definition digit_val :: "char \<Rightarrow> nat" where
  "digit_val c = code c - 48"

lemma digit_not_space: "isdigit c \<Longrightarrow> \<not> isspace c"
  by (auto simp: isdigit_def isspace_def code_def)

section \<open>Numbers\<close>

text \<open>The run of digits at the head of a string, its value, and what follows it.\<close>

definition digits_value :: "string \<Rightarrow> nat" where
  "digits_value ds = foldl (\<lambda>n c. 10 * n + digit_val c) 0 ds"

definition LONG_MAX :: int where "LONG_MAX = 2147483647"
definition LONG_MIN :: int where "LONG_MIN = - 2147483648"

definition saturate :: "int \<Rightarrow> int" where
  "saturate i = max LONG_MIN (min LONG_MAX i)"

text \<open>
  \<open>strtol (s, &end, 10)\<close>: the value and the rest of the string. Where no digit is found the
  value is 0 and the end pointer is \<open>s\<close> itself.
\<close>

definition strtol10 :: "string \<Rightarrow> int \<times> string" where
  "strtol10 s =
     (let s1 = dropWhile isspace s;
          neg = (case s1 of c # _ \<Rightarrow> c = CHR ''-'' | [] \<Rightarrow> False);
          s2 = (case s1 of c # r \<Rightarrow> if c = CHR ''-'' \<or> c = CHR ''+'' then r else s1 | [] \<Rightarrow> []);
          ds = takeWhile isdigit s2
      in if ds = [] then (0, s)
         else (saturate (if neg then - int (digits_value ds) else int (digits_value ds)),
               dropWhile isdigit s2))"

definition atoi :: "string \<Rightarrow> int" where
  "atoi s = fst (strtol10 s)"

lemma saturate_bounds: "LONG_MIN \<le> saturate i" "saturate i \<le> LONG_MAX"
  by (auto simp: saturate_def LONG_MIN_def LONG_MAX_def)

lemma saturate_id: "LONG_MIN \<le> i \<Longrightarrow> i \<le> LONG_MAX \<Longrightarrow> saturate i = i"
  by (auto simp: saturate_def)

lemma atoi_bounds: "LONG_MIN \<le> atoi s" "atoi s \<le> LONG_MAX"
  using saturate_bounds
  by (auto simp: atoi_def strtol10_def Let_def LONG_MIN_def LONG_MAX_def)

section \<open>Searching and splitting\<close>

text \<open>\<open>strchr (s, c)\<close>: the text before the first \<open>c\<close> and the text after it.\<close>

fun strchr :: "char \<Rightarrow> string \<Rightarrow> (string \<times> string) option" where
  "strchr c [] = None"
| "strchr c (x # xs) =
     (if x = c then Some ([], xs)
      else (case strchr c xs of None \<Rightarrow> None | Some (a, b) \<Rightarrow> Some (x # a, b)))"

lemma strchr_Some: "strchr c s = Some (a, b) \<Longrightarrow> s = a @ c # b \<and> c \<notin> set a"
  by (induction s arbitrary: a) (auto split: if_splits option.splits)

lemma strchr_None: "strchr c s = None \<longleftrightarrow> c \<notin> set s"
  by (induction s) (auto split: option.splits)

lemma strchr_append: "c \<notin> set a \<Longrightarrow> strchr c (a @ c # b) = Some (a, b)"
  by (induction a) auto

text \<open>
  One call of \<open>strtok\<close> with a one-character delimiter set: leading delimiters are skipped,
  the token runs to the next delimiter, which is consumed; \<open>None\<close> is the null pointer.
\<close>

definition strtok :: "char \<Rightarrow> string \<Rightarrow> (string \<times> string) option" where
  "strtok d s =
     (let s1 = dropWhile (\<lambda>x. x = d) s
      in if s1 = [] then None
         else Some (takeWhile (\<lambda>x. x \<noteq> d) s1, drop 1 (dropWhile (\<lambda>x. x \<noteq> d) s1)))"

lemma strtok_SomeE:
  assumes "strtok d s = Some (t, r)"
  obtains s1 where "s1 = dropWhile (\<lambda>x. x = d) s" "s1 \<noteq> []"
    "t = takeWhile (\<lambda>x. x \<noteq> d) s1" "r = drop 1 (dropWhile (\<lambda>x. x \<noteq> d) s1)"
proof -
  have c: "x = Some (t, r) \<Longrightarrow> x = (if b then None else Some (t', r')) \<Longrightarrow> \<not> b \<and> t = t' \<and> r = r'"
    for x b t' r'
    by (cases b) auto
  from c [OF assms strtok_def [unfolded Let_def]] that show thesis by blast
qed

lemma strtok_nonempty: "strtok d s = Some (t, r) \<Longrightarrow> t \<noteq> [] \<and> d \<notin> set t"
proof (elim strtok_SomeE)
  fix s1
  assume s1: "s1 = dropWhile (\<lambda>x. x = d) s" and ne: "s1 \<noteq> []"
    and t: "t = takeWhile (\<lambda>x. x \<noteq> d) s1"
  have "hd s1 \<noteq> d" using ne hd_dropWhile [of "\<lambda>x. x = d" s] unfolding s1 by blast
  with ne t have "t \<noteq> []" by (cases s1) auto
  moreover have "d \<notin> set t" unfolding t by (blast dest: set_takeWhileD)
  ultimately show ?thesis by simp
qed

lemma strtok_rest_length: "strtok d s = Some (t, r) \<Longrightarrow> length r < length s"
proof (elim strtok_SomeE)
  fix s1
  assume s1: "s1 = dropWhile (\<lambda>x. x = d) s" and ne: "s1 \<noteq> []"
    and r: "r = drop 1 (dropWhile (\<lambda>x. x \<noteq> d) s1)"
  have "0 < length s1" and "length s1 \<le> length s"
    using ne length_dropWhile_le unfolding s1 by auto
  moreover have "length r < length s1"
    using length_dropWhile_le [of "\<lambda>x. x \<noteq> d" s1] \<open>0 < length s1\<close> unfolding r length_drop
    by linarith
  ultimately show ?thesis by linarith
qed

text \<open>\<open>strncmp (a, b, n) == 0\<close>, on the strings with their terminating NUL.\<close>

definition strneq :: "nat \<Rightarrow> string \<Rightarrow> string \<Rightarrow> bool" where
  "strneq n a b \<longleftrightarrow> take n (a @ [CHR 0x00]) = take n (b @ [CHR 0x00])"

definition strcaseeq :: "string \<Rightarrow> string \<Rightarrow> bool" where
  "strcaseeq a b \<longleftrightarrow> map to_lower a = map to_lower b"

lemma strneq_prefix: "strneq (length a) a b \<longleftrightarrow> take (length a) b = a" if "CHR 0x00 \<notin> set a"
proof
  assume "strneq (length a) a b"
  then have e: "a = take (length a) (b @ [CHR 0x00])" by (simp add: strneq_def)
  show "take (length a) b = a"
  proof (cases "length a \<le> length b")
    case True
    with e show ?thesis by simp
  next
    case False
    with e have "a = b @ [CHR 0x00]" by (simp add: take_Cons')
    with that show ?thesis by (metis in_set_conv_decomp)
  qed
next
  assume e: "take (length a) b = a"
  then have "length a \<le> length b" by (metis length_take min.absorb_iff2)
  with e show "strneq (length a) a b" by (simp add: strneq_def)
qed

section \<open>Printing numbers\<close>

text \<open>\<open>%u\<close> and \<open>%d\<close>\<close>

fun dec :: "nat \<Rightarrow> string" where
  "dec n = (if n < 10 then [char_of (48 + n)] else dec (n div 10) @ [char_of (48 + n mod 10)])"

declare dec.simps [simp del]

definition dec_int :: "int \<Rightarrow> string" where
  "dec_int i = (if i < 0 then CHR ''-'' # dec (nat (- i)) else dec (nat i))"

lemma code_digit: "n < 10 \<Longrightarrow> code (char_of (48 + n)) = 48 + n"
  by (simp add: code_def)

lemma isdigit_digit: "n < 10 \<Longrightarrow> isdigit (char_of (48 + n)) \<and> digit_val (char_of (48 + n)) = n"
  by (simp add: isdigit_def digit_val_def code_digit)

lemma dec_digits: "list_all isdigit (dec n) \<and> dec n \<noteq> []"
proof (induction n rule: dec.induct)
  case (1 n)
  show ?case
  proof (cases "n < 10")
    case True
    then show ?thesis by (subst dec.simps, subst (2) dec.simps) (simp add: isdigit_digit)
  next
    case False
    then have "list_all isdigit (dec (n div 10))" using 1 by simp
    moreover have "isdigit (char_of (48 + n mod 10))" by (simp add: isdigit_digit)
    ultimately show ?thesis using False by (subst dec.simps, subst (2) dec.simps) simp
  qed
qed

lemma digits_value_dec: "digits_value (dec n) = n"
proof (induction n rule: dec.induct)
  case (1 n)
  show ?case
  proof (cases "n < 10")
    case True
    then show ?thesis by (subst dec.simps) (simp add: digits_value_def isdigit_digit)
  next
    case False
    then have "digits_value (dec (n div 10)) = n div 10" using 1 by simp
    then show ?thesis using False
      by (subst dec.simps) (simp add: digits_value_def isdigit_digit)
  qed
qed

lemma dec_inj: "dec m = dec n \<Longrightarrow> m = n"
  by (metis digits_value_dec)

lemma length_dec: "n < 10 ^ Suc k \<Longrightarrow> length (dec n) \<le> Suc k"
proof (induction k arbitrary: n)
  case 0
  then show ?case by (subst dec.simps) simp
next
  case (Suc k)
  show ?case
  proof (cases "n < 10")
    case True
    then show ?thesis by (subst dec.simps) simp
  next
    case False
    have "n div 10 < 10 ^ Suc k" using Suc.prems by (simp add: div_less_iff_less_mult)
    then show ?thesis using Suc.IH [of "n div 10"] False by (subst dec.simps) simp
  qed
qed

lemma takeWhile_digits: "list_all isdigit ds \<Longrightarrow> takeWhile isdigit (ds @ r) = ds @ takeWhile isdigit r"
  by (induction ds) simp_all

lemma dropWhile_digits: "list_all isdigit ds \<Longrightarrow> dropWhile isdigit (ds @ r) = dropWhile isdigit r"
  by (induction ds) simp_all

lemma strtol10_dec:
  assumes "int n \<le> LONG_MAX" and "r = [] \<or> \<not> isdigit (hd r)"
  shows "strtol10 (dec n @ r) = (int n, r)"
proof -
  obtain d ds where d: "dec n = d # ds" and dd: "isdigit d" "list_all isdigit (dec n)"
    using dec_digits [of n] by (cases "dec n") simp_all
  have sp: "\<not> isspace d" by (rule digit_not_space [OF dd(1)])
  have sg: "d \<noteq> CHR ''-''" "d \<noteq> CHR ''+''"
    using dd(1) by (auto simp: isdigit_def code_def)
  have r: "takeWhile isdigit r = []" "dropWhile isdigit r = r"
    using assms(2) by (cases r; simp)+
  have t: "takeWhile isdigit (d # ds @ r) = d # ds" "dropWhile isdigit (d # ds @ r) = r"
    using takeWhile_digits [OF dd(2), of r] dropWhile_digits [OF dd(2), of r] d r by simp_all
  have v: "digits_value (d # ds) = n" using digits_value_dec [of n] d by simp
  have "LONG_MIN \<le> int n" by (simp add: LONG_MIN_def)
  then have "saturate (int n) = int n" using assms(1) by (rule saturate_id)
  then show ?thesis
    using sp sg t v by (simp add: strtol10_def Let_def d)
qed

lemma atoi_dec: "int n \<le> LONG_MAX \<Longrightarrow> atoi (dec n) = int n"
  using strtol10_dec [of n "[]"] by (simp add: atoi_def)

section \<open>Reading lines and numbers\<close>

text \<open>
  One call of \<open>fgets (buf, n, fp)\<close>: at most \<open>n - 1\<close> characters, up to and with the next newline. A line
  that is longer than the buffer arrives in several pieces.
\<close>

definition fgets_piece :: "nat \<Rightarrow> string \<Rightarrow> string" where
  "fgets_piece n s = take (n - 1) (takeWhile (\<lambda>c. c \<noteq> CHR 0x0A) s @ take 1 (dropWhile (\<lambda>c. c \<noteq> CHR 0x0A) s))"

lemma fgets_piece_nonempty: "s \<noteq> [] \<Longrightarrow> 1 < n \<Longrightarrow> fgets_piece n s \<noteq> []"
  by (cases s; cases n) (auto simp: fgets_piece_def take_Cons')

lemma fgets_piece_prefix: "take (length (fgets_piece n s)) s = fgets_piece n s"
proof -
  let ?P = "\<lambda>c. c \<noteq> CHR 0x0A"
  have "s = (takeWhile ?P s @ take 1 (dropWhile ?P s)) @ drop 1 (dropWhile ?P s)"
    by (metis append.assoc append_take_drop_id takeWhile_dropWhile_id)
  then show ?thesis unfolding fgets_piece_def
    by (metis (no_types, lifting) append_take_drop_id append_eq_conv_conj append_assoc)
qed

text \<open>All the pieces a loop over \<open>fgets\<close> sees.\<close>

function fgets_all :: "nat \<Rightarrow> string \<Rightarrow> string list" where
  "fgets_all n s =
     (if s = [] \<or> n \<le> 1 then []
      else fgets_piece n s # fgets_all n (drop (length (fgets_piece n s)) s))"
  by pat_completeness auto

termination
  by (relation "measure (\<lambda>(n, s). length s)") (use fgets_piece_nonempty in \<open>auto simp: not_le\<close>)

declare fgets_all.simps [simp del]

lemma concat_fgets_all: "1 < n \<Longrightarrow> concat (fgets_all n s) = s"
proof (induction n s rule: fgets_all.induct)
  case (1 n s)
  show ?case
  proof (cases "s = []")
    case True
    then show ?thesis by (simp add: fgets_all.simps)
  next
    case False
    then have "concat (fgets_all n s) = fgets_piece n s @ drop (length (fgets_piece n s)) s"
      using 1 by (subst fgets_all.simps) simp
    also have "\<dots> = s" by (metis append_take_drop_id fgets_piece_prefix)
    finally show ?thesis .
  qed
qed

lemma fgets_all_Nil [simp]: "fgets_all n [] = []"
  by (simp add: fgets_all.simps)

lemma takeWhile_newline:
  "CHR 0x0A \<notin> set l \<Longrightarrow> takeWhile (\<lambda>c. c \<noteq> CHR 0x0A) (l @ CHR 0x0A # r) = l \<and>
     dropWhile (\<lambda>c. c \<noteq> CHR 0x0A) (l @ CHR 0x0A # r) = CHR 0x0A # r"
  by (induction l) auto

lemma fgets_all_line:
  assumes "CHR 0x0A \<notin> set l" and "length l + 2 \<le> n"
  shows "fgets_all n (l @ CHR 0x0A # r) = (l @ [CHR 0x0A]) # fgets_all n r"
proof -
  have "fgets_piece n (l @ CHR 0x0A # r) = l @ [CHR 0x0A]"
    using takeWhile_newline [OF assms(1), of r] assms(2) by (simp add: fgets_piece_def)
  then show ?thesis using assms(2) by (subst fgets_all.simps) simp
qed

text \<open>\<open>sscanf (s, "%d", &u)\<close>: \<open>None\<close> when no number is found, and \<open>u\<close> keeps its value.\<close>

definition scan_d :: "string \<Rightarrow> int option" where
  "scan_d s = (let (v, r) = strtol10 s in if length r < length s then Some v else None)"

lemma scan_d_dec:
  assumes "int n \<le> LONG_MAX" and "r = [] \<or> \<not> isdigit (hd r)"
  shows "scan_d (dec n @ r) = Some (int n)"
  using strtol10_dec [OF assms] dec_digits [of n] by (simp add: scan_d_def)

end
