(* ===== verification/Firmware.thy ===== *)
theory Firmware
  imports CLib
begin

text \<open>
  \<open>package/alt-f-utils/alt-f-utils-0.1.11/dns323-fw.c\<close>: the tool that merges a kernel, an
  initramfs, an optional squashfs image and optional defaults into a vendor firmware file and
  splits such a file again. A firmware file is a control header (64 or 128 bytes, told apart
  by where a known signature stands), followed by the components; the header holds each
  component's offset, length and checksum (exclusive or of its little-endian 32-bit words).

  Files are byte lists under names. Every \<open>exit (1)\<close> of the tool is a value of \<open>fw_exit\<close>,
  with the files as they are at that point. Diagnostics on the terminal, \<open>malloc\<close> failure,
  writes that store only a part of the data, and files of 2 GB and more (where \<open>int i\<close> of
  \<open>readwrite\<close> would overflow) are not modelled.
\<close>

section \<open>Files\<close>

text \<open>\<open>denied\<close> names cannot be opened for writing; a file cannot grow beyond \<open>cap\<close> bytes.\<close>

record fsys =
  files :: "string \<Rightarrow> byte list option"
  denied :: "string \<Rightarrow> bool"
  cap :: nat

definition contents :: "fsys \<Rightarrow> string \<Rightarrow> byte list" where
  "contents fs f = (case files fs f of None \<Rightarrow> [] | Some bs \<Rightarrow> bs)"

definition open_trunc :: "string \<Rightarrow> fsys \<Rightarrow> fsys option" where
  "open_trunc f fs = (if denied fs f then None else Some (fs\<lparr>files := (files fs)(f \<mapsto> [])\<rparr>))"

definition write_end :: "string \<Rightarrow> byte list \<Rightarrow> fsys \<Rightarrow> fsys option" where
  "write_end f bs fs =
     (if length (contents fs f) + length bs \<le> cap fs
      then Some (fs\<lparr>files := (files fs)(f \<mapsto> contents fs f @ bs)\<rparr>) else None)"

definition write_start :: "string \<Rightarrow> byte list \<Rightarrow> fsys \<Rightarrow> fsys" where
  "write_start f bs fs =
     (if length bs \<le> cap fs
      then fs\<lparr>files := (files fs)(f \<mapsto> bs @ drop (length bs) (contents fs f))\<rparr> else fs)"

section \<open>Headers\<close>

definition BLOCK_SIZE :: nat where "BLOCK_SIZE = 65536"
definition SIG_LEN :: nat where "SIG_LEN = 12"
definition RESERVED64 :: nat where "RESERVED64 = 7"
definition RESERVED128 :: nat where "RESERVED128 = 59"

record control_header_64 =
  h64_kernel_off :: u32
  h64_kernel_len :: u32
  h64_initramfs_off :: u32
  h64_initramfs_len :: u32
  h64_defaults_off :: u32
  h64_defaults_len :: u32
  h64_kernel_checksum :: u32
  h64_initramfs_checksum :: u32
  h64_defaults_checksum :: u32
  h64_magic_num :: "byte list"
  h64_product_id :: byte
  h64_custom_id :: byte
  h64_model_id :: byte
  h64_sub_id :: byte
  h64_NewVersion :: byte
  h64_reserved :: "byte list"
  h64_Next_offset :: u32

record control_header_128 =
  h128_kernel_off :: u32
  h128_kernel_len :: u32
  h128_initramfs_off :: u32
  h128_initramfs_len :: u32
  h128_sqimage_off :: u32
  h128_sqimage_len :: u32
  h128_defaults_off :: u32
  h128_defaults_len :: u32
  h128_kernel_checksum :: u32
  h128_initramfs_checksum :: u32
  h128_sqimage_checksum :: u32
  h128_defaults_checksum :: u32
  h128_magic_num :: "byte list"
  h128_product_id :: byte
  h128_custom_id :: byte
  h128_model_id :: byte
  h128_sub_id :: byte
  h128_NewVersion :: byte
  h128_reserved :: "byte list"
  h128_Next_offset :: u32

record my_control_header =
  kernel_off :: u32
  kernel_len :: u32
  kernel_checksum :: u32
  initramfs_off :: u32
  initramfs_len :: u32
  initramfs_checksum :: u32
  sqimage_off :: u32
  sqimage_len :: u32
  sqimage_checksum :: u32
  defaults_off :: u32
  defaults_len :: u32
  defaults_checksum :: u32
  Next_offset :: u32
  product_id :: byte
  custom_id :: byte
  model_id :: byte
  sub_id :: byte
  NewVersion :: byte
  hd_type :: int
  sig_num :: int

record sig_t =
  idx :: int
  sig_size :: nat
  kernel_max :: nat
  initramfs_max :: nat
  sqimage_max :: nat
  defaults_max :: nat
  signature :: "byte list"

definition bytes_of_string :: "string \<Rightarrow> byte list" where
  "bytes_of_string s = map of_char s"

definition signatures :: "sig_t list" where
  "signatures = [
     \<lparr>idx = 0, sig_size = 64, kernel_max = 1572864, initramfs_max = 6488064, sqimage_max = 0,
      defaults_max = 65536, signature = [0x55, 0xAA] @ bytes_of_string ''FrodoII'' @ [0x00, 0x55, 0xAA]\<rparr>,
     \<lparr>idx = 1, sig_size = 64, kernel_max = 1572864, initramfs_max = 10485760, sqimage_max = 0,
      defaults_max = 131072, signature = [0x55, 0xAA] @ bytes_of_string ''Chopper'' @ [0x00, 0x55, 0xAA]\<rparr>,
     \<lparr>idx = 2, sig_size = 64, kernel_max = 1572864, initramfs_max = 14417920, sqimage_max = 0,
      defaults_max = 131072, signature = [0x55, 0xAA] @ bytes_of_string ''Gandolf'' @ [0x00, 0x55, 0xAA]\<rparr>,
     \<lparr>idx = 3, sig_size = 128, kernel_max = 5242880, initramfs_max = 5242880, sqimage_max = 106954752,
      defaults_max = 5242880, signature = [0x55, 0xAA] @ bytes_of_string ''DNS-325'' @ [0x00, 0x55, 0xAA]\<rparr>,
     \<lparr>idx = 4, sig_size = 128, kernel_max = 5242880, initramfs_max = 5242880, sqimage_max = 106954752,
      defaults_max = 5242880, signature = [0x55, 0xAA] @ bytes_of_string ''DNS323D1'' @ [0x55, 0xAA]\<rparr>,
     \<lparr>idx = 5, sig_size = 128, kernel_max = 5242880, initramfs_max = 5242880, sqimage_max = 104857600,
      defaults_max = 5242880, signature = [0x55, 0xAA] @ bytes_of_string ''DNS320B'' @ [0x00, 0x55, 0xAA]\<rparr>,
     \<lparr>idx = 6, sig_size = 128, kernel_max = 5242880, initramfs_max = 5242880, sqimage_max = 104857600,
      defaults_max = 5242880, signature = [0x55, 0xAA] @ bytes_of_string ''DNS320L'' @ [0x00, 0x55, 0xAA]\<rparr>,
     \<lparr>idx = 7, sig_size = 128, kernel_max = 5242880, initramfs_max = 5242880, sqimage_max = 81788928,
      defaults_max = 10485760, signature = [0x55, 0xAA] @ bytes_of_string ''DNS327L'' @ [0x00, 0x55, 0xAA]\<rparr>,
     \<lparr>idx = 8, sig_size = 128, kernel_max = 5242880, initramfs_max = 5242880, sqimage_max = 73400320,
      defaults_max = 5242880, signature = [0x55, 0xAA] @ bytes_of_string ''DNR-322'' @ [0x00, 0x55, 0xAA]\<rparr>]"

definition nsig :: nat where "nsig = length signatures"

text \<open>The signature of a header's \<open>sig_num\<close>; the code indexes the array with it.\<close>

definition sig_at :: "int \<Rightarrow> sig_t" where
  "sig_at i = signatures ! nat i"

text \<open>How the two headers lie in memory, field after field, with no padding.\<close>

definition bytes_of_hd64 :: "control_header_64 \<Rightarrow> byte list" where
  "bytes_of_hd64 h =
     u32_bytes (h64_kernel_off h) @ u32_bytes (h64_kernel_len h) @
     u32_bytes (h64_initramfs_off h) @ u32_bytes (h64_initramfs_len h) @
     u32_bytes (h64_defaults_off h) @ u32_bytes (h64_defaults_len h) @
     u32_bytes (h64_kernel_checksum h) @ u32_bytes (h64_initramfs_checksum h) @
     u32_bytes (h64_defaults_checksum h) @
     h64_magic_num h @
     [h64_product_id h, h64_custom_id h, h64_model_id h, h64_sub_id h, h64_NewVersion h] @
     h64_reserved h @ u32_bytes (h64_Next_offset h)"

definition bytes_of_hd128 :: "control_header_128 \<Rightarrow> byte list" where
  "bytes_of_hd128 h =
     u32_bytes (h128_kernel_off h) @ u32_bytes (h128_kernel_len h) @
     u32_bytes (h128_initramfs_off h) @ u32_bytes (h128_initramfs_len h) @
     u32_bytes (h128_sqimage_off h) @ u32_bytes (h128_sqimage_len h) @
     u32_bytes (h128_defaults_off h) @ u32_bytes (h128_defaults_len h) @
     u32_bytes (h128_kernel_checksum h) @ u32_bytes (h128_initramfs_checksum h) @
     u32_bytes (h128_sqimage_checksum h) @ u32_bytes (h128_defaults_checksum h) @
     h128_magic_num h @
     [h128_product_id h, h128_custom_id h, h128_model_id h, h128_sub_id h, h128_NewVersion h] @
     h128_reserved h @ u32_bytes (h128_Next_offset h)"

text \<open>The casts of a byte buffer to the two header types.\<close>

definition u32_at :: "byte list \<Rightarrow> nat \<Rightarrow> u32" where
  "u32_at bs k = u32_of (take 4 (drop k bs))"

definition hd64_of_bytes :: "byte list \<Rightarrow> control_header_64" where
  "hd64_of_bytes bs = \<lparr>
     h64_kernel_off = u32_at bs 0, h64_kernel_len = u32_at bs 4,
     h64_initramfs_off = u32_at bs 8, h64_initramfs_len = u32_at bs 12,
     h64_defaults_off = u32_at bs 16, h64_defaults_len = u32_at bs 20,
     h64_kernel_checksum = u32_at bs 24, h64_initramfs_checksum = u32_at bs 28,
     h64_defaults_checksum = u32_at bs 32,
     h64_magic_num = take SIG_LEN (drop 36 bs),
     h64_product_id = bs ! 48, h64_custom_id = bs ! 49, h64_model_id = bs ! 50,
     h64_sub_id = bs ! 51, h64_NewVersion = bs ! 52,
     h64_reserved = take RESERVED64 (drop 53 bs), h64_Next_offset = u32_at bs 60\<rparr>"

definition hd128_of_bytes :: "byte list \<Rightarrow> control_header_128" where
  "hd128_of_bytes bs = \<lparr>
     h128_kernel_off = u32_at bs 0, h128_kernel_len = u32_at bs 4,
     h128_initramfs_off = u32_at bs 8, h128_initramfs_len = u32_at bs 12,
     h128_sqimage_off = u32_at bs 16, h128_sqimage_len = u32_at bs 20,
     h128_defaults_off = u32_at bs 24, h128_defaults_len = u32_at bs 28,
     h128_kernel_checksum = u32_at bs 32, h128_initramfs_checksum = u32_at bs 36,
     h128_sqimage_checksum = u32_at bs 40, h128_defaults_checksum = u32_at bs 44,
     h128_magic_num = take SIG_LEN (drop 48 bs),
     h128_product_id = bs ! 60, h128_custom_id = bs ! 61, h128_model_id = bs ! 62,
     h128_sub_id = bs ! 63, h128_NewVersion = bs ! 64,
     h128_reserved = take RESERVED128 (drop 65 bs), h128_Next_offset = u32_at bs 124\<rparr>"

section \<open>Copying a component and its checksum\<close>

text \<open>
  The loop of \<open>readwrite\<close>: \<open>i\<close> bytes of the \<open>sz\<close> are done, \<open>inp\<close> is the input file from the
  start offset on. A short read is filled up with zero bytes to the length asked for, and the
  loop ends early at the end of the file. \<open>None\<close> is a failed write.
\<close>

function rw_loop :: "string \<Rightarrow> byte list \<Rightarrow> nat \<Rightarrow> nat \<Rightarrow> u32 \<Rightarrow> fsys \<Rightarrow> u32 option \<times> fsys" where
  "rw_loop fo inp sz i lchk fs =
     (if i < sz then
        let k = (if sz - i > BLOCK_SIZE then BLOCK_SIZE else sz - i);
            got = take k (drop i inp);
            n = length got
        in if n = 0 then (Some lchk, fs)
           else let buf = got @ replicate (k - n) 0
                in case write_end fo buf fs of
                     None \<Rightarrow> (None, fs)
                   | Some fs' \<Rightarrow> rw_loop fo inp sz (i + k) (foldl (XOR) lchk (u32s_of buf)) fs'
      else (Some lchk, fs))"
  by pat_completeness auto
termination
  by (relation "measure (\<lambda>(fo, inp, sz, i, lchk, fs). sz - i)") (auto simp: BLOCK_SIZE_def)

declare rw_loop.simps [simp del]

text \<open>
  \<open>readwrite (fdo, fdi, off, sz, chk)\<close>: the status (0 or -1), the checksum left in \<open>*chk\<close>,
  and the files. A zero \<open>*chk\<close> asks for the checksum, any other value is compared.
\<close>

definition readwrite ::
    "string \<Rightarrow> byte list \<Rightarrow> nat \<Rightarrow> nat \<Rightarrow> u32 \<Rightarrow> fsys \<Rightarrow> (int \<times> u32) \<times> fsys" where
  "readwrite fo inp off sz chk fs =
     (case rw_loop fo (drop off inp) sz 0 0 fs of
        (None, fs') \<Rightarrow> ((-1, chk), fs')
      | (Some lchk, fs') \<Rightarrow>
          if chk = 0 then ((0, lchk), fs')
          else if lchk \<noteq> chk then ((-1, chk), fs')
          else ((0, chk), fs'))"

datatype fw_exit =
  Usage | CannotOpen string | CopyError string | NotUboot string | TooBig string
| BadHeaderType | ShortFile | UnknownSignature | SizeError

definition savefile :: "string \<Rightarrow> string \<Rightarrow> nat \<Rightarrow> nat \<Rightarrow> u32 \<Rightarrow> (fsys, fw_exit, u32) op" where
  "savefile filename fdi offset len checksum fs =
     (case open_trunc filename fs of
        None \<Rightarrow> (Inl (CannotOpen filename), fs)
      | Some fs1 \<Rightarrow>
          (case readwrite filename (contents fs1 fdi) offset len checksum fs1 of
             ((r, chk), fs2) \<Rightarrow>
               if r \<noteq> 0 then (Inl (CopyError filename), fs2) else (Inr chk, fs2)))"

text \<open>
  The uboot test reads four bytes into a stack buffer; \<open>stk\<close> is what the buffer held before,
  which is compared where the file is too short.
\<close>

definition uboot_sig :: "byte list" where
  "uboot_sig = [0x27, 0x05, 0x19, 0x56]"

definition is_uboot :: "(nat \<Rightarrow> byte) \<Rightarrow> byte list \<Rightarrow> nat \<Rightarrow> bool" where
  "is_uboot stk inp off =
     (let got = take 4 (drop off inp)
      in got @ map stk [length got..<4] = uboot_sig)"

definition savecomp ::
    "(nat \<Rightarrow> byte) \<Rightarrow> string \<Rightarrow> string \<Rightarrow> bool \<Rightarrow> nat \<Rightarrow> (fsys, fw_exit, u32 \<times> u32 \<times> u32) op" where
  "savecomp stk filename fdo uboot size_max fs =
     (case files fs filename of
        None \<Rightarrow> (Inl (CannotOpen filename), fs)
      | Some inp \<Rightarrow>
          if uboot \<and> \<not> is_uboot stk inp 0 then (Inl (NotUboot filename), fs)
          else
            let offset = word_of_nat (length (contents fs fdo)) :: u32;
                len = word_of_nat (length inp) :: u32
            in if unat len > size_max then (Inl (TooBig filename), fs)
               else (case readwrite fdo inp 0 (unat len) 0 fs of
                       ((r, chk), fs') \<Rightarrow>
                         if r \<noteq> 0 then (Inl (CopyError filename), fs')
                         else (Inr (offset, len, chk), fs')))"

section \<open>Headers to and from the tool's own record\<close>

definition set_header64 :: "my_control_header \<Rightarrow> control_header_64 \<Rightarrow> control_header_64" where
  "set_header64 myhd h = h\<lparr>
     h64_kernel_off := kernel_off myhd, h64_kernel_len := kernel_len myhd,
     h64_kernel_checksum := kernel_checksum myhd,
     h64_initramfs_off := initramfs_off myhd, h64_initramfs_len := initramfs_len myhd,
     h64_initramfs_checksum := initramfs_checksum myhd,
     h64_defaults_off := defaults_off myhd, h64_defaults_len := defaults_len myhd,
     h64_defaults_checksum := defaults_checksum myhd,
     h64_magic_num := signature (sig_at (sig_num myhd)),
     h64_product_id := product_id myhd, h64_custom_id := custom_id myhd,
     h64_model_id := model_id myhd, h64_sub_id := sub_id myhd,
     h64_NewVersion := NewVersion myhd,
     h64_reserved := replicate RESERVED64 0,
     h64_Next_offset := Next_offset myhd\<rparr>"

definition set_header128 :: "my_control_header \<Rightarrow> control_header_128 \<Rightarrow> control_header_128" where
  "set_header128 myhd h = h\<lparr>
     h128_kernel_off := kernel_off myhd, h128_kernel_len := kernel_len myhd,
     h128_kernel_checksum := kernel_checksum myhd,
     h128_initramfs_off := initramfs_off myhd, h128_initramfs_len := initramfs_len myhd,
     h128_initramfs_checksum := initramfs_checksum myhd,
     h128_sqimage_off := sqimage_off myhd, h128_sqimage_len := sqimage_len myhd,
     h128_sqimage_checksum := sqimage_checksum myhd,
     h128_defaults_off := defaults_off myhd, h128_defaults_len := defaults_len myhd,
     h128_defaults_checksum := defaults_checksum myhd,
     h128_magic_num := signature (sig_at (sig_num myhd)),
     h128_product_id := product_id myhd, h128_custom_id := custom_id myhd,
     h128_model_id := model_id myhd, h128_sub_id := sub_id myhd,
     h128_NewVersion := NewVersion myhd,
     h128_reserved := replicate RESERVED128 0,
     h128_Next_offset := Next_offset myhd\<rparr>"

text \<open>The stack garbage \<open>hd64\<close> and \<open>hd128\<close> start with is a parameter.\<close>

definition save_header ::
    "control_header_64 \<Rightarrow> control_header_128 \<Rightarrow> string \<Rightarrow> my_control_header \<Rightarrow> (fsys, fw_exit, unit) op" where
  "save_header g64 g128 fdo myhd fs =
     (if hd_type myhd = 64
      then (Inr (), write_start fdo (bytes_of_hd64 (set_header64 myhd g64)) fs)
      else if hd_type myhd = 128
      then (Inr (), write_start fdo (bytes_of_hd128 (set_header128 myhd g128)) fs)
      else (Inl BadHeaderType, fs))"

text \<open>\<open>size_ok\<close> returns 1 before any of its tests.\<close>

definition size_ok :: "byte list \<Rightarrow> my_control_header \<Rightarrow> int" where
  "size_ok inp myhd = 1"

definition get_info64 :: "control_header_64 \<Rightarrow> my_control_header \<Rightarrow> my_control_header" where
  "get_info64 h myhd = myhd\<lparr>
     product_id := h64_product_id h, custom_id := h64_custom_id h, model_id := h64_model_id h,
     sub_id := h64_sub_id h, NewVersion := h64_NewVersion h, hd_type := 64,
     kernel_off := h64_kernel_off h, kernel_len := h64_kernel_len h,
     kernel_checksum := h64_kernel_checksum h,
     initramfs_off := h64_initramfs_off h, initramfs_len := h64_initramfs_len h,
     initramfs_checksum := h64_initramfs_checksum h,
     defaults_off := h64_defaults_off h, defaults_len := h64_defaults_len h,
     defaults_checksum := h64_defaults_checksum h,
     Next_offset := h64_Next_offset h\<rparr>"

definition get_info128 :: "control_header_128 \<Rightarrow> my_control_header \<Rightarrow> my_control_header" where
  "get_info128 h myhd = myhd\<lparr>
     product_id := h128_product_id h, custom_id := h128_custom_id h, model_id := h128_model_id h,
     sub_id := h128_sub_id h, NewVersion := h128_NewVersion h, hd_type := 128,
     kernel_off := h128_kernel_off h, kernel_len := h128_kernel_len h,
     kernel_checksum := h128_kernel_checksum h,
     initramfs_off := h128_initramfs_off h, initramfs_len := h128_initramfs_len h,
     initramfs_checksum := h128_initramfs_checksum h,
     sqimage_off := h128_sqimage_off h, sqimage_len := h128_sqimage_len h,
     sqimage_checksum := h128_sqimage_checksum h,
     defaults_off := h128_defaults_off h, defaults_len := h128_defaults_len h,
     defaults_checksum := h128_defaults_checksum h,
     Next_offset := h128_Next_offset h\<rparr>"

fun cmp_sig_from :: "sig_t list \<Rightarrow> byte list \<Rightarrow> int" where
  "cmp_sig_from [] t = -1"
| "cmp_sig_from (s # ss) t = (if signature s = t then idx s else cmp_sig_from ss t)"

definition cmp_sig :: "byte list \<Rightarrow> int" where
  "cmp_sig t = cmp_sig_from signatures t"

definition check_sig :: "byte list \<Rightarrow> my_control_header \<Rightarrow> int \<times> my_control_header" where
  "check_sig bs myhd =
     (let hd64 = hd64_of_bytes bs; hd128 = hd128_of_bytes bs; t = cmp_sig (h64_magic_num hd64)
      in if t \<noteq> -1 then (t, (get_info64 hd64 myhd)\<lparr>sig_num := t\<rparr>)
         else let t = cmp_sig (h128_magic_num hd128)
              in if t \<noteq> -1 then (t, (get_info128 hd128 myhd)\<lparr>sig_num := t\<rparr>)
                 else (-1, myhd))"

section \<open>The commands\<close>

record fw_args =
  kernel :: "string option"
  initramfs :: "string option"
  sqimage :: "string option"
  defaults :: "string option"
  fw :: "string option"
  product :: byte
  custom :: byte
  model :: byte
  sub :: byte
  version :: byte
  fw_type :: byte
  quiet :: bool

definition fw_args0 :: fw_args where
  "fw_args0 = \<lparr>kernel = None, initramfs = None, sqimage = None, defaults = None, fw = None,
     product = 1, custom = 2, model = 3, sub = 4, version = 5, fw_type = 0, quiet = False\<rparr>"

text \<open>What the stack holds where the code leaves it uninitialised.\<close>

record stack_junk =
  jk_my :: my_control_header
  jk_64 :: control_header_64
  jk_128 :: control_header_128
  jk_bytes :: "nat \<Rightarrow> byte"

text \<open>A component file that was not given is an empty component at the end of the file.\<close>

definition savecomp_or_empty ::
    "(nat \<Rightarrow> byte) \<Rightarrow> string option \<Rightarrow> string \<Rightarrow> nat \<Rightarrow> (fsys, fw_exit, u32 \<times> u32 \<times> u32) op" where
  "savecomp_or_empty stk name fdo size_max fs =
     (case name of
        Some f \<Rightarrow> savecomp stk f fdo False size_max fs
      | None \<Rightarrow> (Inr (word_of_nat (length (contents fs fdo)), 0, 0), fs))"

definition merge :: "stack_junk \<Rightarrow> fw_args \<Rightarrow> (fsys, fw_exit, int) op" where
  "merge jk a fs =
     (case (kernel a, initramfs a, fw a) of
        (Some k, Some i, Some f) \<Rightarrow>
          if int (unat (fw_type a)) \<ge> int nsig then (Inl Usage, fs)
          else
            let sg = sig_at (int (unat (fw_type a)));
                hd_size = sig_size sg;
                myhd = (jk_my jk)\<lparr>sig_num := int (unat (fw_type a)), hd_type := int hd_size\<rparr>
            in case open_trunc f fs of
                 None \<Rightarrow> (Inl (CannotOpen f), fs)
               | Some fs1 \<Rightarrow>
                   let fs2 = write_start f (map (jk_bytes jk) [0..<hd_size]) fs1
                   in bindE (savecomp (jk_bytes jk) k f True (kernel_max sg)) (\<lambda>(ko, kl, kc).
                      bindE (savecomp (jk_bytes jk) i f True (initramfs_max sg)) (\<lambda>(io, il, ic).
                      bindE (if hd_size = 128
                             then savecomp_or_empty (jk_bytes jk) (sqimage a) f (sqimage_max sg)
                             else retE (sqimage_off myhd, sqimage_len myhd, sqimage_checksum myhd))
                        (\<lambda>(so, sl, sc).
                      bindE (savecomp_or_empty (jk_bytes jk) (defaults a) f (defaults_max sg))
                        (\<lambda>(d_o, dl, dc).
                      bindE (save_header (jk_64 jk) (jk_128 jk) f (myhd\<lparr>
                          kernel_off := ko, kernel_len := kl, kernel_checksum := kc,
                          initramfs_off := io, initramfs_len := il, initramfs_checksum := ic,
                          sqimage_off := so, sqimage_len := sl, sqimage_checksum := sc,
                          defaults_off := d_o, defaults_len := dl, defaults_checksum := dc,
                          product_id := product a, custom_id := custom a, model_id := model a,
                          sub_id := sub a, NewVersion := version a, Next_offset := 0\<rparr>))
                        (\<lambda>_. retE 0))))) fs2
      | _ \<Rightarrow> (Inl Usage, fs))"

text \<open>
  \<open>open_read\<close> returns the descriptor, here the file's name, the header it read and the value it
  leaves in the global \<open>type\<close>, an unsigned char: -1 becomes 255.
\<close>

definition open_read :: "stack_junk \<Rightarrow> fw_args \<Rightarrow> (fsys, fw_exit, string \<times> my_control_header \<times> byte) op" where
  "open_read jk a fs =
     (case fw a of
        None \<Rightarrow> (Inl Usage, fs)
      | Some f \<Rightarrow>
          (case files fs f of
             None \<Rightarrow> (Inl (CannotOpen f), fs)
           | Some inp \<Rightarrow>
               if length (take 128 inp) \<noteq> 128 then (Inl ShortFile, fs)
               else case check_sig (take 128 inp) (jk_my jk) of
                      (t, myhd) \<Rightarrow>
                        if (word_of_int t :: byte) = 255 then (Inl UnknownSignature, fs)
                        else (Inr (f, myhd, word_of_int t), fs)))"

definition info :: "stack_junk \<Rightarrow> fw_args \<Rightarrow> (fsys, fw_exit, int) op" where
  "info jk a = (if fw a = None then failE Usage else bindE (open_read jk a) (\<lambda>_. retE 0))"

definition split_name :: "string option \<Rightarrow> string \<Rightarrow> string" where
  "split_name n d = (case n of Some f \<Rightarrow> f | None \<Rightarrow> d)"

definition split :: "stack_junk \<Rightarrow> fw_args \<Rightarrow> (fsys, fw_exit, int) op" where
  "split jk a =
     (let k = split_name (kernel a) ''kernel'';
          i = split_name (initramfs a) ''initramfs'';
          s = split_name (sqimage a) ''sqimage'';
          d = split_name (defaults a) ''defaults''
      in if fw a = None then failE Usage
         else bindE (open_read jk a) (\<lambda>(f, myhd, t) fs.
           let inp = contents fs f
           in if size_ok inp myhd = 0 then (Inl SizeError, fs)
              else if \<not> is_uboot (jk_bytes jk) inp (unat (kernel_off myhd)) \<or>
                      \<not> is_uboot (jk_bytes jk) inp (unat (initramfs_off myhd))
              then (Inl (NotUboot f), fs)
              else bindE (savefile k f (unat (kernel_off myhd)) (unat (kernel_len myhd)) (kernel_checksum myhd)) (\<lambda>_.
                   bindE (savefile i f (unat (initramfs_off myhd)) (unat (initramfs_len myhd)) (initramfs_checksum myhd)) (\<lambda>_.
                   bindE (if hd_type myhd = 128
                          then savefile s f (unat (sqimage_off myhd)) (unat (sqimage_len myhd)) (sqimage_checksum myhd)
                          else retE 0) (\<lambda>_.
                   bindE (savefile d f (unat (defaults_off myhd)) (unat (defaults_len myhd)) (defaults_checksum myhd)) (\<lambda>_.
                   retE 0)))) fs))"

text \<open>
  \<open>main\<close>: \<open>opts\<close> are the options as \<open>getopt\<close> returns them, with their arguments; a character
  outside the option string comes back as a question mark. \<open>rest\<close> are the other arguments.
\<close>

datatype oper = NONE | SPLIT | MERGE | INFO

fun main_opts :: "oper \<Rightarrow> fw_args \<Rightarrow> (char \<times> string) list \<Rightarrow> (oper \<times> fw_args) option" where
  "main_opts oper a [] = Some (oper, a)"
| "main_opts oper a ((c, arg) # opts) =
     (if c = CHR ''s'' then main_opts SPLIT a opts
      else if c = CHR ''m'' then main_opts MERGE a opts
      else if c = CHR ''f'' then main_opts INFO a opts
      else if c = CHR ''q'' then main_opts oper (a\<lparr>quiet := True\<rparr>) opts
      else if c = CHR ''k'' then main_opts oper (a\<lparr>kernel := Some arg\<rparr>) opts
      else if c = CHR ''i'' then main_opts oper (a\<lparr>initramfs := Some arg\<rparr>) opts
      else if c = CHR ''a'' then main_opts oper (a\<lparr>sqimage := Some arg\<rparr>) opts
      else if c = CHR ''d'' then main_opts oper (a\<lparr>defaults := Some arg\<rparr>) opts
      else if c = CHR ''p'' then main_opts oper (a\<lparr>product := word_of_int (atoi arg)\<rparr>) opts
      else if c = CHR ''c'' then main_opts oper (a\<lparr>custom := word_of_int (atoi arg)\<rparr>) opts
      else if c = CHR ''l'' then main_opts oper (a\<lparr>model := word_of_int (atoi arg)\<rparr>) opts
      else if c = CHR ''u'' then main_opts oper (a\<lparr>sub := word_of_int (atoi arg)\<rparr>) opts
      else if c = CHR ''v'' then main_opts oper (a\<lparr>version := word_of_int (atoi arg)\<rparr>) opts
      else if c = CHR ''t'' then main_opts oper (a\<lparr>fw_type := word_of_int (atoi arg)\<rparr>) opts
      else None)"

definition fw_main :: "stack_junk \<Rightarrow> (char \<times> string) list \<Rightarrow> string list \<Rightarrow> (fsys, fw_exit, int) op" where
  "fw_main jk opts rest =
     (case (main_opts NONE fw_args0 opts, rest) of
        (Some (oper, a), f # _) \<Rightarrow>
          (let a = a\<lparr>fw := Some f\<rparr>
           in case oper of
                SPLIT \<Rightarrow> split jk a
              | MERGE \<Rightarrow> merge jk a
              | INFO \<Rightarrow> info jk a
              | NONE \<Rightarrow> failE Usage)
      | _ \<Rightarrow> failE Usage)"

section \<open>What is copied\<close>

text \<open>
  The data \<open>readwrite\<close> produces for \<open>sz\<close> bytes of an input of \<open>n\<close> bytes: up to the end of
  the last block that holds input, and never more than \<open>sz\<close>; zero bytes fill the gap.
\<close>

definition copied_len :: "nat \<Rightarrow> nat \<Rightarrow> nat" where
  "copied_len n sz = min sz ((n + BLOCK_SIZE - 1) div BLOCK_SIZE * BLOCK_SIZE)"

definition copied :: "byte list \<Rightarrow> nat \<Rightarrow> byte list" where
  "copied inp sz =
     take (copied_len (length inp) sz) (inp @ replicate (copied_len (length inp) sz) 0)"

lemma length_copied [simp, layout_simps]: "length (copied inp sz) = copied_len (length inp) sz"
  by (simp add: copied_def)

lemma BLOCK_SIZE_pos [simp]: "0 < BLOCK_SIZE"
  by (simp add: BLOCK_SIZE_def)

lemma round_up_le: "n \<le> (n + BLOCK_SIZE - 1) div BLOCK_SIZE * BLOCK_SIZE"
  using div_mult_mod_eq [of "n + BLOCK_SIZE - 1" BLOCK_SIZE]
    mod_less_divisor [of BLOCK_SIZE "n + BLOCK_SIZE - 1"] BLOCK_SIZE_pos by linarith

lemma copied_full: "sz \<le> length inp \<Longrightarrow> copied inp sz = take sz inp"
  using round_up_le [of "length inp"] by (simp add: copied_def copied_len_def min_absorb1)

lemma block_start_copied:
  assumes "BLOCK_SIZE dvd i" and "i < n" and "i < sz"
  shows "i + min BLOCK_SIZE (sz - i) \<le> copied_len n sz"
proof -
  from assms(1) obtain q where q: "i = BLOCK_SIZE * q" ..
  have "(q + 1) * BLOCK_SIZE \<le> n + BLOCK_SIZE - 1"
    using assms(2) BLOCK_SIZE_pos by (simp add: q algebra_simps)
  then have "q + 1 \<le> (n + BLOCK_SIZE - 1) div BLOCK_SIZE"
    by (simp add: less_eq_div_iff_mult_less_eq)
  then have "(q + 1) * BLOCK_SIZE \<le> (n + BLOCK_SIZE - 1) div BLOCK_SIZE * BLOCK_SIZE"
    by (rule mult_le_mono1)
  then have "i + BLOCK_SIZE \<le> (n + BLOCK_SIZE - 1) div BLOCK_SIZE * BLOCK_SIZE"
    unfolding q add_mult_distrib mult_1 mult.commute [of q] .
  with assms(3) show ?thesis unfolding copied_len_def by linarith
qed

lemma block_end_copied:
  assumes "BLOCK_SIZE dvd i" and "n \<le> i" shows "copied_len n sz \<le> i"
proof -
  from assms(1) obtain q where q: "i = BLOCK_SIZE * q" ..
  have "n + BLOCK_SIZE - 1 < (q + 1) * BLOCK_SIZE"
    using assms(2) BLOCK_SIZE_pos unfolding q add_mult_distrib mult_1 mult.commute [of q]
    by linarith
  then have "(n + BLOCK_SIZE - 1) div BLOCK_SIZE < q + 1"
    by (rule less_mult_imp_div_less)
  then have "(n + BLOCK_SIZE - 1) div BLOCK_SIZE \<le> q" by simp
  then have "(n + BLOCK_SIZE - 1) div BLOCK_SIZE * BLOCK_SIZE \<le> i"
    using mult_le_mono1 [of _ q BLOCK_SIZE] by (simp add: q mult.commute)
  then show ?thesis by (simp add: copied_len_def)
qed

text \<open>One block of the loop is the block of the data.\<close>

lemma block_of_copied:
  assumes "i < length inp" and "i + k \<le> copied_len (length inp) sz"
  shows "take k (drop i inp) @ replicate (k - length (take k (drop i inp))) 0 = take k (drop i (copied inp sz))"
proof -
  let ?m = "copied_len (length inp) sz"
  have "take k (drop i (copied inp sz)) = take k (drop i (inp @ replicate ?m 0))"
  proof -
    have "k \<le> ?m - i" using assms(2) by simp
    then show ?thesis
      unfolding copied_def drop_take take_take by (simp only: min_absorb1)
  qed
  also have "\<dots> = take k (drop i inp) @ take (k - (length inp - i)) (replicate ?m 0)"
    using assms(1) by simp
  also have "take (k - (length inp - i)) (replicate ?m (0::byte)) = replicate (k - (length inp - i)) 0"
    using assms by (simp add: min_absorb1)
  also have "k - (length inp - i) = k - length (take k (drop i inp))"
    by auto
  finally show ?thesis by simp
qed

definition with_data :: "string \<Rightarrow> byte list \<Rightarrow> fsys \<Rightarrow> fsys" where
  "with_data f bs fs = fs\<lparr>files := (files fs)(f \<mapsto> contents fs f @ bs)\<rparr>"

lemma with_data_simps [simp]:
  "contents (with_data f bs fs) f = contents fs f @ bs"
  "files (with_data f bs fs) f = Some (contents fs f @ bs)"
  "g \<noteq> f \<Longrightarrow> files (with_data f bs fs) g = files fs g"
  "g \<noteq> f \<Longrightarrow> contents (with_data f bs fs) g = contents fs g"
  "cap (with_data f bs fs) = cap fs" "denied (with_data f bs fs) = denied fs"
  "with_data f bs' (with_data f bs fs) = with_data f (bs @ bs') fs"
  by (simp_all add: with_data_def contents_def)

lemma with_data_Nil: "files fs f \<noteq> None \<Longrightarrow> with_data f [] fs = fs"
  by (auto simp: with_data_def contents_def fun_upd_idem)

lemma write_end_data:
  "length (contents fs f) + length bs \<le> cap fs \<Longrightarrow> write_end f bs fs = Some (with_data f bs fs)"
  by (simp add: write_end_def with_data_def)

lemma rw_loop_copies:
  assumes "BLOCK_SIZE dvd i \<or> i = sz" and "i \<le> copied_len (length inp) sz"
    and "length (contents fs fo) + (copied_len (length inp) sz - i) \<le> cap fs"
    and "files fs fo \<noteq> None"
  shows "rw_loop fo inp sz i l fs =
    (Some (l XOR xor_list (u32s_of (drop i (copied inp sz)))),
     with_data fo (drop i (copied inp sz)) fs)"
  using assms
proof (induction fo inp sz i l fs rule: rw_loop.induct)
  case (1 fo inp sz i l fs)
  let ?m = "copied_len (length inp) sz" and ?k = "min BLOCK_SIZE (sz - i)"
  let ?D = "copied inp sz" and ?got = "take ?k (drop i inp)"
  have kk: "(if BLOCK_SIZE < sz - i then BLOCK_SIZE else sz - i) = ?k" by auto
  have msz: "?m \<le> sz" by (simp add: copied_len_def)
  show ?case
  proof (cases "i < sz \<and> i < length inp")
    case False
    have "?m \<le> i"
    proof (cases "i < sz")
      case True
      with False 1(2) show ?thesis using block_end_copied by auto
    qed (use msz in simp)
    then have d: "drop i ?D = []" by simp
    have "rw_loop fo inp sz i l fs = (Some l, fs)"
      using False by (subst rw_loop.simps) (auto simp: Let_def BLOCK_SIZE_def)
    with d show ?thesis using 1(5) by (simp add: with_data_Nil)
  next
    case True
    then have dvd: "BLOCK_SIZE dvd i" and lt: "i < sz" and li: "i < length inp"
      using 1(2) by auto
    have ik: "i + ?k \<le> ?m" by (rule block_start_copied [OF dvd li lt])
    let ?buf = "?got @ replicate (?k - length ?got) 0"
    have buf: "?buf = take ?k (drop i ?D)" by (rule block_of_copied [OF li ik])
    have kpos: "0 < ?k" using lt by (simp add: BLOCK_SIZE_def)
    then have got: "length ?got \<noteq> 0" using li by auto
    have "length ?got \<le> ?k" unfolding length_take by (rule min.cobounded2)
    then have lb: "length ?buf = ?k" unfolding length_append length_replicate by (rule le_add_diff_inverse)
    have w: "write_end fo ?buf fs = Some (with_data fo ?buf fs)"
    proof (rule write_end_data)
      have "length (contents fs fo) + ?k \<le> cap fs" using 1(4) ik by linarith
      then show "length (contents fs fo) + length ?buf \<le> cap fs" unfolding lb .
    qed
    have step: "rw_loop fo inp sz i l fs =
       rw_loop fo inp sz (i + ?k) (foldl (XOR) l (u32s_of ?buf)) (with_data fo ?buf fs)"
      using lt got w by (subst rw_loop.simps) (simp only: Let_def kk if_True if_False option.case)
    have nxt: "BLOCK_SIZE dvd i + ?k \<or> i + ?k = sz"
      using dvd lt by (auto simp: min_def)
    have rest: "drop i ?D = ?buf @ drop (i + ?k) ?D"
      unfolding buf by (metis add.commute append_take_drop_id drop_drop)
    have mod4: "length ?buf mod 4 = 0 \<or> drop (i + ?k) ?D = []"
      using lb msz by (auto simp: min_def BLOCK_SIZE_def)
    have words: "u32s_of (drop i ?D) = u32s_of ?buf @ u32s_of (drop (i + ?k) ?D)"
      unfolding rest using mod4
    proof
      assume "length ?buf mod 4 = 0" then show "u32s_of (?buf @ drop (i + ?k) ?D) = u32s_of ?buf @ u32s_of (drop (i + ?k) ?D)"
        by (rule u32s_of_append)
    next
      assume "drop (i + ?k) ?D = []" then show "u32s_of (?buf @ drop (i + ?k) ?D) = u32s_of ?buf @ u32s_of (drop (i + ?k) ?D)"
        by (simp only: append_Nil2 u32s_of.simps)
    qed
    have "rw_loop fo inp sz (i + ?k) (foldl (XOR) l (u32s_of ?buf)) (with_data fo ?buf fs) =
       (Some (foldl (XOR) l (u32s_of ?buf) XOR xor_list (u32s_of (drop (i + ?k) ?D))),
        with_data fo (drop (i + ?k) ?D) (with_data fo ?buf fs))"
      using 1(4) ik lb
      by (intro "1.IH" [OF lt kk [symmetric] refl refl got refl w nxt ik]) simp_all
    then show ?thesis
      unfolding step words
      by (simp only: rest with_data_simps foldl_xor xor_list_append xor.assoc)
  qed
qed

section \<open>Header layout\<close>

lemma u32_at_here [simp, layout_simps]: "u32_at (u32_bytes a @ r) 0 = a"
  by (simp add: u32_at_def)

lemma u32_at_append [simp, layout_simps]: "length xs \<le> n \<Longrightarrow> u32_at (xs @ r) n = u32_at r (n - length xs)"
  by (simp add: u32_at_def)

lemma u32_at_Cons [simp, layout_simps]: "0 < n \<Longrightarrow> u32_at (x # r) n = u32_at r (n - 1)"
  by (cases n) (simp_all add: u32_at_def)

lemma u32_at_last [simp]: "u32_at (u32_bytes a) 0 = a"
  using u32_at_here [of a "[]"] by simp

definition wf_hd64 :: "control_header_64 \<Rightarrow> bool" where
  "wf_hd64 h \<longleftrightarrow> length (h64_magic_num h) = SIG_LEN \<and> length (h64_reserved h) = RESERVED64"

definition wf_hd128 :: "control_header_128 \<Rightarrow> bool" where
  "wf_hd128 h \<longleftrightarrow> length (h128_magic_num h) = SIG_LEN \<and> length (h128_reserved h) = RESERVED128"

lemma length_hd64: "wf_hd64 h \<Longrightarrow> length (bytes_of_hd64 h) = 64"
  by (simp add: wf_hd64_def bytes_of_hd64_def SIG_LEN_def RESERVED64_def)

lemma length_hd128: "wf_hd128 h \<Longrightarrow> length (bytes_of_hd128 h) = 128"
  by (simp add: wf_hd128_def bytes_of_hd128_def SIG_LEN_def RESERVED128_def)

lemma nth_skip: "length xs \<le> n \<Longrightarrow> (xs @ ys) ! n = ys ! (n - length xs)"
  by (simp add: nth_append)

lemma hd64_roundtrip: "wf_hd64 h \<Longrightarrow> hd64_of_bytes (bytes_of_hd64 h @ r) = h"
  unfolding wf_hd64_def SIG_LEN_def RESERVED64_def
  by (cases h) (auto simp: bytes_of_hd64_def hd64_of_bytes_def SIG_LEN_def RESERVED64_def nth_skip)

lemma hd128_roundtrip: "wf_hd128 h \<Longrightarrow> hd128_of_bytes (bytes_of_hd128 h @ r) = h"
  unfolding wf_hd128_def SIG_LEN_def RESERVED128_def
  by (cases h) (auto simp: bytes_of_hd128_def hd128_of_bytes_def SIG_LEN_def RESERVED128_def nth_skip)

lemma nsig_eq: "nsig = 9"
  by (simp add: nsig_def signatures_def)

lemma cmp_sig_each:
  assumes "i < nsig" shows "cmp_sig (signature (signatures ! i)) = int i"
proof -
  have "list_all (\<lambda>i. cmp_sig (signature (signatures ! i)) = int i) [0..<9]"
    by (simp add: cmp_sig_def signatures_def bytes_of_string_def upt_conv_Cons)
  with assms show ?thesis by (simp add: list_all_iff nsig_eq)
qed

lemma signature_shape:
  assumes "i < nsig"
  shows "length (signature (signatures ! i)) = SIG_LEN"
    and "sig_size (signatures ! i) = 64 \<or> sig_size (signatures ! i) = 128"
    and "kernel_max (signatures ! i) < 2 ^ 32" "initramfs_max (signatures ! i) < 2 ^ 32"
    "sqimage_max (signatures ! i) < 2 ^ 32" "defaults_max (signatures ! i) < 2 ^ 32"
proof -
  have "list_all (\<lambda>s. length (signature s) = SIG_LEN \<and> (sig_size s = 64 \<or> sig_size s = 128) \<and>
     kernel_max s < 2 ^ 32 \<and> initramfs_max s < 2 ^ 32 \<and> sqimage_max s < 2 ^ 32 \<and> defaults_max s < 2 ^ 32)
     signatures"
    by (simp add: signatures_def bytes_of_string_def SIG_LEN_def)
  moreover have "signatures ! i \<in> set signatures"
    using assms by (simp add: nsig_def)
  ultimately show "length (signature (signatures ! i)) = SIG_LEN"
    and "sig_size (signatures ! i) = 64 \<or> sig_size (signatures ! i) = 128"
    and "kernel_max (signatures ! i) < 2 ^ 32" "initramfs_max (signatures ! i) < 2 ^ 32"
    "sqimage_max (signatures ! i) < 2 ^ 32" "defaults_max (signatures ! i) < 2 ^ 32"
    by (auto simp: list_all_iff)
qed

section \<open>Merging and splitting\<close>

lemma copied_all [simp]: "copied inp (length inp) = inp"
  by (simp add: copied_full)

lemma copied_len_le: "copied_len n sz \<le> sz"
  by (simp add: copied_len_def)

lemma unat_u32_small: "n < 2 ^ 32 \<Longrightarrow> unat (word_of_nat n :: u32) = n"
  by (simp add: unat_of_nat)

text \<open>The general form of \<open>readwrite\<close>: what it stores, and its verdict on the checksum.\<close>

lemma readwrite_result:
  assumes "length (contents fs fo) + copied_len (length inp - off) sz \<le> cap fs"
    and "files fs fo \<noteq> None"
  shows "readwrite fo inp off sz chk fs =
    (let D = copied (drop off inp) sz; l = xor_list (u32s_of D)
     in (if chk = 0 then (0, l) else if l \<noteq> chk then (-1, chk) else (0, chk), with_data fo D fs))"
  using rw_loop_copies [of 0 sz "drop off inp" fs fo 0] assms
  by (simp add: readwrite_def Let_def)

lemma savecomp_ok:
  assumes "files fs f = Some inp" and "ub \<longrightarrow> take 4 inp = uboot_sig" and "length inp \<le> mx"
    and "mx < 2 ^ 32" and "files fs fdo \<noteq> None"
    and "length (contents fs fdo) + length inp \<le> cap fs"
  shows "savecomp stk f fdo ub mx fs =
    (Inr (word_of_nat (length (contents fs fdo)), word_of_nat (length inp), xor_list (u32s_of inp)),
     with_data fdo inp fs)"
proof -
  have u: "ub \<longrightarrow> is_uboot stk inp 0"
  proof
    assume ub
    with assms(2) have t: "take 4 inp = uboot_sig" by simp
    then have "length (take 4 inp) = 4" by (simp add: uboot_sig_def)
    with t show "is_uboot stk inp 0" by (simp add: is_uboot_def Let_def)
  qed
  have l: "unat (word_of_nat (length inp) :: u32) = length inp"
    using assms by (intro unat_u32_small) simp
  have rw: "readwrite fdo inp 0 (length inp) 0 fs = ((0, xor_list (u32s_of inp)), with_data fdo inp fs)"
    using assms copied_len_le [of "length inp" "length inp"]
    by (subst readwrite_result) (simp_all add: Let_def)
  show ?thesis using u assms(1,3) by (simp add: savecomp_def l rw Let_def)
qed

lemma savefile_ok:
  assumes "f \<noteq> g" and "\<not> denied fs f" and "off + n \<le> length (contents fs g)" and "n \<le> cap fs"
    and "chk = xor_list (u32s_of (take n (drop off (contents fs g))))"
  shows "savefile f g off n chk fs =
    (Inr chk, fs\<lparr>files := (files fs)(f \<mapsto> take n (drop off (contents fs g)))\<rparr>)"
proof -
  let ?fs = "fs\<lparr>files := (files fs)(f \<mapsto> [])\<rparr>"
  have o: "open_trunc f fs = Some ?fs" using assms(2) by (simp add: open_trunc_def)
  have g: "contents ?fs g = contents fs g" using assms(1) by (simp add: contents_def)
  have e: "contents ?fs f = []" by (simp add: contents_def)
  have D: "copied (drop off (contents fs g)) n = take n (drop off (contents fs g))"
    using assms(3) by (simp add: copied_full)
  have "copied_len (length (contents fs g) - off) n \<le> cap fs"
    using copied_len_le [of "length (contents fs g) - off" n] assms(4) by simp
  then have "readwrite f (contents fs g) off n chk ?fs =
     ((0, chk), with_data f (take n (drop off (contents fs g))) ?fs)"
    by (subst readwrite_result) (simp_all add: Let_def D assms(5) e)
  then show ?thesis using o g by (simp add: savefile_def with_data_def e)
qed

text \<open>The bytes of a component that may be missing, and when its file can be merged.\<close>

definition comp_bytes :: "fsys \<Rightarrow> string option \<Rightarrow> byte list" where
  "comp_bytes fs name = (case name of None \<Rightarrow> [] | Some f \<Rightarrow> contents fs f)"

definition comp_ok :: "fsys \<Rightarrow> string option \<Rightarrow> nat \<Rightarrow> bool" where
  "comp_ok fs name mx \<longleftrightarrow>
     (case name of None \<Rightarrow> True | Some f \<Rightarrow> files fs f \<noteq> None \<and> length (contents fs f) \<le> mx)"

lemma savecomp_or_empty_ok:
  assumes "comp_ok fs name mx" and "mx < 2 ^ 32" and "files fs fdo \<noteq> None"
    and "length (contents fs fdo) + length (comp_bytes fs name) \<le> cap fs"
  shows "savecomp_or_empty stk name fdo mx fs =
    (Inr (word_of_nat (length (contents fs fdo)), word_of_nat (length (comp_bytes fs name)),
          xor_list (u32s_of (comp_bytes fs name))),
     with_data fdo (comp_bytes fs name) fs)"
proof (cases name)
  case None
  with assms(3) show ?thesis by (simp add: savecomp_or_empty_def comp_bytes_def with_data_Nil)
next
  case (Some f)
  with assms(1) obtain inp where "files fs f = Some inp" "length inp \<le> mx" "contents fs f = inp"
    by (auto simp: comp_ok_def contents_def)
  with Some assms(2-4) show ?thesis
    by (simp add: savecomp_or_empty_def comp_bytes_def savecomp_ok)
qed

text \<open>The header \<open>merge\<close> writes, and the file it leaves.\<close>

definition merged_hd ::
    "stack_junk \<Rightarrow> fw_args \<Rightarrow> byte list \<Rightarrow> byte list \<Rightarrow> byte list \<Rightarrow> byte list \<Rightarrow> my_control_header" where
  "merged_hd jk a kb ib sb db =
     (let sg = sig_at (int (unat (fw_type a))); o1 = sig_size sg; o2 = o1 + length kb; o3 = o2 + length ib;
          big = (sig_size sg = 128); o4 = (if big then o3 + length sb else o3)
      in (jk_my jk)\<lparr>
        sig_num := int (unat (fw_type a)), hd_type := int (sig_size sg),
        kernel_off := word_of_nat o1, kernel_len := word_of_nat (length kb),
        kernel_checksum := xor_list (u32s_of kb),
        initramfs_off := word_of_nat o2, initramfs_len := word_of_nat (length ib),
        initramfs_checksum := xor_list (u32s_of ib),
        sqimage_off := (if big then word_of_nat o3 else sqimage_off (jk_my jk)),
        sqimage_len := (if big then word_of_nat (length sb) else sqimage_len (jk_my jk)),
        sqimage_checksum := (if big then xor_list (u32s_of sb) else sqimage_checksum (jk_my jk)),
        defaults_off := word_of_nat o4, defaults_len := word_of_nat (length db),
        defaults_checksum := xor_list (u32s_of db),
        product_id := product a, custom_id := custom a, model_id := model a,
        sub_id := sub a, NewVersion := version a, Next_offset := 0\<rparr>)"

definition header_bytes :: "stack_junk \<Rightarrow> my_control_header \<Rightarrow> byte list" where
  "header_bytes jk m =
     (if hd_type m = 64 then bytes_of_hd64 (set_header64 m (jk_64 jk))
      else bytes_of_hd128 (set_header128 m (jk_128 jk)))"

definition merged_image ::
    "stack_junk \<Rightarrow> fw_args \<Rightarrow> byte list \<Rightarrow> byte list \<Rightarrow> byte list \<Rightarrow> byte list \<Rightarrow> byte list" where
  "merged_image jk a kb ib sb db =
     header_bytes jk (merged_hd jk a kb ib sb db) @ kb @ ib @
     (if sig_size (sig_at (int (unat (fw_type a)))) = 128 then sb else []) @ db"

lemma sig_at_in: "n < nsig \<Longrightarrow> sig_at (int n) = signatures ! n"
  by (simp add: sig_at_def)

lemma wf_set_header64: "sig_num m = int n \<Longrightarrow> n < nsig \<Longrightarrow> wf_hd64 (set_header64 m g)"
  by (simp add: wf_hd64_def set_header64_def sig_at_in signature_shape)

lemma wf_set_header128: "sig_num m = int n \<Longrightarrow> n < nsig \<Longrightarrow> wf_hd128 (set_header128 m g)"
  by (simp add: wf_hd128_def set_header128_def sig_at_in signature_shape)

lemma length_header_bytes:
  assumes "sig_num m = int n" "n < nsig" "hd_type m = int (sig_size (signatures ! n))"
  shows "length (header_bytes jk m) = sig_size (signatures ! n)"
  using signature_shape(2) [OF assms(2)] assms
  by (auto simp: header_bytes_def length_hd64 length_hd128 wf_set_header64 wf_set_header128)

text \<open>What has to hold for \<open>merge\<close> to go through: the files are there and within the limits.\<close>

definition merge_ready :: "fw_args \<Rightarrow> fsys \<Rightarrow> bool" where
  "merge_ready a fs \<longleftrightarrow>
     (case (kernel a, initramfs a, fw a) of
        (Some k, Some i, Some f) \<Rightarrow>
          unat (fw_type a) < nsig \<and> \<not> denied fs f \<and>
          (let sg = sig_at (int (unat (fw_type a))) in
             f \<notin> {k, i} \<and> sqimage a \<noteq> Some f \<and> defaults a \<noteq> Some f \<and>
             files fs k \<noteq> None \<and> files fs i \<noteq> None \<and>
             take 4 (contents fs k) = uboot_sig \<and> take 4 (contents fs i) = uboot_sig \<and>
             length (contents fs k) \<le> kernel_max sg \<and> length (contents fs i) \<le> initramfs_max sg \<and>
             (sig_size sg = 128 \<longrightarrow> comp_ok fs (sqimage a) (sqimage_max sg)) \<and>
             comp_ok fs (defaults a) (defaults_max sg) \<and>
             sig_size sg + length (contents fs k) + length (contents fs i) +
               length (comp_bytes fs (sqimage a)) + length (comp_bytes fs (defaults a)) \<le> cap fs)
      | _ \<Rightarrow> False)"

lemma comp_bytes_with_data [simp]:
  "nm \<noteq> Some f \<Longrightarrow> comp_bytes (with_data f bs fs) nm = comp_bytes fs nm"
  "nm \<noteq> Some f \<Longrightarrow> comp_ok (with_data f bs fs) nm mx = comp_ok fs nm mx"
  by (cases nm; simp add: comp_bytes_def comp_ok_def)+

lemma save_header_ok:
  assumes "sig_num m = int n" "n < nsig" "hd_type m = int (sig_size (signatures ! n))"
    and "contents fs f = old @ rest" "length old = sig_size (signatures ! n)"
    and "sig_size (signatures ! n) \<le> cap fs"
  shows "save_header (jk_64 jk) (jk_128 jk) f m fs =
    (Inr (), fs\<lparr>files := (files fs)(f \<mapsto> header_bytes jk m @ rest)\<rparr>)"
proof -
  have l: "length (header_bytes jk m) = length old"
    using length_header_bytes assms by simp
  have w: "write_start f (header_bytes jk m) fs = fs\<lparr>files := (files fs)(f \<mapsto> header_bytes jk m @ rest)\<rparr>"
    using assms l by (simp add: write_start_def)
  have "hd_type m = 64 \<or> hd_type m = 128"
    using signature_shape(2) [OF assms(2)] assms(3) by auto
  then show ?thesis
    using w by (auto simp: save_header_def header_bytes_def)
qed


lemma merge_ok:
  assumes ready: "merge_ready a fs" and k: "kernel a = Some k" and i: "initramfs a = Some i"
    and f: "fw a = Some f"
  shows "merge jk a fs = (Inr 0, fs\<lparr>files := (files fs)(f \<mapsto>
    merged_image jk a (contents fs k) (contents fs i) (comp_bytes fs (sqimage a)) (comp_bytes fs (defaults a)))\<rparr>)"
proof -
  let ?n = "unat (fw_type a)" and ?sg = "signatures ! unat (fw_type a)"
  let ?kb = "contents fs k" and ?ib = "contents fs i"
  let ?sb = "comp_bytes fs (sqimage a)" and ?db = "comp_bytes fs (defaults a)"
  let ?sb' = "if sig_size ?sg = 128 then ?sb else []"
  let ?junk = "map (jk_bytes jk) [0..<sig_size ?sg]"
  let ?fs0 = "fs\<lparr>files := (files fs)(f \<mapsto> ?junk)\<rparr>"
  have n: "?n < nsig" and den: "\<not> denied fs f" and ne: "k \<noteq> f" "i \<noteq> f" "sqimage a \<noteq> Some f" "defaults a \<noteq> Some f"
    and kf: "files fs k = Some ?kb" and fi: "files fs i = Some ?ib"
    and ub: "take 4 ?kb = uboot_sig" "take 4 ?ib = uboot_sig"
    and mx: "length ?kb \<le> kernel_max ?sg" "length ?ib \<le> initramfs_max ?sg"
    and sq: "sig_size ?sg = 128 \<Longrightarrow> comp_ok fs (sqimage a) (sqimage_max ?sg)"
    and df: "comp_ok fs (defaults a) (defaults_max ?sg)"
    and cp: "sig_size ?sg + length ?kb + length ?ib + length ?sb + length ?db \<le> cap fs"
    using ready k i f by (auto simp: merge_ready_def Let_def contents_def sig_at_def)
  note b = signature_shape [OF n]
  have sg: "sig_at (int ?n) = ?sg" using n by (rule sig_at_in)
  have o: "open_trunc f fs = Some (fs\<lparr>files := (files fs)(f \<mapsto> [])\<rparr>)"
    using den by (simp add: open_trunc_def)
  have w: "write_start f ?junk (fs\<lparr>files := (files fs)(f \<mapsto> [])\<rparr>) = ?fs0"
    using cp by (simp add: write_start_def contents_def)
  have c0: "contents ?fs0 f = ?junk" "files ?fs0 f \<noteq> None" "cap ?fs0 = cap fs"
    by (simp_all add: contents_def)
  have cb: "comp_bytes ?fs0 nm = comp_bytes fs nm" "comp_ok ?fs0 nm m = comp_ok fs nm m" if "nm \<noteq> Some f" for nm m
    using that by (auto simp: comp_bytes_def comp_ok_def contents_def split: option.splits)
  let ?j = "jk_bytes jk" and ?hs = "sig_size ?sg"
  have s1: "savecomp ?j k f True (kernel_max ?sg) ?fs0 =
     (Inr (word_of_nat ?hs, word_of_nat (length ?kb), xor_list (u32s_of ?kb)), with_data f ?kb ?fs0)"
    using kf ub mx b c0 cp ne by (subst savecomp_ok) simp_all
  have s2: "savecomp ?j i f True (initramfs_max ?sg) (with_data f ?kb ?fs0) =
     (Inr (word_of_nat (?hs + length ?kb), word_of_nat (length ?ib), xor_list (u32s_of ?ib)),
      with_data f (?kb @ ?ib) ?fs0)"
    using fi ub mx b c0 cp ne by (subst savecomp_ok) simp_all
  have s3: "savecomp_or_empty ?j (sqimage a) f (sqimage_max ?sg) (with_data f (?kb @ ?ib) ?fs0) =
     (Inr (word_of_nat (?hs + length ?kb + length ?ib), word_of_nat (length ?sb), xor_list (u32s_of ?sb)),
      with_data f (?kb @ ?ib @ ?sb) ?fs0)" if "?hs = 128"
    using sq [OF that] b c0 cp ne by (subst savecomp_or_empty_ok) (simp_all add: cb ac_simps)
  have s4: "savecomp_or_empty ?j (defaults a) f (defaults_max ?sg) (with_data f (?kb @ ?ib @ xs) ?fs0) =
     (Inr (word_of_nat (?hs + length ?kb + length ?ib + length xs), word_of_nat (length ?db), xor_list (u32s_of ?db)),
      with_data f (?kb @ ?ib @ xs @ ?db) ?fs0)" if "length xs \<le> length ?sb" for xs
    using that df b c0 cp ne by (subst savecomp_or_empty_ok) (simp_all add: cb ac_simps)
  let ?m = "merged_hd jk a ?kb ?ib ?sb ?db"
  have m: "sig_num ?m = int ?n" "hd_type ?m = int ?hs"
    using sg by (simp_all add: merged_hd_def Let_def)
  have fin: "(with_data f xs ?fs0)\<lparr>files := (files (with_data f xs ?fs0))(f \<mapsto> ys)\<rparr> = fs\<lparr>files := (files fs)(f \<mapsto> ys)\<rparr>" for xs ys
    by (simp add: with_data_def)
  have hc: "?hs \<le> cap fs" using cp by linarith
  have s5: "save_header (jk_64 jk) (jk_128 jk) f ?m (with_data f xs ?fs0) =
     (Inr (), fs\<lparr>files := (files fs)(f \<mapsto> header_bytes jk ?m @ xs)\<rparr>)" for xs
    by (subst save_header_ok [where n = ?n and old = ?junk and rest = xs])
      (use m n hc c0 in \<open>simp_all only: fin with_data_simps c0 length_map length_upt diff_zero\<close>)
  have lim: "\<not> int nsig \<le> uint (fw_type a)"
    using n by (metis of_nat_le_iff not_le uint_nat)
  have u: "merge jk a fs = (bindE (savecomp ?j k f True (kernel_max ?sg)) (\<lambda>(ko, kl, kc).
      bindE (savecomp ?j i f True (initramfs_max ?sg)) (\<lambda>(io, il, ic).
      bindE (if ?hs = 128 then savecomp_or_empty ?j (sqimage a) f (sqimage_max ?sg)
             else retE (sqimage_off (jk_my jk), sqimage_len (jk_my jk), sqimage_checksum (jk_my jk)))
        (\<lambda>(so, sl, sc).
      bindE (savecomp_or_empty ?j (defaults a) f (defaults_max ?sg)) (\<lambda>(d_o, dl, dc).
      bindE (save_header (jk_64 jk) (jk_128 jk) f ((jk_my jk)\<lparr>sig_num := int ?n, hd_type := int ?hs,
          kernel_off := ko, kernel_len := kl, kernel_checksum := kc,
          initramfs_off := io, initramfs_len := il, initramfs_checksum := ic,
          sqimage_off := so, sqimage_len := sl, sqimage_checksum := sc,
          defaults_off := d_o, defaults_len := dl, defaults_checksum := dc,
          product_id := product a, custom_id := custom a, model_id := model a,
          sub_id := sub a, NewVersion := version a, Next_offset := 0\<rparr>)) (\<lambda>_. retE 0)))))) ?fs0"
    by (simp add: merge_def k i f o w Let_def sg [simplified] lim)
  show ?thesis
  proof (cases "?hs = 128")
    case True
    show ?thesis
      unfolding u using s1 s2 s3 [OF True] s4 [of ?sb] s5 [of "?kb @ ?ib @ ?sb @ ?db"] True sg
      by (simp add: merged_hd_def merged_image_def Let_def bindE_def retE_def)
  next
    case False
    show ?thesis
      unfolding u using s1 s2 s4 [of "[]"] s5 [of "?kb @ ?ib @ ?db"] False sg
      by (simp add: merged_hd_def merged_image_def Let_def bindE_def retE_def)
  qed
qed

text \<open>Reading the header back: every field but those of a squashfs image in a 64-byte header.\<close>

definition reread :: "my_control_header \<Rightarrow> my_control_header \<Rightarrow> my_control_header" where
  "reread m g =
     (if hd_type m = 64
      then m\<lparr>sqimage_off := sqimage_off g, sqimage_len := sqimage_len g, sqimage_checksum := sqimage_checksum g\<rparr>
      else m)"

text \<open>Where a 64-byte header has its signature a 128-byte header has three checksums.\<close>

definition not_mistaken :: "my_control_header \<Rightarrow> bool" where
  "not_mistaken m \<longleftrightarrow> hd_type m = 128 \<longrightarrow>
     cmp_sig (u32_bytes (initramfs_checksum m) @ u32_bytes (sqimage_checksum m) @
              u32_bytes (defaults_checksum m)) = -1"

lemma set_header64_fields:
  "h64_magic_num (set_header64 m g) = signature (sig_at (sig_num m))"
  by (simp add: set_header64_def)

lemma set_header128_fields:
  "h128_magic_num (set_header128 m g) = signature (sig_at (sig_num m))"
  by (simp add: set_header128_def)

lemma hd64_magic_of_hd128:
  "h64_magic_num (hd64_of_bytes (bytes_of_hd128 h @ r)) =
   u32_bytes (h128_initramfs_checksum h) @ u32_bytes (h128_sqimage_checksum h) @
   u32_bytes (h128_defaults_checksum h)"
  by (simp add: hd64_of_bytes_def bytes_of_hd128_def SIG_LEN_def)

lemma check_sig_header_bytes:
  assumes n: "sig_num m = int n" "n < nsig" "hd_type m = int (sig_size (signatures ! n))"
    and nm: "not_mistaken m"
  shows "check_sig (header_bytes jk m @ r) g = (int n, reread m g)"
proof -
  have sz: "sig_size (signatures ! n) = 64 \<or> sig_size (signatures ! n) = 128"
    by (rule signature_shape(2) [OF n(2)])
  have sg: "sig_at (sig_num m) = signatures ! n" using n by (simp add: sig_at_def)
  have c: "cmp_sig (signature (signatures ! n)) = int n" by (rule cmp_sig_each [OF n(2)])
  show ?thesis
  proof (cases "hd_type m = 64")
    case True
    let ?h = "set_header64 m (jk_64 jk)"
    have "hd64_of_bytes (header_bytes jk m @ r) = ?h"
      using True hd64_roundtrip [OF wf_set_header64 [OF n(1,2)]] by (simp add: header_bytes_def)
    moreover have "(get_info64 ?h g)\<lparr>sig_num := int n\<rparr> = reread m g"
      using True n(1) by (simp add: get_info64_def set_header64_def reread_def)
    ultimately show ?thesis
      by (simp add: check_sig_def Let_def set_header64_fields sg c)
  next
    case False
    let ?h = "set_header128 m (jk_128 jk)"
    have t: "hd_type m = 128" using False sz n(3) by auto
    have h: "header_bytes jk m = bytes_of_hd128 ?h" using False by (simp add: header_bytes_def)
    have "hd128_of_bytes (bytes_of_hd128 ?h @ r) = ?h"
      by (rule hd128_roundtrip [OF wf_set_header128 [OF n(1,2)]])
    moreover have "(get_info128 ?h g)\<lparr>sig_num := int n\<rparr> = reread m g"
      using t n(1) by (simp add: get_info128_def set_header128_def reread_def)
    moreover have "cmp_sig (h64_magic_num (hd64_of_bytes (bytes_of_hd128 ?h @ r))) = -1"
      using nm t by (simp add: hd64_magic_of_hd128 not_mistaken_def set_header128_def)
    ultimately show ?thesis
      by (simp add: check_sig_def Let_def h set_header128_fields sg c)
  qed
qed

lemma open_read_ok:
  assumes n: "sig_num m = int n" "n < nsig" "hd_type m = int (sig_size (signatures ! n))"
    and nm: "not_mistaken m"
    and f: "fw a = Some f" "files fs f = Some (header_bytes jk' m @ r)"
    and len: "128 \<le> length (header_bytes jk' m @ r)"
  shows "open_read jk a fs = (Inr (f, reread m (jk_my jk), word_of_nat n), fs)"
proof -
  have l: "length (header_bytes jk' m) \<le> 128"
    using length_header_bytes [OF n] signature_shape(2) [OF n(2)] by auto
  then have t: "take 128 (header_bytes jk' m @ r) = header_bytes jk' m @ take (128 - length (header_bytes jk' m)) r"
    by simp
  have "unat (word_of_int (int n) :: byte) = n"
    using n(2) by (simp add: nsig_eq unat_of_nat)
  then have "(word_of_int (int n) :: byte) \<noteq> 255"
    using n(2) by (auto simp: nsig_eq)
  moreover have "length (take 128 (header_bytes jk' m @ r)) = 128" using len by simp
  ultimately show ?thesis
    using f check_sig_header_bytes [OF n nm, of jk' "take (128 - length (header_bytes jk' m)) r" "jk_my jk"]
    by (simp only: open_read_def option.case t prod.case) simp
qed

definition split_names :: "fw_args \<Rightarrow> string list" where
  "split_names a = [split_name (kernel a) ''kernel'', split_name (initramfs a) ''initramfs'',
     split_name (sqimage a) ''sqimage'', split_name (defaults a) ''defaults'']"

definition split_ready :: "fw_args \<Rightarrow> string \<Rightarrow> fsys \<Rightarrow> bool" where
  "split_ready a f fs \<longleftrightarrow> fw a = Some f \<and> distinct (f # split_names a) \<and>
     list_all (\<lambda>g. \<not> denied fs g) (split_names a)"

lemma length_merged_image:
  assumes "unat (fw_type a) < nsig"
  shows "length (merged_image jk a kb ib sb db) =
    (let hs = sig_size (signatures ! unat (fw_type a)) in
     hs + length kb + length ib + (if hs = 128 then length sb else 0) + length db)"
proof -
  have "length (header_bytes jk (merged_hd jk a kb ib sb db)) = sig_size (signatures ! unat (fw_type a))"
    by (rule length_header_bytes [OF _ assms]) (simp_all add: merged_hd_def Let_def sig_at_def)
  then show ?thesis
    by (simp add: merged_image_def Let_def sig_at_def)
qed

lemma is_uboot_at:
  assumes "take 4 ub = uboot_sig" and "off = length pre"
  shows "is_uboot stk (pre @ ub @ post) off"
proof -
  from assms(1) have "length (take 4 ub) = 4" by (simp add: uboot_sig_def)
  then have "4 \<le> length ub" by simp
  moreover have "length uboot_sig = 4" by (simp add: uboot_sig_def)
  ultimately show ?thesis using assms by (simp add: is_uboot_def Let_def)
qed

lemma savefile_part:
  assumes "f \<noteq> g" "\<not> denied fs f" "contents fs g = pre @ part @ post" "length part \<le> cap fs"
    and "off = length pre" "n = length part" "chk = xor_list (u32s_of part)"
  shows "savefile f g off n chk fs = (Inr chk, fs\<lparr>files := (files fs)(f \<mapsto> part)\<rparr>)"
  using assms by (subst savefile_ok) simp_all

lemma split_ok:
  fixes jk' :: stack_junk
  assumes n: "unat (fw_type a) < nsig"
    and ready: "split_ready a' f fs"
    and img: "files fs f = Some (merged_image jk a kb ib sb db)"
    and len: "128 \<le> length (merged_image jk a kb ib sb db)" "length (merged_image jk a kb ib sb db) < 2 ^ 32"
      "length (merged_image jk a kb ib sb db) \<le> cap fs"
    and ub: "take 4 kb = uboot_sig" "take 4 ib = uboot_sig"
    and nm: "not_mistaken (merged_hd jk a kb ib sb db)"
  shows "split jk' a' fs = (Inr 0, fs\<lparr>files := (\<lambda>fm. (if sig_size (signatures ! unat (fw_type a)) = 128
       then (fm (split_names a' ! 0 \<mapsto> kb, split_names a' ! 1 \<mapsto> ib, split_names a' ! 2 \<mapsto> sb,
                 split_names a' ! 3 \<mapsto> db))
       else (fm (split_names a' ! 0 \<mapsto> kb, split_names a' ! 1 \<mapsto> ib, split_names a' ! 3 \<mapsto> db))))
     (files fs)\<rparr>)"
proof -
  let ?m = "merged_hd jk a kb ib sb db" and ?sg = "signatures ! unat (fw_type a)"
  let ?hs = "sig_size ?sg" and ?h = "header_bytes jk (merged_hd jk a kb ib sb db)"
  let ?sb = "if ?hs = 128 then sb else []"
  let ?k = "split_name (kernel a') ''kernel''" and ?i = "split_name (initramfs a') ''initramfs''"
    and ?s = "split_name (sqimage a') ''sqimage''" and ?d = "split_name (defaults a') ''defaults''"
  have sg: "sig_at (uint (fw_type a)) = ?sg" by (simp add: sig_at_def)
  have m: "sig_num ?m = int (unat (fw_type a))" "hd_type ?m = int ?hs"
    by (simp_all add: merged_hd_def Let_def sg)
  have hl: "length ?h = ?hs" by (rule length_header_bytes [OF m(1) n m(2)])
  have im: "merged_image jk a kb ib sb db = ?h @ kb @ ib @ ?sb @ db"
    by (simp add: merged_image_def sg)
  have c: "contents fs f = ?h @ kb @ ib @ ?sb @ db" using img im by (simp add: contents_def)
  have tot: "?hs + length kb + length ib + length ?sb + length db < 2 ^ 32"
      "?hs + length kb + length ib + length ?sb + length db \<le> cap fs"
    using len(2,3) length_merged_image [OF n, of jk kb ib sb db] by (simp_all add: Let_def split: if_splits)
  have or: "open_read jk' a' fs = (Inr (f, reread ?m (jk_my jk'), word_of_nat (unat (fw_type a))), fs)"
    using ready img len(1) by (intro open_read_ok [OF m(1) n m(2) nm]) (auto simp: split_ready_def im)
  have names: "?k \<noteq> f" "?i \<noteq> f" "?s \<noteq> f" "?d \<noteq> f" "distinct [?k, ?i, ?s, ?d]" "\<not> denied fs ?k" "\<not> denied fs ?i" "\<not> denied fs ?s" "\<not> denied fs ?d"
    "fw a' = Some f"
    using ready by (auto simp: split_ready_def split_names_def)
  let ?M = "reread ?m (jk_my jk')"
  have W: "kernel_off ?M = word_of_nat ?hs" "kernel_len ?M = word_of_nat (length kb)"
      "initramfs_off ?M = word_of_nat (?hs + length kb)" "initramfs_len ?M = word_of_nat (length ib)"
      "defaults_off ?M = word_of_nat (?hs + length kb + length ib + length ?sb)"
      "defaults_len ?M = word_of_nat (length db)"
      "kernel_checksum ?M = xor_list (u32s_of kb)" "initramfs_checksum ?M = xor_list (u32s_of ib)"
      "defaults_checksum ?M = xor_list (u32s_of db)" "hd_type ?M = int ?hs"
    by (simp_all add: reread_def merged_hd_def Let_def sg)
  have W2: "sqimage_off ?M = word_of_nat (?hs + length kb + length ib)" "sqimage_len ?M = word_of_nat (length sb)"
      "sqimage_checksum ?M = xor_list (u32s_of sb)" if "?hs = 128"
    using that by (simp_all add: reread_def merged_hd_def Let_def sg)
  have M: "unat (kernel_off ?M) = ?hs" "unat (kernel_len ?M) = length kb"
      "unat (initramfs_off ?M) = ?hs + length kb" "unat (initramfs_len ?M) = length ib"
      "unat (defaults_off ?M) = ?hs + length kb + length ib + length ?sb" "unat (defaults_len ?M) = length db"
    unfolding W using tot(1) by (auto intro!: unat_u32_small simp del: of_nat_add)
  have M2: "unat (sqimage_off ?M) = ?hs + length kb + length ib" "unat (sqimage_len ?M) = length sb"
    if "?hs = 128"
    unfolding W2 [OF that] using tot(1) that by (auto intro!: unat_u32_small simp del: of_nat_add of_nat_numeral)
  have u: "is_uboot (jk_bytes jk') (contents fs f) (unat (kernel_off ?M))"
      "is_uboot (jk_bytes jk') (contents fs f) (unat (initramfs_off ?M))"
    using is_uboot_at [OF ub(1), of "?hs" ?h "jk_bytes jk'" "ib @ ?sb @ db"]
      is_uboot_at [OF ub(2), of "?hs + length kb" "?h @ kb" "jk_bytes jk'" "?sb @ db"]
    unfolding M c by (simp_all only: hl length_append append_assoc)
  let ?w = "\<lambda>f bs fs. fs\<lparr>files := (files fs)(f \<mapsto> bs)\<rparr>"
  have keep: "contents (x\<lparr>files := fm\<rparr>) f = contents x f" if "fm f = files x f" for fm x
    using that by (simp add: contents_def)
  have k1: "savefile ?k f (unat (kernel_off ?M)) (unat (kernel_len ?M)) (kernel_checksum ?M) fs =
      (Inr (xor_list (u32s_of kb)), ?w ?k kb fs)"
    using names tot unfolding M W(7,8,9) by (intro savefile_part [where pre = ?h and post = "ib @ ?sb @ db"]) (simp_all add: c hl)
  have k2: "savefile ?i f (unat (initramfs_off ?M)) (unat (initramfs_len ?M)) (initramfs_checksum ?M) (?w ?k kb fs) =
      (Inr (xor_list (u32s_of ib)), ?w ?i ib (?w ?k kb fs))"
    using names tot unfolding M W(7,8,9)
    by (intro savefile_part [where pre = "?h @ kb" and post = "?sb @ db"]) (simp_all add: c hl keep)
  have k3: "savefile ?s f (unat (sqimage_off ?M)) (unat (sqimage_len ?M)) (sqimage_checksum ?M) (?w ?i ib (?w ?k kb fs)) =
      (Inr (xor_list (u32s_of sb)), ?w ?s sb (?w ?i ib (?w ?k kb fs)))" if "?hs = 128"
    using names tot that unfolding M2 [OF that] W2(3) [OF that]
    by (intro savefile_part [where pre = "?h @ kb @ ib" and post = "db"]) (simp_all add: c hl keep)
  have k4: "savefile ?d f (unat (defaults_off ?M)) (unat (defaults_len ?M)) (defaults_checksum ?M) x =
      (Inr (xor_list (u32s_of db)), ?w ?d db x)"
    if "contents x f = contents fs f" "denied x = denied fs" "cap x = cap fs" for x
    using names tot that unfolding M W(7,8,9)
    by (intro savefile_part [where pre = "?h @ kb @ ib @ ?sb" and post = "[]"]) (simp_all add: c hl keep)
  have go: "split jk' a' fs = (bindE (savefile ?k f (unat (kernel_off ?M)) (unat (kernel_len ?M)) (kernel_checksum ?M)) (\<lambda>_.
       bindE (savefile ?i f (unat (initramfs_off ?M)) (unat (initramfs_len ?M)) (initramfs_checksum ?M)) (\<lambda>_.
       bindE (if hd_type ?M = 128
              then savefile ?s f (unat (sqimage_off ?M)) (unat (sqimage_len ?M)) (sqimage_checksum ?M)
              else retE 0) (\<lambda>_.
       bindE (savefile ?d f (unat (defaults_off ?M)) (unat (defaults_len ?M)) (defaults_checksum ?M)) (\<lambda>_.
       retE 0)))) fs)"
    using u names(10) by (simp add: split_def Let_def bindE_def [of "open_read jk' a'"] or size_ok_def)
  show ?thesis
  proof (cases "?hs = 128")
    case True
    show ?thesis unfolding go
      using k1 k2 k3 [OF True] k4 [of "?w ?s sb (?w ?i ib (?w ?k kb fs))"] names True W(10)
      by (simp add: split_names_def keep retE_def bindE_def)
  next
    case False
    show ?thesis unfolding go
      using k1 k2 k4 [of "?w ?i ib (?w ?k kb fs)"] names False W(10)
      by (simp add: split_names_def keep retE_def bindE_def)
  qed
qed

text \<open>The limits of every signature keep a merged file within 32-bit offsets.\<close>

lemma comp_bytes_le: "comp_ok fs nm mx \<Longrightarrow> length (comp_bytes fs nm) \<le> mx"
  by (cases nm) (auto simp: comp_ok_def comp_bytes_def)

lemma signature_total:
  assumes "i < nsig"
  shows "sig_size (signatures ! i) + kernel_max (signatures ! i) + initramfs_max (signatures ! i) +
    sqimage_max (signatures ! i) + defaults_max (signatures ! i) < 2 ^ 32"
proof -
  have "list_all (\<lambda>s. sig_size s + kernel_max s + initramfs_max s + sqimage_max s + defaults_max s < 2 ^ 32) signatures"
    by (simp add: signatures_def)
  moreover have "signatures ! i \<in> set signatures" using assms by (simp add: nsig_def)
  ultimately show ?thesis by (auto simp: list_all_iff)
qed

lemma merge_ready_size:
  assumes "merge_ready a fs" and "kernel a = Some k" and "initramfs a = Some i" and "fw a = Some f"
  shows "length (merged_image jk a (contents fs k) (contents fs i) (comp_bytes fs (sqimage a))
      (comp_bytes fs (defaults a))) < 2 ^ 32"
    and "length (merged_image jk a (contents fs k) (contents fs i) (comp_bytes fs (sqimage a))
      (comp_bytes fs (defaults a))) \<le> cap fs"
proof -
  let ?n = "unat (fw_type a)" and ?sg = "signatures ! unat (fw_type a)"
  have n: "?n < nsig" and mx: "length (contents fs k) \<le> kernel_max ?sg" "length (contents fs i) \<le> initramfs_max ?sg"
    and cs: "sig_size ?sg = 128 \<Longrightarrow> comp_ok fs (sqimage a) (sqimage_max ?sg)"
    and cd: "comp_ok fs (defaults a) (defaults_max ?sg)"
    and cp: "sig_size ?sg + length (contents fs k) + length (contents fs i) +
        length (comp_bytes fs (sqimage a)) + length (comp_bytes fs (defaults a)) \<le> cap fs"
    using assms by (auto simp: merge_ready_def Let_def sig_at_def)
  note l = length_merged_image [OF n, of jk "contents fs k" "contents fs i" "comp_bytes fs (sqimage a)" "comp_bytes fs (defaults a)"]
  have sq: "(if sig_size ?sg = 128 then length (comp_bytes fs (sqimage a)) else 0) \<le> sqimage_max ?sg"
    using comp_bytes_le [OF cs] by auto
  show "length (merged_image jk a (contents fs k) (contents fs i) (comp_bytes fs (sqimage a))
      (comp_bytes fs (defaults a))) < 2 ^ 32"
    using l sq mx comp_bytes_le [OF cd] signature_total [OF n] unfolding Let_def by linarith
  show "length (merged_image jk a (contents fs k) (contents fs i) (comp_bytes fs (sqimage a))
      (comp_bytes fs (defaults a))) \<le> cap fs"
    using l cp by (simp add: Let_def)
qed

section \<open>Properties of the firmware tool\<close>


text \<open>A small set of files to merge, used by the witnesses.\<close>

definition demo_comp :: "byte list" where
  "demo_comp = uboot_sig @ replicate 60 7"

definition demo_fs :: fsys where
  "demo_fs = \<lparr>files = [''zImage'' \<mapsto> demo_comp, ''rootfs'' \<mapsto> demo_comp, ''defs'' \<mapsto> [1, 2, 3]],
              denied = (\<lambda>_. False), cap = 100000\<rparr>"

definition demo_args :: fw_args where
  "demo_args = fw_args0\<lparr>kernel := Some ''zImage'', initramfs := Some ''rootfs'', defaults := Some ''defs'',
     fw := Some ''fw.bin''\<rparr>"

definition demo_split :: fw_args where
  "demo_split = fw_args0\<lparr>fw := Some ''fw.bin''\<rparr>"

lemma demo_contents [simp]:
  "contents demo_fs ''zImage'' = demo_comp" "contents demo_fs ''rootfs'' = demo_comp"
  "contents demo_fs ''defs'' = [1, 2, 3]" "files demo_fs ''fw.bin'' = None"
  "take 4 demo_comp = uboot_sig" "length demo_comp = 64"
  by (simp_all add: demo_fs_def demo_comp_def contents_def uboot_sig_def)

lemma demo_ready: "merge_ready demo_args demo_fs"
  by (simp add: merge_ready_def demo_args_def fw_args0_def nsig_eq Let_def sig_at_def signatures_def
      comp_ok_def comp_bytes_def) (simp add: demo_fs_def)


text \<open>What \<open>readwrite\<close> stores and what it accepts. It appends to the output the \<open>sz\<close> bytes at
  \<open>off\<close> (up to the end of the last block that holds input, with zero bytes for what the input lacks)
  and compares the exclusive or of the stored words with a non-zero expected checksum: the result is
  -1 exactly when they differ. A zero checksum is replaced by the computed one.\<close>

theorem readwrite_copies:
  assumes "length (contents fs fo) + copied_len (length inp - off) sz \<le> cap fs"
    and "files fs fo \<noteq> None"
  shows "\<exists>r c fs'. readwrite fo inp off sz chk fs = ((r, c), fs') \<and>
     files fs' fo = Some (contents fs fo @ copied (drop off inp) sz) \<and>
     (\<forall>g. g \<noteq> fo \<longrightarrow> files fs' g = files fs g) \<and>
     (r = 0 \<longleftrightarrow> chk = 0 \<or> chk = xor_list (u32s_of (copied (drop off inp) sz))) \<and>
     (r = 0 \<longrightarrow> c = xor_list (u32s_of (copied (drop off inp) sz)))"
  using readwrite_result [OF assms] by (simp add: Let_def)

lemma readwrite_copies_witness:
  "\<exists>r c fs'. readwrite ''zImage'' [1, 2, 3] 1 4 0 demo_fs = ((r, c), fs') \<and> r = 0 \<and>
     files fs' ''zImage'' = Some (demo_comp @ [2, 3, 0, 0])"
proof -
  have c: "copied (drop 1 [1, 2, 3]) 4 = [2, 3, 0, 0]"
  proof -
    have "copied_len 2 4 = 4" by (simp add: copied_len_def BLOCK_SIZE_def)
    moreover have "length (drop 1 [1, 2, 3 :: byte]) = 2" by simp
    ultimately show ?thesis unfolding copied_def by (simp only:) (simp add: numeral_eq_Suc)
  qed
  have "length (contents demo_fs ''zImage'') + copied_len (length [1, 2, 3 :: byte] - 1) 4 \<le> cap demo_fs"
    by (simp add: copied_len_def) (simp add: demo_fs_def)
  moreover have "files demo_fs ''zImage'' \<noteq> None" by (simp add: demo_fs_def)
  ultimately show ?thesis
    using readwrite_copies [of demo_fs "''zImage''" "[1, 2, 3]" 1 4 0] unfolding c
    by auto
qed

lemma savefile_result:
  assumes "f \<noteq> g" and "\<not> denied fs f"
    and "copied_len (length (contents fs g) - off) n \<le> cap fs"
  shows "savefile f g off n chk fs =
    (let D = copied (drop off (contents fs g)) n; l = xor_list (u32s_of D)
     in (if chk = 0 then Inr l else if l = chk then Inr chk else Inl (CopyError f),
         fs\<lparr>files := (files fs)(f \<mapsto> D)\<rparr>))"
proof -
  let ?fs = "fs\<lparr>files := (files fs)(f \<mapsto> [])\<rparr>"
  have o: "open_trunc f fs = Some ?fs" using assms(2) by (simp add: open_trunc_def)
  have g: "contents ?fs g = contents fs g" using assms(1) by (simp add: contents_def)
  have e: "contents ?fs f = []" by (simp add: contents_def)
  have "readwrite f (contents fs g) off n chk ?fs =
    (let D = copied (drop off (contents fs g)) n; l = xor_list (u32s_of D)
     in (if chk = 0 then (0, l) else if l \<noteq> chk then (-1, chk) else (0, chk), with_data f D ?fs))"
    using assms(3) by (subst readwrite_result) (simp_all add: e)
  then show ?thesis
    by (simp add: savefile_def o g with_data_def e Let_def)
qed

text \<open>C12. A component in which one 32-bit word was changed is rejected: extracting it against the
  non-zero checksum of the original words ends with an error (the damaged bytes are on disk by then).\<close>

theorem savefile_detects_change:
  assumes "f \<noteq> g" and "\<not> denied fs f" and "n \<le> cap fs" and "off + n \<le> length (contents fs g)"
    and "ws[j := w] = u32s_of (take n (drop off (contents fs g)))"
    and "j < length ws" and "w \<noteq> ws ! j" and "xor_list ws \<noteq> 0"
  shows "savefile f g off n (xor_list ws) fs =
    (Inl (CopyError f), fs\<lparr>files := (files fs)(f \<mapsto> take n (drop off (contents fs g)))\<rparr>)"
proof -
  have "copied_len (length (contents fs g) - off) n \<le> cap fs"
    using copied_len_le [of "length (contents fs g) - off" n] assms(3) by simp
  moreover have "copied (drop off (contents fs g)) n = take n (drop off (contents fs g))"
    using assms(4) by (simp add: copied_full)
  moreover have "xor_list (ws[j := w]) \<noteq> xor_list ws"
    by (rule xor_list_update [OF assms(6,7)])
  ultimately show ?thesis
    using assms(8) unfolding assms(5) by (subst savefile_result [OF assms(1,2)]) (simp_all add: Let_def)
qed

lemma savefile_detects_change_witness:
  "savefile ''out'' ''defs'' 0 4 5 (demo_fs\<lparr>files := [''defs'' \<mapsto> [9, 0, 0, 0]]\<rparr>) =
     (Inl (CopyError ''out''), demo_fs\<lparr>files := [''defs'' \<mapsto> [9, 0, 0, 0], ''out'' \<mapsto> [9, 0, 0, 0]]\<rparr>)"
proof -
  let ?fs = "demo_fs\<lparr>files := [''defs'' \<mapsto> [9, 0, 0, 0]]\<rparr>"
  have c: "contents ?fs ''defs'' = [9, 0, 0, 0]" by (simp add: contents_def)
  have "[5][0 := 9] = u32s_of (take 4 (drop 0 (contents ?fs ''defs'')))"
    unfolding c by (simp add: u32_of_def)
  then have "savefile ''out'' ''defs'' 0 4 (xor_list [5]) ?fs =
     (Inl (CopyError ''out''), ?fs\<lparr>files := (files ?fs)(''out'' \<mapsto> take 4 (drop 0 (contents ?fs ''defs'')))\<rparr>)"
    by (intro savefile_detects_change [where w = 9 and j = 0]) (simp_all add: c, simp_all add: demo_fs_def)
  then show ?thesis unfolding c by simp
qed

text \<open>A stored checksum of zero switches the check off: whatever bytes the component has, the
  extraction succeeds. The same value stands for "not computed yet" and for a component whose words
  cancel out, so a firmware file with a zeroed checksum field is never verified.\<close>

theorem zero_checksum_unverified:
  assumes "f \<noteq> g" and "\<not> denied fs f" and "n \<le> cap fs"
  shows "\<exists>c fs'. savefile f g off n 0 fs = (Inr c, fs') \<and>
    files fs' f = Some (copied (drop off (contents fs g)) n)"
proof -
  have "copied_len (length (contents fs g) - off) n \<le> cap fs"
    using copied_len_le [of "length (contents fs g) - off" n] assms(3) by simp
  then show ?thesis by (simp add: savefile_result [OF assms(1,2)] Let_def)
qed

lemma zero_checksum_unverified_witness:
  "\<exists>c fs'. savefile ''out'' ''defs'' 1 2 0 demo_fs = (Inr c, fs') \<and>
    files fs' ''out'' = Some (copied (drop 1 [1, 2, 3]) 2)"
  using zero_checksum_unverified [of "''out''" "''defs''" demo_fs 2 1] by (simp, simp add: demo_fs_def)

text \<open>Bytes a component lacks are made up: when the header announces more bytes than the file
  holds, within its last 64 KiB block, the extracted component has the announced length, its tail
  filled with zero bytes.\<close>

theorem short_component_padded:
  assumes "f \<noteq> g" and "\<not> denied fs f" and "n \<le> cap fs"
    and "off < length (contents fs g)" and "length (contents fs g) - off < n" and "n \<le> BLOCK_SIZE"
  shows "\<exists>r fs'. savefile f g off n chk fs = (r, fs') \<and>
    files fs' f = Some (drop off (contents fs g) @ replicate (n - (length (contents fs g) - off)) 0)"
proof -
  let ?l = "length (contents fs g) - off"
  have "BLOCK_SIZE * 1 \<le> ?l + BLOCK_SIZE - 1" "?l + BLOCK_SIZE - 1 < BLOCK_SIZE * Suc 1"
    using assms(4-6) by simp_all
  then have d: "(?l + BLOCK_SIZE - 1) div BLOCK_SIZE = 1" by (rule div_nat_eqI)
  then have m: "copied_len ?l n = n" using assms(6) unfolding copied_len_def d by simp
  then have "copied_len ?l n \<le> cap fs" using assms(3) by simp
  moreover have "copied (drop off (contents fs g)) n = drop off (contents fs g) @ replicate (n - ?l) 0"
    using m assms(5) by (simp add: copied_def)
  ultimately show ?thesis by (simp add: savefile_result [OF assms(1,2)] Let_def)
qed

lemma short_component_padded_witness:
  "\<exists>r fs'. savefile ''out'' ''defs'' 1 5 77 demo_fs = (r, fs') \<and> files fs' ''out'' = Some [2, 3, 0, 0, 0]"
proof -
  have "\<not> denied demo_fs ''out''" "5 \<le> cap demo_fs" "5 \<le> BLOCK_SIZE"
    by (simp_all add: demo_fs_def BLOCK_SIZE_def)
  then show ?thesis
    using short_component_padded [of "''out''" "''defs''" demo_fs 5 1 77] by (simp add: numeral_eq_Suc)
qed



lemma merge_kernel_step:
  assumes "unat (fw_type a) < nsig" and "kernel a = Some k" and "initramfs a = Some i" and "fw a = Some f"
    and "\<not> denied fs f" and "sig_size (sig_at (int (unat (fw_type a)))) \<le> cap fs"
    and "savecomp (jk_bytes jk) k f True (kernel_max (sig_at (int (unat (fw_type a)))))
           (fs\<lparr>files := (files fs)(f \<mapsto> map (jk_bytes jk) [0..<sig_size (sig_at (int (unat (fw_type a))))])\<rparr>) = (Inl e, fs')"
  shows "merge jk a fs = (Inl e, fs')"
proof -
  have lim: "\<not> int nsig \<le> uint (fw_type a)"
    using assms(1) by (metis of_nat_le_iff not_le uint_nat)
  have o: "open_trunc f fs = Some (fs\<lparr>files := (files fs)(f \<mapsto> [])\<rparr>)"
    using assms(5) by (simp add: open_trunc_def)
  have w: "length bs \<le> cap fs \<Longrightarrow> write_start f bs (fs\<lparr>files := (files fs)(f \<mapsto> [])\<rparr>) = fs\<lparr>files := (files fs)(f \<mapsto> bs)\<rparr>" for bs
    by (simp add: write_start_def contents_def)
  show ?thesis
    using assms(6,7) by (simp add: merge_def assms(2-4) o w Let_def lim bindE_def)
qed

text \<open>A kernel file that does not carry the uboot magic or is larger than the signature allows ends
  \<open>merge\<close> with the matching error, and the firmware file, opened for writing before the check, is left
  behind with nothing but the placeholder header.\<close>

theorem merge_rejects_kernel:
  assumes "unat (fw_type a) < nsig" and "kernel a = Some k" and "initramfs a = Some i" and "fw a = Some f"
    and "\<not> denied fs f" and "k \<noteq> f" and "sig_size (sig_at (int (unat (fw_type a)))) \<le> cap fs"
    and "files fs k = Some kb" and "4 \<le> length kb" and "length kb < 2 ^ 32"
    and "take 4 kb \<noteq> uboot_sig \<or> length kb > kernel_max (sig_at (int (unat (fw_type a))))"
  shows "merge jk a fs =
    (Inl (if take 4 kb \<noteq> uboot_sig then NotUboot k else TooBig k),
     fs\<lparr>files := (files fs)(f \<mapsto> map (jk_bytes jk) [0..<sig_size (sig_at (int (unat (fw_type a))))])\<rparr>)"
proof (rule merge_kernel_step [OF assms(1-5,7)])
  have u: "is_uboot stk kb 0 \<longleftrightarrow> take 4 kb = uboot_sig" for stk
    using assms(9) by (simp add: is_uboot_def Let_def)
  have l: "unat (word_of_nat (length kb) :: u32) = length kb"
    by (rule unat_u32_small [OF assms(10)])
  have fk: "files (fs\<lparr>files := (files fs)(f \<mapsto> bs)\<rparr>) k = Some kb" for bs
    using assms(6,8) by simp
  show "savecomp (jk_bytes jk) k f True (kernel_max (sig_at (int (unat (fw_type a)))))
      (fs\<lparr>files := (files fs)(f \<mapsto> map (jk_bytes jk) [0..<sig_size (sig_at (int (unat (fw_type a))))])\<rparr>) =
    (Inl (if take 4 kb \<noteq> uboot_sig then NotUboot k else TooBig k),
     fs\<lparr>files := (files fs)(f \<mapsto> map (jk_bytes jk) [0..<sig_size (sig_at (int (unat (fw_type a))))])\<rparr>)"
    using assms(11) unfolding savecomp_def fk option.case u Let_def l by auto
qed

lemma merge_rejects_kernel_witness:
  "\<forall>jk. fst (merge jk demo_args (demo_fs\<lparr>files := [''zImage'' \<mapsto> [0, 0, 0, 0]]\<rparr>)) = Inl (NotUboot ''zImage'')"
proof
  fix jk :: stack_junk
  let ?fs = "demo_fs\<lparr>files := [''zImage'' \<mapsto> [0, 0, 0, 0]]\<rparr>"
  have a: "unat (fw_type demo_args) < nsig" "kernel demo_args = Some ''zImage''"
      "initramfs demo_args = Some ''rootfs''" "fw demo_args = Some ''fw.bin''"
      "sig_size (sig_at (int (unat (fw_type demo_args)))) = 64"
    by (simp_all add: demo_args_def fw_args0_def nsig_eq sig_at_def signatures_def)
  have t: "take 4 [0, 0, 0, 0] \<noteq> uboot_sig" by (simp add: uboot_sig_def)
  have "merge jk demo_args ?fs = (Inl (if take 4 [0, 0, 0, 0] \<noteq> uboot_sig then NotUboot ''zImage'' else TooBig ''zImage''),
     ?fs\<lparr>files := (files ?fs)(''fw.bin'' \<mapsto> map (jk_bytes jk) [0..<sig_size (sig_at (int (unat (fw_type demo_args))))])\<rparr>)"
    by (rule merge_rejects_kernel [where i = "''rootfs''"])
      (use a t in \<open>simp_all add: demo_fs_def\<close>)
  then show "fst (merge jk demo_args ?fs) = Inl (NotUboot ''zImage'')" using t by simp
qed

end
