(* ===== verification/Mcookie.thy ===== *)
theory Mcookie
  imports Prelude
begin

text \<open>
  \<open>package/x11r7/mcookie/mcookie.c\<close>: the MD5 implementation and the program that hashes a few
  sources of randomness into an X11 cookie. The buffering of \<open>MD5Update\<close> is compared with
  feeding the bytes one at a time, and the digest with a padded-message specification. The
  client \<open>hash_file\<close> only relies on the law that two updates are one, which is stated as the
  locale \<open>stream_hash\<close> and discharged for \<open>MD5Update\<close>. Messages of the \<open>Verbose\<close> option are
  not modelled; the machine is little-endian, so \<open>byteReverse\<close> is empty.
\<close>

section \<open>The core of MD5\<close>

type_synonym md5_regs = "u32 \<times> u32 \<times> u32 \<times> u32"

record MD5Context =
  buf :: md5_regs
  bits0 :: u32
  bits1 :: u32
  inbuf :: "byte list"

definition F1 :: "u32 \<Rightarrow> u32 \<Rightarrow> u32 \<Rightarrow> u32" where "F1 x y z = z XOR (x AND (y XOR z))"
definition F2 :: "u32 \<Rightarrow> u32 \<Rightarrow> u32 \<Rightarrow> u32" where "F2 x y z = F1 z x y"
definition F3 :: "u32 \<Rightarrow> u32 \<Rightarrow> u32 \<Rightarrow> u32" where "F3 x y z = x XOR y XOR z"
definition F4 :: "u32 \<Rightarrow> u32 \<Rightarrow> u32 \<Rightarrow> u32" where "F4 x y z = y XOR (x OR NOT z)"

text \<open>The new value of the register \<open>w\<close>.\<close>

definition MD5STEP :: "(u32 \<Rightarrow> u32 \<Rightarrow> u32 \<Rightarrow> u32) \<Rightarrow> u32 \<Rightarrow> u32 \<Rightarrow> u32 \<Rightarrow> u32 \<Rightarrow> u32 \<Rightarrow> nat \<Rightarrow> u32" where
  "MD5STEP f w x y z data s =
     (let w = w + (f x y z + data); w = push_bit s w OR drop_bit (32 - s) w in w + x)"

text \<open>
  The 64 steps in the order of the code: the round function, the index of the input word, the
  constant and the shift. From one step to the next the code renames the registers
  (\<open>a b c d\<close>, \<open>d a b c\<close>, \<open>c d a b\<close>, \<open>b c d a\<close>), which is a rotation of the quadruple; after 64
  steps the names are back in place.
\<close>

definition md5_steps :: "((u32 \<Rightarrow> u32 \<Rightarrow> u32 \<Rightarrow> u32) \<times> nat \<times> u32 \<times> nat) list" where
  "md5_steps = [
     (F1, 0, 0xD76AA478, 7), (F1, 1, 0xE8C7B756, 12),
     (F1, 2, 0x242070DB, 17), (F1, 3, 0xC1BDCEEE, 22),
     (F1, 4, 0xF57C0FAF, 7), (F1, 5, 0x4787C62A, 12),
     (F1, 6, 0xA8304613, 17), (F1, 7, 0xFD469501, 22),
     (F1, 8, 0x698098D8, 7), (F1, 9, 0x8B44F7AF, 12),
     (F1, 10, 0xFFFF5BB1, 17), (F1, 11, 0x895CD7BE, 22),
     (F1, 12, 0x6B901122, 7), (F1, 13, 0xFD987193, 12),
     (F1, 14, 0xA679438E, 17), (F1, 15, 0x49B40821, 22),
     (F2, 1, 0xF61E2562, 5), (F2, 6, 0xC040B340, 9),
     (F2, 11, 0x265E5A51, 14), (F2, 0, 0xE9B6C7AA, 20),
     (F2, 5, 0xD62F105D, 5), (F2, 10, 0x02441453, 9),
     (F2, 15, 0xD8A1E681, 14), (F2, 4, 0xE7D3FBC8, 20),
     (F2, 9, 0x21E1CDE6, 5), (F2, 14, 0xC33707D6, 9),
     (F2, 3, 0xF4D50D87, 14), (F2, 8, 0x455A14ED, 20),
     (F2, 13, 0xA9E3E905, 5), (F2, 2, 0xFCEFA3F8, 9),
     (F2, 7, 0x676F02D9, 14), (F2, 12, 0x8D2A4C8A, 20),
     (F3, 5, 0xFFFA3942, 4), (F3, 8, 0x8771F681, 11),
     (F3, 11, 0x6D9D6122, 16), (F3, 14, 0xFDE5380C, 23),
     (F3, 1, 0xA4BEEA44, 4), (F3, 4, 0x4BDECFA9, 11),
     (F3, 7, 0xF6BB4B60, 16), (F3, 10, 0xBEBFBC70, 23),
     (F3, 13, 0x289B7EC6, 4), (F3, 0, 0xEAA127FA, 11),
     (F3, 3, 0xD4EF3085, 16), (F3, 6, 0x04881D05, 23),
     (F3, 9, 0xD9D4D039, 4), (F3, 12, 0xE6DB99E5, 11),
     (F3, 15, 0x1FA27CF8, 16), (F3, 2, 0xC4AC5665, 23),
     (F4, 0, 0xF4292244, 6), (F4, 7, 0x432AFF97, 10),
     (F4, 14, 0xAB9423A7, 15), (F4, 5, 0xFC93A039, 21),
     (F4, 12, 0x655B59C3, 6), (F4, 3, 0x8F0CCC92, 10),
     (F4, 10, 0xFFEFF47D, 15), (F4, 1, 0x85845DD1, 21),
     (F4, 8, 0x6FA87E4F, 6), (F4, 15, 0xFE2CE6E0, 10),
     (F4, 6, 0xA3014314, 15), (F4, 13, 0x4E0811A1, 21),
     (F4, 4, 0xF7537E82, 6), (F4, 11, 0xBD3AF235, 10),
     (F4, 2, 0x2AD7D2BB, 15), (F4, 9, 0xEB86D391, 21)]"

definition md5_step :: "u32 list \<Rightarrow> (u32 \<Rightarrow> u32 \<Rightarrow> u32 \<Rightarrow> u32) \<times> nat \<times> u32 \<times> nat \<Rightarrow> md5_regs \<Rightarrow> md5_regs" where
  "md5_step inp row regs =
     (case (row, regs) of ((f, k, c, s), (w, x, y, z)) \<Rightarrow> (z, MD5STEP f w x y z (inp ! k + c) s, x, y))"

definition MD5Transform :: "md5_regs \<Rightarrow> u32 list \<Rightarrow> md5_regs" where
  "MD5Transform bf inp =
     (case (bf, fold (md5_step inp) md5_steps bf) of
        ((a0, b0, c0, d0), (a, b, c, d)) \<Rightarrow> (a0 + a, b0 + b, c0 + c, d0 + d))"

section \<open>The context\<close>

definition MD5Init :: "MD5Context \<Rightarrow> MD5Context" where
  "MD5Init ctx = ctx\<lparr>buf := (0x67452301, 0xEFCDAB89, 0x98BADCFE, 0x10325476), bits0 := 0, bits1 := 0\<rparr>"

text \<open>\<open>MD5Transform (ctx->buf, (uint32 *) ctx->in)\<close>\<close>

definition md5_block :: "MD5Context \<Rightarrow> MD5Context" where
  "md5_block ctx = ctx\<lparr>buf := MD5Transform (buf ctx) (u32s_of (inbuf ctx))\<rparr>"

definition update_bits :: "nat \<Rightarrow> MD5Context \<Rightarrow> MD5Context" where
  "update_bits len ctx =
     (let t = bits0 ctx; b0 = t + push_bit 3 (word_of_nat len);
          b1 = (if b0 < t then bits1 ctx + 1 else bits1 ctx)
      in ctx\<lparr>bits0 := b0, bits1 := b1 + drop_bit 29 (word_of_nat len)\<rparr>)"

definition bytes_in :: "u32 \<Rightarrow> nat" where
  "bytes_in b0 = unat (drop_bit 3 b0 AND 0x3F)"

function update_blocks :: "byte list \<Rightarrow> MD5Context \<Rightarrow> MD5Context" where
  "update_blocks bs ctx =
     (if 64 \<le> length bs
      then update_blocks (drop 64 bs) (md5_block (ctx\<lparr>inbuf := blit 0 (take 64 bs) (inbuf ctx)\<rparr>))
      else ctx\<lparr>inbuf := blit 0 bs (inbuf ctx)\<rparr>)"
  by pat_completeness auto
termination by (relation "measure (\<lambda>(bs, ctx). length bs)") auto

declare update_blocks.simps [simp del]

definition MD5Update :: "MD5Context \<Rightarrow> byte list \<Rightarrow> MD5Context" where
  "MD5Update ctx bs =
     (let t = bytes_in (bits0 ctx); ctx = update_bits (length bs) ctx
      in if t \<noteq> 0 then
           if length bs < 64 - t then ctx\<lparr>inbuf := blit t bs (inbuf ctx)\<rparr>
           else update_blocks (drop (64 - t) bs)
                  (md5_block (ctx\<lparr>inbuf := blit t (take (64 - t) bs) (inbuf ctx)\<rparr>))
         else update_blocks bs ctx)"

definition regs_bytes :: "md5_regs \<Rightarrow> byte list" where
  "regs_bytes r = (case r of (a, b, c, d) \<Rightarrow> u32_bytes a @ u32_bytes b @ u32_bytes c @ u32_bytes d)"

text \<open>
  The digest and the context that is left: \<open>sizeof (ctx)\<close> is the size of a pointer, four bytes,
  so the last \<open>memset\<close> clears \<open>buf[0]\<close> only.
\<close>

definition MD5Final :: "MD5Context \<Rightarrow> byte list \<times> MD5Context" where
  "MD5Final ctx =
     (let count = bytes_in (bits0 ctx);
          ctx = ctx\<lparr>inbuf := blit count [0x80] (inbuf ctx)\<rparr>;
          p = count + 1; count = 64 - 1 - count;
          ctx = (if count < 8
                 then let ctx = md5_block (ctx\<lparr>inbuf := blit p (replicate count 0) (inbuf ctx)\<rparr>)
                      in ctx\<lparr>inbuf := blit 0 (replicate 56 0) (inbuf ctx)\<rparr>
                 else ctx\<lparr>inbuf := blit p (replicate (count - 8) 0) (inbuf ctx)\<rparr>);
          ctx = ctx\<lparr>inbuf := blit 56 (u32_bytes (bits0 ctx)) (inbuf ctx)\<rparr>;
          ctx = ctx\<lparr>inbuf := blit 60 (u32_bytes (bits1 ctx)) (inbuf ctx)\<rparr>;
          ctx = md5_block ctx
      in (regs_bytes (buf ctx), ctx\<lparr>buf := (case buf ctx of (a, b, c, d) \<Rightarrow> (0, b, c, d))\<rparr>))"

section \<open>The cookie program\<close>

definition BUFFERSIZE :: nat where "BUFFERSIZE = 4096"

text \<open>\<open>chunks\<close>: what the successive calls of \<open>read\<close> return, up to the first that gives nothing.\<close>

definition hash_file :: "MD5Context \<Rightarrow> byte list list \<Rightarrow> nat \<times> MD5Context" where
  "hash_file ctx chunks =
     (case fold (\<lambda>c (count, ctx). (count + length c, MD5Update ctx c)) chunks (0, ctx) of
        (count, ctx) \<Rightarrow> (count, MD5Update ctx [0]))"

record rng =
  path :: string
  minlength :: nat
  maxlength :: nat

definition rngs :: "rng list" where
  "rngs = [
     \<lparr>path = ''/dev/random'', minlength = 16, maxlength = 16\<rparr>,
     \<lparr>path = ''/proc/interrupts'', minlength = 0, maxlength = 0\<rparr>,
     \<lparr>path = ''/proc/slabinfo'', minlength = 0, maxlength = 0\<rparr>,
     \<lparr>path = ''/proc/stat'', minlength = 0, maxlength = 0\<rparr>,
     \<lparr>path = ''/dev/urandom'', minlength = 32, maxlength = 64\<rparr>]"

text \<open>
  The loop over the sources. \<open>dev p n\<close> is what one \<open>read\<close> of at most \<open>n\<close> bytes from \<open>p\<close> returns:
  \<open>None\<close> when \<open>p\<close> cannot be opened, the empty list when \<open>read\<close> fails or finds nothing.
\<close>

fun gather :: "(string \<Rightarrow> nat \<Rightarrow> byte list option) \<Rightarrow> rng list \<Rightarrow> MD5Context \<Rightarrow> MD5Context" where
  "gather dev [] ctx = ctx"
| "gather dev (g # gs) ctx =
     (let count = (if maxlength g \<noteq> 0 \<and> BUFFERSIZE > maxlength g then maxlength g else BUFFERSIZE)
      in case dev (path g) count of
           None \<Rightarrow> gather dev gs ctx
         | Some bs \<Rightarrow>
             let r = length bs; ctx = (if r > 0 then MD5Update ctx bs else ctx)
             in if minlength g \<noteq> 0 \<and> r \<ge> minlength g then ctx else gather dev gs ctx)"

definition hex_digit :: "nat \<Rightarrow> char" where
  "hex_digit n = (if n < 10 then char_of (48 + n) else char_of (87 + n))"

definition hex2 :: "byte \<Rightarrow> string" where
  "hex2 b = [hex_digit (unat b div 16), hex_digit (unat b mod 16)]"

text \<open>
  \<open>main\<close>: the line it prints. \<open>ctx\<close> is the uninitialised context, \<open>tv\<close>, \<open>ppid\<close> and \<open>pid\<close> the bytes of
  the three variables, \<open>file\<close> the reads of the \<open>-f\<close> file if one was given and could be opened.
\<close>

definition mcookie_main ::
    "MD5Context \<Rightarrow> byte list \<Rightarrow> byte list \<Rightarrow> byte list \<Rightarrow> byte list list option \<Rightarrow>
     (string \<Rightarrow> nat \<Rightarrow> byte list option) \<Rightarrow> string" where
  "mcookie_main ctx tv ppid pid file dev =
     (let ctx = MD5Init ctx; ctx = MD5Update ctx tv; ctx = MD5Update ctx ppid; ctx = MD5Update ctx pid;
          ctx = (case file of None \<Rightarrow> ctx | Some chunks \<Rightarrow> snd (hash_file ctx chunks));
          ctx = gather dev rngs ctx
      in concat (map hex2 (fst (MD5Final ctx))) @ [CHR 0x0A])"

section \<open>The bit counter\<close>

definition bit_count :: "MD5Context \<Rightarrow> nat" where
  "bit_count ctx = unat (bits0 ctx) + 2 ^ 32 * unat (bits1 ctx)"

definition with_count :: "nat \<Rightarrow> MD5Context \<Rightarrow> MD5Context" where
  "with_count n ctx = ctx\<lparr>bits0 := word_of_nat n, bits1 := word_of_nat (n div 2 ^ 32)\<rparr>"

lemma unat_u32_less [simp]: "unat (w :: u32) < 4294967296"
  using unsigned_less [of w, where ?'a = nat] by simp

lemma bit_count_bound: "bit_count ctx < 2 ^ 64"
proof -
  have "unat (bits1 ctx) < 4294967296" by (rule unat_u32_less)
  moreover have "unat (bits0 ctx) < 4294967296" by (rule unat_u32_less)
  ultimately have "unat (bits0 ctx) + 4294967296 * unat (bits1 ctx) < 18446744073709551616" by linarith
  then show ?thesis by (simp add: bit_count_def)
qed

lemma u32_wrap: "4294967296 * (w :: u32) = 0"
proof -
  have "(4294967296 :: u32) = 0" by simp
  then show ?thesis by (simp only: mult_zero_left)
qed

lemma with_count_bit_count [simp]: "with_count (bit_count ctx) ctx = ctx"
proof -
  have "unat (bits0 ctx) < 4294967296" by simp
  then have "(unat (bits0 ctx) + 4294967296 * unat (bits1 ctx)) div 4294967296 = unat (bits1 ctx)" by simp
  moreover have "word_of_nat (unat (bits0 ctx) + 4294967296 * unat (bits1 ctx)) = bits0 ctx"
    by (simp add: u32_wrap)
  ultimately show ?thesis by (simp add: with_count_def bit_count_def)
qed

lemma bit_count_with_count: "bit_count (with_count n ctx) = n mod 2 ^ 64"
  by (simp add: bit_count_def with_count_def unat_of_nat take_bit_eq_mod mod_mult2_eq [of n "4294967296" "4294967296", simplified])

lemma with_count_eqI:
  assumes "m mod 2 ^ 64 = n mod 2 ^ 64" shows "with_count m ctx = with_count n ctx"
proof -
  have a: "m mod (2 ^ 32 * 2 ^ 32) = n mod (2 ^ 32 * 2 ^ 32)" using assms by (simp only: power_add [symmetric]) simp
  have lo: "m mod 2 ^ 32 = n mod 2 ^ 32"
    using arg_cong [OF a, of "\<lambda>x. x mod 2 ^ 32"] by (simp add: mod_mod_cancel)
  have hi: "m div 2 ^ 32 mod 2 ^ 32 = n div 2 ^ 32 mod 2 ^ 32"
    using a lo unfolding mod_mult2_eq by simp
  show ?thesis using lo hi
    by (simp add: with_count_def word_of_nat_eq_iff take_bit_eq_mod)
qed

lemma carry_arith:
  fixes t n :: nat
  assumes "t < 2 ^ 32"
  shows "(t + 8 * n) div 2 ^ 32 = (if (t + 8 * n) mod 2 ^ 32 < t then 1 else 0) + n div 2 ^ 29"
proof -
  define q where "q = n div 2 ^ 29"
  define r where "r = n mod 2 ^ 29"
  have n: "n = 2 ^ 29 * q + r" and r: "r < 2 ^ 29" by (simp_all add: q_def r_def)
  have e: "t + 8 * n = t + 8 * r + q * 2 ^ 32" by (simp add: n)
  have d: "(t + 8 * n) div 2 ^ 32 = (t + 8 * r) div 2 ^ 32 + q" unfolding e by simp
  have m: "(t + 8 * n) mod 2 ^ 32 = (t + 8 * r) mod 2 ^ 32" unfolding e by simp
  show ?thesis
  proof (cases "t + 8 * r < 2 ^ 32")
    case True
    then show ?thesis unfolding d m q_def [symmetric] by simp
  next
    case False
    define x where "x = t + 8 * r - 2 ^ 32"
    have x: "t + 8 * r = x + 1 * 2 ^ 32" and "x < 2 ^ 32" "x < t" using assms r False by (simp_all add: x_def)
    then have "(t + 8 * r) div 2 ^ 32 = 1" "(t + 8 * r) mod 2 ^ 32 < t"
      unfolding x by simp_all
    then show ?thesis unfolding d m q_def [symmetric] by simp
  qed
qed

lemma update_bits_count: "update_bits n ctx = with_count (bit_count ctx + 8 * n) ctx" if "n < 2 ^ 32"
proof -
  have lo: "bits0 ctx + push_bit 3 (word_of_nat n) = word_of_nat (bit_count ctx + 8 * n)"
    by (simp add: bit_count_def u32_wrap push_bit_eq_mult)
  have lt: "bits0 ctx + push_bit 3 (word_of_nat n) < bits0 ctx \<longleftrightarrow>
      (unat (bits0 ctx) + 8 * n) mod 2 ^ 32 < unat (bits0 ctx)"
    by (simp add: word_less_nat_alt push_bit_eq_mult unat_word_ariths unat_of_nat mod_simps mult.commute)
  have hi: "(bit_count ctx + 8 * n) div 2 ^ 32 =
      unat (bits1 ctx) + (unat (bits0 ctx) + 8 * n) div 2 ^ 32"
    by (simp add: bit_count_def)
  have dr: "drop_bit 29 (word_of_nat n) = (word_of_nat (n div 2 ^ 29) :: u32)"
  proof -
    have "unat (drop_bit 29 (word_of_nat n :: u32)) = n div 2 ^ 29"
      using that unfolding unat_drop_bit_eq by (simp add: unat_of_nat take_bit_eq_mod drop_bit_eq_div)
    then have "word_of_nat (unat (drop_bit 29 (word_of_nat n :: u32))) = (word_of_nat (n div 2 ^ 29) :: u32)"
      by (rule arg_cong)
    then show ?thesis unfolding Word.of_nat_unat by simp
  qed
  have u: "unat (bits0 ctx) < 2 ^ 32" by simp
  show ?thesis
    unfolding update_bits_def Let_def with_count_def lo [symmetric] hi lt carry_arith [OF u] dr
    by simp
qed

lemma bytes_in_count: "bytes_in (bits0 ctx) = bit_count ctx div 8 mod 64"
proof -
  have "(0x3F :: u32) = mask 6" by (simp add: mask_eq_exp_minus_1)
  then have "bytes_in (bits0 ctx) = unat (take_bit 6 (drop_bit 3 (bits0 ctx)))"
    by (simp only: bytes_in_def take_bit_eq_mask)
  also have "\<dots> = unat (bits0 ctx) div 8 mod 64"
    by (simp only: unsigned_take_bit_eq unat_drop_bit_eq) (simp add: take_bit_eq_mod drop_bit_eq_div)
  also have "\<dots> = bit_count ctx div 8 mod 64"
  proof -
    have "(a + 8 * (64 * z)) div 8 mod 64 = a div 8 mod 64" for a z :: nat
      by (subst div_mult_self2) simp_all
    moreover have "bit_count ctx = unat (bits0 ctx) + 8 * (64 * (8388608 * unat (bits1 ctx)))"
      by (simp add: bit_count_def)
    ultimately show ?thesis by (simp only:)
  qed
  finally show ?thesis .
qed

section \<open>One byte at a time\<close>

text \<open>The reference: a byte is stored at its place in the block, and a full block is hashed.\<close>

definition absorb :: "byte \<Rightarrow> MD5Context \<Rightarrow> MD5Context" where
  "absorb b ctx =
     (let t = bytes_in (bits0 ctx);
          ctx = (with_count (bit_count ctx + 8) ctx)\<lparr>inbuf := (inbuf ctx)[t := b]\<rparr>
      in if t = 63 then md5_block ctx else ctx)"

lemma with_count_simps [simp]:
  "inbuf (with_count n ctx) = inbuf ctx" "buf (with_count n ctx) = buf ctx"
  "with_count m (with_count n ctx) = with_count m ctx"
  "md5_block (with_count n ctx) = with_count n (md5_block ctx)"
  "(with_count n ctx)\<lparr>inbuf := bs\<rparr> = with_count n (ctx\<lparr>inbuf := bs\<rparr>)"
  "inbuf (md5_block ctx) = inbuf ctx"
  "bits0 (md5_block ctx) = bits0 ctx" "bits1 (md5_block ctx) = bits1 ctx"
  "bit_count (md5_block ctx) = bit_count ctx" "bit_count (ctx\<lparr>inbuf := bs\<rparr>) = bit_count ctx"
  by (simp_all add: with_count_def md5_block_def bit_count_def)

lemma with_count_add: "with_count (bit_count (with_count n ctx) + k) ctx' = with_count (n + k) ctx'"
  by (rule with_count_eqI) (simp add: bit_count_with_count mod_simps)

definition at_byte :: "MD5Context \<Rightarrow> nat" where
  "at_byte ctx = bit_count ctx div 8 mod 64"

lemma at_byte_less [simp]: "at_byte ctx < 64" by (simp add: at_byte_def)

lemma at_byte_simps [simp]:
  "at_byte (md5_block ctx) = at_byte ctx" "at_byte (ctx\<lparr>inbuf := bs\<rparr>) = at_byte ctx"
  by (simp_all add: at_byte_def)

lemma at_byte_with_count: "at_byte (with_count n ctx) = n div 8 mod 64"
proof -
  have e: "x div 8 mod 64 = x mod (8 * 64) div 8" for x :: nat unfolding mod_mult2_eq by simp
  have "n div 8 mod 64 = n mod (8 * 64) div 8" by (rule e)
  moreover have "n mod 2 ^ 64 div 8 mod 64 = n mod 2 ^ 64 mod (8 * 64) div 8" by (rule e)
  moreover have "n mod 2 ^ 64 mod (8 * 64) = n mod (8 * 64)" by (simp add: mod_mod_cancel)
  ultimately show ?thesis by (simp only: at_byte_def bit_count_with_count)
qed

lemma at_byte_step: "at_byte (with_count (bit_count ctx + 8 * k) ctx') = (at_byte ctx + k) mod 64"
  by (simp add: at_byte_with_count) (simp add: at_byte_def mod_simps add.commute)

lemma blit_Cons: "t < length l \<Longrightarrow> blit (Suc t) xs (l[t := x]) = blit t (x # xs) l"
  by (simp add: blit_def take_Suc_conv_app_nth)

lemma blit_snoc:
  assumes "t + length ys < length l"
  shows "(blit t ys l)[t + length ys := x] = blit t (ys @ [x]) l"
proof -
  have "drop (t + length ys) l = l ! (t + length ys) # drop (Suc (t + length ys)) l"
    using assms by (rule Cons_nth_drop_Suc [symmetric])
  then show ?thesis using assms by (simp add: blit_def list_update_append)
qed

lemma absorb_part:
  assumes "at_byte ctx + length xs < 64" and "length (inbuf ctx) = 64"
  shows "fold absorb xs ctx =
    with_count (bit_count ctx + 8 * length xs) (ctx\<lparr>inbuf := blit (at_byte ctx) xs (inbuf ctx)\<rparr>)"
  using assms
proof (induction xs arbitrary: ctx)
  case Nil
  then show ?case by simp
next
  case (Cons x xs)
  let ?c = "with_count (bit_count ctx + 8) (ctx\<lparr>inbuf := (inbuf ctx)[at_byte ctx := x]\<rparr>)"
  have t: "bytes_in (bits0 ctx) = at_byte ctx" "at_byte ctx \<noteq> 63" "at_byte ctx < length (inbuf ctx)"
    using Cons.prems by (simp_all add: bytes_in_count at_byte_def)
  have a: "absorb x ctx = ?c" using t by (simp add: absorb_def Let_def)
  have p: "at_byte ?c = Suc (at_byte ctx)"
    using at_byte_step [of ctx 1 "ctx\<lparr>inbuf := (inbuf ctx)[at_byte ctx := x]\<rparr>"] Cons.prems(1) by simp
  have "fold absorb xs ?c =
     with_count (bit_count ?c + 8 * length xs) (?c\<lparr>inbuf := blit (at_byte ?c) xs (inbuf ?c)\<rparr>)"
    using Cons.prems p by (intro Cons.IH) simp_all
  then show ?case
    using t by (simp add: a p with_count_add blit_Cons add.assoc)
qed

lemma absorb_block:
  assumes "at_byte ctx + length xs = 64" and "length (inbuf ctx) = 64"
  shows "fold absorb xs ctx =
    with_count (bit_count ctx + 8 * length xs) (md5_block (ctx\<lparr>inbuf := blit (at_byte ctx) xs (inbuf ctx)\<rparr>))"
proof -
  from assms(1) have "xs \<noteq> []" using at_byte_less [of ctx] by (metis add.right_neutral list.size(3) nat_neq_iff)
  then obtain ys x where xs: "xs = ys @ [x]" by (metis append_butlast_last_id)
  let ?c = "with_count (bit_count ctx + 8 * length ys) (ctx\<lparr>inbuf := blit (at_byte ctx) ys (inbuf ctx)\<rparr>)"
  have f: "fold absorb ys ctx = ?c" using assms xs by (intro absorb_part) simp_all
  have p: "at_byte ?c = 63" using assms(1) xs by (simp add: at_byte_step)
  then have b: "bytes_in (bits0 ?c) = 63" by (simp add: bytes_in_count at_byte_def)
  have l: "(blit (at_byte ctx) ys (inbuf ctx))[63 := x] = blit (at_byte ctx) xs (inbuf ctx)"
    using blit_snoc [of "at_byte ctx" ys "inbuf ctx" x] assms xs by simp
  show ?thesis
    using b l by (simp add: xs f absorb_def Let_def with_count_add) (simp add: ac_simps)
qed

lemma update_blocks_with_count [simp]:
  "update_blocks bs (with_count n ctx) = with_count n (update_blocks bs ctx)"
proof (induction bs ctx rule: update_blocks.induct)
  case (1 bs ctx)
  then show ?case by (subst (1 2) update_blocks.simps) simp
qed

lemma absorb_blocks:
  assumes "at_byte ctx = 0" and "length (inbuf ctx) = 64"
  shows "fold absorb xs ctx = with_count (bit_count ctx + 8 * length xs) (update_blocks xs ctx)"
  using assms
proof (induction xs arbitrary: ctx rule: length_induct)
  case (1 xs)
  show ?case
  proof (cases "64 \<le> length xs")
    case False
    then show ?thesis using 1(2,3) absorb_part [of ctx xs] by (subst update_blocks.simps) simp
  next
    case True
    let ?c = "md5_block (ctx\<lparr>inbuf := blit 0 (take 64 xs) (inbuf ctx)\<rparr>)"
    let ?d = "with_count (bit_count ctx + 8 * 64) ?c"
    have "fold absorb (take 64 xs) ctx = ?d"
      using True 1(2,3) absorb_block [of ctx "take 64 xs"] by simp
    then have s: "fold absorb xs ctx = fold absorb (drop 64 xs) ?d"
      by (metis append_take_drop_id fold_append o_apply)
    have p: "at_byte ?d = 0" using 1(2) at_byte_step [of ctx 64 ?c] by simp
    have "fold absorb (drop 64 xs) ?d = with_count (bit_count ?d + 8 * length (drop 64 xs)) (update_blocks (drop 64 xs) ?d)"
      using 1(1) True p 1(3) by simp
    also have "\<dots> = with_count (bit_count ctx + 8 * 64 + 8 * length (drop 64 xs)) (update_blocks (drop 64 xs) ?c)"
      by (simp only: with_count_add update_blocks_with_count with_count_simps)
    also have "8 * 64 + 8 * length (drop 64 xs) = 8 * length xs" using True by simp
    then have "bit_count ctx + 8 * 64 + 8 * length (drop 64 xs) = bit_count ctx + 8 * length xs" by linarith
    finally show ?thesis using True s by (subst update_blocks.simps) simp
  qed
qed

lemma MD5Update_fold:
  assumes "length xs < 2 ^ 32" and "length (inbuf ctx) = 64"
  shows "MD5Update ctx xs = fold absorb xs ctx"
proof -
  let ?t = "at_byte ctx" and ?n = "bit_count ctx + 8 * length xs"
  have t: "bytes_in (bits0 ctx) = ?t" by (simp add: bytes_in_count at_byte_def)
  show ?thesis
  proof (cases "?t = 0")
    case True
    then show ?thesis
      using absorb_blocks [OF _ assms(2)] by (simp add: MD5Update_def t Let_def update_bits_count [OF assms(1)])
  next
    case False
    show ?thesis
    proof (cases "length xs < 64 - ?t")
      case True
      then have "?t + length xs < 64" by linarith
      from absorb_part [OF this assms(2)] show ?thesis
        using False True by (simp add: MD5Update_def t Let_def update_bits_count [OF assms(1)])
    next
      case le: False
      let ?ys = "take (64 - ?t) xs" and ?zs = "drop (64 - ?t) xs"
      let ?c = "md5_block (ctx\<lparr>inbuf := blit ?t ?ys (inbuf ctx)\<rparr>)"
      let ?d = "with_count (bit_count ctx + 8 * length ?ys) ?c"
      have l: "?t + length ?ys = 64" using le at_byte_less [of ctx] unfolding length_take by linarith
      have y: "fold absorb ?ys ctx = ?d" by (rule absorb_block [OF l assms(2)])
      have "at_byte ?d = 0" unfolding at_byte_step l by simp
      moreover have "length (inbuf ?d) = 64" using l assms(2) by simp
      ultimately have "fold absorb ?zs ?d = with_count (bit_count ?d + 8 * length ?zs) (update_blocks ?zs ?d)"
        by (rule absorb_blocks)
      also have "\<dots> = with_count (bit_count ctx + 8 * length ?ys + 8 * length ?zs) (update_blocks ?zs ?c)"
        by (simp only: with_count_add update_blocks_with_count with_count_simps)
      also have "length ?ys + length ?zs = length xs" by simp
      then have "bit_count ctx + 8 * length ?ys + 8 * length ?zs = ?n" by linarith
      finally have "fold absorb ?zs ?d = with_count ?n (update_blocks ?zs ?c)" .
      moreover have "fold absorb xs ctx = fold absorb ?zs (fold absorb ?ys ctx)"
        by (metis append_take_drop_id fold_append o_apply)
      ultimately show ?thesis
        using False le by (simp add: MD5Update_def t y Let_def update_bits_count [OF assms(1)])
    qed
  qed
qed

lemma length_inbuf_absorb [simp]: "length (inbuf (absorb b ctx)) = length (inbuf ctx)"
  by (simp add: absorb_def Let_def)

lemma length_inbuf_fold [simp]: "length (inbuf (fold absorb bs ctx)) = length (inbuf ctx)"
  by (induction bs arbitrary: ctx) simp_all

section \<open>The digest\<close>

text \<open>The padding of RFC 1321: a one bit, zero bits, and the length in bits, low byte first.\<close>

definition md5_iv :: md5_regs where
  "md5_iv = (0x67452301, 0xEFCDAB89, 0x98BADCFE, 0x10325476)"

definition md5_tail :: "nat \<Rightarrow> byte list \<Rightarrow> byte list" where
  "md5_tail t len8 = [0x80] @ replicate (if t < 56 then 55 - t else 119 - t) 0 @ len8"

definition md5_pad :: "byte list \<Rightarrow> byte list" where
  "md5_pad m = m @ md5_tail (length m mod 64) (le_bytes 8 (8 * length m))"

function blocks64 :: "byte list \<Rightarrow> byte list list" where
  "blocks64 bs = (if 64 \<le> length bs then take 64 bs # blocks64 (drop 64 bs) else [])"
  by pat_completeness auto
termination by (relation "measure length") auto

declare blocks64.simps [simp del]

definition md5_spec :: "byte list \<Rightarrow> byte list" where
  "md5_spec m = regs_bytes (fold (\<lambda>b r. MD5Transform r (u32s_of b)) (blocks64 (md5_pad m)) md5_iv)"

lemma length_md5_tail:
  assumes "t < 64" and "length len8 = 8"
  shows "t + length (md5_tail t len8) = (if t < 56 then 64 else 128)"
  using assms by (simp add: md5_tail_def)

lemma md5_pad_blocks: "64 dvd length (md5_pad m)"
proof -
  let ?t = "length m mod 64"
  have "?t + length (md5_tail ?t (le_bytes 8 (8 * length m))) = (if ?t < 56 then 64 else 128)"
    by (rule length_md5_tail) simp_all
  then have "64 dvd ?t + length (md5_tail ?t (le_bytes 8 (8 * length m)))" by (simp split: if_splits)
  moreover have "length (md5_pad m) = 64 * (length m div 64) + (?t + length (md5_tail ?t (le_bytes 8 (8 * length m))))"
    by (simp add: md5_pad_def)
  ultimately show ?thesis by (metis dvd_add dvd_triv_left)
qed

lemma buf_update_blocks:
  assumes "length (inbuf ctx) = 64"
  shows "buf (update_blocks xs ctx) = fold (\<lambda>b r. MD5Transform r (u32s_of b)) (blocks64 xs) (buf ctx)"
  using assms
proof (induction xs ctx rule: update_blocks.induct)
  case (1 xs ctx)
  show ?case
  proof (cases "64 \<le> length xs")
    case True
    then show ?thesis using 1
      by (subst update_blocks.simps, subst blocks64.simps) (simp add: md5_block_def)
  next
    case False
    then show ?thesis
      by (subst update_blocks.simps, subst blocks64.simps) simp
  qed
qed

lemma le_bytes_mod: "le_bytes n (x mod 256 ^ n) = le_bytes n x"
proof (induction n arbitrary: x)
  case 0
  then show ?case by simp
next
  case (Suc n)
  have "x mod 256 ^ Suc n = 256 * (x div 256 mod 256 ^ n) + x mod 256"
    by (simp only: power_Suc mod_mult2_eq)
  then show ?case using Suc [of "x div 256"] by simp
qed

lemma le_bytes_add: "le_bytes (m + n) x = le_bytes m x @ le_bytes n (x div 256 ^ m)"
  by (induction m arbitrary: x) (simp_all add: div_mult2_eq)

lemma u32_bytes_nat: "u32_bytes (word_of_nat n) = le_bytes 4 n"
  using le_bytes_mod [of 4 n] by (simp add: u32_bytes_def unat_of_nat take_bit_eq_mod)

lemma bits_bytes:
  "u32_bytes (bits0 (with_count n ctx)) @ u32_bytes (bits1 (with_count n ctx)) = le_bytes 8 n"
  using le_bytes_add [of 4 4 n] by (simp add: with_count_def u32_bytes_nat)

text \<open>\<open>MD5Final\<close> feeds the padding.\<close>

definition count_bytes :: "MD5Context \<Rightarrow> byte list" where
  "count_bytes ctx = u32_bytes (bits0 ctx) @ u32_bytes (bits1 ctx)"

lemma blit_join: "j = i + length xs \<Longrightarrow> j + length ys \<le> length l \<Longrightarrow> blit j ys (blit i xs l) = blit i (xs @ ys) l"
  using blit_blit [of i xs ys l] by simp

lemma bits_inbuf [simp]: "bits0 (ctx\<lparr>inbuf := x\<rparr>) = bits0 ctx" "bits1 (ctx\<lparr>inbuf := x\<rparr>) = bits1 ctx"
  by simp_all

lemma tail_small:
  assumes "t < 56" "length l = 64" "length a = 4" "length b = 4"
  shows "blit 60 b (blit 56 a (blit (t + 1) (replicate (55 - t) 0) (blit t [x] l))) =
    blit t ([x] @ replicate (55 - t) 0 @ a @ b) l"
proof -
  have "blit (t + 1) (replicate (55 - t) 0) (blit t [x] l) = blit t ([x] @ replicate (55 - t) 0) l"
    by (rule blit_join) (use assms in simp_all)
  moreover have "blit 56 a (blit t ([x] @ replicate (55 - t) 0) l) = blit t (([x] @ replicate (55 - t) 0) @ a) l"
    by (rule blit_join) (use assms in simp_all)
  moreover have "blit 60 b (blit t (([x] @ replicate (55 - t) 0) @ a) l) = blit t ((([x] @ replicate (55 - t) 0) @ a) @ b) l"
    by (rule blit_join) (use assms in simp_all)
  ultimately show ?thesis by (simp only: append_assoc)
qed

lemma tail_large:
  assumes "length l = 64" "length a = 4" "length b = 4"
  shows "blit 60 b (blit 56 a (blit 0 (replicate 56 0) l)) = blit 0 (replicate 56 0 @ a @ b) l"
proof -
  have "blit 56 a (blit 0 (replicate 56 0) l) = blit 0 (replicate 56 0 @ a) l"
    by (rule blit_join) (use assms in simp_all)
  moreover have "blit 60 b (blit 0 (replicate 56 0 @ a) l) = blit 0 ((replicate 56 0 @ a) @ b) l"
    by (rule blit_join) (use assms in simp_all)
  ultimately show ?thesis by (simp only: append_assoc)
qed

lemma MD5Context_inbuf_twice [simp]: "ctx\<lparr>inbuf := x\<rparr>\<lparr>inbuf := y\<rparr> = ctx\<lparr>inbuf := y\<rparr>"
  by simp

lemma final_small:
  assumes "length (inbuf ctx) = 64" and "at_byte ctx < 56"
  shows "MD5Final ctx =
    (let c = md5_block (ctx\<lparr>inbuf := blit (at_byte ctx) (md5_tail (at_byte ctx) (count_bytes ctx)) (inbuf ctx)\<rparr>)
     in (regs_bytes (buf c), c\<lparr>buf := (case buf c of (a, b, c, d) \<Rightarrow> (0, b, c, d))\<rparr>))"
proof -
  have t: "bytes_in (bits0 ctx) = at_byte ctx" by (simp add: bytes_in_count at_byte_def)
  have n: "\<not> 64 - 1 - at_byte ctx < 8" "64 - 1 - at_byte ctx - 8 = 55 - at_byte ctx" using assms(2) by linarith+
  have "blit 60 (u32_bytes (bits1 ctx)) (blit 56 (u32_bytes (bits0 ctx))
      (blit (at_byte ctx + 1) (replicate (55 - at_byte ctx) 0) (blit (at_byte ctx) [0x80] (inbuf ctx)))) =
     blit (at_byte ctx) (md5_tail (at_byte ctx) (count_bytes ctx)) (inbuf ctx)"
    using assms by (subst tail_small) (simp_all add: md5_tail_def count_bytes_def)
  then show ?thesis
    unfolding MD5Final_def t Let_def if_not_P [OF n(1)] n(2) by simp
qed

lemma final_large:
  assumes "length (inbuf ctx) = 64" and "\<not> at_byte ctx < 56"
  shows "MD5Final ctx =
    (let c1 = md5_block (ctx\<lparr>inbuf := blit (at_byte ctx) ([0x80] @ replicate (63 - at_byte ctx) 0) (inbuf ctx)\<rparr>);
         c = md5_block (c1\<lparr>inbuf := blit 0 (replicate 56 0 @ count_bytes ctx) (inbuf c1)\<rparr>)
     in (regs_bytes (buf c), c\<lparr>buf := (case buf c of (a, b, c, d) \<Rightarrow> (0, b, c, d))\<rparr>))"
proof -
  have t: "bytes_in (bits0 ctx) = at_byte ctx" by (simp add: bytes_in_count at_byte_def)
  have lt: "at_byte ctx < 64" by simp
  have n: "64 - 1 - at_byte ctx < 8" "64 - 1 - at_byte ctx = 63 - at_byte ctx" using assms(2) lt by linarith+
  let ?l = "blit (at_byte ctx) ([0x80] @ replicate (63 - at_byte ctx) 0) (inbuf ctx)"
  have a: "blit (at_byte ctx + 1) (replicate (63 - at_byte ctx) 0) (blit (at_byte ctx) [0x80] (inbuf ctx)) = ?l"
  proof (rule blit_join)
    show "at_byte ctx + 1 + length (replicate (63 - at_byte ctx) (0 :: byte)) \<le> length (inbuf ctx)"
      using assms lt unfolding length_replicate by linarith
  qed simp
  have "at_byte ctx + length ([0x80 :: byte] @ replicate (63 - at_byte ctx) 0) \<le> length (inbuf ctx)"
    using assms lt unfolding length_append length_replicate list.size by linarith
  then have "length ?l = 64" using assms(1) by (simp only: length_blit)
  then have b: "blit 60 (u32_bytes (bits1 ctx)) (blit 56 (u32_bytes (bits0 ctx)) (blit 0 (replicate 56 0) ?l)) =
     blit 0 (replicate 56 0 @ count_bytes ctx) ?l"
    unfolding count_bytes_def by (rule tail_large) simp_all
  show ?thesis
    unfolding MD5Final_def t Let_def n(2) if_P [OF n(1) [unfolded n(2)]] using a b by simp
qed

lemma final_digest:
  assumes "length (inbuf ctx) = 64"
  shows "fst (MD5Final ctx) = regs_bytes (buf (fold absorb (md5_tail (at_byte ctx) (count_bytes ctx)) ctx))"
proof (cases "at_byte ctx < 56")
  case True
  have l: "at_byte ctx + length (md5_tail (at_byte ctx) (count_bytes ctx)) = 64"
    using True by (simp add: md5_tail_def count_bytes_def)
  show ?thesis
    using absorb_block [OF l assms] by (simp add: final_small [OF assms True] Let_def)
next
  case False
  let ?xs = "[0x80 :: byte] @ replicate (63 - at_byte ctx) 0" and ?ys = "replicate 56 0 @ count_bytes ctx"
  have lt: "at_byte ctx < 64" by simp
  have p: "md5_tail (at_byte ctx) (count_bytes ctx) = ?xs @ ?ys"
  proof -
    have "119 - at_byte ctx = (63 - at_byte ctx) + 56" using False lt by linarith
    then have "replicate (119 - at_byte ctx) (0 :: byte) = replicate (63 - at_byte ctx) 0 @ replicate 56 0"
      by (simp only: replicate_add)
    then show ?thesis unfolding md5_tail_def if_not_P [OF False] by (simp only: append_assoc)
  qed
  have l: "at_byte ctx + length ?xs = 64"
    using lt unfolding length_append length_replicate list.size by linarith
  let ?c = "fold absorb ?xs ctx"
  have c: "?c = with_count (bit_count ctx + 8 * length ?xs) (md5_block (ctx\<lparr>inbuf := blit (at_byte ctx) ?xs (inbuf ctx)\<rparr>))"
    by (rule absorb_block [OF l assms])
  have z: "at_byte ?c = 0" unfolding c at_byte_step l by simp
  have l2: "at_byte ?c + length ?ys = 64" unfolding z by (simp add: count_bytes_def)
  have m: "length (inbuf ?c) = 64" using assms by (simp only: length_inbuf_fold)
  define c1 where "c1 = md5_block (ctx\<lparr>inbuf := blit (at_byte ctx) ?xs (inbuf ctx)\<rparr>)"
  have y: "fold absorb ?ys ?c = with_count (bit_count ?c + 8 * length ?ys) (md5_block (?c\<lparr>inbuf := blit 0 ?ys (inbuf ?c)\<rparr>))"
    using absorb_block [OF l2 m] unfolding z .
  have "buf (fold absorb ?ys ?c) = buf (md5_block (c1\<lparr>inbuf := blit 0 ?ys (inbuf c1)\<rparr>))"
    unfolding y unfolding c c1_def [symmetric] by (simp only: with_count_simps)
  then show ?thesis
    unfolding p fold_append o_apply final_large [OF assms False] Let_def fst_conv c1_def by simp
qed

text \<open>The digest of a context that has absorbed a message since \<open>MD5Init\<close>.\<close>

lemma init_facts:
  "bit_count (MD5Init ctx) = 0" "buf (MD5Init ctx) = md5_iv" "inbuf (MD5Init ctx) = inbuf ctx"
  by (simp_all add: MD5Init_def bit_count_def md5_iv_def)

lemma bit_count_fold:
  assumes "length (inbuf ctx) = 64"
  shows "bit_count (fold absorb m ctx) = (bit_count ctx + 8 * length m) mod 2 ^ 64"
  using assms
proof (induction m arbitrary: ctx)
  case Nil
  then show ?case using bit_count_bound [of ctx] by simp
next
  case (Cons x m)
  have "bit_count (absorb x ctx) = (bit_count ctx + 8) mod 2 ^ 64"
    by (simp add: absorb_def Let_def bit_count_with_count)
  then show ?case using Cons by (simp add: mod_simps add.assoc)
qed

lemma buf_with_count [simp]: "buf (with_count n ctx) = buf ctx"
  by simp

lemma final_of_message:
  assumes "length (inbuf ctx) = 64"
  shows "fst (MD5Final (fold absorb m (MD5Init ctx))) = md5_spec m"
proof -
  let ?c = "fold absorb m (MD5Init ctx)"
  have bc: "bit_count ?c = 8 * length m mod 2 ^ 64"
    using assms by (simp add: bit_count_fold init_facts)
  have at: "at_byte ?c = length m mod 64"
    using at_byte_with_count [of "8 * length m" ?c] by (simp add: at_byte_def bc bit_count_with_count)
  have "?c = with_count (8 * length m) ?c"
    using with_count_bit_count [of ?c] with_count_eqI [of "bit_count ?c" "8 * length m" ?c] by (simp add: bc)
  then have cb: "count_bytes ?c = le_bytes 8 (8 * length m)"
    unfolding count_bytes_def by (metis bits_bytes)
  have l: "length (inbuf ?c) = 64" using assms by (simp add: init_facts)
  have l0: "length (inbuf (MD5Init ctx)) = 64" and a0: "at_byte (MD5Init ctx) = 0"
    using assms by (simp_all add: init_facts at_byte_def)
  have "fst (MD5Final ?c) = regs_bytes (buf (fold absorb (md5_pad m) (MD5Init ctx)))"
    by (simp only: final_digest [OF l] at cb md5_pad_def fold_append o_apply)
  also have "buf (fold absorb (md5_pad m) (MD5Init ctx)) = buf (update_blocks (md5_pad m) (MD5Init ctx))"
    by (simp only: absorb_blocks [OF a0 l0] buf_with_count)
  also have "\<dots> = fold (\<lambda>b r. MD5Transform r (u32s_of b)) (blocks64 (md5_pad m)) md5_iv"
    by (simp only: buf_update_blocks [OF l0] init_facts)
  finally show ?thesis by (simp only: md5_spec_def)
qed

section \<open>Hashing a stream\<close>

text \<open>
  What the clients of the hash rely on: two updates are one update with the joined bytes, as
  long as the joined bytes are a possible argument.
\<close>

locale stream_hash =
  fixes upd :: "'c \<Rightarrow> byte list \<Rightarrow> 'c"
    and valid :: "'c \<Rightarrow> bool"
    and small :: "byte list \<Rightarrow> bool"
  assumes upd_valid: "valid c \<Longrightarrow> small xs \<Longrightarrow> valid (upd c xs)"
    and upd_Nil: "valid c \<Longrightarrow> upd c [] = c"
    and upd_upd: "valid c \<Longrightarrow> small (xs @ ys) \<Longrightarrow> upd (upd c xs) ys = upd c (xs @ ys)"
    and small_parts: "small (xs @ ys) \<Longrightarrow> small xs \<and> small ys"
begin

lemma upd_chunks: "valid c \<Longrightarrow> small (concat cs) \<Longrightarrow> fold (\<lambda>x c. upd c x) cs c = upd c (concat cs)"
proof (induction cs arbitrary: c)
  case Nil
  then show ?case by (simp add: upd_Nil)
next
  case (Cons x cs)
  then show ?case using small_parts [of x "concat cs"] by (simp add: upd_valid upd_upd)
qed

lemma counting_chunks:
  "fold (\<lambda>x (n, c). (n + length x, upd c x)) cs (n, c) =
    (n + length (concat cs), fold (\<lambda>x c. upd c x) cs c)"
  by (induction cs arbitrary: n c) simp_all

lemma upd_chunks_then:
  assumes "valid c" and "small (concat cs @ ys)"
  shows "upd (fold (\<lambda>x c. upd c x) cs c) ys = upd c (concat cs @ ys)"
  using upd_chunks [OF assms(1)] upd_upd [OF assms] small_parts [OF assms(2)] by simp

end

interpretation md5: stream_hash MD5Update "\<lambda>c. length (inbuf c) = 64" "\<lambda>bs. length bs < 2 ^ 32"
  by unfold_locales (simp_all add: MD5Update_fold)

lemma hash_file_eq:
  assumes "length (inbuf ctx) = 64" and "length (concat chunks) + 1 < 2 ^ 32"
  shows "hash_file ctx chunks = (length (concat chunks), MD5Update ctx (concat chunks @ [0]))"
  using md5.upd_chunks_then [OF assms(1), of chunks "[0]"] assms(2)
  by (simp add: hash_file_def md5.counting_chunks)

section \<open>Properties of the cookie program\<close>

lemma fold_MD5Update:
  assumes "length (inbuf ctx) = 64" and "\<forall>c \<in> set chunks. length c < 2 ^ 32"
  shows "fold (\<lambda>x c. MD5Update c x) chunks ctx = fold absorb (concat chunks) ctx"
  using assms by (induction chunks arbitrary: ctx) (simp_all add: MD5Update_fold)

text \<open>C4. MD5 as specified, whatever way the message is cut: the digest of a context initialised by
  \<open>MD5Init\<close> and updated with any sequence of buffers is the digest of the concatenated message in the
  padded-block definition of RFC 1321. What the context held before does not matter.\<close>

theorem md5_digest_spec:
  assumes "length (inbuf ctx) = 64" and "\<forall>c \<in> set chunks. length c < 2 ^ 32"
  shows "fst (MD5Final (fold (\<lambda>x c. MD5Update c x) chunks (MD5Init ctx))) = md5_spec (concat chunks)"
  using final_of_message [OF assms(1)] fold_MD5Update [OF _ assms(2), of "MD5Init ctx"] assms(1)
  by (simp add: init_facts)

definition some_ctx :: MD5Context where
  "some_ctx = \<lparr>buf = (1, 2, 3, 4), bits0 = 5, bits1 = 6, inbuf = replicate 64 7\<rparr>"

lemma md5_digest_spec_witness:
  "fst (MD5Final (MD5Update (MD5Update (MD5Init some_ctx) [97]) [98, 99])) = md5_spec [97, 98, 99]"
  using md5_digest_spec [of some_ctx "[[97], [98, 99]]"] by (simp add: some_ctx_def)

lemma transform_empty:
  "MD5Transform md5_iv [128, 0, 0, 0, 0, 0, 0, 0, 0, 0, 0, 0, 0, 0, 0, 0] =
    (0xd98c1dd4, 0x04b2008f, 0x980980e9, 0x7e42f8ec)"
  by (simp add: MD5Transform_def md5_iv_def md5_steps_def md5_step_def MD5STEP_def
      F1_def F2_def F3_def F4_def)

lemma u32_bytes_eq:
  "u32_bytes w = (let x = unat w in [word_of_nat (x mod 256), word_of_nat (x div 256 mod 256),
    word_of_nat (x div 256 div 256 mod 256), word_of_nat (x div 256 div 256 div 256 mod 256)])"
proof -
  have four: "(4 :: nat) = Suc (Suc (Suc (Suc 0)))" by simp
  show ?thesis unfolding u32_bytes_def four Let_def le_bytes.simps ..
qed

lemma le_bytes_0: "le_bytes n 0 = replicate n 0"
  by (induction n) simp_all

lemma words_of_zeros: "u32s_of (concat (replicate n [0, 0, 0, 0])) = replicate n 0"
  by (induction n) (simp_all add: u32_of_def)

lemma pad_empty: "u32s_of (md5_pad []) = [128, 0, 0, 0, 0, 0, 0, 0, 0, 0, 0, 0, 0, 0, 0, 0]"
proof -
  have "md5_pad [] = [0x80] @ replicate 55 0 @ replicate 8 0"
    by (simp add: md5_pad_def md5_tail_def le_bytes_0)
  also have "\<dots> = [0x80, 0, 0, 0] @ concat (replicate 15 [0, 0, 0, 0])"
    by (simp add: numeral_eq_Suc)
  finally have "u32s_of (md5_pad []) = u32_of [0x80, 0, 0, 0] # replicate 15 0"
    by (simp only: append_Cons append_Nil u32s_of.simps words_of_zeros)
  moreover have "u32_of [0x80, 0, 0, 0] = 128" by (simp add: u32_of_def)
  moreover have "replicate 15 (0 :: u32) = [0, 0, 0, 0, 0, 0, 0, 0, 0, 0, 0, 0, 0, 0, 0]"
    by (simp add: numeral_eq_Suc)
  ultimately show ?thesis by simp
qed

text \<open>A test vector of RFC 1321: the digest of the empty message is
  d41d8cd98f00b204e9800998ecf8427e.\<close>

theorem md5_empty:
  "fst (MD5Final (MD5Init some_ctx)) =
    [0xd4, 0x1d, 0x8c, 0xd9, 0x8f, 0x00, 0xb2, 0x04, 0xe9, 0x80, 0x09, 0x98, 0xec, 0xf8, 0x42, 0x7e]"
proof -
  have "length (md5_pad []) = 64" by (simp add: md5_pad_def md5_tail_def)
  then have "blocks64 (md5_pad []) = [md5_pad []]"
    by (subst blocks64.simps, subst blocks64.simps) simp
  then have "md5_spec [] = regs_bytes (0xd98c1dd4, 0x04b2008f, 0x980980e9, 0x7e42f8ec)"
    by (simp add: md5_spec_def pad_empty transform_empty)
  moreover have "fst (MD5Final (MD5Init some_ctx)) = md5_spec []"
    using final_of_message [of some_ctx "[]"] by (simp add: some_ctx_def)
  ultimately show ?thesis by (simp add: regs_bytes_def u32_bytes_eq Let_def)
qed

text \<open>The round functions: the optimised \<open>F1\<close> (and \<open>F2\<close>, which is \<open>F1\<close> with its arguments moved)
  is the bitwise choice of the comment and of RFC 1321, for all words.\<close>

theorem round_functions:
  "F1 x y z = (x AND y) OR (NOT x AND z) \<and> F2 x y z = (x AND z) OR (y AND NOT z)"
proof (rule conjI)
  show "F1 x y z = (x AND y) OR (NOT x AND z)"
    unfolding F1_def by (rule bit_eqI) (auto simp: bit_simps)
  show "F2 x y z = (x AND z) OR (y AND NOT z)"
    unfolding F1_def F2_def by (rule bit_eqI) (auto simp: bit_simps)
qed

text \<open>The last \<open>memset\<close> of \<open>MD5Final\<close> does not clear the context: \<open>sizeof (ctx)\<close> is the size of the
  pointer. When the padding fits the last block, the bytes of that block which were hashed are still in
  \<open>in\<close> afterwards, and so are three of the four words of the digest.\<close>

theorem final_leaves_message:
  assumes "length (inbuf ctx) = 64" and "at_byte ctx < 56"
  shows "take (at_byte ctx) (inbuf (snd (MD5Final ctx))) = take (at_byte ctx) (inbuf ctx) \<and>
    (\<exists>a b c d. fst (MD5Final ctx) = regs_bytes (a, b, c, d) \<and> buf (snd (MD5Final ctx)) = (0, b, c, d))"
proof -
  let ?c = "md5_block (ctx\<lparr>inbuf := blit (at_byte ctx) (md5_tail (at_byte ctx) (count_bytes ctx)) (inbuf ctx)\<rparr>)"
  obtain a b c d where r: "buf ?c = (a, b, c, d)" by (metis prod_cases4)
  have "take (at_byte ctx) (inbuf ?c) = take (at_byte ctx) (inbuf ctx)"
    using assms by (simp add: blit_def)
  moreover have "fst (MD5Final ctx) = regs_bytes (a, b, c, d) \<and> buf (snd (MD5Final ctx)) = (0, b, c, d)"
    using r by (simp add: final_small [OF assms] Let_def)
  ultimately show ?thesis by (simp add: final_small [OF assms] Let_def) blast
qed

lemma final_leaves_message_witness:
  "at_byte (MD5Update (MD5Init some_ctx) [1, 2, 3]) = 3 \<and>
    take 3 (inbuf (snd (MD5Final (MD5Update (MD5Init some_ctx) [1, 2, 3])))) = [1, 2, 3]"
proof -
  let ?c = "MD5Update (MD5Init some_ctx) [1, 2, 3]"
  have "?c = fold absorb [1, 2, 3] (MD5Init some_ctx)"
    by (rule MD5Update_fold) (simp_all add: init_facts some_ctx_def)
  also have "\<dots> = with_count 24 ((MD5Init some_ctx)\<lparr>inbuf := blit 0 [1, 2, 3] (replicate 64 7)\<rparr>)"
    by (subst absorb_part) (simp_all add: init_facts at_byte_def some_ctx_def)
  finally have c: "?c = with_count 24 ((MD5Init some_ctx)\<lparr>inbuf := blit 0 [1, 2, 3] (replicate 64 7)\<rparr>)" .
  have a: "at_byte ?c = 3" unfolding c by (simp add: at_byte_with_count)
  have l: "length (inbuf ?c) = 64" unfolding c by simp
  have "take 3 (inbuf ?c) = [1, 2, 3]" unfolding c by (simp add: blit_def)
  with final_leaves_message [OF l] a show ?thesis by simp
qed

section \<open>The cookie\<close>

text \<open>The bytes the loop over the sources feeds to the hash.\<close>

fun gathered :: "(string \<Rightarrow> nat \<Rightarrow> byte list option) \<Rightarrow> rng list \<Rightarrow> byte list" where
  "gathered dev [] = []"
| "gathered dev (g # gs) =
     (case dev (path g) (if maxlength g \<noteq> 0 then min (maxlength g) BUFFERSIZE else BUFFERSIZE) of
        None \<Rightarrow> gathered dev gs
      | Some bs \<Rightarrow> bs @ (if minlength g \<noteq> 0 \<and> minlength g \<le> length bs then [] else gathered dev gs))"

definition reads_at_most :: "(string \<Rightarrow> nat \<Rightarrow> byte list option) \<Rightarrow> bool" where
  "reads_at_most dev \<longleftrightarrow> (\<forall>p n bs. dev p n = Some bs \<longrightarrow> length bs \<le> n)"

lemma gather_absorbs:
  assumes "reads_at_most dev" and "length (inbuf ctx) = 64"
  shows "gather dev gs ctx = fold absorb (gathered dev gs) ctx"
  using assms(2)
proof (induction gs arbitrary: ctx)
  case Nil
  then show ?case by simp
next
  case (Cons g gs)
  let ?n = "if maxlength g \<noteq> 0 then min (maxlength g) BUFFERSIZE else BUFFERSIZE"
  have n: "(if maxlength g \<noteq> 0 \<and> BUFFERSIZE > maxlength g then maxlength g else BUFFERSIZE) = ?n"
    by auto
  show ?case
  proof (cases "dev (path g) ?n")
    case None
    then show ?thesis
      using Cons.IH [OF Cons.prems] by (simp only: gather.simps gathered.simps n Let_def option.case)
  next
    case (Some bs)
    have "length bs \<le> ?n" using assms(1) Some by (simp add: reads_at_most_def)
    then have s: "length bs < 2 ^ 32" by (auto simp: BUFFERSIZE_def split: if_splits)
    have u: "(if 0 < length bs then MD5Update ctx bs else ctx) = fold absorb bs ctx"
      using MD5Update_fold [OF s Cons.prems] by simp
    have l: "length (inbuf (fold absorb bs ctx)) = 64" using Cons.prems by (simp only: length_inbuf_fold)
    show ?thesis
      using Some Cons.IH [OF l] by (simp only: gather.simps gathered.simps n Let_def option.case u) simp
  qed
qed

text \<open>C13. What the cookie is: the line printed is the MD5 digest, in hexadecimal, of the time of day, the two
  process ids, the bytes of the given file followed by a zero byte, and the bytes read from the sources
  up to and including the first that yields its minimum. It has 32 digits and a newline.\<close>

theorem cookie_is_digest:
  assumes "length (inbuf ctx) = 64" and "reads_at_most dev"
    and "length tv < 2 ^ 32" and "length ppid < 2 ^ 32" and "length pid < 2 ^ 32"
    and "case file of None \<Rightarrow> True | Some cs \<Rightarrow> length (concat cs) + 1 < 2 ^ 32"
  shows "mcookie_main ctx tv ppid pid file dev =
      concat (map hex2 (md5_spec (tv @ ppid @ pid @
        (case file of None \<Rightarrow> [] | Some cs \<Rightarrow> concat cs @ [0]) @ gathered dev rngs))) @ [CHR 0x0A] \<and>
    length (mcookie_main ctx tv ppid pid file dev) = 33"
proof -
  let ?f = "case file of None \<Rightarrow> [] | Some cs \<Rightarrow> concat cs @ [0]"
  let ?c = "fold absorb (tv @ ppid @ pid) (MD5Init ctx)"
  have l: "length (inbuf (fold absorb xs (MD5Init ctx))) = 64" for xs
    using assms(1) by (simp only: length_inbuf_fold init_facts)
  have u: "MD5Update (fold absorb xs (MD5Init ctx)) ys = fold absorb (xs @ ys) (MD5Init ctx)"
    if "length ys < 2 ^ 32" for xs ys
    using MD5Update_fold [OF that l] by (simp only: fold_append o_apply)
  have s1: "MD5Update (MD5Update (MD5Update (MD5Init ctx) tv) ppid) pid = ?c"
    using u [OF assms(3), of "[]"] u [OF assms(4), of tv] u [OF assms(5), of "tv @ ppid"] by simp
  have s2: "(case file of None \<Rightarrow> ?c | Some cs \<Rightarrow> snd (hash_file ?c cs)) = fold absorb ((tv @ ppid @ pid) @ ?f) (MD5Init ctx)"
  proof (cases "file")
    case None
    then show ?thesis by simp
  next
    case (Some cs)
    then have "length (concat cs) + 1 < 2 ^ 32" using assms(6) by simp
    then show ?thesis
      using hash_file_eq [OF l, of cs "tv @ ppid @ pid"] u [of "concat cs @ [0]" "tv @ ppid @ pid"] Some by simp
  qed
  have s3: "gather dev rngs (fold absorb ((tv @ ppid @ pid) @ ?f) (MD5Init ctx)) =
      fold absorb (tv @ ppid @ pid @ ?f @ gathered dev rngs) (MD5Init ctx)"
    unfolding gather_absorbs [OF assms(2) l] by (simp only: fold_append o_apply append_assoc)
  have m: "mcookie_main ctx tv ppid pid file dev =
      concat (map hex2 (md5_spec (tv @ ppid @ pid @ ?f @ gathered dev rngs))) @ [CHR 0x0A]"
    unfolding mcookie_main_def Let_def s1 s2 s3 final_of_message [OF assms(1)] ..
  have "length (md5_spec x) = 16" for x
    by (simp add: md5_spec_def regs_bytes_def split: prod.splits)
  moreover have "length (concat (map hex2 bs)) = 2 * length bs" for bs
    by (induction bs) (simp_all add: hex2_def)
  ultimately show ?thesis by (simp add: m)
qed

lemma cookie_is_digest_witness:
  "length (mcookie_main some_ctx [1] [2] [3] (Some [[4], [5]]) (\<lambda>p n. Some [])) = 33"
proof -
  have "length (inbuf some_ctx) = 64" "reads_at_most (\<lambda>p n. Some [])"
    by (simp_all add: some_ctx_def reads_at_most_def)
  then show ?thesis
    by (rule cookie_is_digest [THEN conjunct2]) simp_all
qed

end
