(* ===== verification/Makedevs.thy ===== *)
theory Makedevs
  imports CLib
begin

text \<open>
  \<open>target/makedevs/makedevs.c\<close>: creates directories and device nodes from a device table.
  The file tree is a map from component lists to nodes; the system calls used are modelled on it,
  with \<open>refuses call path\<close> standing for the refusals that depend on more than the tree
  (permissions, quota). Symbolic links and the names \<open>.\<close> and \<open>..\<close> are not interpreted.
  Messages are not modelled; the numbers of the failing lines are kept in \<open>errs\<close>.
\<close>

section \<open>The file tree and the system calls\<close>

datatype kind = Dir | Reg | Fifo | Chr u32 u32 | Blk u32 u32

record node =
  kind :: kind
  perm :: u32
  uid :: u32
  gid :: u32

record tree =
  nodes :: "string list \<Rightarrow> node option"
  cwd :: "string list"
  mask :: u32
  refuses :: "string \<Rightarrow> string list \<Rightarrow> bool"
  me :: "u32 \<times> u32"

datatype errno = EEXIST | EOTHER

text \<open>The components of a path: slashes separate, empty components are dropped.\<close>

fun comps_from :: "string \<Rightarrow> string \<Rightarrow> string list" where
  "comps_from cur [] = (if cur = [] then [] else [cur])"
| "comps_from cur (c # cs) =
     (if c = CHR ''/'' then (if cur = [] then comps_from [] cs else cur # comps_from [] cs)
      else comps_from (cur @ [c]) cs)"

definition comps :: "string \<Rightarrow> string list" where
  "comps p = comps_from [] p"

definition absolute :: "string \<Rightarrow> bool" where
  "absolute p \<longleftrightarrow> (case p of [] \<Rightarrow> False | c # _ \<Rightarrow> c = CHR ''/'')"

definition resolve :: "tree \<Rightarrow> string \<Rightarrow> string list" where
  "resolve fs p = (if absolute p then comps p else cwd fs @ comps p)"

definition trailing_slash :: "string \<Rightarrow> bool" where
  "trailing_slash p \<longleftrightarrow> p \<noteq> [] \<and> last p = CHR ''/''"

definition is_dir :: "tree \<Rightarrow> string list \<Rightarrow> bool" where
  "is_dir fs q \<longleftrightarrow> (q = [] \<or> (case nodes fs q of None \<Rightarrow> False | Some n \<Rightarrow> kind n = Dir))"

definition lookup :: "tree \<Rightarrow> string \<Rightarrow> node option" where
  "lookup fs p =
     (if p = [] then None
      else case nodes fs (resolve fs p) of
             None \<Rightarrow> None
           | Some n \<Rightarrow> if trailing_slash p \<and> kind n \<noteq> Dir then None else Some n)"

definition add_node :: "string list \<Rightarrow> node \<Rightarrow> tree \<Rightarrow> tree" where
  "add_node q n fs = fs\<lparr>nodes := (nodes fs)(q \<mapsto> n)\<rparr>"

definition sys_mkdir :: "string \<Rightarrow> u32 \<Rightarrow> tree \<Rightarrow> errno + tree" where
  "sys_mkdir p md fs =
     (let q = resolve fs p
      in if p = [] then Inl EOTHER
         else if q = [] \<or> nodes fs q \<noteq> None then Inl EEXIST
         else if \<not> is_dir fs (butlast q) \<or> refuses fs ''mkdir'' q then Inl EOTHER
         else Inr (add_node q \<lparr>kind = Dir, perm = md AND NOT (mask fs) AND 0xFFF,
                               uid = fst (me fs), gid = snd (me fs)\<rparr> fs))"

text \<open>The type bits of a mode, for \<open>mknod\<close>.\<close>

definition kind_of_mode :: "u32 \<Rightarrow> u32 \<times> u32 \<Rightarrow> kind option" where
  "kind_of_mode md dev =
     (let t = md AND 0xF000
      in if t = 0x1000 then Some Fifo
         else if t = 0x2000 then Some (Chr (fst dev) (snd dev))
         else if t = 0x6000 then Some (Blk (fst dev) (snd dev))
         else if t = 0 \<or> t = 0x8000 then Some Reg else None)"

definition sys_mknod :: "string \<Rightarrow> u32 \<Rightarrow> u32 \<times> u32 \<Rightarrow> tree \<Rightarrow> errno + tree" where
  "sys_mknod p md dev fs =
     (let q = resolve fs p
      in if p = [] \<or> q = [] then Inl EOTHER
         else if nodes fs q \<noteq> None then Inl EEXIST
         else if trailing_slash p \<or> \<not> is_dir fs (butlast q) \<or> refuses fs ''mknod'' q then Inl EOTHER
         else case kind_of_mode md dev of
                None \<Rightarrow> Inl EOTHER
              | Some k \<Rightarrow> Inr (add_node q \<lparr>kind = k, perm = md AND NOT (mask fs) AND 0xFFF,
                                 uid = fst (me fs), gid = snd (me fs)\<rparr> fs))"

text \<open>An owner of -1 is left as it is.\<close>

definition sys_chown :: "string \<Rightarrow> u32 \<Rightarrow> u32 \<Rightarrow> tree \<Rightarrow> errno + tree" where
  "sys_chown p u g fs =
     (case lookup fs p of
        None \<Rightarrow> Inl EOTHER
      | Some n \<Rightarrow>
          if refuses fs ''chown'' (resolve fs p) then Inl EOTHER
          else Inr (add_node (resolve fs p)
                 (n\<lparr>uid := (if u = -1 then uid n else u), gid := (if g = -1 then gid n else g)\<rparr>) fs))"

definition sys_chmod :: "string \<Rightarrow> u32 \<Rightarrow> tree \<Rightarrow> errno + tree" where
  "sys_chmod p md fs =
     (case lookup fs p of
        None \<Rightarrow> Inl EOTHER
      | Some n \<Rightarrow>
          if refuses fs ''chmod'' (resolve fs p) then Inl EOTHER
          else Inr (add_node (resolve fs p) (n\<lparr>perm := md AND 0xFFF\<rparr>) fs))"

section \<open>Making a directory and its parents\<close>

text \<open>
  One round of the scan: the rest of the path up to and including the next run of slashes, and
  what comes after it. The code puts a NUL at that place and remembers the character it replaced.
\<close>

definition next_cut :: "string \<Rightarrow> string \<times> string" where
  "next_cut s =
     (let w = takeWhile (\<lambda>c. c \<noteq> CHR ''/'') s; r = dropWhile (\<lambda>c. c \<noteq> CHR ''/'') s
      in (w @ takeWhile (\<lambda>c. c = CHR ''/'') r, dropWhile (\<lambda>c. c = CHR ''/'') r))"

lemma next_cut_shorter: "next_cut s = (t, r) \<Longrightarrow> r \<noteq> [] \<Longrightarrow> length r < length s"
proof (cases s)
  case (Cons a as)
  assume n: "next_cut s = (t, r)"
  let ?d = "dropWhile (\<lambda>c. c \<noteq> CHR ''/'') s"
  have r: "r = dropWhile (\<lambda>c. c = CHR ''/'') ?d" using n by (auto simp: next_cut_def Let_def)
  have "length ?d \<le> length s" by (rule length_dropWhile_le)
  moreover assume "r \<noteq> []"
  ultimately show ?thesis
    using r length_dropWhile_le [of "\<lambda>c. c = CHR ''/''" "tl ?d"] hd_dropWhile [of "\<lambda>c. c \<noteq> CHR ''/''" s]
    by (cases ?d) auto
qed (auto simp: next_cut_def)

definition cut :: "bool \<Rightarrow> string \<Rightarrow> string \<times> string" where
  "cut recur s = (if recur then next_cut s else (s, []))"

lemma cut_shorter: "cut recur s = (t, r) \<Longrightarrow> r \<noteq> [] \<Longrightarrow> length r < length s"
  by (auto simp: cut_def dest: next_cut_shorter split: if_splits)

text \<open>
  The loop of \<open>bb_make_directory\<close>: \<open>pre\<close> is the path before the pointer \<open>s\<close>, \<open>rest\<close> what follows.
  \<open>old\<close> is the mask that is restored. The result is the return value.
\<close>

function make_directory_loop :: "string \<Rightarrow> string \<Rightarrow> u32 \<Rightarrow> bool \<Rightarrow> u32 \<Rightarrow> tree \<Rightarrow> int \<times> tree" where
  "make_directory_loop pre rest md recur old fs =
     (let t = fst (cut recur rest); r = snd (cut recur rest); path = pre @ t
      in case sys_mkdir path 0x1FF fs of
           Inl e \<Rightarrow>
             if e \<noteq> EEXIST \<or> \<not> recur \<or>
                \<not> is_dir fs (resolve fs path)
             then (-1, fs\<lparr>mask := old\<rparr>)
             else if r = [] then (0, fs\<lparr>mask := old\<rparr>)
             else make_directory_loop path r md recur old fs
         | Inr fs1 \<Rightarrow>
             if r = [] then
               (case sys_chmod path md (fs1\<lparr>mask := old\<rparr>) of
                  Inl _ \<Rightarrow> (-1, fs1\<lparr>mask := old\<rparr>)
                | Inr fs2 \<Rightarrow> (0, fs2))
             else make_directory_loop path r md recur old fs1)"
  by pat_completeness auto
termination
  by (relation "measure (\<lambda>(d, s, m, rc, old, fs). length s)")
    (simp_all add: cut_shorter [OF prod.collapse [symmetric]])

declare make_directory_loop.simps [simp del]

definition bb_make_directory :: "string \<Rightarrow> int \<Rightarrow> bool \<Rightarrow> tree \<Rightarrow> int \<times> tree" where
  "bb_make_directory path md recur fs =
     (let old = mask fs
      in if md = -1 then make_directory_loop [] path (0x1FF AND NOT old) recur old fs
         else make_directory_loop [] path (word_of_int md) recur old (fs\<lparr>mask := old AND NOT 0xC0\<rparr>))"

section \<open>Reading the table\<close>

text \<open>
  \<open>private_get_line_from_file\<close> with \<open>c = 1\<close>: a line without its newline, or up to a NUL, and the rest
  of the file; \<open>None\<close> at the end of the file. \<open>idx\<close> and \<open>linebufsz\<close> are kept to check the accesses:
  the third component says that every byte was stored inside the buffer.
\<close>

definition GROWBY :: nat where "GROWBY = 80"

fun get_line_loop :: "string \<Rightarrow> string \<Rightarrow> nat \<Rightarrow> bool \<Rightarrow> string \<times> string \<times> bool" where
  "get_line_loop [] buf sz ok = (buf, [], ok \<and> length buf < sz)"
| "get_line_loop (ch # cs) buf sz ok =
     (let sz = (if int (length buf) > int sz - 2 then sz + GROWBY else sz);
          ok = (ok \<and> length buf < sz)
      in if ch = CHR 0x00 then (buf, cs, ok)
         else if ch = CHR 0x0A then (buf, cs, ok \<and> length buf < sz)
         else get_line_loop cs (buf @ [ch]) sz ok)"

definition get_line :: "string \<Rightarrow> (string \<times> string) option" where
  "get_line s = (if s = [] then None else case get_line_loop s [] 0 True of (l, r, _) \<Rightarrow> Some (l, r))"

text \<open>\<open>sscanf\<close>: the conversions the table line uses, each with the rest of the line.\<close>

definition skip_ws :: "string \<Rightarrow> string" where
  "skip_ws s = dropWhile isspace s"

definition scan_s :: "nat \<Rightarrow> string \<Rightarrow> (string \<times> string) option" where
  "scan_s n s =
     (let s1 = skip_ws s; w = take n (takeWhile (\<lambda>c. \<not> isspace c) s1)
      in if w = [] then None else Some (w, drop (length w) s1))"

definition scan_c :: "string \<Rightarrow> (char \<times> string) option" where
  "scan_c s = (case skip_ws s of [] \<Rightarrow> None | c # r \<Rightarrow> Some (c, r))"

definition is_base_digit :: "nat \<Rightarrow> char \<Rightarrow> bool" where
  "is_base_digit b c \<longleftrightarrow> isdigit c \<and> digit_val c < b"

definition base_value :: "nat \<Rightarrow> string \<Rightarrow> nat" where
  "base_value b ds = foldl (\<lambda>n c. b * n + digit_val c) 0 ds"

definition ULONG_MAX :: nat where "ULONG_MAX = 18446744073709551615"

definition scan_u :: "nat \<Rightarrow> string \<Rightarrow> (u32 \<times> string) option" where
  "scan_u b s =
     (let s1 = skip_ws s;
          neg = (case s1 of c # _ \<Rightarrow> c = CHR ''-'' | [] \<Rightarrow> False);
          s2 = (case s1 of c # r \<Rightarrow> if c = CHR ''-'' \<or> c = CHR ''+'' then r else s1 | [] \<Rightarrow> []);
          ds = takeWhile (is_base_digit b) s2; v = base_value b ds
      in if ds = [] then None
         else Some (if v > ULONG_MAX then word_of_nat ULONG_MAX
                    else if neg then - word_of_nat v else word_of_nat v,
                    dropWhile (is_base_digit b) s2))"

text \<open>The variables of one round of the main loop.\<close>

record entry =
  name :: string
  etype :: char
  mode :: u32
  user :: string
  group :: string
  major :: u32
  minor :: u32
  start :: u32
  increment :: u32
  count :: u32

text \<open>The trailing \<open>%u\<close> conversions, in their order, and the whole of the \<open>sscanf\<close>: how many conversions
  succeeded and the variables. \<open>e\<close> holds what the variables contain before.\<close>

fun scan_nums :: "(u32 \<Rightarrow> entry \<Rightarrow> entry) list \<Rightarrow> string \<Rightarrow> nat \<Rightarrow> entry \<Rightarrow> nat \<times> entry" where
  "scan_nums [] s n e = (n, e)"
| "scan_nums (f # fs) s n e =
     (case scan_u 10 s of None \<Rightarrow> (n, e) | Some (v, r) \<Rightarrow> scan_nums fs r (n + 1) (f v e))"

definition sscanf_entry :: "string \<Rightarrow> entry \<Rightarrow> nat \<times> entry" where
  "sscanf_entry line e =
     (case scan_s 40 line of None \<Rightarrow> (0, e) | Some (w, r) \<Rightarrow> let e = e\<lparr>name := w\<rparr> in
      case scan_c r of None \<Rightarrow> (1, e) | Some (c, r) \<Rightarrow> let e = e\<lparr>etype := c\<rparr> in
      case scan_u 8 r of None \<Rightarrow> (2, e) | Some (m, r) \<Rightarrow> let e = e\<lparr>mode := m\<rparr> in
      case scan_s 40 r of None \<Rightarrow> (3, e) | Some (u, r) \<Rightarrow> let e = e\<lparr>user := u\<rparr> in
      case scan_s 40 r of None \<Rightarrow> (4, e) | Some (g, r) \<Rightarrow> let e = e\<lparr>group := g\<rparr> in
      scan_nums [\<lambda>v e. e\<lparr>major := v\<rparr>, \<lambda>v e. e\<lparr>minor := v\<rparr>, \<lambda>v e. e\<lparr>start := v\<rparr>,
                 \<lambda>v e. e\<lparr>increment := v\<rparr>, \<lambda>v e. e\<lparr>count := v\<rparr>] r 5 e)"

section \<open>The main loop\<close>

record state =
  tr :: tree
  ret :: int
  errs :: "nat list"

datatype md_exit = UnknownUser string | UnknownGroup string | NoRoot | NoTable | CannotChdir

record accounts =
  pw :: "string \<Rightarrow> u32 option"
  gr :: "string \<Rightarrow> u32 option"

definition get_ug_id :: "string \<Rightarrow> (string \<Rightarrow> u32 option) \<Rightarrow> u32 option" where
  "get_ug_id s my_getxxnam =
     (case scan_u 10 s of
        Some (v, r) \<Rightarrow> if r = [] then Some v else my_getxxnam s
      | None \<Rightarrow> my_getxxnam s)"

definition last_char_is :: "string \<Rightarrow> char \<Rightarrow> bool" where
  "last_char_is s c \<longleftrightarrow> s \<noteq> [] \<and> last s = c"

definition concat_path_file :: "string \<Rightarrow> string \<Rightarrow> string" where
  "concat_path_file path filename =
     path @ (if last_char_is path (CHR ''/'') then [] else ''/'') @ dropWhile (\<lambda>c. c = CHR ''/'') filename"

text \<open>A failing call prints a message with the line number and sets the exit status.\<close>

definition note_error :: "nat \<Rightarrow> state \<Rightarrow> state" where
  "note_error ln st = st\<lparr>ret := 1, errs := errs st @ [ln]\<rparr>"

definition try_call :: "nat \<Rightarrow> (tree \<Rightarrow> errno + tree) \<Rightarrow> state \<Rightarrow> bool \<times> state" where
  "try_call ln f st =
     (case f (tr st) of Inl _ \<Rightarrow> (False, note_error ln st) | Inr t \<Rightarrow> (True, st\<lparr>tr := t\<rparr>))"

definition chown_chmod :: "nat \<Rightarrow> string \<Rightarrow> u32 \<Rightarrow> u32 \<Rightarrow> u32 \<Rightarrow> state \<Rightarrow> state" where
  "chown_chmod ln p md u g st =
     (case try_call ln (sys_chown p u g) st of
        (False, st) \<Rightarrow> st
      | (True, st) \<Rightarrow> if md \<noteq> -1 then snd (try_call ln (sys_chmod p md) st) else st)"

definition make_node :: "nat \<Rightarrow> string \<Rightarrow> u32 \<Rightarrow> u32 \<times> u32 \<Rightarrow> u32 \<Rightarrow> u32 \<Rightarrow> state \<Rightarrow> state" where
  "make_node ln p md dev u g st =
     (let st = (case try_call ln (sys_mknod p md dev) st of
                  (False, st) \<Rightarrow> st
                | (True, st) \<Rightarrow> snd (try_call ln (sys_chown p u g) st))
      in if md \<noteq> -1 then snd (try_call ln (sys_chmod p md) st) else st)"

definition node_dev :: "entry \<Rightarrow> u32 \<Rightarrow> u32 \<times> u32" where
  "node_dev e i = (major e, minor e + (i * increment e - start e))"

text \<open>\<open>for (i = start; i < count; i++)\<close>\<close>

definition make_range :: "nat \<Rightarrow> string \<Rightarrow> u32 \<Rightarrow> entry \<Rightarrow> u32 \<Rightarrow> u32 \<Rightarrow> state \<Rightarrow> state" where
  "make_range ln full md e u g st =
     fold (\<lambda>i. make_node ln (full @ dec i) md (node_dev e (word_of_nat i)) u g)
       [unat (start e)..<unat (count e)] st"

definition make_special :: "nat \<Rightarrow> string \<Rightarrow> entry \<Rightarrow> u32 \<Rightarrow> u32 \<Rightarrow> u32 \<Rightarrow> state \<Rightarrow> state" where
  "make_special ln full e md u g st =
     (if unat (count e) > 0 then make_range ln full md e u g st
      else make_node ln full md (major e, minor e) u g st)"

definition process_entry ::
    "accounts \<Rightarrow> string \<Rightarrow> nat \<Rightarrow> entry \<Rightarrow> (state, md_exit, unit) op" where
  "process_entry acc rootdir ln e st =
     (case (if group e \<noteq> [] then get_ug_id (group e) (gr acc) else Some (snd (me (tr st)))) of
        None \<Rightarrow> (Inl (UnknownGroup (group e)), st)
      | Some g \<Rightarrow>
     (case (if user e \<noteq> [] then get_ug_id (user e) (pw acc) else Some (fst (me (tr st)))) of
        None \<Rightarrow> (Inl (UnknownUser (user e)), st)
      | Some u \<Rightarrow>
          let full = concat_path_file rootdir (name e)
          in (Inr (),
              if etype e = CHR ''d'' then
                let (_, t) = bb_make_directory full (uint (mode e OR 0x4000)) True (tr st)
                in chown_chmod ln full (mode e) u g (st\<lparr>tr := t\<rparr>)
              else if etype e = CHR ''f'' then
                (case lookup (tr st) full of
                   None \<Rightarrow> note_error ln st
                 | Some n \<Rightarrow> if kind n \<noteq> Reg then note_error ln st
                             else chown_chmod ln full (mode e) u g st)
              else if etype e = CHR ''p'' then make_special ln full e (mode e OR 0x1000) u g st
              else if etype e = CHR ''c'' then make_special ln full e (mode e OR 0x2000) u g st
              else if etype e = CHR ''b'' then make_special ln full e (mode e OR 0x6000) u g st
              else note_error ln st)))"

text \<open>What a line does; \<open>junk\<close> are the uninitialised \<open>name\<close>, \<open>type\<close>, \<open>user\<close> and \<open>group\<close>.\<close>

definition entry0 :: "entry \<Rightarrow> entry" where
  "entry0 junk = junk\<lparr>mode := 0x1ED, major := 0, minor := 0, start := 0, increment := 0, count := 0\<rparr>"

definition process_line ::
    "accounts \<Rightarrow> entry \<Rightarrow> string \<Rightarrow> nat \<Rightarrow> string \<Rightarrow> (state, md_exit, unit) op" where
  "process_line acc junk rootdir ln line st =
     (let (n, e) = sscanf_entry line (entry0 junk)
      in if n < 2 \<or> (major e OR minor e OR start e OR count e OR increment e) > 255
         then (if line = [] \<or> hd line = CHR ''#'' \<or> isspace (hd line) then (Inr (), st)
               else (Inr (), note_error ln st))
         else if name e \<noteq> [] \<and> hd (name e) = CHR ''#'' then (Inr (), st)
         else process_entry acc rootdir ln e st)"

lemma get_line_loop_rest: "get_line_loop s b sz ok = (l, r, k) \<Longrightarrow> length r \<le> length s \<and> (s \<noteq> [] \<longrightarrow> length r < length s)"
proof (induction s arbitrary: b sz ok)
  case (Cons a s)
  then show ?case by (fastforce simp: Let_def split: if_splits)
qed simp

function process_table ::
    "accounts \<Rightarrow> (nat \<Rightarrow> entry) \<Rightarrow> string \<Rightarrow> nat \<Rightarrow> string \<Rightarrow> (state, md_exit, unit) op" where
  "process_table acc junk rootdir ln table st =
     (case get_line table of
        None \<Rightarrow> (Inr (), st)
      | Some (line, rest) \<Rightarrow>
          (case process_line acc (junk (ln + 1)) rootdir (ln + 1) line st of
             (Inl e, st) \<Rightarrow> (Inl e, st)
           | (Inr _, st) \<Rightarrow> process_table acc junk rootdir (ln + 1) rest st))"
  by pat_completeness auto

termination
  by (relation "measure (\<lambda>(acc, junk, rootdir, ln, table, st). length table)")
    (auto simp: get_line_def dest: get_line_loop_rest split: if_splits prod.splits)

declare process_table.simps [simp del]

text \<open>\<open>main\<close>: the exit status. \<open>table\<close> is the text of the device table, \<open>None\<close> if it cannot be opened.\<close>

definition makedevs_main ::
    "accounts \<Rightarrow> (nat \<Rightarrow> entry) \<Rightarrow> string option \<Rightarrow> string option \<Rightarrow> (state, md_exit, int) op" where
  "makedevs_main acc junk table rootdir st =
     (case (table, rootdir) of
        (None, _) \<Rightarrow> (Inl NoTable, st)
      | (_, None) \<Rightarrow> (Inl NoRoot, st)
      | (Some tab, Some root) \<Rightarrow>
          if root = [] \<or> \<not> is_dir (tr st) (resolve (tr st) root) then (Inl CannotChdir, st)
          else
            let st = st\<lparr>tr := (tr st)\<lparr>cwd := resolve (tr st) root, mask := 0\<rparr>\<rparr>
            in (case process_table acc junk root 0 tab st of
                  (Inl e, st) \<Rightarrow> (Inl e, st)
                | (Inr _, st) \<Rightarrow> (Inr 0, st)))"

section \<open>Directories\<close>

lemma comps_from_word:
  "CHR ''/'' \<notin> set w \<Longrightarrow> comps_from cur (w @ s) = comps_from (cur @ w) s"
  by (induction w arbitrary: cur) auto

lemma comps_slash: "comps_from [] (CHR ''/'' # s) = comps_from [] s"
  by simp

lemma comps_slashes: "\<forall>c \<in> set sl. c = CHR ''/'' \<Longrightarrow> comps_from [] (sl @ s) = comps_from [] s"
  by (induction sl) auto

lemma comps_from_all_slashes:
  assumes "\<forall>c \<in> set sl. c = CHR ''/''"
  shows "comps_from w sl = (if w = [] then [] else [w])"
proof (cases sl)
  case (Cons a as)
  then have "a = CHR ''/''" and "\<forall>c \<in> set as. c = CHR ''/''" using assms by simp_all
  then show ?thesis using comps_slashes [of as "[]"] by (simp add: Cons)
qed simp

lemma comps_from_slash: "comps_from cur (s @ CHR ''/'' # s') = comps_from cur s @ comps_from [] s'"
  by (induction s arbitrary: cur) auto

lemma comps_append:
  assumes "pre = [] \<or> trailing_slash pre"
  shows "comps (pre @ s) = comps pre @ comps s"
proof (cases "pre = []")
  case True
  then show ?thesis by (simp add: comps_def)
next
  case False
  with assms obtain p0 where p0: "pre = p0 @ [CHR ''/'']"
    unfolding trailing_slash_def by (metis append_butlast_last_id)
  have "comps_from [] (p0 @ CHR ''/'' # s) = comps_from [] p0 @ comps_from [] s"
    by (rule comps_from_slash)
  moreover have "comps_from [] (p0 @ CHR ''/'' # []) = comps_from [] p0 @ comps_from [] []"
    by (rule comps_from_slash)
  ultimately show ?thesis by (simp add: comps_def p0)
qed

text \<open>What one round of the scan cuts off: at most one component, and it ends where a new one starts.\<close>

lemma next_cut_facts:
  assumes "next_cut s = (t, r)"
  shows "t @ r = s" and "length (comps t) \<le> 1" and "comps s = comps t @ comps r"
    and "r \<noteq> [] \<Longrightarrow> trailing_slash t" and "s \<noteq> [] \<Longrightarrow> t \<noteq> []"
proof -
  let ?w = "takeWhile (\<lambda>c. c \<noteq> CHR ''/'') s" and ?d = "dropWhile (\<lambda>c. c \<noteq> CHR ''/'') s"
  let ?sl = "takeWhile (\<lambda>c. c = CHR ''/'') ?d"
  have t: "t = ?w @ ?sl" and r: "r = dropWhile (\<lambda>c. c = CHR ''/'') ?d"
    using assms by (simp_all add: next_cut_def Let_def)
  show tr: "t @ r = s" unfolding t r by simp
  have w: "CHR ''/'' \<notin> set ?w" by (blast dest: set_takeWhileD)
  have sl: "\<forall>c \<in> set ?sl. c = CHR ''/''" by (blast dest: set_takeWhileD)
  show ts: "r \<noteq> [] \<Longrightarrow> trailing_slash t"
  proof -
    assume "r \<noteq> []"
    then have d: "?d \<noteq> []" unfolding r by fastforce
    then have h: "hd ?d = CHR ''/''" using hd_dropWhile [of "\<lambda>c. c \<noteq> CHR ''/''" s] by blast
    have "x \<noteq> [] \<Longrightarrow> P (hd x) \<Longrightarrow> takeWhile P x \<noteq> []" for P and x :: string by (cases x) simp_all
    from this [OF d, of "\<lambda>c. c = CHR ''/''", OF h] have "?sl \<noteq> []" .
    then have "t \<noteq> [] \<and> last t = last ?sl" unfolding t by simp
    moreover have "last ?sl = CHR ''/''" using \<open>?sl \<noteq> []\<close> sl last_in_set by blast
    ultimately show "trailing_slash t" by (simp add: trailing_slash_def)
  qed
  have ct: "comps t = (if ?w = [] then [] else [?w])"
  proof -
    have "comps t = comps_from ?w ?sl" unfolding comps_def t using comps_from_word [OF w, of "[]" ?sl] by simp
    also have "\<dots> = (if ?w = [] then [] else [?w])"
      by (rule comps_from_all_slashes [OF sl])
    finally show ?thesis .
  qed
  then show "length (comps t) \<le> 1" by simp
  show "comps s = comps t @ comps r"
  proof (cases "r = []")
    case True
    then show ?thesis using tr by (simp add: comps_def)
  next
    case False
    then show ?thesis using comps_append [of t r] ts tr by simp
  qed
  show "s \<noteq> [] \<Longrightarrow> t \<noteq> []"
    by (cases s) (auto simp: t)
qed

text \<open>Nothing but directories stands on the way to \<open>C\<close>, and no call is refused there.\<close>

definition clear_way :: "string list \<Rightarrow> tree \<Rightarrow> bool" where
  "clear_way C fs \<longleftrightarrow>
     (\<forall>k. nodes fs (take k C) = None \<or> is_dir fs (take k C)) \<and>
     (\<forall>k. \<not> refuses fs ''mkdir'' (take k C)) \<and> \<not> refuses fs ''chmod'' C"

text \<open>What holds between the tree before and after: every directory of the way is there, what was there
  is unchanged, and nothing off the way is touched.\<close>

definition made_way :: "string list \<Rightarrow> tree \<Rightarrow> tree \<Rightarrow> bool" where
  "made_way C fs fs' \<longleftrightarrow>
     (\<forall>k. is_dir fs' (take k C)) \<and>
     (\<forall>q. nodes fs q \<noteq> None \<or> (\<forall>k. q \<noteq> take k C) \<longrightarrow> nodes fs' q = nodes fs q) \<and>
     cwd fs' = cwd fs \<and> refuses fs' = refuses fs \<and> me fs' = me fs"

lemma made_way_step:
  assumes "made_way C (add_node (take k C) n fs) fs'" and "nodes fs (take k C) = None"
  shows "made_way C fs fs'"
  using assms unfolding made_way_def add_node_def by (auto simp: fun_upd_apply split: if_splits)

lemma is_dir_add:
  "kind n = Dir \<Longrightarrow> is_dir fs q \<Longrightarrow> is_dir (add_node q' n fs) q"
  "kind n = Dir \<Longrightarrow> is_dir (add_node q n fs) q"
  by (auto simp: is_dir_def add_node_def)

lemma clear_way_add:
  "kind n = Dir \<Longrightarrow> clear_way C fs \<Longrightarrow> clear_way C (add_node q n fs)"
  unfolding clear_way_def using is_dir_add by (auto simp: add_node_def is_dir_def)

lemma make_directory_loop_clear:
  assumes "recur" and "absolute (pre @ rest)" and "rest \<noteq> []" and "pre = [] \<or> trailing_slash pre"
    and "clear_way (comps (pre @ rest)) fs"
    and "\<forall>k \<le> length (comps pre). is_dir fs (take k (comps (pre @ rest)))"
  shows "\<exists>fs'. make_directory_loop pre rest md recur old fs = (0, fs') \<and> mask fs' = old \<and>
    made_way (comps (pre @ rest)) fs fs'"
  using assms
proof (induction rest arbitrary: pre fs rule: length_induct)
  case (1 rest)
  let ?C = "comps (pre @ rest)" and ?n = "length (comps pre)"
  obtain t r where tr: "next_cut rest = (t, r)" by (cases "next_cut rest") simp
  note f = next_cut_facts [OF tr]
  have c: "fst (cut True rest) = t" "snd (cut True rest) = r"
    using tr by (simp_all add: cut_def)
  let ?p = "pre @ t"
  have C: "?C = comps pre @ comps t @ comps r"
    using comps_append [OF 1(5)] f(3) by simp
  have pC: "comps ?p = comps pre @ comps t" by (rule comps_append [OF 1(5)])
  have pt: "comps ?p = take (?n + length (comps t)) ?C" unfolding C pC by simp
  have ab: "absolute ?p" using 1(3) f(1) f(5) [OF 1(4)] by (cases pre; cases t) (auto simp: absolute_def)
  have res: "resolve x ?p = comps ?p" for x using ab by (simp add: resolve_def)
  have ne: "?p \<noteq> []" using f(5) [OF 1(4)] by simp
  have full: "?p @ r = pre @ rest" using f(1) by simp
  have tl: "r \<noteq> [] \<Longrightarrow> ?p = [] \<or> trailing_slash ?p"
    using f(4) by (auto simp: trailing_slash_def)
  have shorter: "r \<noteq> [] \<Longrightarrow> length r < length rest" by (rule next_cut_shorter [OF tr])
  have D: "\<forall>k \<le> length (comps ?p). is_dir x (take k ?C)"
    if "\<forall>k \<le> ?n. is_dir x (take k ?C)" and "is_dir x (comps ?p)" for x
  proof (intro allI impI)
    fix k assume k: "k \<le> length (comps ?p)"
    show "is_dir x (take k ?C)"
    proof (cases "k \<le> ?n")
      case False
      with k f(2) have "k = ?n + length (comps t)" unfolding pC by simp
      with that(2) pt show ?thesis by simp
    qed (use that in simp)
  qed
  have all: "is_dir x (take k ?C)" if "r = []" and "\<forall>k \<le> length (comps ?p). is_dir x (take k ?C)" for x k
  proof -
    have "?C = comps ?p" using that(1) full by simp
    then show ?thesis using that(2) by (metis nat_le_linear order_refl take_all)
  qed
  show ?case
  proof (cases "comps ?p = [] \<or> nodes fs (comps ?p) \<noteq> None")
    case True
    have mk: "sys_mkdir ?p 0x1FF fs = Inl EEXIST"
      using True ne by (auto simp: sys_mkdir_def res Let_def)
    have dir: "is_dir fs (comps ?p)"
      using True 1(6) unfolding clear_way_def pt [symmetric] by (metis is_dir_def pt)
    note E = D [OF 1(7) dir]
    show ?thesis
    proof (cases "r = []")
      case True
      have "make_directory_loop pre rest md recur old fs = (0, fs\<lparr>mask := old\<rparr>)"
        using True mk dir 1(2) by (subst make_directory_loop.simps) (simp add: c res Let_def)
      moreover have "made_way ?C fs (fs\<lparr>mask := old\<rparr>)"
        using all [OF True E] by (auto simp: made_way_def is_dir_def)
      ultimately show ?thesis by simp
    next
      case False
      have "make_directory_loop pre rest md recur old fs = make_directory_loop ?p r md recur old fs"
        using False mk dir 1(2) by (subst make_directory_loop.simps) (simp add: c res Let_def)
      moreover have "\<exists>fs'. make_directory_loop ?p r md recur old fs = (0, fs') \<and> mask fs' = old \<and>
          made_way (comps (?p @ r)) fs fs'"
        using 1(1) [rule_format, OF shorter [OF False], of ?p fs] 1(2,3,6) E tl [OF False] False
        by (simp only: full simp_thms)
      ultimately show ?thesis by (simp only: full)
    qed
  next
    case new: False
    have t1: "comps t \<noteq> []"
    proof
      assume "comps t = []"
      then have "comps ?p = take ?n ?C" using pt by simp
      then have "is_dir fs (comps ?p)" using 1(7) by simp
      with new show False by (simp add: is_dir_def)
    qed
    then have bl: "butlast (comps ?p) = take ?n ?C" using f(2) unfolding C pC
      by (cases "comps t") (simp_all add: butlast_append)
    let ?N = "\<lparr>kind = Dir, perm = 0x1FF AND NOT (mask fs) AND 0xFFF, uid = fst (me fs), gid = snd (me fs)\<rparr>"
    let ?fs1 = "add_node (comps ?p) ?N fs"
    have mk: "sys_mkdir ?p 0x1FF fs = Inr ?fs1"
      using new ne 1(6,7) unfolding sys_mkdir_def res Let_def bl by (simp add: clear_way_def pt)
    have d1: "is_dir ?fs1 (comps ?p)" by (simp add: is_dir_add)
    have d2: "\<forall>k \<le> ?n. is_dir ?fs1 (take k ?C)" using 1(7) by (simp add: is_dir_add)
    note E = D [OF d2 d1]
    have w: "clear_way ?C ?fs1" using 1(6) by (simp add: clear_way_add)
    have none: "nodes fs (take (?n + length (comps t)) ?C) = None" using new pt by simp
    show ?thesis
    proof (cases "r = []")
      case True
      have Cp: "?C = comps ?p" using True full by simp
      let ?fs2 = "add_node (comps ?p) (?N\<lparr>perm := md AND 0xFFF\<rparr>) (?fs1\<lparr>mask := old\<rparr>)"
      have ch: "sys_chmod ?p md (?fs1\<lparr>mask := old\<rparr>) = Inr ?fs2"
        using ne 1(6) Cp by (simp add: sys_chmod_def lookup_def res add_node_def clear_way_def)
      have "make_directory_loop pre rest md recur old fs = (0, ?fs2)"
        using True mk ch 1(2) by (subst make_directory_loop.simps) (simp add: c Let_def)
      moreover have "made_way ?C fs ?fs2"
      proof -
        have "is_dir ?fs2 (take k ?C)" for k
          using all [OF True E, of k] by (auto simp: is_dir_def add_node_def split: if_splits)
        moreover have "\<exists>k. comps ?p = take k ?C" using pt by blast
        ultimately show ?thesis using new by (auto simp: made_way_def add_node_def)
      qed
      moreover have "mask ?fs2 = old" by (simp add: add_node_def)
      ultimately show ?thesis by blast
    next
      case False
      have "make_directory_loop pre rest md recur old fs = make_directory_loop ?p r md recur old ?fs1"
        using False mk 1(2) by (subst make_directory_loop.simps) (simp add: c Let_def)
      moreover have "\<exists>fs'. make_directory_loop ?p r md recur old ?fs1 = (0, fs') \<and> mask fs' = old \<and>
          made_way (comps (?p @ r)) ?fs1 fs'"
        using 1(1) [rule_format, OF shorter [OF False], of ?p ?fs1] 1(2,3) w E tl [OF False] False
        by (simp only: full simp_thms)
      ultimately show ?thesis
        using made_way_step [OF _ none, of ?N] unfolding full pt [symmetric] by auto
    qed
  qed
qed

section \<open>Device nodes\<close>

lemma comps_word:
  assumes "CHR ''/'' \<notin> set w" and "w \<noteq> []" and "pre = [] \<or> trailing_slash pre"
  shows "comps (pre @ w) = comps pre @ [w]"
  using comps_append [OF assms(3)] comps_from_word [OF assms(1), of "[]" "[]"] assms(2)
  by (simp add: comps_def)

text \<open>No call that \<open>make_node\<close> makes on \<open>q\<close> is refused.\<close>

definition allowed :: "tree \<Rightarrow> string list \<Rightarrow> bool" where
  "allowed fs q \<longleftrightarrow> \<not> refuses fs ''mknod'' q \<and> \<not> refuses fs ''chown'' q \<and> \<not> refuses fs ''chmod'' q"

definition new_node :: "kind \<Rightarrow> u32 \<Rightarrow> u32 \<Rightarrow> u32 \<Rightarrow> node" where
  "new_node k md u g = \<lparr>kind = k, perm = md AND 0xFFF, uid = u, gid = g\<rparr>"

lemma make_node_ok:
  assumes "absolute p" and "\<not> trailing_slash p" and "comps p \<noteq> []"
    and "nodes (tr st) (comps p) = None" and "is_dir (tr st) (butlast (comps p))"
    and "allowed (tr st) (comps p)" and "kind_of_mode md dev = Some k"
    and "md \<noteq> -1" and "u \<noteq> -1" and "g \<noteq> -1"
  shows "make_node ln p md dev u g st = st\<lparr>tr := add_node (comps p) (new_node k md u g) (tr st)\<rparr>"
proof -
  have p: "p \<noteq> []" using assms(1) by (auto simp: absolute_def)
  have r: "resolve x p = comps p" for x using assms(1) by (simp add: resolve_def)
  let ?n = "\<lparr>kind = k, perm = md AND NOT (mask (tr st)) AND 0xFFF, uid = fst (me (tr st)), gid = snd (me (tr st))\<rparr>"
  let ?t1 = "add_node (comps p) ?n (tr st)"
  have 1: "sys_mknod p md dev (tr st) = Inr ?t1"
    using assms p by (simp add: sys_mknod_def r Let_def allowed_def)
  have 2: "sys_chown p u g ?t1 = Inr (add_node (comps p) (?n\<lparr>uid := u, gid := g\<rparr>) ?t1)"
    using assms p by (simp add: sys_chown_def lookup_def r allowed_def add_node_def)
  have 3: "sys_chmod p md (add_node (comps p) (?n\<lparr>uid := u, gid := g\<rparr>) ?t1) =
      Inr (add_node (comps p) (new_node k md u g) (tr st))"
    using assms p by (simp add: sys_chmod_def lookup_def r allowed_def add_node_def new_node_def)
  show ?thesis
    using assms(8) by (simp add: make_node_def try_call_def 1 2 3 [simplified] Let_def)
qed

text \<open>A list of nodes in one directory, under distinct names.\<close>

lemma make_nodes_ok:
  assumes "absolute pre" and "trailing_slash pre" and "CHR ''/'' \<notin> set w" and "w \<noteq> []"
    and "is_dir (tr st) (comps pre)" and "distinct is"
    and "\<forall>i \<in> set is. nodes (tr st) (comps pre @ [w @ dec i]) = None \<and> allowed (tr st) (comps pre @ [w @ dec i]) \<and>
           kind_of_mode md (dev i) = Some (k i)"
    and "md \<noteq> -1" and "u \<noteq> -1" and "g \<noteq> -1"
  shows "\<exists>t. fold (\<lambda>i. make_node ln ((pre @ w) @ dec i) md (dev i) u g) is st = st\<lparr>tr := t\<rparr> \<and>
    (\<forall>i \<in> set is. nodes t (comps pre @ [w @ dec i]) = Some (new_node (k i) md u g)) \<and>
    (\<forall>q. q \<notin> (\<lambda>i. comps pre @ [w @ dec i]) ` set is \<longrightarrow> nodes t q = nodes (tr st) q)"
  using assms(5-7)
proof (induction "is" arbitrary: st)
  case Nil
  show ?case by (rule exI [of _ "tr st"]) simp
next
  case (Cons i js)
  let ?q = "\<lambda>i. comps pre @ [w @ dec i]" and ?p = "(pre @ w) @ dec i"
  let ?st = "st\<lparr>tr := add_node (?q i) (new_node (k i) md u g) (tr st)\<rparr>"
  have d: "CHR ''/'' \<notin> set (dec i)"
    using dec_digits [of i] by (auto simp: list_all_iff isdigit_def code_def)
  have q: "comps ?p = ?q i"
    using comps_word [of "w @ dec i" pre] assms(2-4) d by simp
  have nt: "\<not> trailing_slash ?p"
    using dec_digits [of i] d unfolding trailing_slash_def by (metis last_appendR last_in_set)
  have ab: "absolute ?p" using assms(1) by (auto simp: absolute_def split: list.splits)
  have st: "make_node ln ?p md (dev i) u g st = ?st"
    using Cons.prems make_node_ok [OF ab nt, of st md "dev i" "k i" u g ln] assms(8-10) unfolding q by simp
  have ne: "j \<in> set js \<Longrightarrow> ?q j \<noteq> ?q i" for j
    using Cons.prems(2) dec_inj [of i j] by auto
  have "is_dir (tr ?st) (comps pre)"
    using Cons.prems(1) by (auto simp: is_dir_def add_node_def)
  moreover have "\<forall>j \<in> set js. nodes (tr ?st) (?q j) = None \<and> allowed (tr ?st) (?q j) \<and> kind_of_mode md (dev j) = Some (k j)"
    using Cons.prems(3) ne by (auto simp: add_node_def allowed_def)
  ultimately obtain t where t:
    "fold (\<lambda>i. make_node ln ((pre @ w) @ dec i) md (dev i) u g) js ?st = ?st\<lparr>tr := t\<rparr>"
    "\<forall>j \<in> set js. nodes t (?q j) = Some (new_node (k j) md u g)"
    "\<forall>q. q \<notin> ?q ` set js \<longrightarrow> nodes t q = nodes (tr ?st) q"
    using Cons.IH [of ?st] Cons.prems(2) by auto
  have "?q i \<notin> ?q ` set js"
  proof
    assume "?q i \<in> ?q ` set js"
    then obtain j where j: "j \<in> set js" "?q i = ?q j" by (rule imageE)
    from ne [OF j(1)] j(2) show False by simp
  qed
  then have i: "nodes t (?q i) = Some (new_node (k i) md u g)" using t(3) by (simp add: add_node_def)
  have rest: "\<forall>q. q \<notin> ?q ` set (i # js) \<longrightarrow> nodes t q = nodes (tr st) q"
    using t(3) by (auto simp: add_node_def)
  show ?case
  proof (intro exI conjI)
    show "fold (\<lambda>i. make_node ln ((pre @ w) @ dec i) md (dev i) u g) (i # js) st = st\<lparr>tr := t\<rparr>"
      unfolding fold_Cons o_apply st t(1) by simp
    show "\<forall>j \<in> set (i # js). nodes t (?q j) = Some (new_node (k j) md u g)" using t(2) i by simp
  qed (rule rest)
qed

definition hda_entry :: entry where
  "hda_entry = \<lparr>name = ''/dev/hda'', etype = CHR ''b'', mode = 0x1A0, user = ''0'', group = ''0'',
     major = 3, minor = 1, start = 1, increment = 1, count = 15\<rparr>"

lemma scan_u_digits:
  assumes "list_all (is_base_digit b) ds" and "ds \<noteq> []" and "base_value b ds \<le> ULONG_MAX"
    and "r = [] \<or> \<not> is_base_digit b (hd r)"
  shows "scan_u b (CHR '' '' # ds @ r) = Some (word_of_nat (base_value b ds), r)"
proof -
  obtain d ds' where d: "ds = d # ds'" using assms(2) by (cases ds) auto
  have dd: "isdigit d" using assms(1) d by (simp add: is_base_digit_def)
  have sg: "d \<noteq> CHR ''-''" "d \<noteq> CHR ''+''" using dd by (auto simp: isdigit_def code_def)
  have sp: "\<not> isspace d" by (rule digit_not_space [OF dd])
  have sk: "skip_ws (CHR '' '' # ds @ r) = ds @ r"
    using sp by (simp add: skip_ws_def isspace_def d)
  have "takeWhile (is_base_digit b) (ds @ r) = ds @ takeWhile (is_base_digit b) r"
    "dropWhile (is_base_digit b) (ds @ r) = dropWhile (is_base_digit b) r"
    using assms(1) by (simp_all add: list_all_iff)
  moreover have "takeWhile (is_base_digit b) r = []" "dropWhile (is_base_digit b) r = r"
    using assms(4) by (cases r; simp)+
  ultimately show ?thesis using sg assms(2,3) unfolding scan_u_def sk Let_def
    by (simp add: d not_less [symmetric])
qed

lemma scan_s_word:
  assumes "\<forall>c \<in> set w. \<not> isspace c" and "w \<noteq> []" and "length w \<le> n" and "isspace s"
  shows "scan_s n (w @ s # r) = Some (w, s # r)" and "scan_s n (CHR '' '' # w @ s # r) = Some (w, s # r)"
proof -
  obtain c w' where w: "w = c # w'" using assms(2) by (cases w) auto
  have sk: "skip_ws (w @ s # r) = w @ s # r" "skip_ws (CHR '' '' # w @ s # r) = w @ s # r"
    using assms(1) by (simp_all add: skip_ws_def w isspace_def)
  have "takeWhile (\<lambda>c. \<not> isspace c) (w @ s # r) = w" using assms(1,4) by (simp add: takeWhile_append)
  then show "scan_s n (w @ s # r) = Some (w, s # r)" "scan_s n (CHR '' '' # w @ s # r) = Some (w, s # r)"
    using assms(2,3) unfolding scan_s_def sk Let_def by simp_all
qed

lemma hda_parse: "sscanf_entry ''/dev/hda b 640 0 0 3 1 1 1 15'' (entry0 junk) = (10, hda_entry)"
proof -
  let ?l = "''/dev/hda'' @ CHR '' '' # ''b 640 0 0 3 1 1 1 15''"
  have 1: "scan_s 40 ?l = Some (''/dev/hda'', '' b 640 0 0 3 1 1 1 15'')"
    by (rule scan_s_word) (simp_all add: isspace_def)
  have 2: "scan_c '' b 640 0 0 3 1 1 1 15'' = Some (CHR ''b'', '' 640 0 0 3 1 1 1 15'')"
    by (simp add: scan_c_def skip_ws_def isspace_def)
  have 3: "scan_u 8 '' 640 0 0 3 1 1 1 15'' = Some (0x1A0, '' 0 0 3 1 1 1 15'')"
    using scan_u_digits [of 8 "''640''" "'' 0 0 3 1 1 1 15''"]
    by (simp add: is_base_digit_def isdigit_def digit_val_def code_def base_value_def ULONG_MAX_def)
  have 4: "scan_s 40 '' 0 0 3 1 1 1 15'' = Some (''0'', '' 0 3 1 1 1 15'')" 
    "scan_s 40 '' 0 3 1 1 1 15'' = Some (''0'', '' 3 1 1 1 15'')"
    using scan_s_word(2) [of "''0''" 40 "CHR '' ''"] by (simp_all add: isspace_def)
  have 5: "scan_u 10 (CHR '' '' # d # CHR '' '' # r) = Some (word_of_nat (digit_val d), CHR '' '' # r)" if "isdigit d" for d r
  proof -
    have "digit_val d < 10" using that by (auto simp: isdigit_def digit_val_def)
    moreover have "\<not> isdigit (CHR '' '')" by (simp add: isdigit_def code_def)
    ultimately show ?thesis
      using scan_u_digits [of 10 "[d]" "CHR '' '' # r"] that
      by (simp add: is_base_digit_def base_value_def ULONG_MAX_def)
  qed
  have 6: "scan_u 10 '' 15'' = Some (15, '''')"
    using scan_u_digits [of 10 "''15''" "''''"]
    by (simp add: is_base_digit_def isdigit_def digit_val_def code_def base_value_def ULONG_MAX_def)
  have d: "isdigit (CHR ''3'')" "isdigit (CHR ''1'')" "digit_val (CHR ''3'') = 3" "digit_val (CHR ''1'') = 1"
    by (simp_all add: isdigit_def digit_val_def code_def)
  have "sscanf_entry ?l (entry0 junk) = (10, hda_entry)"
    unfolding sscanf_entry_def 1 option.case prod.case Let_def 2 3 4
    by (simp add: 5 6 d entry0_def hda_entry_def)
  then show ?thesis by simp
qed

section \<open>Properties of makedevs\<close>

text \<open>C14. Creating a directory with its parents: for an absolute path on which nothing but directories
  stands and where no call is refused, \<open>bb_make_directory\<close> returns 0, every prefix of the path is a
  directory afterwards, nodes that were there before and nodes off the path are unchanged, and the file
  creation mask is restored.\<close>

theorem make_directory_ok:
  assumes "absolute p" and "clear_way (comps p) fs"
  shows "\<exists>fs'. bb_make_directory p md True fs = (0, fs') \<and> mask fs' = mask fs \<and> made_way (comps p) fs fs'"
proof -
  have ne: "p \<noteq> []" using assms(1) by (auto simp: absolute_def)
  have c: "comps [] = []" by (simp add: comps_def)
  have m: "clear_way (comps p) (fs\<lparr>mask := x\<rparr>)" for x
    using assms(2) by (simp add: clear_way_def is_dir_def)
  have w: "made_way C (fs\<lparr>mask := x\<rparr>) fs' = made_way C fs fs'" for C x fs'
    by (simp add: made_way_def)
  have d: "\<forall>k \<le> length (comps []). is_dir t (take k (comps ([] @ p)))" for t
    by (simp add: c is_dir_def)
  show ?thesis
    using make_directory_loop_clear [of True "[]" p fs "0x1FF AND NOT (mask fs)" "mask fs", OF _ _ ne _ _ d]
      make_directory_loop_clear [of True "[]" p "fs\<lparr>mask := (mask fs) AND NOT 0xC0\<rparr>" "word_of_int md" "mask fs", OF _ _ ne _ _ d]
      assms m w
    by (simp add: bb_make_directory_def Let_def)
qed

definition empty_tree :: tree where
  "empty_tree = \<lparr>nodes = (\<lambda>_. None), cwd = [], mask = 18, refuses = (\<lambda>_ _. False), me = (0, 0)\<rparr>"

lemma make_directory_ok_witness:
  "\<exists>fs'. bb_make_directory ''/dev/pts'' 0x41ED True empty_tree = (0, fs') \<and> mask fs' = 18 \<and>
    is_dir fs' [''dev'', ''pts''] \<and> is_dir fs' [''dev'']"
proof -
  have c: "comps ''/dev/pts'' = [''dev'', ''pts'']" by (simp add: comps_def)
  have "absolute ''/dev/pts''" by (simp add: absolute_def)
  moreover have "clear_way (comps ''/dev/pts'') empty_tree" by (simp add: clear_way_def empty_tree_def)
  ultimately obtain fs' where f: "bb_make_directory ''/dev/pts'' 0x41ED True empty_tree = (0, fs')"
      "mask fs' = mask empty_tree" "made_way (comps ''/dev/pts'') empty_tree fs'"
    using make_directory_ok by blast
  have "is_dir fs' (take 2 [''dev'', ''pts''])" "is_dir fs' (take 1 [''dev'', ''pts''])"
    using f(3) unfolding made_way_def c by blast+
  then show ?thesis using f(1,2) by (auto simp: empty_tree_def)
qed


definition demo_st :: state where
  "demo_st = \<lparr>tr = empty_tree\<lparr>nodes := [[''dev''] \<mapsto> new_node Dir 0x1ED 0 0]\<rparr>, ret = 0, errs = []\<rparr>"


text \<open>The name buffer of the loop is large enough: an accepted line has \<open>count\<close> at most 255, so every
  numbered name with its terminating NUL fits in the four bytes allocated beyond the name's length.\<close>

theorem name_buffer_fits:
  assumes "\<not> (major e OR minor e OR start e OR count e OR increment e) > 255" and "i < unat (count e)"
  shows "length (full @ dec i) + 1 \<le> length full + 4"
proof -
  have "count e \<le> major e OR minor e OR start e OR count e OR increment e"
    by (metis le_word_or1 le_word_or2 order.trans)
  then have "count e \<le> 255" using assms(1) by simp
  then have "unat (count e) \<le> 255" by (simp add: word_le_nat_alt)
  then have "i < 10 ^ Suc 2" using assms(2) by simp
  then have "length (dec i) \<le> Suc 2" by (rule length_dec)
  then show ?thesis by simp
qed

lemma name_buffer_fits_witness: "length (''/dev/hda'' @ dec 14) + 1 \<le> length ''/dev/hda'' + 4"
  by (rule name_buffer_fits [of hda_entry]) (simp_all add: hda_entry_def)

lemma get_line_loop_ok:
  assumes "length buf < sz \<or> (buf = [] \<and> sz = 0 \<and> s \<noteq> [])" and ok
  shows "get_line_loop s buf sz ok =
    (buf @ takeWhile (\<lambda>c. c \<noteq> CHR 0x00 \<and> c \<noteq> CHR 0x0A) s,
     drop 1 (dropWhile (\<lambda>c. c \<noteq> CHR 0x00 \<and> c \<noteq> CHR 0x0A) s), True)"
  using assms
proof (induction s arbitrary: buf sz ok)
  case Nil
  then show ?case by simp
next
  case (Cons ch cs)
  let ?sz = "if int (length buf) > int sz - 2 then sz + GROWBY else sz"
  have l: "length buf + 1 < ?sz" using Cons.prems(1) by (auto simp: GROWBY_def)
  show ?case
  proof (cases "ch = CHR 0x00 \<or> ch = CHR 0x0A")
    case True
    then show ?thesis using l Cons.prems(2) by (auto simp: Let_def)
  next
    case False
    have "get_line_loop cs (buf @ [ch]) ?sz True =
      ((buf @ [ch]) @ takeWhile (\<lambda>c. c \<noteq> CHR 0x00 \<and> c \<noteq> CHR 0x0A) cs,
       drop 1 (dropWhile (\<lambda>c. c \<noteq> CHR 0x00 \<and> c \<noteq> CHR 0x0A) cs), True)"
      by (rule Cons.IH) (use l in simp_all)
    moreover have "length buf < ?sz" using l by simp
    ultimately show ?thesis using False Cons.prems(2) unfolding get_line_loop.simps Let_def by simp
  qed
qed

text \<open>C16. Reading a line: \<open>private_get_line_from_file\<close> returns the characters up to the next newline or
  NUL and consumes that character, and with its growth by 80 bytes it never stores a byte, the
  terminating NUL included, outside the buffer it has allocated.\<close>

theorem get_line_ok:
  "s \<noteq> [] \<Longrightarrow> get_line_loop s [] 0 True =
    (takeWhile (\<lambda>c. c \<noteq> CHR 0x00 \<and> c \<noteq> CHR 0x0A) s,
     drop 1 (dropWhile (\<lambda>c. c \<noteq> CHR 0x00 \<and> c \<noteq> CHR 0x0A) s), True)"
  by (subst get_line_loop_ok) simp_all

lemma get_line_ok_witness: "get_line_loop [CHR ''a'', CHR 0x0A, CHR ''b''] [] 0 True = (''a'', ''b'', True)"
  by (subst get_line_ok) simp_all

text \<open>The example of the usage text: the line for \<open>/dev/hda\<close> with start 1, increment 1 and count 15
  creates the fourteen block devices \<open>hda1\<close> to \<open>hda14\<close>; neither \<open>hda0\<close> nor \<open>hda15\<close> is created, although
  the text announces \<open>/dev/hda[0-15]\<close>.\<close>

theorem usage_example:
  "\<exists>t. process_line acc junk ''/'' ln ''/dev/hda b 640 0 0 3 1 1 1 15'' demo_st = (Inr (), demo_st\<lparr>tr := t\<rparr>) \<and>
    (\<forall>i \<in> {1..14}. nodes t [''dev'', ''hda'' @ dec i] = Some (new_node (Blk 3 (word_of_nat i)) 0x61A0 0 0)) \<and>
    nodes t [''dev'', ''hda'' @ dec 0] = None \<and> nodes t [''dev'', ''hda'' @ dec 15] = None"
proof -
  have c: "comps ''/dev/'' = [''dev'']" by (simp add: comps_def)
  have full: "concat_path_file ''/'' ''/dev/hda'' = ''/dev/'' @ ''hda''"
    by (simp add: concat_path_file_def last_char_is_def)
  have u: "get_ug_id ''0'' f = Some 0" for f
    by (simp add: get_ug_id_def scan_u_def skip_ws_def isspace_def is_base_digit_def isdigit_def
        digit_val_def code_def base_value_def ULONG_MAX_def)
  have sc: "unat (start hda_entry) = 1" "unat (count hda_entry) = 15" by (simp_all add: hda_entry_def)
  have dv: "node_dev hda_entry (word_of_nat i) = (3, word_of_nat i)" for i
    by (simp add: node_dev_def hda_entry_def)
  have md: "mode hda_entry OR 0x6000 = 0x61A0" by (simp add: hda_entry_def)
  have "\<exists>t. fold (\<lambda>i. make_node ln ((''/dev/'' @ ''hda'') @ dec i) 0x61A0 (3, word_of_nat i) 0 0) [1..<15] demo_st = demo_st\<lparr>tr := t\<rparr> \<and>
    (\<forall>i \<in> set [1..<15]. nodes t (comps ''/dev/'' @ [''hda'' @ dec i]) = Some (new_node (Blk 3 (word_of_nat i)) 0x61A0 0 0)) \<and>
    (\<forall>q. q \<notin> (\<lambda>i. comps ''/dev/'' @ [''hda'' @ dec i]) ` set [1..<15] \<longrightarrow> nodes t q = nodes (tr demo_st) q)"
    by (rule make_nodes_ok)
      (simp_all add: c absolute_def trailing_slash_def demo_st_def is_dir_def new_node_def allowed_def empty_tree_def
         kind_of_mode_def)
  then obtain t where t:
    "fold (\<lambda>i. make_node ln ((''/dev/'' @ ''hda'') @ dec i) 0x61A0 (3, word_of_nat i) 0 0) [1..<15] demo_st = demo_st\<lparr>tr := t\<rparr>"
    "\<forall>i \<in> {1..<15}. nodes t [''dev'', ''hda'' @ dec i] = Some (new_node (Blk 3 (word_of_nat i)) 0x61A0 0 0)"
    "\<forall>q. q \<notin> (\<lambda>i. [''dev'', ''hda'' @ dec i]) ` {1..<15} \<longrightarrow> nodes t q = nodes (tr demo_st) q"
    unfolding c by auto
  have none: "nodes t [''dev'', ''hda'' @ dec j] = None" if "j \<notin> {1..<15}" for j
  proof -
    have "[''dev'', ''hda'' @ dec j] \<notin> (\<lambda>i. [''dev'', ''hda'' @ dec i]) ` {1..<15}"
      using that dec_inj [of j] by auto
    then show ?thesis using t(3) by (simp add: demo_st_def)
  qed
  have p: "process_line acc junk ''/'' ln ''/dev/hda b 640 0 0 3 1 1 1 15'' demo_st =
     (Inr (), make_range ln (''/dev/'' @ ''hda'') 0x61A0 hda_entry 0 0 demo_st)"
    unfolding process_line_def hda_parse Let_def prod.case
    by (simp add: hda_entry_def process_entry_def u full [simplified] make_special_def make_range_def node_dev_def)
  have m: "make_range ln (''/dev/'' @ ''hda'') 0x61A0 hda_entry 0 0 demo_st = demo_st\<lparr>tr := t\<rparr>"
    unfolding make_range_def sc dv using t(1) by simp
  show ?thesis
  proof (intro exI conjI)
    show "process_line acc junk ''/'' ln ''/dev/hda b 640 0 0 3 1 1 1 15'' demo_st = (Inr (), demo_st\<lparr>tr := t\<rparr>)"
      unfolding p m ..
    show "\<forall>i \<in> {1..14}. nodes t [''dev'', ''hda'' @ dec i] = Some (new_node (Blk 3 (word_of_nat i)) 0x61A0 0 0)"
      using t(2) by auto
  qed (rule none, simp)+
qed

lemma usage_example_witness:
  "\<exists>t. process_line \<lparr>pw = (\<lambda>_. None), gr = (\<lambda>_. None)\<rparr> hda_entry ''/'' 1
      ''/dev/hda b 640 0 0 3 1 1 1 15'' demo_st = (Inr (), demo_st\<lparr>tr := t\<rparr>) \<and>
    nodes t [''dev'', ''hda'' @ dec 7] = Some (new_node (Blk 3 7) 0x61A0 0 0)"
proof -
  from usage_example [of "\<lparr>pw = (\<lambda>_. None), gr = (\<lambda>_. None)\<rparr>" hda_entry 1]
  obtain t where t: "process_line \<lparr>pw = (\<lambda>_. None), gr = (\<lambda>_. None)\<rparr> hda_entry ''/'' 1
      ''/dev/hda b 640 0 0 3 1 1 1 15'' demo_st = (Inr (), demo_st\<lparr>tr := t\<rparr>)"
    "\<forall>i \<in> {1..14}. nodes t [''dev'', ''hda'' @ dec i] = Some (new_node (Blk 3 (word_of_nat i)) 0x61A0 0 0)"
    by blast
  from t(2) [rule_format, of 7] t(1) show ?thesis by auto
qed

text \<open>Errors do not show in the exit status: a table whose only line cannot be parsed sets \<open>ret\<close> to 1,
  but \<open>main\<close> returns 0.\<close>

theorem errors_ignored:
  assumes "absolute root" and "is_dir (tr st) (comps root)"
    and "line \<noteq> []" and "CHR 0x0A \<notin> set line" and "CHR 0x00 \<notin> set line" and "hd line \<noteq> CHR ''#''"
    and "\<not> isspace (hd line)" and "fst (sscanf_entry line (entry0 (junk 1))) < 2"
  shows "\<exists>st'. makedevs_main acc junk (Some (line @ [CHR 0x0A])) (Some root) st = (Inr 0, st') \<and>
    ret st' = 1 \<and> errs st' = errs st @ [1]"
proof -
  have r: "root \<noteq> []" "resolve (tr st) root = comps root"
    using assms(1) by (auto simp: absolute_def resolve_def)
  have l: "get_line_loop (line @ [CHR 0x0A]) [] 0 True = (line, [], True)"
    using assms(4,5) by (subst get_line_loop_ok) (auto simp: takeWhile_append)
  then have g: "get_line (line @ [CHR 0x0A]) = Some (line, [])" by (simp add: get_line_def)
  have p: "process_line acc (junk 1) root 1 line x = (Inr (), note_error 1 x)" for x
    using assms(3,6-8) unfolding process_line_def by (simp add: split_beta Let_def)
  have t: "process_table acc junk root 0 (line @ [CHR 0x0A]) x = (Inr (), note_error 1 x)" for x
  proof -
    have "process_table acc junk root 1 [] y = (Inr (), y)" for y
      by (subst process_table.simps) (simp add: get_line_def)
    then show ?thesis by (subst process_table.simps) (simp add: g p del: One_nat_def)
  qed
  show ?thesis
    using r assms(2) by (simp add: makedevs_main_def t note_error_def)
qed

lemma errors_ignored_witness:
  "\<forall>acc junk. \<exists>st'. makedevs_main acc junk (Some (''x'' @ [CHR 0x0A])) (Some ''/'') demo_st = (Inr 0, st') \<and>
    ret st' = 1 \<and> errs st' = errs demo_st @ [1]"
proof (intro allI)
  fix acc and junk :: "nat \<Rightarrow> entry"
  have "fst (sscanf_entry ''x'' e) < 2" for e
    by (simp add: sscanf_entry_def scan_s_def scan_c_def skip_ws_def isspace_def)
  then show "\<exists>st'. makedevs_main acc junk (Some (''x'' @ [CHR 0x0A])) (Some ''/'') demo_st = (Inr 0, st') \<and>
    ret st' = 1 \<and> errs st' = errs demo_st @ [1]"
    by (intro errors_ignored) (simp_all add: absolute_def comps_def is_dir_def isspace_def)
qed

end
