(* ===== verification/KExpr.thy ===== *)
theory KExpr
  imports CLib "HOL-Library.Monad_Syntax"
begin

text \<open>
  \<open>package/config/expr.c\<close> and \<open>expr.h\<close>: the dependency expressions of the configuration language,
  their three-valued meaning and the rewriting the configuration tool applies to them.
  An expression is a tree owned by one pointer, so an in-place update is the new tree; a null
  pointer is \<open>None\<close>. Symbols are references; their type, constancy and computed values are in the
  record \<open>symtab\<close>, where \<open>sym_calc_value\<close> has already run. Freed memory is not modelled.
  The functions that call each other without a structurally smaller argument take fuel and return
  \<open>None\<close> when it is used up; lemmas give a sufficient amount.
\<close>

section \<open>Values, symbols and expressions\<close>

datatype tristate = no | modul | yes

primrec tri_num :: "tristate \<Rightarrow> nat" where
  "tri_num no = 0" | "tri_num modul = 1" | "tri_num yes = 2"

lemma tri_num_inj: "tri_num a = tri_num b \<longleftrightarrow> a = b"
  by (cases a; cases b) simp_all

instantiation tristate :: linorder
begin

definition less_eq_tristate :: "tristate \<Rightarrow> tristate \<Rightarrow> bool" where
  "less_eq_tristate a b \<longleftrightarrow> tri_num a \<le> tri_num b"

definition less_tristate :: "tristate \<Rightarrow> tristate \<Rightarrow> bool" where
  "less_tristate a b \<longleftrightarrow> tri_num a < tri_num b"

instance
  by standard (auto simp: less_eq_tristate_def less_tristate_def tri_num_inj)

end

instantiation tristate :: "{order_bot, order_top}"
begin

definition bot_tristate :: tristate where "bot_tristate = no"
definition top_tristate :: tristate where "top_tristate = yes"

instance
proof
  fix a :: tristate
  show "bot \<le> a" "a \<le> top"
    by (cases a; simp add: bot_tristate_def top_tristate_def less_eq_tristate_def)+
qed

end

definition EXPR_OR :: "tristate \<Rightarrow> tristate \<Rightarrow> tristate" where
  "EXPR_OR d1 d2 = (if d1 > d2 then d1 else d2)"

definition EXPR_AND :: "tristate \<Rightarrow> tristate \<Rightarrow> tristate" where
  "EXPR_AND d1 d2 = (if d1 < d2 then d1 else d2)"

primrec EXPR_NOT :: "tristate \<Rightarrow> tristate" where
  "EXPR_NOT no = yes" | "EXPR_NOT modul = modul" | "EXPR_NOT yes = no"

lemma EXPR_OR_max: "EXPR_OR a b = max a b"
  by (auto simp: EXPR_OR_def max_def)

lemma EXPR_AND_min: "EXPR_AND a b = min a b"
  by (auto simp: EXPR_AND_def min_def)

datatype symbol_type = S_UNKNOWN | S_BOOLEAN | S_TRISTATE | S_INT | S_HEX | S_STRING | S_OTHER

text \<open>The three constant symbols of \<open>symbol.c\<close> and all others.\<close>

datatype symbol = symbol_yes | symbol_mod | symbol_no | Other nat

record symtab =
  stype :: "symbol \<Rightarrow> symbol_type"
  sconst :: "symbol \<Rightarrow> bool"
  tri :: "symbol \<Rightarrow> tristate"
  str :: "symbol \<Rightarrow> string"
  sname :: "symbol \<Rightarrow> string option"

datatype expr_type = E_NONE | E_OR | E_AND | E_NOT | E_EQUAL | E_UNEQUAL | E_LIST | E_SYMBOL | E_RANGE

datatype expr =
  Sym symbol
| Not expr
| Equal symbol symbol
| Unequal symbol symbol
| And expr expr
| Or expr expr
| List "expr option" symbol
| Range symbol symbol

primrec type_of :: "expr \<Rightarrow> expr_type" where
  "type_of (Sym s) = E_SYMBOL"
| "type_of (Not e) = E_NOT"
| "type_of (Equal a b) = E_EQUAL"
| "type_of (Unequal a b) = E_UNEQUAL"
| "type_of (And a b) = E_AND"
| "type_of (Or a b) = E_OR"
| "type_of (List l s) = E_LIST"
| "type_of (Range a b) = E_RANGE"

definition expr_alloc_and :: "expr option \<Rightarrow> expr option \<Rightarrow> expr option" where
  "expr_alloc_and e1 e2 =
     (case e1 of None \<Rightarrow> e2 | Some a \<Rightarrow> (case e2 of None \<Rightarrow> e1 | Some b \<Rightarrow> Some (And a b)))"

definition expr_alloc_or :: "expr option \<Rightarrow> expr option \<Rightarrow> expr option" where
  "expr_alloc_or e1 e2 =
     (case e1 of None \<Rightarrow> e2 | Some a \<Rightarrow> (case e2 of None \<Rightarrow> e1 | Some b \<Rightarrow> Some (Or a b)))"

text \<open>\<open>expr_alloc_two (type, e1, e2)\<close> for the two types it is used with.\<close>

definition alloc_two :: "expr_type \<Rightarrow> expr \<Rightarrow> expr \<Rightarrow> expr" where
  "alloc_two ty a b = (if ty = E_AND then And a b else Or a b)"

definition alloc_comp :: "expr_type \<Rightarrow> symbol \<Rightarrow> symbol \<Rightarrow> expr" where
  "alloc_comp ty a b = (if ty = E_EQUAL then Equal a b else Unequal a b)"

text \<open>\<open>expr_is_yes\<close> and \<open>expr_is_no\<close> of \<open>expr.h\<close>; a null expression counts as \<open>y\<close>.\<close>

definition expr_is_yes :: "expr option \<Rightarrow> bool" where
  "expr_is_yes e \<longleftrightarrow> (case e of None \<Rightarrow> True | Some e \<Rightarrow> e = Sym symbol_yes)"

definition expr_is_no :: "expr option \<Rightarrow> bool" where
  "expr_is_no e \<longleftrightarrow> (case e of None \<Rightarrow> False | Some e \<Rightarrow> e = Sym symbol_no)"

section \<open>Meaning\<close>

fun expr_calc :: "symtab \<Rightarrow> expr \<Rightarrow> tristate" where
  "expr_calc t (Sym s) = tri t s"
| "expr_calc t (And a b) = EXPR_AND (expr_calc t a) (expr_calc t b)"
| "expr_calc t (Or a b) = EXPR_OR (expr_calc t a) (expr_calc t b)"
| "expr_calc t (Not a) = EXPR_NOT (expr_calc t a)"
| "expr_calc t (Equal a b) = (if str t a = str t b then yes else no)"
| "expr_calc t (Unequal a b) = (if str t a = str t b then no else yes)"
| "expr_calc t _ = no"

definition expr_calc_value :: "symtab \<Rightarrow> expr option \<Rightarrow> tristate" where
  "expr_calc_value t e = (case e of None \<Rightarrow> yes | Some e \<Rightarrow> expr_calc t e)"

fun tri_letter :: "tristate \<Rightarrow> string" where
  "tri_letter no = ''n''" | "tri_letter modul = ''m''" | "tri_letter yes = ''y''"

text \<open>
  What \<open>symbol.c\<close> guarantees of computed values: the constants have their values, the string
  value of a boolean or tristate symbol is the letter of its value, a boolean one is never \<open>m\<close>,
  and distinct constant symbols have distinct strings.
\<close>

definition valued :: "symtab \<Rightarrow> bool" where
  "valued t \<longleftrightarrow>
     tri t symbol_yes = yes \<and> tri t symbol_mod = modul \<and> tri t symbol_no = no \<and>
     str t symbol_yes = ''y'' \<and> str t symbol_mod = ''m'' \<and> str t symbol_no = ''n'' \<and>
     (\<forall>s. stype t s = S_BOOLEAN \<or> stype t s = S_TRISTATE \<longrightarrow> str t s = tri_letter (tri t s)) \<and>
     (\<forall>s. stype t s = S_BOOLEAN \<longrightarrow> tri t s \<noteq> modul) \<and>
     (\<forall>a b. sconst t a \<and> sconst t b \<and> a \<noteq> b \<longrightarrow> str t a \<noteq> str t b)"

section \<open>Removing constants\<close>

text \<open>The two halves of the \<open>E_AND\<close> case and of the \<open>E_OR\<close> case, after the operands were simplified.\<close>

definition yn_and :: "expr \<Rightarrow> expr \<Rightarrow> expr" where
  "yn_and a b =
     (if a = Sym symbol_no then Sym symbol_no
      else if a = Sym symbol_yes then b
      else if b = Sym symbol_no then Sym symbol_no
      else if b = Sym symbol_yes then a
      else And a b)"

definition yn_or :: "expr \<Rightarrow> expr \<Rightarrow> expr" where
  "yn_or a b =
     (if a = Sym symbol_no then b
      else if a = Sym symbol_yes then Sym symbol_yes
      else if b = Sym symbol_no then a
      else if b = Sym symbol_yes then Sym symbol_yes
      else Or a b)"

fun expr_eliminate_yn :: "expr \<Rightarrow> expr" where
  "expr_eliminate_yn (And a b) = yn_and (expr_eliminate_yn a) (expr_eliminate_yn b)"
| "expr_eliminate_yn (Or a b) = yn_or (expr_eliminate_yn a) (expr_eliminate_yn b)"
| "expr_eliminate_yn e = e"

section \<open>Equality up to common operands\<close>

text \<open>
  \<open>expr_eq\<close>, \<open>__expr_eliminate_eq\<close> (here \<open>elim_eq\<close>) and \<open>expr_eliminate_eq\<close> call each other. The
  number is the growth of \<open>trans_count\<close>; \<open>expr_eq\<close> restores the counter.
\<close>

definition neutral :: "expr_type \<Rightarrow> expr" where
  "neutral ty = (if ty = E_OR then Sym symbol_no else Sym symbol_yes)"

definition same_yn :: "expr \<Rightarrow> expr \<Rightarrow> bool" where
  "same_yn a b \<longleftrightarrow> a = b \<and> (a = Sym symbol_yes \<or> a = Sym symbol_no)"

definition same_symbol :: "expr \<Rightarrow> expr \<Rightarrow> bool" where
  "same_symbol a b \<longleftrightarrow> (case (a, b) of (Sym s, Sym s') \<Rightarrow> s = s' | _ \<Rightarrow> False)"

text \<open>The operands of a node of the given type.\<close>

fun operands :: "expr_type \<Rightarrow> expr \<Rightarrow> (expr \<times> expr) option" where
  "operands E_OR (Or a b) = Some (a, b)"
| "operands E_AND (And a b) = Some (a, b)"
| "operands _ _ = None"

fun expr_eq :: "nat \<Rightarrow> expr \<Rightarrow> expr \<Rightarrow> bool option"
and elim_eq :: "nat \<Rightarrow> expr_type \<Rightarrow> expr \<Rightarrow> expr \<Rightarrow> (expr \<times> expr \<times> nat) option"
and expr_eliminate_eq :: "nat \<Rightarrow> expr \<Rightarrow> expr \<Rightarrow> (expr \<times> expr \<times> nat) option" where
  "expr_eq 0 e1 e2 = None"
| "expr_eq (Suc n) e1 e2 =
     (case (e1, e2) of
        (Equal a b, Equal c d) \<Rightarrow> Some (a = c \<and> b = d)
      | (Unequal a b, Unequal c d) \<Rightarrow> Some (a = c \<and> b = d)
      | (Sym a, Sym b) \<Rightarrow> Some (a = b)
      | (Not a, Not b) \<Rightarrow> expr_eq n a b
      | (And _ _, And _ _) \<Rightarrow> do { (x, y, k) \<leftarrow> expr_eliminate_eq n e1 e2; Some (same_symbol x y) }
      | (Or _ _, Or _ _) \<Rightarrow> do { (x, y, k) \<leftarrow> expr_eliminate_eq n e1 e2; Some (same_symbol x y) }
      | _ \<Rightarrow> Some False)"
| "elim_eq 0 ty e1 e2 = None"
| "elim_eq (Suc n) ty e1 e2 =
     (case operands ty e1 of
        Some (a, b) \<Rightarrow> do {
          (a, e2, k) \<leftarrow> elim_eq n ty a e2;
          (b, e2, l) \<leftarrow> elim_eq n ty b e2;
          Some (alloc_two ty a b, e2, k + l) }
      | None \<Rightarrow>
     (case operands ty e2 of
        Some (a, b) \<Rightarrow> do {
          (e1, a, k) \<leftarrow> elim_eq n ty e1 a;
          (e1, b, l) \<leftarrow> elim_eq n ty e1 b;
          Some (e1, alloc_two ty a b, k + l) }
      | None \<Rightarrow>
          if same_yn e1 e2 then Some (e1, e2, 0)
          else do {
            q \<leftarrow> expr_eq n e1 e2;
            if q then Some (neutral ty, neutral ty, 1) else Some (e1, e2, 0) }))"
| "expr_eliminate_eq 0 e1 e2 = None"
| "expr_eliminate_eq (Suc n) e1 e2 = do {
     (e1, e2, k) \<leftarrow> (if type_of e1 = E_OR \<or> type_of e1 = E_AND then elim_eq n (type_of e1) e1 e2
                     else Some (e1, e2, 0));
     (e1, e2, l) \<leftarrow> (if type_of e1 \<noteq> type_of e2 \<and> (type_of e2 = E_OR \<or> type_of e2 = E_AND)
                     then elim_eq n (type_of e2) e1 e2 else Some (e1, e2, 0));
     Some (expr_eliminate_yn e1, expr_eliminate_yn e2, k + l) }"

section \<open>Soundness of the comparison\<close>

lemma tri_cases: "(P :: tristate \<Rightarrow> bool) no \<Longrightarrow> P modul \<Longrightarrow> P yes \<Longrightarrow> P x"
  by (cases x) simp_all

lemma tri_order [simp]: "no \<le> x" "x \<le> yes" "max no x = x" "max x no = x" "max yes x = yes" "max x yes = yes"
  "min no x = no" "min x no = no" "min yes x = x" "min x yes = x"
  by (cases x; simp add: less_eq_tristate_def max_def min_def)+

lemma valuedD:
  assumes "valued t"
  shows "tri t symbol_yes = yes" "tri t symbol_mod = modul" "tri t symbol_no = no"
    "str t symbol_yes = ''y''" "str t symbol_mod = ''m''" "str t symbol_no = ''n''"
    "stype t s = S_BOOLEAN \<Longrightarrow> str t s = tri_letter (tri t s)"
    "stype t s = S_TRISTATE \<Longrightarrow> str t s = tri_letter (tri t s)"
    "stype t s = S_BOOLEAN \<Longrightarrow> tri t s \<noteq> modul"
    "sconst t a \<Longrightarrow> sconst t b \<Longrightarrow> a \<noteq> b \<Longrightarrow> str t a \<noteq> str t b"
  using assms unfolding valued_def by auto

lemma tri_letter_inj: "tri_letter a = tri_letter b \<longleftrightarrow> a = b"
  by (cases a; cases b) simp_all

lemma yn_and_calc: "valued t \<Longrightarrow> expr_calc t (yn_and a b) = min (expr_calc t a) (expr_calc t b)"
  by (auto simp: yn_and_def EXPR_AND_min valuedD)

lemma yn_or_calc: "valued t \<Longrightarrow> expr_calc t (yn_or a b) = max (expr_calc t a) (expr_calc t b)"
  by (auto simp: yn_or_def EXPR_OR_max valuedD)

lemma eliminate_yn_calc: "valued t \<Longrightarrow> expr_calc t (expr_eliminate_yn e) = expr_calc t e"
  by (induction e rule: expr_eliminate_yn.induct) (simp_all add: yn_and_calc yn_or_calc EXPR_AND_min EXPR_OR_max)

definition comb :: "expr_type \<Rightarrow> tristate \<Rightarrow> tristate \<Rightarrow> tristate" where
  "comb ty a b = (if ty = E_OR then max a b else min a b)"

lemma comb_ac: "comb ty a b = comb ty b a" "comb ty (comb ty a b) c = comb ty a (comb ty b c)"
  "comb ty a (comb ty b c) = comb ty b (comb ty a c)"
  by (auto simp: comb_def ac_simps)

text \<open>Both expressions are obtained from the new ones by putting the same value back.\<close>

definition drops :: "symtab \<Rightarrow> expr_type \<Rightarrow> expr \<Rightarrow> expr \<Rightarrow> expr \<Rightarrow> expr \<Rightarrow> bool" where
  "drops t ty e1 e2 x y \<longleftrightarrow>
     (\<exists>c. expr_calc t e1 = comb ty (expr_calc t x) c \<and> expr_calc t e2 = comb ty (expr_calc t y) c)"

lemma comb_neutral: "valued t \<Longrightarrow> comb ty (expr_calc t (neutral ty)) c = c"
  by (auto simp: comb_def neutral_def valuedD)

lemma drops_refl: "valued t \<Longrightarrow> drops t ty e1 e2 e1 e2"
  unfolding drops_def by (metis comb_ac(1) comb_neutral)

lemma operands_calc:
  assumes "operands ty e = Some (a, b)"
  shows "expr_calc t e = comb ty (expr_calc t a) (expr_calc t b)"
    and "expr_calc t (alloc_two ty x y) = comb ty (expr_calc t x) (expr_calc t y)"
  using assms by (cases "(ty, e)" rule: operands.cases; simp add: comb_def alloc_two_def EXPR_OR_max EXPR_AND_min)+

lemma drops_left:
  assumes "operands ty e1 = Some (a, b)" "drops t ty a e2 a' e2'" "drops t ty b e2' b' e2''"
  shows "drops t ty e1 e2 (alloc_two ty a' b') e2''"
proof -
  obtain c where c: "expr_calc t a = comb ty (expr_calc t a') c" "expr_calc t e2 = comb ty (expr_calc t e2') c"
    using assms(2) by (auto simp: drops_def)
  obtain d where d: "expr_calc t b = comb ty (expr_calc t b') d" "expr_calc t e2' = comb ty (expr_calc t e2'') d"
    using assms(3) by (auto simp: drops_def)
  show ?thesis unfolding drops_def
    by (rule exI [of _ "comb ty c d"]) (simp add: operands_calc [OF assms(1)] c d comb_ac)
qed

lemma drops_right:
  assumes "operands ty e2 = Some (a, b)" "drops t ty e1 a e1' a'" "drops t ty e1' b e1'' b'"
  shows "drops t ty e1 e2 e1'' (alloc_two ty a' b')"
proof -
  obtain c where c: "expr_calc t e1 = comb ty (expr_calc t e1') c" "expr_calc t a = comb ty (expr_calc t a') c"
    using assms(2) by (auto simp: drops_def)
  obtain d where d: "expr_calc t e1' = comb ty (expr_calc t e1'') d" "expr_calc t b = comb ty (expr_calc t b') d"
    using assms(3) by (auto simp: drops_def)
  show ?thesis unfolding drops_def
    by (rule exI [of _ "comb ty c d"]) (simp add: operands_calc [OF assms(1)] c d comb_ac)
qed

lemma drops_equal:
  assumes "valued t" "expr_calc t e1 = expr_calc t e2"
  shows "drops t ty e1 e2 (neutral ty) (neutral ty)"
  unfolding drops_def using assms by (intro exI [of _ "expr_calc t e2"]) (simp add: comb_neutral)

lemma same_symbol_eq: "same_symbol a b \<Longrightarrow> a = b"
  by (auto simp: same_symbol_def split: prod.splits expr.splits)

lemma eq_sound:
  assumes t: "valued t"
  shows "(\<forall>e1 e2. expr_eq n e1 e2 = Some True \<longrightarrow> expr_calc t e1 = expr_calc t e2) \<and>
    (\<forall>ty e1 e2 x y k. elim_eq n ty e1 e2 = Some (x, y, k) \<longrightarrow> drops t ty e1 e2 x y) \<and>
    (\<forall>e1 e2 x y k. expr_eliminate_eq n e1 e2 = Some (x, y, k) \<longrightarrow>
       expr_calc t x = expr_calc t y \<longrightarrow> expr_calc t e1 = expr_calc t e2)"
proof (induction n)
  case 0
  then show ?case by simp
next
  case (Suc n)
  then have eq: "\<And>e1 e2. expr_eq n e1 e2 = Some True \<Longrightarrow> expr_calc t e1 = expr_calc t e2"
    and el: "\<And>ty e1 e2 x y k. elim_eq n ty e1 e2 = Some (x, y, k) \<Longrightarrow> drops t ty e1 e2 x y"
    and ee: "\<And>e1 e2 x y k. expr_eliminate_eq n e1 e2 = Some (x, y, k) \<Longrightarrow>
       expr_calc t x = expr_calc t y \<Longrightarrow> expr_calc t e1 = expr_calc t e2"
    by auto
  have 1: "expr_calc t e1 = expr_calc t e2" if "expr_eq (Suc n) e1 e2 = Some True" for e1 e2
  proof -
    have "expr_calc t e1 = expr_calc t e2" if "expr_eliminate_eq n e1 e2 = Some (x, y, k)" "same_symbol x y" for x y k
      using ee [OF that(1)] same_symbol_eq [OF that(2)] by simp
    then show ?thesis using that eq
      by (auto split: expr.splits Option.bind_splits if_splits)
  qed
  have 2: "drops t ty e1 e2 x y" if "elim_eq (Suc n) ty e1 e2 = Some (x, y, k)" for ty e1 e2 x y k
  proof (cases "operands ty e1")
    case (Some ab)
    obtain a b where ab: "ab = (a, b)" by (cases ab)
    from that Some ab obtain a' f k1 b' l where
      s: "elim_eq n ty a e2 = Some (a', f, k1)" "elim_eq n ty b f = Some (b', y, l)" "x = alloc_two ty a' b'"
      by (auto split: Option.bind_splits)
    show ?thesis unfolding s(3) by (rule drops_left [OF Some [unfolded ab] el [OF s(1)] el [OF s(2)]])
  next
    case none1: None
    show ?thesis
    proof (cases "operands ty e2")
      case (Some ab)
      obtain a b where ab: "ab = (a, b)" by (cases ab)
      from that none1 Some ab obtain a' f k1 b' l where
        s: "elim_eq n ty e1 a = Some (f, a', k1)" "elim_eq n ty f b = Some (x, b', l)" "y = alloc_two ty a' b'"
        by (auto split: Option.bind_splits)
      show ?thesis unfolding s(3) by (rule drops_right [OF Some [unfolded ab] el [OF s(1)] el [OF s(2)]])
    next
      case None
      with that none1 eq t show ?thesis
        by (auto split: Option.bind_splits if_splits intro: drops_refl drops_equal)
    qed
  qed
  have 3: "expr_calc t e1 = expr_calc t e2"
    if "expr_eliminate_eq (Suc n) e1 e2 = Some (x, y, k)" "expr_calc t x = expr_calc t y" for e1 e2 x y k
  proof -
    have d: "expr_calc t e1 = expr_calc t e2" if "drops t ty e1 e2 x' y'" "expr_calc t x' = expr_calc t y'" for ty e1 e2 x' y'
      using that by (auto simp: drops_def)
    from that(1) obtain e1' e2' k1 x' y' k2 where
      s: "(if type_of e1 = E_OR \<or> type_of e1 = E_AND then elim_eq n (type_of e1) e1 e2 else Some (e1, e2, 0)) = Some (e1', e2', k1)"
      "(if type_of e1' \<noteq> type_of e2' \<and> (type_of e2' = E_OR \<or> type_of e2' = E_AND)
        then elim_eq n (type_of e2') e1' e2' else Some (e1', e2', 0)) = Some (x', y', k2)"
      "x = expr_eliminate_yn x'" "y = expr_eliminate_yn y'"
      by (auto split: Option.bind_splits)
    have "expr_calc t x' = expr_calc t y'" using that(2) s(3,4) t by (simp add: eliminate_yn_calc)
    then have q: "expr_calc t e1' = expr_calc t e2'"
      using s(2) d [OF el] by (auto split: if_splits dest: d [OF el])
    then show ?thesis using s(1) by (auto split: if_splits dest: d [OF el])
  qed
  show ?case using 1 2 3 by blast
qed

section \<open>The comparison ends\<close>

primrec nodes :: "expr \<Rightarrow> nat" where
  "nodes (Sym s) = 1"
| "nodes (Not e) = Suc (nodes e)"
| "nodes (Equal a b) = 1"
| "nodes (Unequal a b) = 1"
| "nodes (And a b) = Suc (nodes a + nodes b)"
| "nodes (Or a b) = Suc (nodes a + nodes b)"
| "nodes (List l s) = 1"
| "nodes (Range a b) = 1"

lemma nodes_pos [simp]: "0 < nodes e"
  by (cases e) simp_all

lemma operands_nodes:
  assumes "operands ty e = Some (a, b)"
  shows "nodes e = Suc (nodes a + nodes b)" and "nodes (alloc_two ty x y) = Suc (nodes x + nodes y)"
  using assms by (cases "(ty, e)" rule: operands.cases; simp add: alloc_two_def)+

lemma nodes_neutral [simp]: "nodes (neutral ty) = 1"
  by (simp add: neutral_def)

lemma elim_eq_nodes: "elim_eq n ty e1 e2 = Some (x, y, k) \<Longrightarrow> nodes x \<le> nodes e1 \<and> nodes y \<le> nodes e2"
proof (induction n arbitrary: e1 e2 x y k)
  case 0
  then show ?case by simp
next
  case (Suc n)
  show ?case
  proof (cases "operands ty e1")
    case (Some ab)
    obtain a b where ab: "ab = (a, b)" by (cases ab)
    from Suc.prems Some ab obtain a' f k1 b' l where
      s: "elim_eq n ty a e2 = Some (a', f, k1)" "elim_eq n ty b f = Some (b', y, l)" "x = alloc_two ty a' b'"
      by (auto split: Option.bind_splits)
    then show ?thesis using Suc.IH [OF s(1)] Suc.IH [OF s(2)] operands_nodes [OF Some [unfolded ab]] by simp
  next
    case none1: None
    show ?thesis
    proof (cases "operands ty e2")
      case (Some ab)
      obtain a b where ab: "ab = (a, b)" by (cases ab)
      from Suc.prems none1 Some ab obtain a' f k1 b' l where
        s: "elim_eq n ty e1 a = Some (f, a', k1)" "elim_eq n ty f b = Some (x, b', l)" "y = alloc_two ty a' b'"
        by (auto split: Option.bind_splits)
      then show ?thesis using Suc.IH [OF s(1)] Suc.IH [OF s(2)] operands_nodes [OF Some [unfolded ab]] by simp
    next
      case None
      with Suc.prems none1 show ?thesis
        by (auto split: Option.bind_splits if_splits simp: Suc_leI)
    qed
  qed
qed

lemma operands_type: "type_of e = E_OR \<or> type_of e = E_AND \<Longrightarrow> operands (type_of e) e \<noteq> None"
  by (cases e) simp_all

text \<open>The fuel each of the three functions needs, by the number of nodes of both expressions.\<close>

lemma eq_fuel:
  "(\<forall>e1 e2. 4 * (nodes e1 + nodes e2) \<le> n \<longrightarrow> expr_eq n e1 e2 \<noteq> None) \<and>
   (\<forall>ty e1 e2. 4 * (nodes e1 + nodes e2) + 1 \<le> n \<or>
      (4 * (nodes e1 + nodes e2) \<le> n + 2 \<and> (operands ty e1 \<noteq> None \<or> operands ty e2 \<noteq> None)) \<longrightarrow>
      elim_eq n ty e1 e2 \<noteq> None) \<and>
   (\<forall>e1 e2. 4 * (nodes e1 + nodes e2) \<le> n + 1 \<longrightarrow> expr_eliminate_eq n e1 e2 \<noteq> None)"
proof (induction n)
  case 0
  have p: "2 \<le> nodes e1 + nodes e2" for e1 e2
    using nodes_pos [of e1] nodes_pos [of e2] by linarith
  have no: "\<not> 4 * (nodes e1 + nodes e2) \<le> 2" for e1 e2 using p [of e1 e2] by presburger
  have no': "\<not> 4 * (nodes e1 + nodes e2) \<le> 1" "\<not> 4 * (nodes e1 + nodes e2) \<le> 0" for e1 e2
    using p [of e1 e2] by presburger+
  show ?case using no [unfolded numeral_2_eq_2] no' by simp
next
  case (Suc n)
  then have eq: "\<And>e1 e2. 4 * (nodes e1 + nodes e2) \<le> n \<Longrightarrow> expr_eq n e1 e2 \<noteq> None"
    and el: "\<And>ty e1 e2. 4 * (nodes e1 + nodes e2) + 1 \<le> n \<Longrightarrow> elim_eq n ty e1 e2 \<noteq> None"
    and el': "\<And>ty e1 e2. 4 * (nodes e1 + nodes e2) \<le> n + 2 \<Longrightarrow> operands ty e1 \<noteq> None \<or> operands ty e2 \<noteq> None \<Longrightarrow>
      elim_eq n ty e1 e2 \<noteq> None"
    and ee: "\<And>e1 e2. 4 * (nodes e1 + nodes e2) \<le> n + 1 \<Longrightarrow> expr_eliminate_eq n e1 e2 \<noteq> None"
    by auto
  have 1: "expr_eq (Suc n) e1 e2 \<noteq> None" if "4 * (nodes e1 + nodes e2) \<le> Suc n" for e1 e2
  proof -
    have "expr_eliminate_eq n e1 e2 \<noteq> None" using ee [of e1 e2] that by simp
    then obtain r where r: "expr_eliminate_eq n e1 e2 = Some r" by blast
    show ?thesis
    proof (cases "\<exists>a b. e1 = Not a \<and> e2 = Not b")
      case True
      then obtain a b where ab: "e1 = Not a" "e2 = Not b" by blast
      have "expr_eq n a b \<noteq> None" by (rule eq) (use that ab in simp)
      then show ?thesis by (simp add: ab)
    next
      case False
      then show ?thesis using r by (cases r) (auto split: expr.splits)
    qed
  qed
  have 2: "elim_eq (Suc n) ty e1 e2 \<noteq> None"
    if "4 * (nodes e1 + nodes e2) + 1 \<le> Suc n \<or>
      (4 * (nodes e1 + nodes e2) \<le> Suc n + 2 \<and> (operands ty e1 \<noteq> None \<or> operands ty e2 \<noteq> None))" for ty e1 e2
  proof (cases "operands ty e1")
    case (Some ab)
    obtain a b where ab: "operands ty e1 = Some (a, b)" using Some by (cases ab) simp
    note o = operands_nodes [OF ab]
    have t: "4 * (nodes e1 + nodes e2) \<le> n + 3" using that by auto
    have "elim_eq n ty a e2 \<noteq> None" by (rule el) (use t o(1) nodes_pos [of b] in presburger)
    then obtain a' f k where a': "elim_eq n ty a e2 = Some (a', f, k)" by auto
    have "nodes f \<le> nodes e2" using elim_eq_nodes [OF a'] by simp
    then have "elim_eq n ty b f \<noteq> None"
      by (intro el) (use t o(1) nodes_pos [of a] in presburger)
    then show ?thesis using ab a' by auto
  next
    case none1: None
    show ?thesis
    proof (cases "operands ty e2")
      case (Some ab)
      obtain a b where ab: "operands ty e2 = Some (a, b)" using Some by (cases ab) simp
      note o = operands_nodes [OF ab]
      have t: "4 * (nodes e1 + nodes e2) \<le> n + 3" using that by auto
      have "elim_eq n ty e1 a \<noteq> None" by (rule el) (use t o(1) nodes_pos [of b] in presburger)
      then obtain a' f k where a': "elim_eq n ty e1 a = Some (f, a', k)" by auto
      have "nodes f \<le> nodes e1" using elim_eq_nodes [OF a'] by simp
      then have "elim_eq n ty f b \<noteq> None"
        by (intro el) (use t o(1) nodes_pos [of a] in presburger)
      then show ?thesis using ab none1 a' by auto
    next
      case None
      then have "expr_eq n e1 e2 \<noteq> None" using that none1 None by (intro eq) auto
      then show ?thesis using none1 None by auto
    qed
  qed
  have 3: "expr_eliminate_eq (Suc n) e1 e2 \<noteq> None" if "4 * (nodes e1 + nodes e2) \<le> Suc n + 1" for e1 e2
  proof -
    let ?f = "if type_of e1 = E_OR \<or> type_of e1 = E_AND then elim_eq n (type_of e1) e1 e2 else Some (e1, e2, 0)"
    have "?f \<noteq> None" using el' [of e1 e2 "type_of e1"] operands_type [of e1] that by auto
    then obtain e1' e2' k where f: "?f = Some (e1', e2', k)" by auto
    then have m: "nodes e1' \<le> nodes e1" "nodes e2' \<le> nodes e2"
      using elim_eq_nodes [of n "type_of e1" e1 e2 e1' e2' k] by (auto split: if_splits)
    let ?g = "if type_of e1' \<noteq> type_of e2' \<and> (type_of e2' = E_OR \<or> type_of e2' = E_AND)
      then elim_eq n (type_of e2') e1' e2' else Some (e1', e2', 0)"
    have "4 * (nodes e1' + nodes e2') \<le> n + 2" using m that by presburger
    then have "?g \<noteq> None" using el' [of e1' e2' "type_of e2'"] operands_type [of e2'] by auto
    then obtain x y l where g: "?g = Some (x, y, l)" by auto
    show ?thesis unfolding expr_eliminate_eq.simps f by (simp add: g)
  qed
  show ?case using 1 2 3 by blast
qed

section \<open>Comparing, copying and extracting\<close>

text \<open>\<open>expr_eq\<close> with enough fuel.\<close>

definition eq_expr :: "expr \<Rightarrow> expr \<Rightarrow> bool" where
  "eq_expr e1 e2 \<longleftrightarrow> expr_eq (4 * (nodes e1 + nodes e2)) e1 e2 = Some True"

lemma eq_expr_sound: "valued t \<Longrightarrow> eq_expr e1 e2 \<Longrightarrow> expr_calc t e1 = expr_calc t e2"
  using eq_sound [of t] unfolding eq_expr_def by blast

text \<open>
  \<open>expr_copy\<close>. A range cannot be copied; the copy of a list would follow a symbol pointer as if it
  were an expression, which is undefined. Both are \<open>None\<close>.
\<close>

fun copy :: "expr \<Rightarrow> expr option" where
  "copy (Sym s) = Some (Sym s)"
| "copy (Not e) = do { e \<leftarrow> copy e; Some (Not e) }"
| "copy (Equal a b) = Some (Equal a b)"
| "copy (Unequal a b) = Some (Unequal a b)"
| "copy (And a b) = do { a \<leftarrow> copy a; b \<leftarrow> copy b; Some (And a b) }"
| "copy (Or a b) = do { a \<leftarrow> copy a; b \<leftarrow> copy b; Some (Or a b) }"
| "copy (List l s) = None"
| "copy (Range a b) = None"

definition expr_copy :: "expr option \<Rightarrow> expr option" where
  "expr_copy e = (case e of None \<Rightarrow> None | Some e \<Rightarrow> copy e)"

text \<open>Dependency expressions hold no choice lists and no ranges.\<close>

fun plain :: "expr \<Rightarrow> bool" where
  "plain (Not e) = plain e"
| "plain (And a b) = (plain a \<and> plain b)"
| "plain (Or a b) = (plain a \<and> plain b)"
| "plain (List l s) = False"
| "plain (Range a b) = False"
| "plain _ = True"

lemma copy_id: "copy e = (if plain e then Some e else None)"
  by (induction e) auto

text \<open>
  \<open>expr_extract_eq\<close>: common operands are moved to the accumulator and replaced in both expressions.
\<close>

fun extract_eq ::
    "nat \<Rightarrow> expr_type \<Rightarrow> expr option \<Rightarrow> expr \<Rightarrow> expr \<Rightarrow> (expr option \<times> expr \<times> expr) option" where
  "extract_eq 0 ty ep e1 e2 = None"
| "extract_eq (Suc n) ty ep e1 e2 =
     (case operands ty e1 of
        Some (a, b) \<Rightarrow> do {
          (ep, a, e2) \<leftarrow> extract_eq n ty ep a e2;
          (ep, b, e2) \<leftarrow> extract_eq n ty ep b e2;
          Some (ep, alloc_two ty a b, e2) }
      | None \<Rightarrow>
     (case operands ty e2 of
        Some (a, b) \<Rightarrow> do {
          (ep, e1, a) \<leftarrow> extract_eq n ty ep e1 a;
          (ep, e1, b) \<leftarrow> extract_eq n ty ep e1 b;
          Some (ep, e1, alloc_two ty a b) }
      | None \<Rightarrow>
          if eq_expr e1 e2
          then Some (Some (case ep of Some x \<Rightarrow> alloc_two ty x e1 | None \<Rightarrow> e1), neutral ty, neutral ty)
          else Some (ep, e1, e2)))"

definition expr_extract_eq :: "expr_type \<Rightarrow> expr \<Rightarrow> expr \<Rightarrow> expr option \<times> expr \<times> expr" where
  "expr_extract_eq ty e1 e2 =
     (case extract_eq (nodes e1 + nodes e2) ty None e1 e2 of
        None \<Rightarrow> (None, e1, e2)
      | Some (tmp, e1, e2) \<Rightarrow>
          if tmp \<noteq> None then (tmp, expr_eliminate_yn e1, expr_eliminate_yn e2) else (tmp, e1, e2))"

lemma extract_eq_nodes:
  "extract_eq n ty ep e1 e2 = Some (ep', x, y) \<Longrightarrow> nodes x \<le> nodes e1 \<and> nodes y \<le> nodes e2"
proof (induction n arbitrary: ep e1 e2 ep' x y)
  case 0
  then show ?case by simp
next
  case (Suc n)
  show ?case
  proof (cases "operands ty e1")
    case (Some ab)
    obtain a b where ab: "ab = (a, b)" by (cases ab)
    from Suc.prems Some ab obtain p a' f b' where
      s: "extract_eq n ty ep a e2 = Some (p, a', f)" "extract_eq n ty p b f = Some (ep', b', y)" "x = alloc_two ty a' b'"
      by (auto split: Option.bind_splits)
    then show ?thesis using Suc.IH [OF s(1)] Suc.IH [OF s(2)] operands_nodes [OF Some [unfolded ab]] by simp
  next
    case none1: None
    show ?thesis
    proof (cases "operands ty e2")
      case (Some ab)
      obtain a b where ab: "ab = (a, b)" by (cases ab)
      from Suc.prems none1 Some ab obtain p a' f b' where
        s: "extract_eq n ty ep e1 a = Some (p, f, a')" "extract_eq n ty p f b = Some (ep', x, b')" "y = alloc_two ty a' b'"
        by (auto split: Option.bind_splits)
      then show ?thesis using Suc.IH [OF s(1)] Suc.IH [OF s(2)] operands_nodes [OF Some [unfolded ab]] by simp
    next
      case None
      with Suc.prems none1 show ?thesis by (auto split: if_splits simp: Suc_leI)
    qed
  qed
qed

lemma extract_eq_fuel: "nodes e1 + nodes e2 \<le> n + 1 \<Longrightarrow> extract_eq n ty ep e1 e2 \<noteq> None"
proof (induction n arbitrary: ep e1 e2)
  case 0
  then show ?case using nodes_pos [of e1] nodes_pos [of e2] by linarith
next
  case (Suc n)
  show ?case
  proof (cases "operands ty e1")
    case (Some ab)
    obtain a b where ab: "operands ty e1 = Some (a, b)" using Some by (cases ab) simp
    note o = operands_nodes(1) [OF ab]
    have "extract_eq n ty ep a e2 \<noteq> None" by (rule Suc.IH) (use Suc.prems o nodes_pos [of b] in presburger)
    then obtain p a' f where a': "extract_eq n ty ep a e2 = Some (p, a', f)" by auto
    have "nodes f \<le> nodes e2" using extract_eq_nodes [OF a'] by simp
    then have "extract_eq n ty p b f \<noteq> None"
      by (intro Suc.IH) (use Suc.prems o nodes_pos [of a] in presburger)
    then show ?thesis using ab a' by auto
  next
    case none1: None
    show ?thesis
    proof (cases "operands ty e2")
      case (Some ab)
      obtain a b where ab: "operands ty e2 = Some (a, b)" using Some by (cases ab) simp
      note o = operands_nodes(1) [OF ab]
      have "extract_eq n ty ep e1 a \<noteq> None" by (rule Suc.IH) (use Suc.prems o nodes_pos [of b] in presburger)
      then obtain p a' f where a': "extract_eq n ty ep e1 a = Some (p, f, a')" by auto
      have "nodes f \<le> nodes e1" using extract_eq_nodes [OF a'] by simp
      then have "extract_eq n ty p f b \<noteq> None"
        by (intro Suc.IH) (use Suc.prems o nodes_pos [of a] in presburger)
      then show ?thesis using ab none1 a' by auto
    next
      case None
      then show ?thesis using none1 by simp
    qed
  qed
qed

text \<open>Putting the extracted operands back gives both expressions their old value.\<close>

definition acc_val :: "symtab \<Rightarrow> expr_type \<Rightarrow> expr option \<Rightarrow> tristate" where
  "acc_val t ty ep = (case ep of None \<Rightarrow> expr_calc t (neutral ty) | Some e \<Rightarrow> expr_calc t e)"

lemma alloc_two_calc: "ty = E_OR \<or> ty = E_AND \<Longrightarrow> expr_calc t (alloc_two ty x y) = comb ty (expr_calc t x) (expr_calc t y)"
  by (auto simp: alloc_two_def comb_def EXPR_OR_max EXPR_AND_min)

lemma extract_eq_calc:
  assumes t: "valued t" and ty: "ty = E_OR \<or> ty = E_AND"
  shows "extract_eq n ty ep e1 e2 = Some (ep', x, y) \<Longrightarrow>
    \<exists>c. acc_val t ty ep' = comb ty (acc_val t ty ep) c \<and>
      expr_calc t e1 = comb ty (expr_calc t x) c \<and> expr_calc t e2 = comb ty (expr_calc t y) c"
proof (induction n arbitrary: ep e1 e2 ep' x y)
  case 0
  then show ?case by simp
next
  case (Suc n)
  have id: "comb ty v (expr_calc t (neutral ty)) = v" "comb ty (expr_calc t (neutral ty)) v = v" for v
    using comb_neutral [OF t] comb_ac(1) by metis+
  have idem: "comb ty (comb ty u v) (comb ty u' v) = comb ty (comb ty u u') v" for u v u'
    by (auto simp: comb_def ac_simps)
  show ?case
  proof (cases "operands ty e1")
    case (Some ab)
    obtain a b where ab: "ab = (a, b)" by (cases ab)
    from Suc.prems Some ab obtain p a' f b' where
      s: "extract_eq n ty ep a e2 = Some (p, a', f)" "extract_eq n ty p b f = Some (ep', b', y)" "x = alloc_two ty a' b'"
      by (auto split: Option.bind_splits)
    from Suc.IH [OF s(1)] Suc.IH [OF s(2)] obtain c d where
      c: "acc_val t ty p = comb ty (acc_val t ty ep) c" "expr_calc t a = comb ty (expr_calc t a') c"
        "expr_calc t e2 = comb ty (expr_calc t f) c" and
      d: "acc_val t ty ep' = comb ty (acc_val t ty p) d" "expr_calc t b = comb ty (expr_calc t b') d"
        "expr_calc t f = comb ty (expr_calc t y) d" by blast
    show ?thesis
      by (rule exI [of _ "comb ty c d"])
        (simp add: c d s(3) operands_calc [OF Some [unfolded ab]] comb_ac)
  next
    case none1: None
    show ?thesis
    proof (cases "operands ty e2")
      case (Some ab)
      obtain a b where ab: "ab = (a, b)" by (cases ab)
      from Suc.prems none1 Some ab obtain p a' f b' where
        s: "extract_eq n ty ep e1 a = Some (p, f, a')" "extract_eq n ty p f b = Some (ep', x, b')" "y = alloc_two ty a' b'"
        by (auto split: Option.bind_splits)
      from Suc.IH [OF s(1)] Suc.IH [OF s(2)] obtain c d where
        c: "acc_val t ty p = comb ty (acc_val t ty ep) c" "expr_calc t e1 = comb ty (expr_calc t f) c"
          "expr_calc t a = comb ty (expr_calc t a') c" and
        d: "acc_val t ty ep' = comb ty (acc_val t ty p) d" "expr_calc t f = comb ty (expr_calc t x) d"
          "expr_calc t b = comb ty (expr_calc t b') d" by blast
      show ?thesis
        by (rule exI [of _ "comb ty c d"])
          (simp add: c d s(3) operands_calc [OF Some [unfolded ab]] comb_ac)
    next
      case None
      show ?thesis
      proof (cases "eq_expr e1 e2")
        case True
        have v: "expr_calc t e1 = expr_calc t e2" by (rule eq_expr_sound [OF t True])
        from True None none1 Suc.prems have
          "ep' = Some (case ep of Some z \<Rightarrow> alloc_two ty z e1 | None \<Rightarrow> e1)" "x = neutral ty" "y = neutral ty"
          by auto
        then show ?thesis
          using v by (intro exI [of _ "expr_calc t e1"]) (auto simp: acc_val_def id alloc_two_calc [OF ty] split: option.splits)
      next
        case False
        with None none1 Suc.prems have "ep' = ep" "x = e1" "y = e2" by auto
        then show ?thesis by (intro exI [of _ "expr_calc t (neutral ty)"]) (simp add: id)
      qed
    qed
  qed
qed

section \<open>Joining two operands\<close>

text \<open>The symbol each operand is about, as the code picks it; \<open>None\<close> where it returns NULL.\<close>

fun join_sym1 :: "expr \<Rightarrow> symbol option" where
  "join_sym1 (Sym s) = Some s"
| "join_sym1 (Equal s _) = Some s"
| "join_sym1 (Unequal s _) = Some s"
| "join_sym1 (Not (Sym s)) = Some s"
| "join_sym1 (Not (Equal s _)) = Some s"
| "join_sym1 (Not (Unequal s _)) = Some s"
| "join_sym1 _ = None"

fun join_sym2 :: "expr \<Rightarrow> symbol option" where
  "join_sym2 (Sym s) = Some s"
| "join_sym2 (Equal s _) = Some s"
| "join_sym2 (Unequal s _) = Some s"
| "join_sym2 (Not (Sym s)) = Some s"
| "join_sym2 _ = None"

definition eq_to :: "symbol \<Rightarrow> expr \<Rightarrow> bool" where
  "eq_to c e \<longleftrightarrow> (case e of Equal _ s \<Rightarrow> s = c | _ \<Rightarrow> False)"

definition ne_to :: "symbol \<Rightarrow> expr \<Rightarrow> bool" where
  "ne_to c e \<longleftrightarrow> (case e of Unequal _ s \<Rightarrow> s = c | _ \<Rightarrow> False)"

definition is_sym :: "expr \<Rightarrow> bool" where
  "is_sym e \<longleftrightarrow> type_of e = E_SYMBOL"

definition not_sym :: "expr \<Rightarrow> bool" where
  "not_sym e \<longleftrightarrow> (case e of Not (Sym _) \<Rightarrow> True | _ \<Rightarrow> False)"

text \<open>A test on both operands in either order.\<close>

definition either :: "(expr \<Rightarrow> bool) \<Rightarrow> (expr \<Rightarrow> bool) \<Rightarrow> expr \<Rightarrow> expr \<Rightarrow> bool" where
  "either P Q e1 e2 \<longleftrightarrow> P e1 \<and> Q e2 \<or> P e2 \<and> Q e1"

definition expr_join_or :: "symtab \<Rightarrow> expr \<Rightarrow> expr \<Rightarrow> expr option" where
  "expr_join_or t e1 e2 =
     (if eq_expr e1 e2 then copy e1
      else case (join_sym1 e1, join_sym2 e2) of
        (Some sym1, Some sym2) \<Rightarrow>
          if sym1 \<noteq> sym2 then None
          else if stype t sym1 \<noteq> S_BOOLEAN \<and> stype t sym1 \<noteq> S_TRISTATE then None
          else if stype t sym1 = S_TRISTATE \<and> either (eq_to symbol_yes) (eq_to symbol_mod) e1 e2
          then Some (Unequal sym1 symbol_no)
          else if stype t sym1 = S_TRISTATE \<and> either (eq_to symbol_yes) (eq_to symbol_no) e1 e2
          then Some (Unequal sym1 symbol_mod)
          else if stype t sym1 = S_TRISTATE \<and> either (eq_to symbol_mod) (eq_to symbol_no) e1 e2
          then Some (Unequal sym1 symbol_yes)
          else if stype t sym1 = S_BOOLEAN \<and> either not_sym is_sym e1 e2
          then Some (Sym symbol_yes)
          else None
      | _ \<Rightarrow> None)"

text \<open>The two rules on constants: \<open>(a='b') && (a!='c')\<close>.\<close>

definition join_const :: "symtab \<Rightarrow> symbol \<Rightarrow> expr \<Rightarrow> expr \<Rightarrow> expr option" where
  "join_const t sym1 e1 e2 =
     (case (e1, e2) of
        (Equal _ b, Unequal _ c) \<Rightarrow>
          if sconst t c \<and> sconst t b
          then Some (if b \<noteq> c then Equal sym1 b else Sym symbol_no) else None
      | (Unequal _ c, Equal _ b) \<Rightarrow>
          if sconst t c \<and> sconst t b
          then Some (if b \<noteq> c then Equal sym1 b else Sym symbol_no) else None
      | _ \<Rightarrow> None)"

definition expr_join_and :: "symtab \<Rightarrow> expr \<Rightarrow> expr \<Rightarrow> expr option" where
  "expr_join_and t e1 e2 =
     (if eq_expr e1 e2 then copy e1
      else case (join_sym1 e1, join_sym2 e2) of
        (Some sym1, Some sym2) \<Rightarrow>
          if sym1 \<noteq> sym2 then None
          else if stype t sym1 \<noteq> S_BOOLEAN \<and> stype t sym1 \<noteq> S_TRISTATE then None
          else if either is_sym (eq_to symbol_yes) e1 e2 then Some (Equal sym1 symbol_yes)
          else if either is_sym (ne_to symbol_no) e1 e2 then Some (Sym sym1)
          else if either is_sym (ne_to symbol_mod) e1 e2 then Some (Equal sym1 symbol_yes)
          else if stype t sym1 = S_TRISTATE then
            (case join_const t sym1 e1 e2 of
               Some e \<Rightarrow> Some e
             | None \<Rightarrow>
                 if either (ne_to symbol_yes) (ne_to symbol_no) e1 e2 then Some (Equal sym1 symbol_mod)
                 else if either (ne_to symbol_yes) (ne_to symbol_mod) e1 e2 then Some (Equal sym1 symbol_no)
                 else if either (ne_to symbol_mod) (ne_to symbol_no) e1 e2 then Some (Equal sym1 symbol_yes)
                 else None)
          else None
      | _ \<Rightarrow> None)"

text \<open>What the tests say about the operands once both are about the symbol \<open>s\<close>.\<close>

lemma eq_to_D: "eq_to c e \<Longrightarrow> join_sym1 e = Some s \<or> join_sym2 e = Some s \<Longrightarrow> e = Equal s c"
  by (cases e) (auto simp: eq_to_def)

lemma ne_to_D: "ne_to c e \<Longrightarrow> join_sym1 e = Some s \<or> join_sym2 e = Some s \<Longrightarrow> e = Unequal s c"
  by (cases e) (auto simp: ne_to_def)

lemma is_sym_D: "is_sym e \<Longrightarrow> join_sym1 e = Some s \<or> join_sym2 e = Some s \<Longrightarrow> e = Sym s"
  by (cases e) (auto simp: is_sym_def)

lemma not_sym_D: "not_sym e \<Longrightarrow> join_sym1 e = Some s \<or> join_sym2 e = Some s \<Longrightarrow> e = Not (Sym s)"
  by (auto simp: not_sym_def split: expr.splits)

lemmas join_tests = eq_to_D ne_to_D is_sym_D not_sym_D

lemma either_calc:
  assumes "either P Q e1 e2" and "join_sym1 e1 = Some s" and "join_sym2 e2 = Some s"
    and "\<And>e. P e \<Longrightarrow> join_sym1 e = Some s \<or> join_sym2 e = Some s \<Longrightarrow> e = p"
    and "\<And>e. Q e \<Longrightarrow> join_sym1 e = Some s \<or> join_sym2 e = Some s \<Longrightarrow> e = q"
  shows "min (expr_calc t e1) (expr_calc t e2) = min (expr_calc t p) (expr_calc t q)"
    and "max (expr_calc t e1) (expr_calc t e2) = max (expr_calc t p) (expr_calc t q)"
proof -
  have "(e1 = p \<and> e2 = q) \<or> (e1 = q \<and> e2 = p)" using assms unfolding either_def by metis
  then show "min (expr_calc t e1) (expr_calc t e2) = min (expr_calc t p) (expr_calc t q)"
    and "max (expr_calc t e1) (expr_calc t e2) = max (expr_calc t p) (expr_calc t q)"
    by (auto simp: min.commute max.commute)
qed

lemma tri_calc:
  assumes "valued t" and "stype t s = S_BOOLEAN \<or> stype t s = S_TRISTATE"
  shows "expr_calc t (Equal s symbol_yes) = (if tri t s = yes then yes else no)"
    "expr_calc t (Equal s symbol_mod) = (if tri t s = modul then yes else no)"
    "expr_calc t (Equal s symbol_no) = (if tri t s = no then yes else no)"
    "expr_calc t (Unequal s symbol_yes) = (if tri t s = yes then no else yes)"
    "expr_calc t (Unequal s symbol_mod) = (if tri t s = modul then no else yes)"
    "expr_calc t (Unequal s symbol_no) = (if tri t s = no then no else yes)"
proof -
  have "str t s = tri_letter (tri t s)" using assms valuedD(7,8) by blast
  then show "expr_calc t (Equal s symbol_yes) = (if tri t s = yes then yes else no)"
    "expr_calc t (Equal s symbol_mod) = (if tri t s = modul then yes else no)"
    "expr_calc t (Equal s symbol_no) = (if tri t s = no then yes else no)"
    "expr_calc t (Unequal s symbol_yes) = (if tri t s = yes then no else yes)"
    "expr_calc t (Unequal s symbol_mod) = (if tri t s = modul then no else yes)"
    "expr_calc t (Unequal s symbol_no) = (if tri t s = no then no else yes)"
    using valuedD(4-6) [OF assms(1)] by (cases "tri t s"; simp)+
qed

lemma join_or_calc:
  assumes t: "valued t" and j: "expr_join_or t e1 e2 = Some e"
  shows "expr_calc t e = max (expr_calc t e1) (expr_calc t e2)"
proof (cases "eq_expr e1 e2")
  case True
  then show ?thesis
    using j eq_expr_sound [OF t True] by (simp add: expr_join_or_def copy_id split: if_splits)
next
  case False
  from j False obtain s where s: "join_sym1 e1 = Some s" "join_sym2 e2 = Some s"
    and ty: "stype t s = S_BOOLEAN \<or> stype t s = S_TRISTATE"
    by (auto simp: expr_join_or_def split: option.splits if_splits)
  note e = either_calc(2) [OF _ s]
  from j False s consider
      "either (eq_to symbol_yes) (eq_to symbol_mod) e1 e2" "e = Unequal s symbol_no"
    | "either (eq_to symbol_yes) (eq_to symbol_no) e1 e2" "e = Unequal s symbol_mod"
    | "either (eq_to symbol_mod) (eq_to symbol_no) e1 e2" "e = Unequal s symbol_yes"
    | "either not_sym is_sym e1 e2" "e = Sym symbol_yes" "stype t s = S_BOOLEAN"
    by (auto simp: expr_join_or_def split: if_splits)
  then show ?thesis
  proof cases
    case 1
    have "max (expr_calc t e1) (expr_calc t e2) = max (expr_calc t (Equal s symbol_yes)) (expr_calc t (Equal s symbol_mod))"
      by (rule either_calc(2) [OF 1(1) s]) (erule (1) join_tests)+
    then show ?thesis unfolding 1(2) tri_calc [OF t ty] by (cases "tri t s") simp_all
  next
    case 2
    have "max (expr_calc t e1) (expr_calc t e2) = max (expr_calc t (Equal s symbol_yes)) (expr_calc t (Equal s symbol_no))"
      by (rule either_calc(2) [OF 2(1) s]) (erule (1) join_tests)+
    then show ?thesis unfolding 2(2) tri_calc [OF t ty] by (cases "tri t s") simp_all
  next
    case 3
    have "max (expr_calc t e1) (expr_calc t e2) = max (expr_calc t (Equal s symbol_mod)) (expr_calc t (Equal s symbol_no))"
      by (rule either_calc(2) [OF 3(1) s]) (erule (1) join_tests)+
    then show ?thesis unfolding 3(2) tri_calc [OF t ty] by (cases "tri t s") simp_all
  next
    case 4
    have "max (expr_calc t e1) (expr_calc t e2) = max (expr_calc t (Not (Sym s))) (expr_calc t (Sym s))"
      by (rule either_calc(2) [OF 4(1) s]) (erule (1) join_tests)+
    then show ?thesis unfolding 4(2) using valuedD(9) [OF t 4(3)] valuedD(1) [OF t]
      by (cases "tri t s") simp_all
  qed
qed

lemma join_const_calc:
  assumes t: "valued t" and ty: "stype t s = S_BOOLEAN \<or> stype t s = S_TRISTATE"
    and s: "join_sym1 e1 = Some s" "join_sym2 e2 = Some s" and j: "join_const t s e1 e2 = Some e"
  shows "expr_calc t e = min (expr_calc t e1) (expr_calc t e2)"
proof -
  from j s obtain b c where bc: "sconst t c" "sconst t b" "e = (if b \<noteq> c then Equal s b else Sym symbol_no)"
    "(e1 = Equal s b \<and> e2 = Unequal s c) \<or> (e1 = Unequal s c \<and> e2 = Equal s b)"
    by (cases e1; cases e2) (auto simp: join_const_def split: if_splits)
  have "b \<noteq> c \<Longrightarrow> str t b \<noteq> str t c" using valuedD(10) [OF t bc(2,1)] .
  then have "expr_calc t e = min (expr_calc t (Equal s b)) (expr_calc t (Unequal s c))"
    using bc(3) valuedD(3) [OF t] by auto
  then show ?thesis using bc(4) by (auto simp: min.commute)
qed

lemma chain_cases:
  "(if A then Some x1 else if B then Some x2 else if C then Some x3
    else if T then (case J of Some e \<Rightarrow> Some e
                    | None \<Rightarrow> if D then Some x4 else if E then Some x5 else if F then Some x6 else None)
    else None) = Some e \<Longrightarrow>
   (A \<and> e = x1) \<or> (B \<and> e = x2) \<or> (C \<and> e = x3) \<or> J = Some e \<or> (D \<and> e = x4) \<or> (E \<and> e = x5) \<or> (F \<and> e = x6)"
  by (cases J) (simp_all split: if_splits)

lemma join_and_calc:
  assumes t: "valued t" and j: "expr_join_and t e1 e2 = Some e"
  shows "expr_calc t e = min (expr_calc t e1) (expr_calc t e2)"
proof (cases "eq_expr e1 e2")
  case True
  then show ?thesis
    using j eq_expr_sound [OF t True] by (simp add: expr_join_and_def copy_id split: if_splits)
next
  case False
  from j False obtain s where s: "join_sym1 e1 = Some s" "join_sym2 e2 = Some s"
    and ty: "stype t s = S_BOOLEAN \<or> stype t s = S_TRISTATE"
    by (auto simp: expr_join_and_def split: option.splits if_splits)
  have r: "min (expr_calc t e1) (expr_calc t e2) = min (expr_calc t p) (expr_calc t q)"
    if "either P Q e1 e2" "\<And>e. P e \<Longrightarrow> join_sym1 e = Some s \<or> join_sym2 e = Some s \<Longrightarrow> e = p"
      "\<And>e. Q e \<Longrightarrow> join_sym1 e = Some s \<or> join_sym2 e = Some s \<Longrightarrow> e = q" for P Q p q
    by (rule either_calc(1) [OF that(1) s that(2,3)])
  have chain: "(if either is_sym (eq_to symbol_yes) e1 e2 then Some (Equal s symbol_yes)
      else if either is_sym (ne_to symbol_no) e1 e2 then Some (Sym s)
      else if either is_sym (ne_to symbol_mod) e1 e2 then Some (Equal s symbol_yes)
      else if stype t s = S_TRISTATE then
        (case join_const t s e1 e2 of
           Some e \<Rightarrow> Some e
         | None \<Rightarrow>
             if either (ne_to symbol_yes) (ne_to symbol_no) e1 e2 then Some (Equal s symbol_mod)
             else if either (ne_to symbol_yes) (ne_to symbol_mod) e1 e2 then Some (Equal s symbol_no)
             else if either (ne_to symbol_mod) (ne_to symbol_no) e1 e2 then Some (Equal s symbol_yes)
             else None)
      else None) = Some e"
  proof -
    have "\<not> (stype t s \<noteq> S_BOOLEAN \<and> stype t s \<noteq> S_TRISTATE)" using ty by blast
    with j False s show ?thesis unfolding expr_join_and_def by (simp only: if_False option.case prod.case simp_thms)
  qed
  consider
      "either is_sym (eq_to symbol_yes) e1 e2" "e = Equal s symbol_yes"
    | "either is_sym (ne_to symbol_no) e1 e2" "e = Sym s"
    | "either is_sym (ne_to symbol_mod) e1 e2" "e = Equal s symbol_yes"
    | "join_const t s e1 e2 = Some e"
    | "either (ne_to symbol_yes) (ne_to symbol_no) e1 e2" "e = Equal s symbol_mod"
    | "either (ne_to symbol_yes) (ne_to symbol_mod) e1 e2" "e = Equal s symbol_no"
    | "either (ne_to symbol_mod) (ne_to symbol_no) e1 e2" "e = Equal s symbol_yes"
    using chain_cases [OF chain] by blast
  then show ?thesis
  proof cases
    case 1
    have "min (expr_calc t e1) (expr_calc t e2) = min (expr_calc t (Sym s)) (expr_calc t (Equal s symbol_yes))"
      by (rule r [OF 1(1)]) (erule (1) join_tests)+
    then show ?thesis unfolding 1(2) tri_calc [OF t ty] by (cases "tri t s") simp_all
  next
    case 2
    have "min (expr_calc t e1) (expr_calc t e2) = min (expr_calc t (Sym s)) (expr_calc t (Unequal s symbol_no))"
      by (rule r [OF 2(1)]) (erule (1) join_tests)+
    then show ?thesis unfolding 2(2) tri_calc [OF t ty] by (cases "tri t s") simp_all
  next
    case 3
    have "min (expr_calc t e1) (expr_calc t e2) = min (expr_calc t (Sym s)) (expr_calc t (Unequal s symbol_mod))"
      by (rule r [OF 3(1)]) (erule (1) join_tests)+
    then show ?thesis unfolding 3(2) tri_calc [OF t ty] by (cases "tri t s") simp_all
  next
    case 4
    then show ?thesis by (rule join_const_calc [OF t ty s])
  next
    case 5
    have "min (expr_calc t e1) (expr_calc t e2) = min (expr_calc t (Unequal s symbol_yes)) (expr_calc t (Unequal s symbol_no))"
      by (rule r [OF 5(1)]) (erule (1) join_tests)+
    then show ?thesis unfolding 5(2) tri_calc [OF t ty] by (cases "tri t s") simp_all
  next
    case 6
    have "min (expr_calc t e1) (expr_calc t e2) = min (expr_calc t (Unequal s symbol_yes)) (expr_calc t (Unequal s symbol_mod))"
      by (rule r [OF 6(1)]) (erule (1) join_tests)+
    then show ?thesis unfolding 6(2) tri_calc [OF t ty] by (cases "tri t s") simp_all
  next
    case 7
    have "min (expr_calc t e1) (expr_calc t e2) = min (expr_calc t (Unequal s symbol_mod)) (expr_calc t (Unequal s symbol_no))"
      by (rule r [OF 7(1)]) (erule (1) join_tests)+
    then show ?thesis unfolding 7(2) tri_calc [OF t ty] by (cases "tri t s") simp_all
  qed
qed

section \<open>Transforming\<close>

fun expr_trans_bool :: "symtab \<Rightarrow> expr \<Rightarrow> expr" where
  "expr_trans_bool t (And a b) = And (expr_trans_bool t a) (expr_trans_bool t b)"
| "expr_trans_bool t (Or a b) = Or (expr_trans_bool t a) (expr_trans_bool t b)"
| "expr_trans_bool t (Not a) = Not (expr_trans_bool t a)"
| "expr_trans_bool t (Unequal a b) =
     (if stype t a = S_TRISTATE \<and> b = symbol_no then Sym a else Unequal a b)"
| "expr_trans_bool t e = e"

definition trans_equal :: "symtab \<Rightarrow> symbol \<Rightarrow> symbol \<Rightarrow> expr" where
  "trans_equal t a b =
     (if stype t a \<noteq> S_BOOLEAN then Equal a b
      else if b = symbol_no then Not (Sym a)
      else if b = symbol_mod then Sym symbol_no
      else if b = symbol_yes then Sym a
      else Equal a b)"

definition trans_unequal :: "symtab \<Rightarrow> symbol \<Rightarrow> symbol \<Rightarrow> expr" where
  "trans_unequal t a b =
     (if stype t a \<noteq> S_BOOLEAN then Unequal a b
      else if b = symbol_no then Sym a
      else if b = symbol_mod then Sym symbol_yes
      else if b = symbol_yes then Not (Sym a)
      else Unequal a b)"

definition trans_not_symbol :: "symbol \<Rightarrow> expr" where
  "trans_not_symbol s =
     (if s = symbol_yes then Sym symbol_no
      else if s = symbol_mod then Sym symbol_mod
      else if s = symbol_no then Sym symbol_yes
      else Not (Sym s))"

text \<open>
  A range would send the code into a symbol as if it were an expression; it has no result here.
\<close>

fun transform :: "symtab \<Rightarrow> nat \<Rightarrow> expr \<Rightarrow> expr option" where
  "transform t 0 e = None"
| "transform t (Suc n) (Equal a b) = Some (trans_equal t a b)"
| "transform t (Suc n) (Unequal a b) = Some (trans_unequal t a b)"
| "transform t (Suc n) (Sym s) = Some (Sym s)"
| "transform t (Suc n) (List l s) = Some (List l s)"
| "transform t (Suc n) (Range a b) = None"
| "transform t (Suc n) (And a b) = do { a \<leftarrow> transform t n a; b \<leftarrow> transform t n b; Some (And a b) }"
| "transform t (Suc n) (Or a b) = do { a \<leftarrow> transform t n a; b \<leftarrow> transform t n b; Some (Or a b) }"
| "transform t (Suc n) (Not a) = do {
     a \<leftarrow> transform t n a;
     (case a of
        Not x \<Rightarrow> transform t n x
      | Equal x y \<Rightarrow> Some (Unequal x y)
      | Unequal x y \<Rightarrow> Some (Equal x y)
      | Or x y \<Rightarrow> transform t n (And (Not x) (Not y))
      | And x y \<Rightarrow> transform t n (Or (Not x) (Not y))
      | Sym s \<Rightarrow> Some (trans_not_symbol s)
      | _ \<Rightarrow> Some (Not a)) }"

text \<open>The measure of the recursion: negations count double.\<close>

primrec weight :: "expr \<Rightarrow> nat" where
  "weight (Sym s) = 1"
| "weight (Not e) = 2 * weight e"
| "weight (Equal a b) = 2"
| "weight (Unequal a b) = 2"
| "weight (And a b) = Suc (weight a + weight b)"
| "weight (Or a b) = Suc (weight a + weight b)"
| "weight (List l s) = 1"
| "weight (Range a b) = 1"

lemma weight_pos [simp]: "0 < weight e"
  by (induction e) simp_all

text \<open>Normal form: a negation stands in front of a variable symbol only.\<close>

fun negations_inside :: "expr \<Rightarrow> bool" where
  "negations_inside (Not e) = (case e of Sym s \<Rightarrow> s \<notin> {symbol_yes, symbol_mod, symbol_no} | _ \<Rightarrow> False)"
| "negations_inside (And a b) = (negations_inside a \<and> negations_inside b)"
| "negations_inside (Or a b) = (negations_inside a \<and> negations_inside b)"
| "negations_inside _ = True"

definition consts_untyped :: "symtab \<Rightarrow> bool" where
  "consts_untyped t \<longleftrightarrow> (\<forall>s \<in> {symbol_yes, symbol_mod, symbol_no}. stype t s = S_UNKNOWN)"

lemma EXPR_NOT_simps:
  "EXPR_NOT (EXPR_NOT a) = a" "EXPR_NOT (max a b) = min (EXPR_NOT a) (EXPR_NOT b)"
  "EXPR_NOT (min a b) = max (EXPR_NOT a) (EXPR_NOT b)"
  by (cases a; cases b; simp add: max_def min_def less_eq_tristate_def)+

lemma trans_leaf_calc:
  assumes t: "valued t"
  shows "expr_calc t (trans_equal t a b) = expr_calc t (Equal a b)"
    "expr_calc t (trans_unequal t a b) = expr_calc t (Unequal a b)"
    "expr_calc t (trans_not_symbol s) = EXPR_NOT (tri t s)"
proof -
  have b: "stype t a = S_BOOLEAN \<Longrightarrow> tri t a = no \<or> tri t a = yes"
    using valuedD(9) [OF t, of a] by (cases "tri t a") simp_all
  show "expr_calc t (trans_equal t a b) = expr_calc t (Equal a b)"
    "expr_calc t (trans_unequal t a b) = expr_calc t (Unequal a b)"
    using b valuedD(1-6) [OF t] valuedD(7) [OF t, of a] unfolding trans_equal_def trans_unequal_def by auto
  show "expr_calc t (trans_not_symbol s) = EXPR_NOT (tri t s)"
    using valuedD(1-3) [OF t] by (simp add: trans_not_symbol_def)
qed

lemma trans_leaf_shape:
  assumes "consts_untyped t"
  shows "plain (trans_equal t a b)" "negations_inside (trans_equal t a b)" "weight (trans_equal t a b) \<le> 2"
    "plain (trans_unequal t a b)" "negations_inside (trans_unequal t a b)" "weight (trans_unequal t a b) \<le> 2"
  using assms by (auto simp: trans_equal_def trans_unequal_def consts_untyped_def)

lemma transform_sound:
  assumes "valued t" and "consts_untyped t"
  shows "transform t n e = Some e' \<Longrightarrow> plain e \<Longrightarrow>
    expr_calc t e' = expr_calc t e \<and> plain e' \<and> negations_inside e' \<and> weight e' \<le> weight e"
  using assms
proof (induction t n e arbitrary: e' rule: transform.induct)
  case (7 t n a b)
  from "7.prems"(1) obtain x y where x: "transform t n a = Some x" and y: "transform t n b = Some y" and e: "e' = And x y"
    by (auto split: Option.bind_splits)
  have "plain a" "plain b" using "7.prems"(2) by simp_all
  with "7.IH"(1) [OF x _ "7.prems"(3,4)] "7.IH"(2) [OF x y _ "7.prems"(3,4)]
  show ?case by (auto simp: e EXPR_AND_min intro: add_mono)
next
  case (8 t n a b)
  from "8.prems"(1) obtain x y where x: "transform t n a = Some x" and y: "transform t n b = Some y" and e: "e' = Or x y"
    by (auto split: Option.bind_splits)
  have "plain a" "plain b" using "8.prems"(2) by simp_all
  with "8.IH"(1) [OF x _ "8.prems"(3,4)] "8.IH"(2) [OF x y _ "8.prems"(3,4)]
  show ?case by (auto simp: e EXPR_OR_max intro: add_mono)
next
  case (9 t n a)
  note t = "9.prems"(3,4)
  from "9.prems"(1) obtain a' where a': "transform t n a = Some a'" and
    r: "(case a' of
        Not x \<Rightarrow> transform t n x
      | Equal x y \<Rightarrow> Some (Unequal x y)
      | Unequal x y \<Rightarrow> Some (Equal x y)
      | Or x y \<Rightarrow> transform t n (And (Not x) (Not y))
      | And x y \<Rightarrow> transform t n (Or (Not x) (Not y))
      | Sym s \<Rightarrow> Some (trans_not_symbol s)
      | _ \<Rightarrow> Some (Not a')) = Some e'"
    by (auto split: Option.bind_splits)
  have i: "expr_calc t a' = expr_calc t a" "plain a'" "negations_inside a'" "weight a' \<le> weight a"
    using "9.IH"(1) [OF a' _ t] "9.prems"(2) by auto
  show ?case
  proof (cases a')
    case (Sym s)
    have e': "e' = trans_not_symbol s" using r Sym by simp
    have "plain e'" "negations_inside e'" "weight e' \<le> 2" by (auto simp: e' trans_not_symbol_def)
    moreover have v: "tri t s = expr_calc t a" and w: "1 \<le> weight a" using i Sym by simp_all
    have "expr_calc t e' = EXPR_NOT (expr_calc t a)"
      unfolding e' trans_leaf_calc(3) [OF t(1)] v ..
    moreover have "weight e' \<le> weight (Not a)" using \<open>weight e' \<le> 2\<close> w unfolding weight.simps by linarith
    ultimately show ?thesis by simp
  next
    case (Not x)
    have "EXPR_NOT (expr_calc t a) = expr_calc t x"
      using i(1) EXPR_NOT_simps(1) unfolding Not expr_calc.simps by metis
    then show ?thesis using r i t "9.IH"(2) [OF a' Not, of e'] Not by auto
  next
    case (And x y)
    have "expr_calc t e' = expr_calc t (Or (Not x) (Not y)) \<and> plain e' \<and> negations_inside e' \<and> weight e' \<le> weight (Or (Not x) (Not y))"
      using r And i t by (intro "9.IH"(3) [OF a' And]) simp_all
    moreover have "EXPR_NOT (expr_calc t a) = expr_calc t (Or (Not x) (Not y))"
      by (simp only: i(1) [symmetric] And expr_calc.simps EXPR_NOT_simps EXPR_OR_max EXPR_AND_min)
    ultimately show ?thesis using i(4) And by auto
  next
    case (Or x y)
    have "expr_calc t e' = expr_calc t (And (Not x) (Not y)) \<and> plain e' \<and> negations_inside e' \<and> weight e' \<le> weight (And (Not x) (Not y))"
      using r Or i t by (intro "9.IH"(4) [OF a' Or]) simp_all
    moreover have "EXPR_NOT (expr_calc t a) = expr_calc t (And (Not x) (Not y))"
      by (simp only: i(1) [symmetric] Or expr_calc.simps EXPR_NOT_simps EXPR_OR_max EXPR_AND_min)
    ultimately show ?thesis using i(4) Or by auto
  next
    case (Equal x y)
    then show ?thesis using r i by auto
  next
    case (Unequal x y)
    then show ?thesis using r i by auto
  qed (use i in simp_all)
qed (auto split: Option.bind_splits simp: trans_leaf_calc trans_leaf_shape EXPR_AND_min EXPR_OR_max
       simp del: expr_calc.simps(5,6))

text \<open>The weight is enough fuel.\<close>

lemma transform_fuel:
  assumes "valued t" and "consts_untyped t"
  shows "weight e \<le> n \<Longrightarrow> plain e \<Longrightarrow> transform t n e \<noteq> None"
proof (induction n arbitrary: e)
  case 0
  then show ?case using weight_pos [of e] by simp
next
  case (Suc n)
  show ?case
  proof (cases e)
    case (And a b)
    have "transform t n a \<noteq> None" "transform t n b \<noteq> None"
      using Suc And by (intro Suc.IH; simp)+
    then show ?thesis using And by auto
  next
    case (Or a b)
    have "transform t n a \<noteq> None" "transform t n b \<noteq> None"
      using Suc Or by (intro Suc.IH; simp)+
    then show ?thesis using Or by auto
  next
    case (Not a)
    have "weight a \<le> n" using Suc.prems(1) Not weight_pos [of a] by simp
    then obtain a' where a': "transform t n a = Some a'" using Suc.IH [of a] Suc.prems(2) Not by auto
    note s = transform_sound [OF assms a']
    have w: "plain a'" "weight a' \<le> weight a" using s Suc.prems(2) Not by auto
    have "transform t n x \<noteq> None" if "a' = Not x" for x
      using Suc.IH [of x] w Suc.prems(1) Not that by simp
    moreover have "transform t n (And (Not x) (Not y)) \<noteq> None" if "a' = Or x y" for x y
      using Suc.IH [of "And (Not x) (Not y)"] w Suc.prems(1) Not that by simp
    moreover have "transform t n (Or (Not x) (Not y)) \<noteq> None" if "a' = And x y" for x y
      using Suc.IH [of "Or (Not x) (Not y)"] w Suc.prems(1) Not that by simp
    ultimately show ?thesis using Not a' by (cases a') auto
  qed (use Suc.prems in auto)
qed

definition expr_transform :: "symtab \<Rightarrow> expr option \<Rightarrow> expr option" where
  "expr_transform t e = (case e of None \<Rightarrow> None | Some e \<Rightarrow> transform t (weight e) e)"

section \<open>Questions about symbols\<close>

fun contains_symbol :: "expr \<Rightarrow> symbol \<Rightarrow> bool" where
  "contains_symbol (And a b) s = (contains_symbol a s \<or> contains_symbol b s)"
| "contains_symbol (Or a b) s = (contains_symbol a s \<or> contains_symbol b s)"
| "contains_symbol (Sym a) s = (a = s)"
| "contains_symbol (Equal a b) s = (a = s \<or> b = s)"
| "contains_symbol (Unequal a b) s = (a = s \<or> b = s)"
| "contains_symbol (Not a) s = contains_symbol a s"
| "contains_symbol _ s = False"

definition expr_contains_symbol :: "expr option \<Rightarrow> symbol \<Rightarrow> bool" where
  "expr_contains_symbol dep s = (case dep of None \<Rightarrow> False | Some e \<Rightarrow> contains_symbol e s)"

fun depends_symbol :: "expr \<Rightarrow> symbol \<Rightarrow> bool" where
  "depends_symbol (And a b) s = (depends_symbol a s \<or> depends_symbol b s)"
| "depends_symbol (Sym a) s = (a = s)"
| "depends_symbol (Equal a b) s = (a = s \<and> (b = symbol_yes \<or> b = symbol_mod))"
| "depends_symbol (Unequal a b) s = (a = s \<and> b = symbol_no)"
| "depends_symbol _ s = False"

definition expr_depends_symbol :: "expr option \<Rightarrow> symbol \<Rightarrow> bool" where
  "expr_depends_symbol dep s = (case dep of None \<Rightarrow> False | Some e \<Rightarrow> depends_symbol e s)"

text \<open>If a condition depends on a symbol it can only hold when the symbol is not \<open>n\<close>.\<close>

lemma depends_symbol_needs:
  assumes "valued t" and "stype t s = S_BOOLEAN \<or> stype t s = S_TRISTATE"
  shows "depends_symbol e s \<Longrightarrow> tri t s = no \<Longrightarrow> expr_calc t e = no"
proof (induction e)
  case (Equal a b)
  then show ?case using tri_calc [OF assms] by auto
next
  case (Unequal a b)
  then show ?case using tri_calc [OF assms] by auto
qed (auto simp: EXPR_AND_min)

section \<open>Turning an expression into a comparison\<close>

definition flip :: "expr_type \<Rightarrow> expr_type" where
  "flip ty = (if ty = E_EQUAL then E_UNEQUAL else E_EQUAL)"

definition not_if :: "bool \<Rightarrow> expr \<Rightarrow> expr" where
  "not_if b e = (if b then Not e else e)"

fun trans_compare :: "expr \<Rightarrow> expr_type \<Rightarrow> symbol \<Rightarrow> expr option" where
  "trans_compare (And a b) ty c = do {
     e1 \<leftarrow> trans_compare a E_EQUAL c;
     e2 \<leftarrow> trans_compare b E_EQUAL c;
     Some (not_if (ty = E_UNEQUAL)
       (if c = symbol_no then Or e1 e2 else if c = symbol_yes then And e1 e2 else And a b)) }"
| "trans_compare (Or a b) ty c = do {
     e1 \<leftarrow> trans_compare a E_EQUAL c;
     e2 \<leftarrow> trans_compare b E_EQUAL c;
     Some (not_if (ty = E_UNEQUAL)
       (if c = symbol_no then And e1 e2 else if c = symbol_yes then Or e1 e2 else Or a b)) }"
| "trans_compare (Not a) ty c = trans_compare a (flip ty) c"
| "trans_compare (Sym s) ty c = Some (alloc_comp ty s c)"
| "trans_compare (List l s) ty c = None"
| "trans_compare (Range a b) ty c = None"
| "trans_compare e ty c =
     (if c = symbol_yes then Some (not_if (ty \<noteq> E_EQUAL) e)
      else if c = symbol_mod then Some (Sym (if ty = E_EQUAL then symbol_no else symbol_yes))
      else if c = symbol_no then Some (not_if (ty = E_EQUAL) e)
      else None)"

definition expr_trans_compare :: "expr option \<Rightarrow> expr_type \<Rightarrow> symbol \<Rightarrow> expr option" where
  "expr_trans_compare e ty c =
     (case e of None \<Rightarrow> Some (not_if (ty = E_UNEQUAL) (Sym c)) | Some e \<Rightarrow> trans_compare e ty c)"

text \<open>Expressions over symbols that are \<open>y\<close> or \<open>n\<close>.\<close>

fun two_valued :: "symtab \<Rightarrow> expr \<Rightarrow> bool" where
  "two_valued t (Sym s) = (str t s = tri_letter (tri t s) \<and> tri t s \<noteq> modul)"
| "two_valued t (Not a) = two_valued t a"
| "two_valued t (And a b) = (two_valued t a \<and> two_valued t b)"
| "two_valued t (Or a b) = (two_valued t a \<and> two_valued t b)"
| "two_valued t (Equal a b) = True"
| "two_valued t (Unequal a b) = True"
| "two_valued t _ = False"

lemma two_valued_calc: "two_valued t e \<Longrightarrow> expr_calc t e = no \<or> expr_calc t e = yes"
proof (induction e)
  case (Sym s)
  then show ?case by (cases "tri t s") simp_all
qed (auto simp: EXPR_AND_min EXPR_OR_max)

definition holds :: "bool \<Rightarrow> tristate" where
  "holds b = (if b then yes else no)"

lemma trans_compare_sound:
  assumes t: "valued t" and c: "c = symbol_yes \<or> c = symbol_no"
  shows "two_valued t e \<Longrightarrow> ty = E_EQUAL \<or> ty = E_UNEQUAL \<Longrightarrow>
    \<exists>e'. trans_compare e ty c = Some e' \<and>
      expr_calc t e' = holds ((expr_calc t e = tri t c) = (ty = E_EQUAL))"
proof (induction e arbitrary: ty)
  case (Sym s)
  have "str t c = tri_letter (tri t c)" using c valuedD(1-6) [OF t] by auto
  then show ?case using Sym by (auto simp: alloc_comp_def holds_def tri_letter_inj)
next
  case (Not e)
  have "two_valued t e" using Not.prems(1) by simp
  then have "\<exists>e'. trans_compare e (flip ty) c = Some e' \<and>
    expr_calc t e' = holds ((expr_calc t e = tri t c) = (flip ty = E_EQUAL))"
    by (rule Not.IH) (simp add: flip_def)
  then obtain e' where e': "trans_compare e (flip ty) c = Some e'"
    "expr_calc t e' = holds ((expr_calc t e = tri t c) = (flip ty = E_EQUAL))" by blast
  have "(EXPR_NOT (expr_calc t e) = tri t c) = (expr_calc t e \<noteq> tri t c)"
    using two_valued_calc [of t e] Not.prems(1) c valuedD(1-3) [OF t] by auto
  then show ?case using e' Not.prems(2) by (auto simp: flip_def)
next
  case (And a b)
  from And.IH [of E_EQUAL] And.prems(1) obtain x y where
    x: "trans_compare a E_EQUAL c = Some x" "expr_calc t x = holds (expr_calc t a = tri t c)" and
    y: "trans_compare b E_EQUAL c = Some y" "expr_calc t y = holds (expr_calc t b = tri t c)" by auto
  have "expr_calc t a = no \<or> expr_calc t a = yes" "expr_calc t b = no \<or> expr_calc t b = yes"
    using And.prems(1) two_valued_calc by simp_all
  then show ?case using x y c And.prems(2) valuedD(1-3) [OF t]
    by (auto simp: not_if_def holds_def EXPR_AND_min EXPR_OR_max)
next
  case (Or a b)
  from Or.IH [of E_EQUAL] Or.prems(1) obtain x y where
    x: "trans_compare a E_EQUAL c = Some x" "expr_calc t x = holds (expr_calc t a = tri t c)" and
    y: "trans_compare b E_EQUAL c = Some y" "expr_calc t y = holds (expr_calc t b = tri t c)" by auto
  have "expr_calc t a = no \<or> expr_calc t a = yes" "expr_calc t b = no \<or> expr_calc t b = yes"
    using Or.prems(1) two_valued_calc by simp_all
  then show ?case using x y c Or.prems(2) valuedD(1-3) [OF t]
    by (auto simp: not_if_def holds_def EXPR_AND_min EXPR_OR_max)
qed (use c valuedD(1-3) [OF t] in \<open>auto simp: not_if_def holds_def\<close>)

section \<open>Printing\<close>

text \<open>\<open>expr_compare_type\<close>, with the fall-through of its switch written out.\<close>

definition expr_compare_type :: "expr_type \<Rightarrow> expr_type \<Rightarrow> int" where
  "expr_compare_type t1 t2 =
     (if t1 = t2 then 0
      else if t1 \<in> {E_EQUAL, E_UNEQUAL} \<and> t2 = E_NOT then 1
      else if t1 \<in> {E_EQUAL, E_UNEQUAL, E_NOT} \<and> t2 = E_AND then 1
      else if t1 \<in> {E_EQUAL, E_UNEQUAL, E_NOT, E_AND} \<and> t2 = E_OR then 1
      else if t1 \<in> {E_EQUAL, E_UNEQUAL, E_NOT, E_AND, E_OR} \<and> t2 = E_LIST then 1
      else if t1 \<in> {E_EQUAL, E_UNEQUAL, E_NOT, E_AND, E_OR, E_LIST} \<and> t2 = E_NONE then 1
      else -1)"

definition sym_text :: "symtab \<Rightarrow> symbol \<Rightarrow> string" where
  "sym_text t s = (case sname t s of Some n \<Rightarrow> n | None \<Rightarrow> ''<choice>'')"

definition paren :: "bool \<Rightarrow> string \<Rightarrow> string" where
  "paren b s = (if b then ''('' @ s @ '')'' else s)"

text \<open>
  \<open>expr_print\<close>: the pieces handed to \<open>fn\<close>, joined. The right side of a comparison and the members of
  a list or range are printed without the null-name test.
\<close>

fun print_expr :: "symtab \<Rightarrow> expr \<Rightarrow> expr_type \<Rightarrow> string" where
  "print_expr t (Sym s) p = paren (expr_compare_type p E_SYMBOL > 0) (sym_text t s)"
| "print_expr t (Not e) p = paren (expr_compare_type p E_NOT > 0) (''!'' @ print_expr t e E_NOT)"
| "print_expr t (Equal a b) p =
     paren (expr_compare_type p E_EQUAL > 0) (sym_text t a @ ''='' @ the (sname t b))"
| "print_expr t (Unequal a b) p =
     paren (expr_compare_type p E_UNEQUAL > 0) (sym_text t a @ ''!='' @ the (sname t b))"
| "print_expr t (Or a b) p =
     paren (expr_compare_type p E_OR > 0) (print_expr t a E_OR @ '' || '' @ print_expr t b E_OR)"
| "print_expr t (And a b) p =
     paren (expr_compare_type p E_AND > 0) (print_expr t a E_AND @ '' && '' @ print_expr t b E_AND)"
| "print_expr t (List l s) p =
     paren (expr_compare_type p E_LIST > 0)
       (the (sname t s) @ (case l of None \<Rightarrow> [] | Some e \<Rightarrow> '' ^ '' @ print_expr t e E_LIST))"
| "print_expr t (Range a b) p =
     paren (expr_compare_type p E_RANGE > 0) (''['' @ the (sname t a) @ '' '' @ the (sname t b) @ '']'')"

definition expr_print :: "symtab \<Rightarrow> expr option \<Rightarrow> expr_type \<Rightarrow> string" where
  "expr_print t e p = (case e of None \<Rightarrow> ''y'' | Some e \<Rightarrow> print_expr t e p)"

section \<open>Properties of the expressions\<close>

text \<open>C7. \<open>expr_transform\<close> returns for every dependency expression, keeps its value under every valuation
  that gives boolean symbols \<open>y\<close> or \<open>n\<close>, and pushes every negation down to a variable symbol.\<close>

theorem transform_ok:
  assumes "valued t" and "consts_untyped t" and "plain e"
  shows "\<exists>e'. expr_transform t (Some e) = Some e' \<and> expr_calc t e' = expr_calc t e \<and> plain e' \<and> negations_inside e'"
proof -
  from transform_fuel [OF assms(1,2) order_refl assms(3)] obtain e' where "transform t (weight e) e = Some e'" by auto
  then show ?thesis using transform_sound [OF assms(1,2) _ assms(3)] by (auto simp: expr_transform_def)
qed

definition demo_t :: symtab where
  "demo_t = \<lparr>stype = (\<lambda>s. case s of Other n \<Rightarrow> (if n = 0 then S_BOOLEAN else S_TRISTATE) | _ \<Rightarrow> S_UNKNOWN),
     sconst = (\<lambda>s. case s of Other n \<Rightarrow> False | _ \<Rightarrow> True),
     tri = (\<lambda>s. case s of symbol_yes \<Rightarrow> yes | symbol_mod \<Rightarrow> modul | symbol_no \<Rightarrow> no | Other n \<Rightarrow> (if n = 0 then yes else modul)),
     str = (\<lambda>s. case s of symbol_yes \<Rightarrow> ''y'' | symbol_mod \<Rightarrow> ''m'' | symbol_no \<Rightarrow> ''n'' | Other n \<Rightarrow> (if n = 0 then ''y'' else ''m'')),
     sname = (\<lambda>s. Some ''FOO'')\<rparr>"

lemma demo_valued: "valued demo_t" "consts_untyped demo_t"
  by (auto simp: valued_def consts_untyped_def demo_t_def split: symbol.splits)

lemma transform_ok_witness:
  "\<exists>e'. expr_transform demo_t (Some (Not (Or (Equal (Other 0) symbol_no) (Sym (Other 1))))) = Some e' \<and>
    expr_calc demo_t e' = modul \<and> negations_inside e'"
  using transform_ok [OF demo_valued, of "Not (Or (Equal (Other 0) symbol_no) (Sym (Other 1)))"]
  by (auto simp: demo_t_def EXPR_OR_max)

text \<open>C17. \<open>expr_eq\<close> always returns, and when it answers that two expressions are equal they have the same
  value under every valuation; \<open>expr_eliminate_yn\<close> never changes the value.\<close>

theorem eq_decides:
  assumes "valued t"
  shows "expr_eq (4 * (nodes e1 + nodes e2)) e1 e2 \<noteq> None \<and>
    (expr_eq n e1 e2 = Some True \<longrightarrow> expr_calc t e1 = expr_calc t e2) \<and>
    expr_calc t (expr_eliminate_yn e1) = expr_calc t e1"
proof (intro conjI)
  show "expr_eq (4 * (nodes e1 + nodes e2)) e1 e2 \<noteq> None"
    by (rule eq_fuel [THEN conjunct1, rule_format, OF order_refl])
  show "expr_eq n e1 e2 = Some True \<longrightarrow> expr_calc t e1 = expr_calc t e2"
    using eq_sound [OF assms, of n] by blast
  show "expr_calc t (expr_eliminate_yn e1) = expr_calc t e1"
    by (rule eliminate_yn_calc [OF assms])
qed

lemma eq_decides_witness:
  "expr_eq 20 (Or (Sym (Other 0)) (Sym (Other 1))) (Or (Sym (Other 1)) (Sym (Other 0))) = Some True \<and>
    expr_calc demo_t (Or (Sym (Other 0)) (Sym (Other 1))) = expr_calc demo_t (Or (Sym (Other 1)) (Sym (Other 0)))"
proof -
  have "expr_eq 20 (Or (Sym (Other 0)) (Sym (Other 1))) (Or (Sym (Other 1)) (Sym (Other 0))) = Some True"
    by (simp add: numeral_eq_Suc same_yn_def neutral_def alloc_two_def yn_or_def same_symbol_def)
  with eq_decides [OF demo_valued(1)] show ?thesis by blast
qed

text \<open>The simplifications of two operands are sound: whatever \<open>expr_join_or\<close> and \<open>expr_join_and\<close> return
  has the value of the disjunction, respectively conjunction, they replace.\<close>

theorem join_sound:
  assumes "valued t"
  shows "(expr_join_or t e1 e2 = Some e \<longrightarrow> expr_calc t e = expr_calc t (Or e1 e2)) \<and>
    (expr_join_and t e1 e2 = Some e \<longrightarrow> expr_calc t e = expr_calc t (And e1 e2))"
  using join_or_calc [OF assms] join_and_calc [OF assms] by (simp add: EXPR_OR_max EXPR_AND_min)

lemma join_sound_witness:
  "expr_join_and demo_t (Sym (Other 1)) (Equal (Other 1) symbol_yes) = Some (Equal (Other 1) symbol_yes) \<and>
    expr_calc demo_t (Equal (Other 1) symbol_yes) = expr_calc demo_t (And (Sym (Other 1)) (Equal (Other 1) symbol_yes))"
proof -
  have "expr_join_and demo_t (Sym (Other 1)) (Equal (Other 1) symbol_yes) = Some (Equal (Other 1) symbol_yes)"
    by (simp add: expr_join_and_def eq_expr_def numeral_eq_Suc either_def is_sym_def eq_to_def demo_t_def)
  with join_sound [OF demo_valued(1)] show ?thesis by blast
qed

text \<open>Over symbols that are \<open>y\<close> or \<open>n\<close>, \<open>expr_trans_compare\<close> turns an expression into one that says whether
  its value equals (or differs from) \<open>y\<close> or \<open>n\<close>.\<close>

theorem trans_compare_two_valued:
  assumes "valued t" and "c = symbol_yes \<or> c = symbol_no" and "two_valued t e"
    and "ty = E_EQUAL \<or> ty = E_UNEQUAL"
  shows "\<exists>e'. expr_trans_compare (Some e) ty c = Some e' \<and>
    expr_calc t e' = holds ((expr_calc t e = tri t c) = (ty = E_EQUAL))"
  using trans_compare_sound [OF assms] by (simp add: expr_trans_compare_def)

lemma trans_compare_two_valued_witness:
  "\<exists>e'. expr_trans_compare (Some (Not (Sym (Other 0)))) E_UNEQUAL symbol_no = Some e' \<and> expr_calc demo_t e' = no"
  using trans_compare_two_valued [OF demo_valued(1), of symbol_no "Not (Sym (Other 0))" E_UNEQUAL]
  by (auto simp: demo_t_def holds_def)

text \<open>With a tristate symbol at \<open>m\<close> the comparison of a negation is wrong: \<open>!FOO\<close> has the value \<open>m\<close>, which
  differs from \<open>n\<close>, but the expression built for \<open>!FOO != n\<close> is \<open>FOO = n\<close>, with the value \<open>n\<close>.\<close>

theorem trans_compare_not_m:
  "expr_calc demo_t (Not (Sym (Other 1))) = modul \<and>
   expr_trans_compare (Some (Not (Sym (Other 1)))) E_UNEQUAL symbol_no = Some (Equal (Other 1) symbol_no) \<and>
   expr_calc demo_t (Equal (Other 1) symbol_no) = no"
  by (simp add: demo_t_def expr_trans_compare_def flip_def alloc_comp_def)

end
