(* ===== verification/KSymbol.thy ===== *)
theory KSymbol
  imports KExpr
begin

text \<open>
  \<open>package/config/symbol.c\<close> and the records of \<open>expr.h\<close>: the symbols of the configuration, how their values are
  calculated from the user's values, the prompts, the defaults, the ranges and the reverse dependencies, how the
  user sets a value, the hash table of the symbols, and the check for recursive dependencies.

  The state \<open>kconf\<close> holds all symbols. A C string is a pointer and what it points to, because
  \<open>sym_calc_value\<close> compares pointers to find out whether a value changed; \<open>strdup\<close> and \<open>malloc\<close> give an address
  that was not used before. An operation is a partial function on the state: \<open>None\<close> when a null pointer (or a
  pointer to something else) is followed, or when the fuel of \<open>sym_calc_value\<close> is used up, which a sufficient
  amount excludes. The tool runs on the build host, where \<open>int\<close> has 32 and \<open>long\<close> 64 bits.
\<close>

section \<open>Symbols and properties\<close>

datatype address = Literal | Name symbol | Heap nat

datatype pointer = Null | Chars address string | To symbol

record symbol_value =
  val :: pointer
  vtri :: tristate

datatype prop_type = P_UNKNOWN | P_PROMPT | P_COMMENT | P_MENU | P_DEFAULT | P_CHOICE | P_SELECT | P_RANGE | P_ENV

record property =
  p_type :: prop_type
  p_text :: "string option"
  p_visible :: "expr option"
  p_tri :: tristate
  p_expr :: "expr option"
  p_menu :: "nat option"

datatype def_index = S_DEF_USER | S_DEF_AUTO

datatype flag =
  SYMBOL_CONST | SYMBOL_CHECK | SYMBOL_CHOICE | SYMBOL_CHOICEVAL | SYMBOL_VALID | SYMBOL_OPTIONAL | SYMBOL_WRITE
| SYMBOL_CHANGED | SYMBOL_AUTO | SYMBOL_CHECKED | SYMBOL_WARNED | SYMBOL_DEF def_index

record sym =
  sym_name :: "string option"
  sym_type :: symbol_type
  curr :: symbol_value
  sym_def :: "def_index \<Rightarrow> symbol_value"
  visible :: tristate
  flags :: "flag set"
  props :: "property list"
  rev_expr :: "expr option"
  rev_tri :: tristate

record kconf =
  syms :: "symbol \<Rightarrow> sym"
  symbol_hash :: "symbol list list"
  modules_sym :: "symbol option"
  modules_val :: tristate
  changed_menus :: "nat set"
  next_block :: nat
  change_count :: int
  zconfnerrs :: nat

text \<open>The three constants of \<open>symbol.c\<close> and the value of \<open>symbol_empty\<close>.\<close>

definition const_symbol :: "string \<Rightarrow> tristate \<Rightarrow> sym" where
  "const_symbol n t =
     \<lparr>sym_name = Some n, sym_type = S_UNKNOWN, curr = \<lparr>val = Chars Literal n, vtri = t\<rparr>,
      sym_def = \<lambda>_. \<lparr>val = Null, vtri = no\<rparr>, visible = no, flags = {SYMBOL_CONST, SYMBOL_VALID}, props = [],
      rev_expr = None, rev_tri = no\<rparr>"

definition empty_value :: symbol_value where "empty_value = \<lparr>val = Chars Literal '''', vtri = no\<rparr>"
definition no_value :: symbol_value where "no_value = \<lparr>val = Chars Literal ''n'', vtri = no\<rparr>"

text \<open>A symbol as \<open>sym_lookup\<close> allocates it.\<close>

definition new_symbol :: "string option \<Rightarrow> flag set \<Rightarrow> sym" where
  "new_symbol n fl =
     \<lparr>sym_name = n, sym_type = S_UNKNOWN, curr = \<lparr>val = Null, vtri = no\<rparr>,
      sym_def = \<lambda>_. \<lparr>val = Null, vtri = no\<rparr>, visible = no, flags = fl, props = [], rev_expr = None, rev_tri = no\<rparr>"

definition upd_sym :: "symbol \<Rightarrow> (sym \<Rightarrow> sym) \<Rightarrow> kconf \<Rightarrow> kconf" where
  "upd_sym s f k = k\<lparr>syms := (syms k)(s := f (syms k s))\<rparr>"

definition set_flag :: "flag \<Rightarrow> symbol \<Rightarrow> kconf \<Rightarrow> kconf" where
  "set_flag fl s = upd_sym s (\<lambda>x. x\<lparr>flags := insert fl (flags x)\<rparr>)"

definition clear_flag :: "flag \<Rightarrow> symbol \<Rightarrow> kconf \<Rightarrow> kconf" where
  "clear_flag fl s = upd_sym s (\<lambda>x. x\<lparr>flags := flags x - {fl}\<rparr>)"

definition has_flag :: "flag \<Rightarrow> kconf \<Rightarrow> symbol \<Rightarrow> bool" where
  "has_flag fl k s \<longleftrightarrow> fl \<in> flags (syms k s)"

abbreviation sym_is_choice :: "kconf \<Rightarrow> symbol \<Rightarrow> bool" where "sym_is_choice \<equiv> has_flag SYMBOL_CHOICE"
abbreviation sym_is_choice_value :: "kconf \<Rightarrow> symbol \<Rightarrow> bool" where "sym_is_choice_value \<equiv> has_flag SYMBOL_CHOICEVAL"
abbreviation sym_has_value :: "kconf \<Rightarrow> symbol \<Rightarrow> bool" where "sym_has_value \<equiv> has_flag (SYMBOL_DEF S_DEF_USER)"

text \<open>\<open>for_all_symbols\<close>: the chains of the hash table in turn, without the symbols of type \<open>S_OTHER\<close>.\<close>

definition hashed :: "kconf \<Rightarrow> symbol list" where
  "hashed k = concat (symbol_hash k)"

definition each_symbol :: "(symbol \<Rightarrow> kconf \<Rightarrow> kconf) \<Rightarrow> kconf \<Rightarrow> kconf" where
  "each_symbol f k = fold (\<lambda>s k. if sym_type (syms k s) = S_OTHER then k else f s k) (hashed k) k"

section \<open>Types and properties\<close>

definition sym_get_type :: "kconf \<Rightarrow> symbol \<Rightarrow> symbol_type" where
  "sym_get_type k s =
     (let x = syms k s
      in if sym_type x = S_TRISTATE then
           (if sym_is_choice_value k s \<and> visible x = yes then S_BOOLEAN
            else if modules_val k = no then S_BOOLEAN else S_TRISTATE)
         else sym_type x)"

definition first_prop :: "prop_type \<Rightarrow> property list \<Rightarrow> property option" where
  "first_prop ty ps = find (\<lambda>p. p_type p = ty) ps"

fun sym_type_name :: "symbol_type \<Rightarrow> string" where
  "sym_type_name S_BOOLEAN = ''boolean''"
| "sym_type_name S_TRISTATE = ''tristate''"
| "sym_type_name S_INT = ''integer''"
| "sym_type_name S_HEX = ''hex''"
| "sym_type_name S_STRING = ''string''"
| "sym_type_name S_UNKNOWN = ''unknown''"
| "sym_type_name S_OTHER = ''???''"

fun prop_get_type_name :: "prop_type \<Rightarrow> string" where
  "prop_get_type_name P_PROMPT = ''prompt''"
| "prop_get_type_name P_ENV = ''env''"
| "prop_get_type_name P_COMMENT = ''comment''"
| "prop_get_type_name P_MENU = ''menu''"
| "prop_get_type_name P_DEFAULT = ''default''"
| "prop_get_type_name P_CHOICE = ''choice''"
| "prop_get_type_name P_SELECT = ''select''"
| "prop_get_type_name P_RANGE = ''range''"
| "prop_get_type_name P_UNKNOWN = ''unknown''"

definition sym_get_choice_value :: "kconf \<Rightarrow> symbol \<Rightarrow> pointer" where
  "sym_get_choice_value k s = val (curr (syms k s))"

definition sym_is_optional :: "kconf \<Rightarrow> symbol \<Rightarrow> bool" where
  "sym_is_optional k s = has_flag SYMBOL_OPTIONAL k s"

definition sym_get_choice_prop :: "kconf \<Rightarrow> symbol \<Rightarrow> property option" where
  "sym_get_choice_prop k s = first_prop P_CHOICE (props (syms k s))"

definition sym_get_env_prop :: "kconf \<Rightarrow> symbol \<Rightarrow> property option" where
  "sym_get_env_prop k s = first_prop P_ENV (props (syms k s))"

text \<open>The left pointer of a list node is the rest of the list and no symbol.\<close>

definition prop_get_symbol :: "property \<Rightarrow> symbol option" where
  "prop_get_symbol p = (case p_expr p of Some (Sym s) \<Rightarrow> Some s | _ \<Rightarrow> None)"

text \<open>The symbols \<open>expr_list_for_each_sym\<close> visits.\<close>

fun list_syms_of :: "expr \<Rightarrow> symbol list" where
  "list_syms_of (List None s) = [s]"
| "list_syms_of (List (Some e) s) = s # list_syms_of e"
| "list_syms_of _ = []"

definition list_syms :: "expr option \<Rightarrow> symbol list" where
  "list_syms e = (case e of None \<Rightarrow> [] | Some e \<Rightarrow> list_syms_of e)"

section \<open>Strings\<close>

definition chars :: "pointer \<Rightarrow> string option" where
  "chars p = (case p of Chars a s \<Rightarrow> Some s | _ \<Rightarrow> None)"

text \<open>\<open>sym->name\<close> as a pointer.\<close>

definition name_pointer :: "kconf \<Rightarrow> symbol \<Rightarrow> pointer" where
  "name_pointer k s = (case sym_name (syms k s) of None \<Rightarrow> Null | Some n \<Rightarrow> Chars (Name s) n)"

definition strdup :: "string \<Rightarrow> kconf \<Rightarrow> pointer \<times> kconf" where
  "strdup s k = (Chars (Heap (next_block k)) s, k\<lparr>next_block := Suc (next_block k)\<rparr>)"

definition tri_chars :: "tristate \<Rightarrow> pointer" where
  "tri_chars t = Chars Literal (tri_letter t)"

definition sym_get_tristate_value :: "kconf \<Rightarrow> symbol \<Rightarrow> tristate" where
  "sym_get_tristate_value k s = vtri (curr (syms k s))"

definition sym_get_string_value :: "kconf \<Rightarrow> symbol \<Rightarrow> pointer" where
  "sym_get_string_value k s =
     (if sym_type (syms k s) \<in> {S_BOOLEAN, S_TRISTATE} then tri_chars (sym_get_tristate_value k s)
      else val (curr (syms k s)))"

text \<open>\<open>strtol\<close> in base 10 and 16 with 64 bits, its value as an \<open>int\<close>, and \<open>%x\<close>.\<close>

definition xdigit_val :: "char \<Rightarrow> nat" where
  "xdigit_val c = (if isdigit c then code c - 48 else if code c \<le> 70 then code c - 55 else code c - 87)"

definition number :: "nat \<Rightarrow> string \<Rightarrow> nat" where
  "number base ds = foldl (\<lambda>n c. base * n + xdigit_val c) 0 ds"

definition base_digit :: "nat \<Rightarrow> char \<Rightarrow> bool" where
  "base_digit base c \<longleftrightarrow> (if base = 16 then isxdigit c else isdigit c)"

definition strtol :: "nat \<Rightarrow> string \<Rightarrow> int" where
  "strtol base s =
     (let s1 = dropWhile isspace s;
          neg = (take 1 s1 = ''-'');
          s2 = (if take 1 s1 \<in> {''-'', ''+''} then tl s1 else s1);
          s3 = (if base = 16 \<and> take 2 s2 \<in> {''0x'', ''0X''} \<and> (case drop 2 s2 of c # _ \<Rightarrow> isxdigit c | [] \<Rightarrow> False)
                then drop 2 s2 else s2);
          n = int (number base (takeWhile (base_digit base) s3))
      in max (- (2 ^ 63)) (min (2 ^ 63 - 1) (if neg then - n else n)))"

definition to_int :: "int \<Rightarrow> int" where
  "to_int i = (i + 2 ^ 31) mod 2 ^ 32 - 2 ^ 31"

definition xdigit :: "nat \<Rightarrow> char" where
  "xdigit n = (if n < 10 then char_of (48 + n) else char_of (87 + n))"

fun hex :: "nat \<Rightarrow> string" where
  "hex n = (if n < 16 then [xdigit n] else hex (n div 16) @ [xdigit (n mod 16)])"

section \<open>Calculating a value\<close>

text \<open>
  The functions that call \<open>sym_calc_value\<close>, directly or through \<open>expr_calc_value\<close>, have it as their first
  argument. First \<open>expr_calc_value\<close>.
\<close>

type_synonym calc = "symbol \<Rightarrow> kconf \<Rightarrow> kconf option"

definition same_chars :: "kconf \<Rightarrow> symbol \<Rightarrow> symbol \<Rightarrow> bool option" where
  "same_chars k a b = do {
     x \<leftarrow> chars (sym_get_string_value k a);
     y \<leftarrow> chars (sym_get_string_value k b);
     Some (x = y) }"

fun calc_expr :: "calc \<Rightarrow> expr \<Rightarrow> kconf \<Rightarrow> (tristate \<times> kconf) option" where
  "calc_expr cv (Sym s) k = do { k \<leftarrow> cv s k; Some (vtri (curr (syms k s)), k) }"
| "calc_expr cv (And a b) k = do { (x, k) \<leftarrow> calc_expr cv a k; (y, k) \<leftarrow> calc_expr cv b k; Some (EXPR_AND x y, k) }"
| "calc_expr cv (Or a b) k = do { (x, k) \<leftarrow> calc_expr cv a k; (y, k) \<leftarrow> calc_expr cv b k; Some (EXPR_OR x y, k) }"
| "calc_expr cv (Not a) k = do { (x, k) \<leftarrow> calc_expr cv a k; Some (EXPR_NOT x, k) }"
| "calc_expr cv (Equal a b) k = do {
     k \<leftarrow> cv a k; k \<leftarrow> cv b k; q \<leftarrow> same_chars k a b; Some (if q then yes else no, k) }"
| "calc_expr cv (Unequal a b) k = do {
     k \<leftarrow> cv a k; k \<leftarrow> cv b k; q \<leftarrow> same_chars k a b; Some (if q then no else yes, k) }"
| "calc_expr cv _ k = Some (no, k)"

definition calc_dep :: "calc \<Rightarrow> expr option \<Rightarrow> kconf \<Rightarrow> (tristate \<times> kconf) option" where
  "calc_dep cv e k = (case e of None \<Rightarrow> Some (yes, k) | Some e \<Rightarrow> calc_expr cv e k)"

text \<open>Evaluating the condition of property \<open>i\<close> of a symbol stores the result in the property.\<close>

definition prop_at :: "kconf \<Rightarrow> symbol \<Rightarrow> nat \<Rightarrow> property" where
  "prop_at k s i = props (syms k s) ! i"

definition eval_prop :: "calc \<Rightarrow> symbol \<Rightarrow> nat \<Rightarrow> kconf \<Rightarrow> (tristate \<times> kconf) option" where
  "eval_prop cv s i k = do {
     (t, k) \<leftarrow> calc_dep cv (p_visible (prop_at k s i)) k;
     Some (t, upd_sym s (\<lambda>x. x\<lparr>props := (props x)[i := (props x ! i)\<lparr>p_tri := t\<rparr>]\<rparr>) k) }"

text \<open>The loop of \<open>sym_get_default_prop\<close> and of \<open>sym_get_range_prop\<close>.\<close>

fun visible_prop :: "calc \<Rightarrow> prop_type \<Rightarrow> symbol \<Rightarrow> nat list \<Rightarrow> kconf \<Rightarrow> (nat option \<times> kconf) option" where
  "visible_prop cv ty s [] k = Some (None, k)"
| "visible_prop cv ty s (i # is) k =
     (if p_type (prop_at k s i) \<noteq> ty then visible_prop cv ty s is k
      else do {
        (t, k) \<leftarrow> eval_prop cv s i k;
        if t \<noteq> no then Some (Some i, k) else visible_prop cv ty s is k })"

definition prop_indices :: "kconf \<Rightarrow> symbol \<Rightarrow> nat list" where
  "prop_indices k s = [0..<length (props (syms k s))]"

definition sym_get_default_prop :: "calc \<Rightarrow> symbol \<Rightarrow> kconf \<Rightarrow> (nat option \<times> kconf) option" where
  "sym_get_default_prop cv s k = visible_prop cv P_DEFAULT s (prop_indices k s) k"

definition sym_get_range_prop :: "calc \<Rightarrow> symbol \<Rightarrow> kconf \<Rightarrow> (nat option \<times> kconf) option" where
  "sym_get_range_prop cv s k = visible_prop cv P_RANGE s (prop_indices k s) k"

definition value_base :: "symbol_type \<Rightarrow> nat \<Rightarrow> nat" where
  "value_base ty base = (if ty = S_INT then 10 else if ty = S_HEX then 16 else base)"

definition sym_get_range_val :: "calc \<Rightarrow> symbol \<Rightarrow> nat \<Rightarrow> kconf \<Rightarrow> (int \<times> kconf) option" where
  "sym_get_range_val cv s base k = do {
     k \<leftarrow> cv s k;
     c \<leftarrow> chars (val (curr (syms k s)));
     Some (to_int (strtol (value_base (sym_type (syms k s)) base) c), k) }"

text \<open>The two bounds of a range property; any other expression there is no range.\<close>

definition range_syms :: "property \<Rightarrow> (symbol \<times> symbol) option" where
  "range_syms p = (case p_expr p of Some (Range a b) \<Rightarrow> Some (a, b) | _ \<Rightarrow> None)"

definition number_chars :: "symbol_type \<Rightarrow> int \<Rightarrow> string" where
  "number_chars ty i = (if ty = S_INT then dec_int i else ''0x'' @ hex (nat (i mod 2 ^ 32)))"

definition store_number :: "symbol \<Rightarrow> int \<Rightarrow> kconf \<Rightarrow> kconf" where
  "store_number s i k =
     (case strdup (number_chars (sym_type (syms k s)) i) k of
        (p, k) \<Rightarrow> upd_sym s (\<lambda>x. x\<lparr>curr := (curr x)\<lparr>val := p\<rparr>\<rparr>) k)"

definition sym_validate_range :: "calc \<Rightarrow> symbol \<Rightarrow> kconf \<Rightarrow> kconf option" where
  "sym_validate_range cv s k =
     (if sym_type (syms k s) \<notin> {S_INT, S_HEX} then Some k
      else do {
        let base = value_base (sym_type (syms k s)) 10;
        (r, k) \<leftarrow> sym_get_range_prop cv s k;
        case r of
          None \<Rightarrow> Some k
        | Some i \<Rightarrow> do {
            c \<leftarrow> chars (val (curr (syms k s)));
            let v = to_int (strtol base c);
            (a, b) \<leftarrow> range_syms (prop_at k s i);
            (lo, k) \<leftarrow> sym_get_range_val cv a base k;
            if lo \<le> v then do {
              (hi, k) \<leftarrow> sym_get_range_val cv b base k;
              if v \<le> hi then Some k else Some (store_number s hi k) }
            else Some (store_number s lo k) }})"


text \<open>\<open>sym_set_changed\<close> marks the symbol and the menus of its properties.\<close>

definition sym_set_changed :: "symbol \<Rightarrow> kconf \<Rightarrow> kconf" where
  "sym_set_changed s k =
     set_flag SYMBOL_CHANGED s
       (k\<lparr>changed_menus := changed_menus k \<union> \<Union> (set (map (\<lambda>p. set_option (p_menu p)) (props (syms k s))))\<rparr>)"

definition sym_set_all_changed :: "kconf \<Rightarrow> kconf" where
  "sym_set_all_changed = each_symbol sym_set_changed"

text \<open>\<open>sym_calc_visibility\<close>: the prompts, then the reverse dependencies.\<close>

fun prompts_visible :: "calc \<Rightarrow> symbol \<Rightarrow> nat list \<Rightarrow> tristate \<Rightarrow> kconf \<Rightarrow> (tristate \<times> kconf) option" where
  "prompts_visible cv s [] t k = Some (t, k)"
| "prompts_visible cv s (i # is) t k =
     (if p_text (prop_at k s i) = None then prompts_visible cv s is t k
      else do { (u, k) \<leftarrow> eval_prop cv s i k; prompts_visible cv s is (EXPR_OR t u) k })"

definition sym_calc_visibility :: "calc \<Rightarrow> symbol \<Rightarrow> kconf \<Rightarrow> kconf option" where
  "sym_calc_visibility cv s k = do {
     (t, k) \<leftarrow> prompts_visible cv s (prop_indices k s) no k;
     let t = (if t = modul \<and> (sym_type (syms k s) \<noteq> S_TRISTATE \<or> modules_val k = no) then yes else t);
     let k = (if visible (syms k s) \<noteq> t then sym_set_changed s (upd_sym s (\<lambda>x. x\<lparr>visible := t\<rparr>) k) else k);
     if sym_is_choice_value k s then Some k
     else do {
       (t, k) \<leftarrow> (case rev_expr (syms k s) of None \<Rightarrow> Some (no, k) | Some e \<Rightarrow> calc_expr cv e k);
       let t = (if t = modul \<and> sym_get_type k s = S_BOOLEAN then yes else t);
       Some (if rev_tri (syms k s) \<noteq> t then sym_set_changed s (upd_sym s (\<lambda>x. x\<lparr>rev_tri := t\<rparr>) k) else k) } }"

text \<open>\<open>sym_calc_choice\<close>: the user's choice, then the visible defaults, then the first visible value.\<close>

definition choice_visible :: "calc \<Rightarrow> symbol \<Rightarrow> kconf \<Rightarrow> (bool \<times> kconf) option" where
  "choice_visible cv d k = do { k \<leftarrow> sym_calc_visibility cv d k; Some (visible (syms k d) \<noteq> no, k) }"

definition user_choice :: "calc \<Rightarrow> symbol \<Rightarrow> kconf \<Rightarrow> (symbol option \<times> kconf) option" where
  "user_choice cv s k =
     (case val (sym_def (syms k s) S_DEF_USER) of
        Null \<Rightarrow> Some (None, k)
      | To d \<Rightarrow> do { (b, k) \<leftarrow> choice_visible cv d k; Some (if b then Some d else None, k) }
      | Chars a c \<Rightarrow> None)"

fun default_choice :: "calc \<Rightarrow> symbol \<Rightarrow> nat list \<Rightarrow> kconf \<Rightarrow> (symbol option \<times> kconf) option" where
  "default_choice cv s [] k = Some (None, k)"
| "default_choice cv s (i # is) k =
     (if p_type (prop_at k s i) \<noteq> P_DEFAULT then default_choice cv s is k
      else do {
        (t, k) \<leftarrow> eval_prop cv s i k;
        if t = no then default_choice cv s is k
        else do {
          d \<leftarrow> prop_get_symbol (prop_at k s i);
          (b, k) \<leftarrow> choice_visible cv d k;
          if b then Some (Some d, k) else default_choice cv s is k } })"

fun first_visible :: "calc \<Rightarrow> symbol list \<Rightarrow> kconf \<Rightarrow> (symbol option \<times> kconf) option" where
  "first_visible cv [] k = Some (None, k)"
| "first_visible cv (d # ds) k = do {
     (b, k) \<leftarrow> choice_visible cv d k;
     if b then Some (Some d, k) else first_visible cv ds k }"

definition sym_calc_choice :: "calc \<Rightarrow> symbol \<Rightarrow> kconf \<Rightarrow> (symbol option \<times> kconf) option" where
  "sym_calc_choice cv s k = do {
     (d, k) \<leftarrow> user_choice cv s k;
     if d \<noteq> None then Some (d, k)
     else do {
       (d, k) \<leftarrow> default_choice cv s (prop_indices k s) k;
       if d \<noteq> None then Some (d, k)
       else do {
         p \<leftarrow> sym_get_choice_prop k s;
         (d, k) \<leftarrow> first_visible cv (list_syms (p_expr p)) k;
         if d \<noteq> None then Some (d, k)
         else Some (None, upd_sym s (\<lambda>x. x\<lparr>curr := (curr x)\<lparr>vtri := no\<rparr>\<rparr>) k) } } }"

text \<open>The two arms of \<open>sym_calc_value\<close>: values of boolean and tristate symbols, values of the others.\<close>

definition or_rev :: "kconf \<Rightarrow> symbol \<Rightarrow> tristate \<Rightarrow> tristate" where
  "or_rev k s t = EXPR_OR t (rev_tri (syms k s))"

definition calc_default :: "calc \<Rightarrow> symbol \<Rightarrow> kconf \<Rightarrow> (tristate \<times> kconf) option" where
  "calc_default cv s k = do {
     let k = (if rev_tri (syms k s) \<noteq> no then set_flag SYMBOL_WRITE s k else k);
     if sym_is_choice k s then Some (or_rev k s no, k)
     else do {
       (r, k) \<leftarrow> sym_get_default_prop cv s k;
       case r of
         None \<Rightarrow> Some (or_rev k s no, k)
       | Some i \<Rightarrow> do {
           let k = set_flag SYMBOL_WRITE s k;
           (t, k) \<leftarrow> calc_dep cv (p_expr (prop_at k s i)) k;
           Some (or_rev k s (EXPR_AND t (p_tri (prop_at k s i))), k) } } }"

definition calc_tristate :: "calc \<Rightarrow> symbol \<Rightarrow> kconf \<Rightarrow> (tristate \<times> kconf) option" where
  "calc_tristate cv s k = do {
     (t, k) \<leftarrow>
       (if sym_is_choice_value k s \<and> visible (syms k s) = yes then do {
          p \<leftarrow> sym_get_choice_prop k s;
          c \<leftarrow> prop_get_symbol p;
          Some (if val (curr (syms k c)) = To s then yes else no, k) }
        else do {
          let vis = visible (syms k s);
          let k = (if vis \<noteq> no then set_flag SYMBOL_WRITE s k else k);
          if vis \<noteq> no \<and> sym_has_value k s
          then Some (or_rev k s (EXPR_AND (vtri (sym_def (syms k s) S_DEF_USER)) vis), k)
          else calc_default cv s k });
     Some (if t = modul \<and> sym_get_type k s = S_BOOLEAN then yes else t, k) }"

definition calc_chars :: "calc \<Rightarrow> symbol \<Rightarrow> kconf \<Rightarrow> (pointer \<times> kconf) option" where
  "calc_chars cv s k = do {
     let vis = visible (syms k s);
     let k = (if vis \<noteq> no then set_flag SYMBOL_WRITE s k else k);
     if vis \<noteq> no \<and> sym_has_value k s then Some (val (sym_def (syms k s) S_DEF_USER), k)
     else do {
       (r, k) \<leftarrow> sym_get_default_prop cv s k;
       case r of
         None \<Rightarrow> Some (val empty_value, k)
       | Some i \<Rightarrow>
           (case prop_get_symbol (prop_at k s i) of
              None \<Rightarrow> Some (val empty_value, k)
            | Some d \<Rightarrow> do {
                k \<leftarrow> cv d (set_flag SYMBOL_WRITE s k);
                Some (val (curr (syms k d)), k) }) } }"

definition calc_newval :: "calc \<Rightarrow> symbol \<Rightarrow> symbol_value \<Rightarrow> kconf \<Rightarrow> (symbol_value \<times> kconf) option" where
  "calc_newval cv s v k =
     (if sym_get_type k s \<in> {S_BOOLEAN, S_TRISTATE} then do { (t, k) \<leftarrow> calc_tristate cv s k; Some (v\<lparr>vtri := t\<rparr>, k) }
      else if sym_get_type k s \<in> {S_STRING, S_HEX, S_INT} then do { (p, k) \<leftarrow> calc_chars cv s k; Some (v\<lparr>val := p\<rparr>, k) }
      else Some (v, k))"

text \<open>What follows the value: the chosen symbol of a choice, the range, the marks for a changed value and the
  flags a choice hands on to its symbols.\<close>

definition set_curr :: "symbol \<Rightarrow> symbol_value \<Rightarrow> kconf \<Rightarrow> kconf" where
  "set_curr s v = upd_sym s (\<lambda>x. x\<lparr>curr := v\<rparr>)"

definition store_choice :: "calc \<Rightarrow> symbol \<Rightarrow> symbol_value \<Rightarrow> kconf \<Rightarrow> kconf option" where
  "store_choice cv s v k =
     (if sym_is_choice k s \<and> vtri v = yes then do {
        (d, k) \<leftarrow> sym_calc_choice cv s k;
        Some (upd_sym s (\<lambda>x. x\<lparr>curr := (curr x)\<lparr>val := (case d of None \<Rightarrow> Null | Some d \<Rightarrow> To d)\<rparr>\<rparr>) k) }
      else Some k)"

definition note_change :: "symbol \<Rightarrow> symbol_value \<Rightarrow> kconf \<Rightarrow> kconf" where
  "note_change s oldval k =
     (if oldval = curr (syms k s) then k
      else let k = sym_set_changed s k
           in if modules_sym k = Some s then
                (let k = sym_set_all_changed k in k\<lparr>modules_val := vtri (curr (syms k s))\<rparr>)
              else k)"

definition pass_flags :: "flag set \<Rightarrow> symbol \<Rightarrow> kconf \<Rightarrow> kconf" where
  "pass_flags fl d k =
     (let k = upd_sym d (\<lambda>x. x\<lparr>flags := flags x \<union> fl\<rparr>) k
      in if SYMBOL_CHANGED \<in> fl then sym_set_changed d k else k)"

definition spread_flags :: "symbol \<Rightarrow> kconf \<Rightarrow> kconf option" where
  "spread_flags s k =
     (if sym_is_choice k s then do {
        p \<leftarrow> sym_get_choice_prop k s;
        Some (fold (pass_flags (flags (syms k s) \<inter> {SYMBOL_CHANGED, SYMBOL_WRITE})) (list_syms (p_expr p)) k) }
      else Some k)"

definition calc_body :: "calc \<Rightarrow> calc" where
  "calc_body cv s k =
     (if has_flag SYMBOL_VALID k s then Some k
      else
        let k = set_flag SYMBOL_VALID s k; oldval = curr (syms k s); ty = sym_type (syms k s)
        in if ty \<notin> {S_INT, S_HEX, S_STRING, S_BOOLEAN, S_TRISTATE}
           then Some (set_curr s \<lparr>val = name_pointer k s, vtri = no\<rparr> k)
           else do {
             let newval = (if ty \<in> {S_INT, S_HEX, S_STRING} then empty_value else no_value);
             let k = (if sym_is_choice_value k s then k else clear_flag SYMBOL_WRITE s k);
             k \<leftarrow> sym_calc_visibility cv s k;
             let k = set_curr s newval k;
             (newval, k) \<leftarrow> calc_newval cv s newval k;
             k \<leftarrow> store_choice cv s newval (set_curr s newval k);
             k \<leftarrow> sym_validate_range cv s k;
             k \<leftarrow> spread_flags s (note_change s oldval k);
             Some (if has_flag SYMBOL_AUTO k s then clear_flag SYMBOL_WRITE s k else k) })"

primrec sym_calc_value :: "nat \<Rightarrow> calc" where
  "sym_calc_value 0 = (\<lambda>s k. None)"
| "sym_calc_value (Suc n) = calc_body (sym_calc_value n)"

text \<open>The fuel the other functions of the tool use.\<close>

definition calc_value :: calc where
  "calc_value s k = sym_calc_value (length (hashed k) + 2) s k"

text \<open>\<open>sym_calc_value (modules_sym)\<close> returns at once for a null pointer.\<close>

definition calc_modules :: "kconf \<Rightarrow> kconf option" where
  "calc_modules k = (case modules_sym k of None \<Rightarrow> Some k | Some s \<Rightarrow> calc_value s k)"

definition sym_set_change_count :: "int \<Rightarrow> kconf \<Rightarrow> kconf" where
  "sym_set_change_count c k = k\<lparr>change_count := c\<rparr>"

definition sym_add_change_count :: "int \<Rightarrow> kconf \<Rightarrow> kconf" where
  "sym_add_change_count c k = sym_set_change_count (c + change_count k) k"

definition sym_clear_all_valid :: "kconf \<Rightarrow> kconf option" where
  "sym_clear_all_valid k =
     calc_modules (sym_add_change_count 1 (each_symbol (clear_flag SYMBOL_VALID) k))"


section \<open>Setting a value\<close>

definition sym_tristate_within_range :: "kconf \<Rightarrow> symbol \<Rightarrow> tristate \<Rightarrow> bool" where
  "sym_tristate_within_range k s v =
     (let ty = sym_get_type k s; vis = visible (syms k s); rev = rev_tri (syms k s)
      in if vis = no then False
         else if ty \<noteq> S_BOOLEAN \<and> ty \<noteq> S_TRISTATE then False
         else if ty = S_BOOLEAN \<and> v = modul then False
         else if vis \<le> rev then False
         else if sym_is_choice_value k s \<and> vis = yes then v = yes
         else rev \<le> v \<and> v \<le> vis)"

definition sym_is_changable :: "kconf \<Rightarrow> symbol \<Rightarrow> bool" where
  "sym_is_changable k s \<longleftrightarrow> visible (syms k s) > rev_tri (syms k s)"

definition mark_user :: "symbol \<Rightarrow> kconf \<Rightarrow> kconf" where
  "mark_user s k =
     (if sym_has_value k s then k else sym_set_changed s (set_flag (SYMBOL_DEF S_DEF_USER) s k))"

definition set_def_val :: "def_index \<Rightarrow> symbol \<Rightarrow> pointer \<Rightarrow> kconf \<Rightarrow> kconf" where
  "set_def_val d s p = upd_sym s (\<lambda>x. x\<lparr>sym_def := (sym_def x)(d := (sym_def x d)\<lparr>val := p\<rparr>)\<rparr>)"

definition set_def_tri :: "def_index \<Rightarrow> symbol \<Rightarrow> tristate \<Rightarrow> kconf \<Rightarrow> kconf" where
  "set_def_tri d s t = upd_sym s (\<lambda>x. x\<lparr>sym_def := (sym_def x)(d := (sym_def x d)\<lparr>vtri := t\<rparr>)\<rparr>)"

text \<open>Setting a choice value makes it the user's choice, and no visible value of the choice is new any more.\<close>

definition take_choice :: "symbol \<Rightarrow> kconf \<Rightarrow> kconf option" where
  "take_choice s k = do {
     p \<leftarrow> sym_get_choice_prop k s;
     c \<leftarrow> prop_get_symbol p;
     let k = set_flag (SYMBOL_DEF S_DEF_USER) c (set_def_val S_DEF_USER c (To s) k);
     p \<leftarrow> sym_get_choice_prop k c;
     Some (fold (\<lambda>d k. if visible (syms k d) \<noteq> no then set_flag (SYMBOL_DEF S_DEF_USER) d k else k)
            (list_syms (p_expr p)) k) }"

definition sym_set_tristate_value :: "symbol \<Rightarrow> tristate \<Rightarrow> kconf \<Rightarrow> (bool \<times> kconf) option" where
  "sym_set_tristate_value s v k =
     (let oldval = sym_get_tristate_value k s
      in if oldval \<noteq> v \<and> \<not> sym_tristate_within_range k s v then Some (False, k)
         else do {
           let k = mark_user s k;
           k \<leftarrow> (if sym_is_choice_value k s \<and> v = yes then take_choice s k else Some k);
           let k = set_def_tri S_DEF_USER s v k;
           k \<leftarrow> (if oldval \<noteq> v then sym_clear_all_valid k else Some k);
           Some (True, k) })"

primrec next_tri :: "tristate \<Rightarrow> tristate" where
  "next_tri no = modul" | "next_tri modul = yes" | "next_tri yes = no"

function toggle_loop :: "symbol \<Rightarrow> tristate \<Rightarrow> tristate \<Rightarrow> kconf \<Rightarrow> (tristate \<times> kconf) option" where
  "toggle_loop s oldval newval k = do {
     let newval = next_tri newval;
     (b, k) \<leftarrow> sym_set_tristate_value s newval k;
     if b then Some (newval, k)
     else if oldval \<noteq> newval then toggle_loop s oldval newval k
     else Some (newval, k) }"
  by pat_completeness auto

text \<open>Every round brings the value nearer to the old one.\<close>

termination
proof (relation "measure (\<lambda>(s, oldval, newval, k).
    if next_tri newval = oldval then 0 else if next_tri (next_tri newval) = oldval then 1 else 2)")
  fix s oldval newval k newval' b k'
  assume "newval' = next_tri newval" and "oldval \<noteq> newval'"
  then show "((s, oldval, newval', k'), s, oldval, newval, k) \<in> measure (\<lambda>(s, oldval, newval, k).
    if next_tri newval = oldval then 0 else if next_tri (next_tri newval) = oldval then 1 else 2)"
    by (cases newval; cases oldval) simp_all
qed simp

definition sym_toggle_tristate_value :: "symbol \<Rightarrow> kconf \<Rightarrow> (tristate \<times> kconf) option" where
  "sym_toggle_tristate_value s k =
     (let oldval = sym_get_tristate_value k s in toggle_loop s oldval oldval k)"

text \<open>\<open>sym_string_valid\<close>, by type.\<close>

definition int_chars :: "string \<Rightarrow> bool" where
  "int_chars txt =
     (let s = (if take 1 txt = ''-'' then tl txt else txt)
      in case s of
           [] \<Rightarrow> False
         | c # r \<Rightarrow> isdigit c \<and> \<not> (c = CHR ''0'' \<and> r \<noteq> []) \<and> list_all isdigit r)"

definition hex_chars :: "string \<Rightarrow> bool" where
  "hex_chars txt =
     (let s = (if take 2 txt \<in> {''0x'', ''0X''} then drop 2 txt else txt) in s \<noteq> [] \<and> list_all isxdigit s)"

definition tri_of_chars :: "string \<Rightarrow> tristate option" where
  "tri_of_chars txt =
     (if take 1 txt \<in> {''y'', ''Y''} then Some yes
      else if take 1 txt \<in> {''m'', ''M''} then Some modul
      else if take 1 txt \<in> {''n'', ''N''} then Some no
      else None)"

fun string_valid :: "symbol_type \<Rightarrow> string \<Rightarrow> bool" where
  "string_valid S_STRING txt = True"
| "string_valid S_INT txt = int_chars txt"
| "string_valid S_HEX txt = hex_chars txt"
| "string_valid S_BOOLEAN txt = (tri_of_chars txt \<noteq> None)"
| "string_valid S_TRISTATE txt = (tri_of_chars txt \<noteq> None)"
| "string_valid _ txt = False"

definition sym_string_valid :: "kconf \<Rightarrow> symbol \<Rightarrow> string \<Rightarrow> bool" where
  "sym_string_valid k s txt = string_valid (sym_type (syms k s)) txt"

definition number_within :: "symbol \<Rightarrow> string \<Rightarrow> nat \<Rightarrow> kconf \<Rightarrow> (bool \<times> kconf) option" where
  "number_within s txt base k =
     (if \<not> sym_string_valid k s txt then Some (False, k)
      else do {
        (r, k) \<leftarrow> sym_get_range_prop calc_value s k;
        case r of
          None \<Rightarrow> Some (True, k)
        | Some i \<Rightarrow> do {
            let v = to_int (strtol base txt);
            (a, b) \<leftarrow> range_syms (prop_at k s i);
            (lo, k) \<leftarrow> sym_get_range_val calc_value a base k;
            if lo \<le> v then do {
              (hi, k) \<leftarrow> sym_get_range_val calc_value b base k;
              Some (v \<le> hi, k) }
            else Some (False, k) } })"

definition sym_string_within_range :: "symbol \<Rightarrow> string \<Rightarrow> kconf \<Rightarrow> (bool \<times> kconf) option" where
  "sym_string_within_range s txt k =
     (case sym_type (syms k s) of
        S_STRING \<Rightarrow> Some (sym_string_valid k s txt, k)
      | S_INT \<Rightarrow> number_within s txt 10 k
      | S_HEX \<Rightarrow> number_within s txt 16 k
      | S_BOOLEAN \<Rightarrow> Some (case tri_of_chars txt of None \<Rightarrow> False | Some t \<Rightarrow> sym_tristate_within_range k s t, k)
      | S_TRISTATE \<Rightarrow> Some (case tri_of_chars txt of None \<Rightarrow> False | Some t \<Rightarrow> sym_tristate_within_range k s t, k)
      | _ \<Rightarrow> Some (False, k))"

definition set_user_chars :: "symbol \<Rightarrow> string \<Rightarrow> kconf \<Rightarrow> kconf" where
  "set_user_chars s txt k = (case strdup txt k of (p, k) \<Rightarrow> set_def_val S_DEF_USER s p k)"

definition sym_set_string_value :: "symbol \<Rightarrow> string \<Rightarrow> kconf \<Rightarrow> (bool \<times> kconf) option" where
  "sym_set_string_value s newval k =
     (let ty = sym_type (syms k s)
      in if ty \<in> {S_BOOLEAN, S_TRISTATE} then
           (case tri_of_chars newval of None \<Rightarrow> Some (False, k) | Some t \<Rightarrow> sym_set_tristate_value s t k)
         else do {
           (b, k) \<leftarrow> sym_string_within_range s newval k;
           if \<not> b then Some (False, k)
           else do {
             let k = mark_user s k;
             let oldval = val (sym_def (syms k s) S_DEF_USER);
             if ty = S_HEX \<and> take 2 newval \<notin> {''0x'', ''0X''} then do {
               k \<leftarrow> sym_clear_all_valid (set_user_chars s (''0x'' @ newval) k);
               Some (True, k) }
             else if chars oldval \<noteq> Some newval then do {
               k \<leftarrow> sym_clear_all_valid (set_user_chars s newval k);
               Some (True, k) }
             else Some (True, k) } })"

section \<open>The hash table\<close>

definition chain_of :: "string \<Rightarrow> nat" where
  "chain_of n = sum_list (map code n) mod 256"

definition constant_name :: "string \<Rightarrow> symbol option" where
  "constant_name n =
     (if n = ''y'' then Some symbol_yes else if n = ''m'' then Some symbol_mod else if n = ''n'' then Some symbol_no
      else None)"

definition name_matches :: "kconf \<Rightarrow> flag set \<Rightarrow> string \<Rightarrow> symbol \<Rightarrow> bool" where
  "name_matches k fl n s \<longleftrightarrow>
     sym_name (syms k s) = Some n \<and>
     (if fl \<noteq> {} then flags (syms k s) \<inter> fl \<noteq> {} else flags (syms k s) \<inter> {SYMBOL_CONST, SYMBOL_CHOICE} = {})"

definition add_symbol :: "nat \<Rightarrow> string option \<Rightarrow> flag set \<Rightarrow> kconf \<Rightarrow> symbol \<times> kconf" where
  "add_symbol h n fl k =
     (let s = Other (next_block k)
      in (s, k\<lparr>syms := (syms k)(s := new_symbol n fl), next_block := Suc (next_block k),
               symbol_hash := (symbol_hash k)[h := s # symbol_hash k ! h]\<rparr>))"

definition sym_lookup :: "string option \<Rightarrow> flag set \<Rightarrow> kconf \<Rightarrow> symbol \<times> kconf" where
  "sym_lookup n fl k =
     (case n of
        None \<Rightarrow> add_symbol 256 None fl k
      | Some m \<Rightarrow>
          (case constant_name m of
             Some s \<Rightarrow> (s, k)
           | None \<Rightarrow>
               (case find (name_matches k fl m) (symbol_hash k ! chain_of m) of
                  Some s \<Rightarrow> (s, k)
                | None \<Rightarrow> add_symbol (chain_of m) n fl k)))"

definition sym_find :: "string \<Rightarrow> kconf \<Rightarrow> symbol option" where
  "sym_find n k =
     (case constant_name n of
        Some s \<Rightarrow> Some s
      | None \<Rightarrow> find (\<lambda>s. sym_name (syms k s) = Some n \<and> SYMBOL_CONST \<notin> flags (syms k s)) (symbol_hash k ! chain_of n))"

text \<open>\<open>sym_re_search\<close>, with the compiled pattern as a predicate; \<open>None\<close> is a pattern that is empty or not valid.\<close>

definition sym_re_search :: "(string \<Rightarrow> bool) option \<Rightarrow> kconf \<Rightarrow> symbol list" where
  "sym_re_search re k =
     (case re of
        None \<Rightarrow> []
      | Some matches \<Rightarrow>
          filter (\<lambda>s. sym_type (syms k s) \<noteq> S_OTHER \<and> SYMBOL_CONST \<notin> flags (syms k s) \<and>
                      (case sym_name (syms k s) of None \<Rightarrow> False | Some n \<Rightarrow> matches n)) (hashed k))"

text \<open>\<open>prop_alloc\<close> appends a property; file and line are not kept.\<close>

definition new_property :: "prop_type \<Rightarrow> property" where
  "new_property ty = \<lparr>p_type = ty, p_text = None, p_visible = None, p_tri = no, p_expr = None, p_menu = None\<rparr>"

definition add_property :: "property \<Rightarrow> symbol \<Rightarrow> kconf \<Rightarrow> kconf" where
  "add_property p s = upd_sym s (\<lambda>x. x\<lparr>props := props x @ [p]\<rparr>)"

definition sym_add_default :: "symbol \<Rightarrow> string \<Rightarrow> kconf \<Rightarrow> kconf" where
  "sym_add_default s txt k =
     (case sym_lookup (Some txt) {SYMBOL_CONST} k of
        (d, k) \<Rightarrow> add_property ((new_property P_DEFAULT)\<lparr>p_expr := Some (Sym d)\<rparr>) s k)"

text \<open>The first call of \<open>sym_init\<close>, with the release \<open>uname\<close> gives.\<close>

definition sym_init :: "string \<Rightarrow> kconf \<Rightarrow> kconf" where
  "sym_init release k =
     (case sym_lookup (Some ''UNAME_RELEASE'') {} k of
        (s, k) \<Rightarrow> sym_add_default s release (set_flag SYMBOL_AUTO s (upd_sym s (\<lambda>x. x\<lparr>sym_type := S_STRING\<rparr>) k)))"

text \<open>\<open>prop_add_env\<close> for the symbol of the current entry; the second argument is what \<open>getenv\<close> gives.\<close>

definition prop_add_env :: "symbol \<Rightarrow> string \<Rightarrow> string option \<Rightarrow> kconf \<Rightarrow> kconf" where
  "prop_add_env s env v k =
     (let k = set_flag SYMBOL_AUTO s k
      in if sym_get_env_prop k s \<noteq> None then k
         else (case sym_lookup (Some env) {SYMBOL_CONST} k of
                 (e, k) \<Rightarrow>
                   let k = add_property ((new_property P_ENV)\<lparr>p_expr := Some (Sym e)\<rparr>) s k
                   in case v of None \<Rightarrow> k | Some c \<Rightarrow> sym_add_default s c k))"

section \<open>Recursive dependencies\<close>

text \<open>
  The functions that call \<open>sym_check_deps\<close> have it as their first argument; they return the symbol at which a
  cycle was found. The message names the file of the first property of a symbol, so a symbol without one is a null
  pointer there.
\<close>

type_synonym check = "symbol \<Rightarrow> kconf \<Rightarrow> (symbol option \<times> kconf) option"

fun check_expr :: "check \<Rightarrow> expr \<Rightarrow> kconf \<Rightarrow> (symbol option \<times> kconf) option" where
  "check_expr cd (Or a b) k = do { (d, k) \<leftarrow> check_expr cd a k; if d \<noteq> None then Some (d, k) else check_expr cd b k }"
| "check_expr cd (And a b) k = do { (d, k) \<leftarrow> check_expr cd a k; if d \<noteq> None then Some (d, k) else check_expr cd b k }"
| "check_expr cd (Not a) k = check_expr cd a k"
| "check_expr cd (Equal a b) k = do { (d, k) \<leftarrow> cd a k; if d \<noteq> None then Some (d, k) else cd b k }"
| "check_expr cd (Unequal a b) k = do { (d, k) \<leftarrow> cd a k; if d \<noteq> None then Some (d, k) else cd b k }"
| "check_expr cd (Sym s) k = cd s k"
| "check_expr cd _ k = Some (None, k)"

definition sym_check_expr_deps :: "check \<Rightarrow> expr option \<Rightarrow> kconf \<Rightarrow> (symbol option \<times> kconf) option" where
  "sym_check_expr_deps cd e k = (case e of None \<Rightarrow> Some (None, k) | Some e \<Rightarrow> check_expr cd e k)"

fun check_props :: "check \<Rightarrow> bool \<Rightarrow> property list \<Rightarrow> kconf \<Rightarrow> (symbol option \<times> kconf) option" where
  "check_props cd choice [] k = Some (None, k)"
| "check_props cd choice (p # ps) k =
     (if p_type p = P_CHOICE \<or> p_type p = P_SELECT then check_props cd choice ps k
      else do {
        (d, k) \<leftarrow> sym_check_expr_deps cd (p_visible p) k;
        if d \<noteq> None then Some (d, k)
        else if p_type p \<noteq> P_DEFAULT \<or> choice then check_props cd choice ps k
        else do {
          (d, k) \<leftarrow> sym_check_expr_deps cd (p_expr p) k;
          if d \<noteq> None then Some (d, k) else check_props cd choice ps k } })"

definition sym_check_sym_deps :: "check \<Rightarrow> check" where
  "sym_check_sym_deps cd s k = do {
     (d, k) \<leftarrow> sym_check_expr_deps cd (rev_expr (syms k s)) k;
     if d \<noteq> None then Some (d, k) else check_props cd (sym_is_choice k s) (props (syms k s)) k }"

fun check_members :: "check \<Rightarrow> symbol list \<Rightarrow> kconf \<Rightarrow> (symbol option \<times> kconf) option" where
  "check_members cd [] k = Some (None, k)"
| "check_members cd (s # ss) k = do {
     (d, k) \<leftarrow> sym_check_sym_deps cd s k;
     if d \<noteq> None then Some (d, k) else check_members cd ss k }"

definition enter :: "symbol \<Rightarrow> kconf \<Rightarrow> kconf" where
  "enter s k = set_flag SYMBOL_CHECKED s (set_flag SYMBOL_CHECK s k)"

definition sym_check_choice_deps :: "check \<Rightarrow> check" where
  "sym_check_choice_deps cd c k = do {
     p \<leftarrow> sym_get_choice_prop k c;
     let ms = list_syms (p_expr p);
     let k = enter c (fold enter ms k);
     (d, k) \<leftarrow> sym_check_sym_deps cd c k;
     let k = clear_flag SYMBOL_CHECK c k;
     (d, k) \<leftarrow> (if d \<noteq> None then Some (d, k) else check_members cd ms k);
     let k = fold (clear_flag SYMBOL_CHECK) ms k;
     case d of
       None \<Rightarrow> Some (None, k)
     | Some x \<Rightarrow>
         if sym_is_choice_value k x then do {
           p \<leftarrow> sym_get_choice_prop k x;
           Some (if prop_get_symbol p = Some c then Some c else d, k) }
         else Some (d, k) }"

definition check_body :: "check \<Rightarrow> check" where
  "check_body cd s k =
     (if has_flag SYMBOL_CHECK k s then (if props (syms k s) = [] then None else Some (Some s, k))
      else if has_flag SYMBOL_CHECKED k s then Some (None, k)
      else do {
        (d, k) \<leftarrow>
          (if sym_is_choice_value k s then do {
             p \<leftarrow> sym_get_choice_prop k s;
             c \<leftarrow> prop_get_symbol p;
             cd c k }
           else if sym_is_choice k s then sym_check_choice_deps cd s k
           else do {
             (d, k) \<leftarrow> sym_check_sym_deps cd s (enter s k);
             Some (d, clear_flag SYMBOL_CHECK s k) });
        if d = Some s then Some (None, k\<lparr>zconfnerrs := Suc (zconfnerrs k)\<rparr>) else Some (d, k) })"

primrec sym_check_deps :: "nat \<Rightarrow> check" where
  "sym_check_deps 0 = (\<lambda>s k. None)"
| "sym_check_deps (Suc n) = check_body (sym_check_deps n)"

text \<open>The loop at the end of \<open>conf_parse\<close> over all symbols.\<close>

fun check_all :: "nat \<Rightarrow> symbol list \<Rightarrow> kconf \<Rightarrow> kconf option" where
  "check_all n [] k = Some k"
| "check_all n (s # ss) k =
     (if sym_type (syms k s) = S_OTHER then check_all n ss k
      else do {
        (d, k) \<leftarrow> sym_check_deps n s k;
        check_all n ss (if d \<noteq> None then k\<lparr>zconfnerrs := Suc (zconfnerrs k)\<rparr> else k) })"

end
