(* ===== verification/KValue.thy ===== *)
theory KValue
  imports KSymbol
begin

text \<open>
  What \<open>sym_calc_value\<close> computes. A configuration is well formed (\<open>conf_ok\<close>) when the symbols can be numbered so
  that the expressions a symbol's value depends on only mention symbols with smaller numbers, which is what
  \<open>sym_check_deps\<close> is there to guarantee, and the properties have the shape the parser gives them. Then
  \<open>sym_calc_value\<close> returns, and every symbol it marks as valid has the value its properties specify (\<open>settled\<close>),
  whatever the order of the calls was.
\<close>

section \<open>The specified value\<close>

text \<open>The values of the symbols as \<open>KExpr\<close> sees them.\<close>

definition view :: "kconf \<Rightarrow> symtab" where
  "view k =
     \<lparr>stype = \<lambda>s. sym_type (syms k s), sconst = \<lambda>s. SYMBOL_CONST \<in> flags (syms k s), tri = \<lambda>s. vtri (curr (syms k s)),
      str = \<lambda>s. case chars (sym_get_string_value k s) of None \<Rightarrow> '''' | Some c \<Rightarrow> c, sname = \<lambda>s. sym_name (syms k s)\<rparr>"

definition condition :: "kconf \<Rightarrow> property \<Rightarrow> tristate" where
  "condition k p = expr_calc_value (view k) (p_visible p)"

definition prompts :: "kconf \<Rightarrow> symbol \<Rightarrow> property list" where
  "prompts k s = filter (\<lambda>p. p_text p \<noteq> None) (props (syms k s))"

definition visible_spec :: "kconf \<Rightarrow> symbol \<Rightarrow> tristate" where
  "visible_spec k s =
     (let t = fold (\<lambda>p t. EXPR_OR t (condition k p)) (prompts k s) no
      in if t = modul \<and> (sym_type (syms k s) \<noteq> S_TRISTATE \<or> modules_val k = no) then yes else t)"

definition rev_spec :: "kconf \<Rightarrow> symbol \<Rightarrow> tristate" where
  "rev_spec k s =
     (if sym_is_choice_value k s then rev_tri (syms k s)
      else let t = (case rev_expr (syms k s) of None \<Rightarrow> no | Some e \<Rightarrow> expr_calc (view k) e)
           in if t = modul \<and> sym_get_type k s = S_BOOLEAN then yes else t)"

text \<open>The first property of a kind whose condition holds.\<close>

definition active_prop :: "prop_type \<Rightarrow> kconf \<Rightarrow> symbol \<Rightarrow> property option" where
  "active_prop ty k s = find (\<lambda>p. p_type p = ty \<and> condition k p \<noteq> no) (props (syms k s))"

definition user_visible :: "kconf \<Rightarrow> symbol \<Rightarrow> bool" where
  "user_visible k s \<longleftrightarrow> visible (syms k s) \<noteq> no \<and> sym_has_value k s"

definition default_tri :: "kconf \<Rightarrow> symbol \<Rightarrow> tristate" where
  "default_tri k s =
     (if sym_is_choice k s then no
      else case active_prop P_DEFAULT k s of
             None \<Rightarrow> no
           | Some p \<Rightarrow> EXPR_AND (expr_calc_value (view k) (p_expr p)) (condition k p))"

definition choice_of :: "kconf \<Rightarrow> symbol \<Rightarrow> symbol option" where
  "choice_of k s =
     (if sym_is_choice_value k s then Option.bind (sym_get_choice_prop k s) prop_get_symbol else None)"

definition chosen :: "kconf \<Rightarrow> symbol \<Rightarrow> bool" where
  "chosen k s \<longleftrightarrow> (case choice_of k s of None \<Rightarrow> False | Some c \<Rightarrow> val (curr (syms k c)) = To s)"

text \<open>The symbol a choice with the value \<open>y\<close> chooses: the first candidate that is visible then.\<close>

definition as_yes :: "symbol \<Rightarrow> kconf \<Rightarrow> kconf" where
  "as_yes s = upd_sym s (\<lambda>x. x\<lparr>curr := (curr x)\<lparr>vtri := yes\<rparr>\<rparr>)"

definition user_candidate :: "kconf \<Rightarrow> symbol \<Rightarrow> symbol list" where
  "user_candidate k s = (case val (sym_def (syms k s) S_DEF_USER) of To d \<Rightarrow> [d] | _ \<Rightarrow> [])"

definition default_candidates :: "kconf \<Rightarrow> property list \<Rightarrow> symbol list" where
  "default_candidates k ps = List.map_filter prop_get_symbol (filter (\<lambda>p. p_type p = P_DEFAULT \<and> condition k p \<noteq> no) ps)"

definition choice_list :: "kconf \<Rightarrow> symbol \<Rightarrow> symbol list" where
  "choice_list k s = (case sym_get_choice_prop k s of None \<Rightarrow> [] | Some p \<Rightarrow> list_syms (p_expr p))"

definition choice_spec :: "kconf \<Rightarrow> symbol \<Rightarrow> symbol option" where
  "choice_spec k s =
     find (\<lambda>d. visible_spec (as_yes s k) d \<noteq> no) (user_candidate k s @ default_candidates k (props (syms k s)) @ choice_list k s)"

definition tri_spec :: "kconf \<Rightarrow> symbol \<Rightarrow> tristate" where
  "tri_spec k s =
     (let t = (if sym_is_choice_value k s \<and> visible (syms k s) = yes then (if chosen k s then yes else no)
               else EXPR_OR (if user_visible k s
                                then EXPR_AND (vtri (sym_def (syms k s) S_DEF_USER)) (visible (syms k s))
                                else default_tri k s) (rev_tri (syms k s)))
      in if t = modul \<and> sym_get_type k s = S_BOOLEAN then yes else t)"

text \<open>The characters of a value, and the number in them.\<close>

definition raw_chars :: "kconf \<Rightarrow> symbol \<Rightarrow> string" where
  "raw_chars k s = (case chars (val (curr (syms k s))) of None \<Rightarrow> '''' | Some c \<Rightarrow> c)"

definition sym_number :: "nat \<Rightarrow> kconf \<Rightarrow> symbol \<Rightarrow> int" where
  "sym_number base k s = to_int (strtol (value_base (sym_type (syms k s)) base) (raw_chars k s))"

definition input_chars :: "kconf \<Rightarrow> symbol \<Rightarrow> string" where
  "input_chars k s =
     (if user_visible k s then (case chars (val (sym_def (syms k s) S_DEF_USER)) of None \<Rightarrow> '''' | Some c \<Rightarrow> c)
      else case Option.bind (active_prop P_DEFAULT k s) prop_get_symbol of None \<Rightarrow> '''' | Some d \<Rightarrow> raw_chars k d)"

definition ranged_chars :: "kconf \<Rightarrow> symbol \<Rightarrow> string \<Rightarrow> string" where
  "ranged_chars k s c =
     (let ty = sym_type (syms k s); base = value_base ty 10; v = to_int (strtol base c)
      in case Option.bind (active_prop P_RANGE k s) range_syms of
           None \<Rightarrow> c
         | Some (a, b) \<Rightarrow>
             if v < sym_number base k a then number_chars ty (sym_number base k a)
             else if sym_number base k b < v then number_chars ty (sym_number base k b)
             else c)"

definition chars_spec :: "kconf \<Rightarrow> symbol \<Rightarrow> string" where
  "chars_spec k s =
     (case sym_type (syms k s) of
        S_STRING \<Rightarrow> input_chars k s
      | S_INT \<Rightarrow> ranged_chars k s (input_chars k s)
      | S_HEX \<Rightarrow> ranged_chars k s (input_chars k s)
      | _ \<Rightarrow> ''n'')"

section \<open>Dependencies\<close>

fun expr_syms :: "expr \<Rightarrow> symbol set" where
  "expr_syms (Sym s) = {s}"
| "expr_syms (Not e) = expr_syms e"
| "expr_syms (And a b) = expr_syms a \<union> expr_syms b"
| "expr_syms (Or a b) = expr_syms a \<union> expr_syms b"
| "expr_syms (Equal a b) = {a, b}"
| "expr_syms (Unequal a b) = {a, b}"
| "expr_syms (Range a b) = {}"
| "expr_syms (List l s) = {}"

definition dep_syms :: "expr option \<Rightarrow> symbol set" where
  "dep_syms e = (case e of None \<Rightarrow> {} | Some e \<Rightarrow> expr_syms e)"

definition prompt_deps :: "kconf \<Rightarrow> symbol \<Rightarrow> symbol set" where
  "prompt_deps k s = (\<Union>p\<in>set (prompts k s). dep_syms (p_visible p))"

definition rev_deps :: "kconf \<Rightarrow> symbol \<Rightarrow> symbol set" where
  "rev_deps k s = (if sym_is_choice_value k s then {} else dep_syms (rev_expr (syms k s)))"

definition value_deps :: "kconf \<Rightarrow> symbol \<Rightarrow> symbol set" where
  "value_deps k s =
     (\<Union>p\<in>set (props (syms k s)).
        if p_type p = P_DEFAULT then dep_syms (p_visible p) \<union> (if sym_is_choice k s then {} else dep_syms (p_expr p))
        else if p_type p = P_RANGE then dep_syms (p_visible p) \<union> (case range_syms p of None \<Rightarrow> {} | Some (a, b) \<Rightarrow> {a, b})
        else {})"

text \<open>The symbols a choice may choose.\<close>

definition choice_members :: "kconf \<Rightarrow> symbol \<Rightarrow> symbol set" where
  "choice_members k c =
     (case sym_get_choice_prop k c of None \<Rightarrow> {} | Some p \<Rightarrow> set (list_syms (p_expr p))) \<union>
     {d. \<exists>p\<in>set (props (syms k c)). p_type p = P_DEFAULT \<and> prop_get_symbol p = Some d} \<union>
     {d. val (sym_def (syms k c) S_DEF_USER) = To d}"

definition deps :: "kconf \<Rightarrow> symbol \<Rightarrow> symbol set" where
  "deps k s =
     prompt_deps k s \<union> rev_deps k s \<union> value_deps k s \<union>
     (if sym_is_choice k s then \<Union> (prompt_deps k ` choice_members k s) - {s} else {})"

definition five_types :: "symbol_type set" where
  "five_types = {S_INT, S_HEX, S_STRING, S_BOOLEAN, S_TRISTATE}"

definition is_constant :: "symbol \<Rightarrow> bool" where
  "is_constant s \<longleftrightarrow> s \<in> {symbol_yes, symbol_mod, symbol_no}"

text \<open>The shape of a symbol; \<open>r\<close> numbers the symbols.\<close>

definition sym_ok :: "(symbol \<Rightarrow> nat) \<Rightarrow> kconf \<Rightarrow> symbol \<Rightarrow> bool" where
  "sym_ok r k s \<longleftrightarrow>
     r s \<le> length (hashed k) \<and>
     (\<forall>d\<in>deps k s. r d < r s \<and> (sym_type (syms k d) \<in> five_types \<or> sym_name (syms k d) \<noteq> None)) \<and>
     (sym_type (syms k s) \<in> {S_INT, S_HEX, S_STRING} \<longrightarrow>
        \<not> sym_is_choice k s \<and> \<not> sym_is_choice_value k s \<and>
        (sym_has_value k s \<longrightarrow> chars (val (sym_def (syms k s) S_DEF_USER)) \<noteq> None) \<and>
        (\<forall>p\<in>set (props (syms k s)).
           (p_type p = P_DEFAULT \<longrightarrow> (\<forall>d. prop_get_symbol p = Some d \<longrightarrow> \<not> sym_is_choice k d)) \<and>
           (p_type p = P_RANGE \<longrightarrow> (\<exists>a b. p_expr p = Some (Range a b) \<and> \<not> sym_is_choice k a \<and> \<not> sym_is_choice k b)))) \<and>
     (sym_is_choice_value k s \<longrightarrow>
        \<not> sym_is_choice k s \<and> sym_type (syms k s) \<in> {S_BOOLEAN, S_TRISTATE} \<and> (\<exists>c. choice_of k s = Some c \<and> c \<in> prompt_deps k s)) \<and>
     (sym_is_choice k s \<longrightarrow>
        sym_get_choice_prop k s \<noteq> None \<and> chars (val (sym_def (syms k s) S_DEF_USER)) = None \<and>
        (\<forall>p\<in>set (props (syms k s)). p_type p = P_DEFAULT \<longrightarrow> prop_get_symbol p \<noteq> None) \<and>
        (\<forall>d\<in>choice_members k s. choice_of k d = Some s)) \<and>
     (is_constant s \<longrightarrow> SYMBOL_VALID \<in> flags (syms k s) \<and> chars (val (curr (syms k s))) \<noteq> None)"

definition conf_ok :: "(symbol \<Rightarrow> nat) \<Rightarrow> kconf \<Rightarrow> bool" where
  "conf_ok r k \<longleftrightarrow>
     (\<forall>s. sym_ok r k s) \<and>
     (case modules_sym k of None \<Rightarrow> True | Some m \<Rightarrow> SYMBOL_VALID \<in> flags (syms k m))"

text \<open>A symbol that has its specified value.\<close>

definition choice_fits :: "kconf \<Rightarrow> symbol \<Rightarrow> bool" where
  "choice_fits k s \<longleftrightarrow>
     (if tri_spec k s = yes
      then curr (syms k s) = (case choice_spec k s of None \<Rightarrow> \<lparr>val = Null, vtri = no\<rparr> | Some d \<Rightarrow> \<lparr>val = To d, vtri = yes\<rparr>)
      else vtri (curr (syms k s)) = tri_spec k s)"

definition fits :: "kconf \<Rightarrow> symbol \<Rightarrow> bool" where
  "fits k s \<longleftrightarrow>
     (if is_constant s then chars (val (curr (syms k s))) \<noteq> None
      else if sym_type (syms k s) \<notin> five_types then curr (syms k s) = \<lparr>val = name_pointer k s, vtri = no\<rparr>
      else visible (syms k s) = visible_spec k s \<and> rev_tri (syms k s) = rev_spec k s \<and>
        (if sym_is_choice k s then choice_fits k s
         else vtri (curr (syms k s)) = (if sym_type (syms k s) \<in> {S_BOOLEAN, S_TRISTATE} then tri_spec k s else no) \<and>
           chars (val (curr (syms k s))) = Some (chars_spec k s)))"

section \<open>What a calculation leaves alone\<close>

definition fixed_prop :: "property \<Rightarrow> property" where
  "fixed_prop p = p\<lparr>p_tri := no\<rparr>"

text \<open>All of a symbol but what \<open>sym_calc_value\<close> stores.\<close>

definition fixed :: "sym \<Rightarrow> sym" where
  "fixed x = x\<lparr>curr := empty_value, visible := no, rev_tri := no, props := map fixed_prop (props x),
     flags := flags x - {SYMBOL_VALID, SYMBOL_WRITE, SYMBOL_CHANGED}\<rparr>"

definition same_conf :: "kconf \<Rightarrow> kconf \<Rightarrow> bool" where
  "same_conf k k' \<longleftrightarrow>
     (\<forall>s. fixed (syms k' s) = fixed (syms k s)) \<and> symbol_hash k' = symbol_hash k \<and>
     modules_sym k' = modules_sym k \<and> modules_val k' = modules_val k"

definition same_sight :: "kconf \<Rightarrow> kconf \<Rightarrow> symbol \<Rightarrow> bool" where
  "same_sight k k' d \<longleftrightarrow>
     visible (syms k' d) = visible (syms k d) \<and> rev_tri (syms k' d) = rev_tri (syms k d) \<and>
     props (syms k' d) = props (syms k d)"

text \<open>A step that keeps the values of the valid symbols in \<open>C\<close> and the visibility of those in \<open>V\<close>; the visibility of
  a choice value may change as long as the choice is not valid.\<close>

definition keeps_values :: "symbol set \<Rightarrow> symbol set \<Rightarrow> kconf \<Rightarrow> kconf \<Rightarrow> bool" where
  "keeps_values C V k k' \<longleftrightarrow>
     same_conf k k' \<and>
     (\<forall>d. has_flag SYMBOL_VALID k d \<longrightarrow>
        has_flag SYMBOL_VALID k' d \<and> (d \<in> C \<longrightarrow> curr (syms k' d) = curr (syms k d)) \<and>
        (d \<in> V \<longrightarrow> (\<forall>c. choice_of k d = Some c \<longrightarrow> has_flag SYMBOL_VALID k c) \<longrightarrow> same_sight k k' d))"

lemma fixed_parts:
  assumes "fixed x = fixed y"
  shows "sym_name x = sym_name y" "sym_type x = sym_type y" "sym_def x = sym_def y" "rev_expr x = rev_expr y"
    "map fixed_prop (props x) = map fixed_prop (props y)"
    "fl \<notin> {SYMBOL_VALID, SYMBOL_WRITE, SYMBOL_CHANGED} \<Longrightarrow> fl \<in> flags x \<longleftrightarrow> fl \<in> flags y"
proof -
  have "sym_name (fixed x) = sym_name (fixed y)" "sym_type (fixed x) = sym_type (fixed y)"
    "sym_def (fixed x) = sym_def (fixed y)" "rev_expr (fixed x) = rev_expr (fixed y)"
    "props (fixed x) = props (fixed y)" "flags (fixed x) = flags (fixed y)" using assms by simp_all
  then show "sym_name x = sym_name y" "sym_type x = sym_type y" "sym_def x = sym_def y" "rev_expr x = rev_expr y"
    "map fixed_prop (props x) = map fixed_prop (props y)"
    "fl \<notin> {SYMBOL_VALID, SYMBOL_WRITE, SYMBOL_CHANGED} \<Longrightarrow> fl \<in> flags x \<longleftrightarrow> fl \<in> flags y"
    by (auto simp: fixed_def)
qed

lemma fixed_prop_simps [simp]:
  "p_type (fixed_prop p) = p_type p" "p_text (fixed_prop p) = p_text p" "p_visible (fixed_prop p) = p_visible p"
  "p_expr (fixed_prop p) = p_expr p" "prop_get_symbol (fixed_prop p) = prop_get_symbol p"
  "range_syms (fixed_prop p) = range_syms p" "condition k (fixed_prop p) = condition k p"
  by (simp_all add: fixed_prop_def prop_get_symbol_def range_syms_def condition_def)

lemma same_conf_refl [simp]: "same_conf k k"
  by (simp add: same_conf_def)

lemma same_conf_trans: "same_conf k k' \<Longrightarrow> same_conf k' k'' \<Longrightarrow> same_conf k k''"
  by (simp add: same_conf_def)

text \<open>What does not depend on the stored values: reading it through \<open>fixed_prop\<close>.\<close>

definition fixed_props :: "kconf \<Rightarrow> symbol \<Rightarrow> property list" where
  "fixed_props k s = map fixed_prop (props (syms k s))"

lemma find_map: "find P (map f xs) = map_option f (find (\<lambda>x. P (f x)) xs)"
  by (induction xs) simp_all

lemma choice_of_fixed:
  "choice_of k s =
     (if sym_is_choice_value k s then Option.bind (first_prop P_CHOICE (fixed_props k s)) prop_get_symbol else None)"
  by (cases "find (\<lambda>p. p_type p = P_CHOICE) (props (syms k s))")
    (simp_all add: choice_of_def sym_get_choice_prop_def first_prop_def fixed_props_def find_map)

lemma same_conf_sym:
  assumes "same_conf k k'"
  shows "sym_name (syms k' s) = sym_name (syms k s)" "sym_type (syms k' s) = sym_type (syms k s)"
    "sym_def (syms k' s) = sym_def (syms k s)" "rev_expr (syms k' s) = rev_expr (syms k s)"
    "fixed_props k' s = fixed_props k s"
    "fl \<notin> {SYMBOL_VALID, SYMBOL_WRITE, SYMBOL_CHANGED} \<Longrightarrow> has_flag fl k' s = has_flag fl k s"
    "name_pointer k' s = name_pointer k s" "modules_val k' = modules_val k" "modules_sym k' = modules_sym k"
    "hashed k' = hashed k"
  using assms fixed_parts [of "syms k' s" "syms k s"] by (simp_all add: same_conf_def has_flag_def name_pointer_def hashed_def fixed_props_def)

lemma same_conf_choice_of:
  assumes "same_conf k k'"
  shows "choice_of k' s = choice_of k s"
  using assms by (simp add: choice_of_fixed same_conf_sym)

lemma keeps_values_refl [simp]: "keeps_values C V k k"
  by (simp add: keeps_values_def same_sight_def)

lemma keeps_values_mono: "keeps_values C V k k' \<Longrightarrow> C' \<subseteq> C \<Longrightarrow> V' \<subseteq> V \<Longrightarrow> keeps_values C' V' k k'"
  unfolding keeps_values_def by blast

lemma keeps_values_trans:
  assumes "keeps_values C V k k'" and "keeps_values C V k' k''"
  shows "keeps_values C V k k''"
proof -
  have c: "same_conf k k'" "same_conf k' k''" using assms by (simp_all add: keeps_values_def)
  have 1: "has_flag SYMBOL_VALID k' d" "d \<in> C \<Longrightarrow> curr (syms k' d) = curr (syms k d)"
    "d \<in> V \<Longrightarrow> (\<And>c. choice_of k d = Some c \<Longrightarrow> has_flag SYMBOL_VALID k c) \<Longrightarrow> same_sight k k' d"
    if "has_flag SYMBOL_VALID k d" for d
    using assms(1) that unfolding keeps_values_def by blast+
  have 2: "has_flag SYMBOL_VALID k'' d" "d \<in> C \<Longrightarrow> curr (syms k'' d) = curr (syms k' d)"
    "d \<in> V \<Longrightarrow> (\<And>c. choice_of k' d = Some c \<Longrightarrow> has_flag SYMBOL_VALID k' c) \<Longrightarrow> same_sight k' k'' d"
    if "has_flag SYMBOL_VALID k' d" for d
    using assms(2) that unfolding keeps_values_def by blast+
  have 3: "same_sight k k'' d" if "same_sight k k' d" "same_sight k' k'' d" for d
    using that by (simp add: same_sight_def)
  show ?thesis unfolding keeps_values_def
  proof (intro conjI allI impI)
    show "same_conf k k''" by (rule same_conf_trans [OF c])
  next
    fix d assume d: "has_flag SYMBOL_VALID k d"
    show "has_flag SYMBOL_VALID k'' d" by (rule 2(1) [OF 1(1) [OF d]])
    show "curr (syms k'' d) = curr (syms k d)" if "d \<in> C" using 1(2) [OF d that] 2(2) [OF 1(1) [OF d] that] by simp
    show "same_sight k k'' d" if "d \<in> V" "\<forall>c. choice_of k d = Some c \<longrightarrow> has_flag SYMBOL_VALID k c"
    proof (rule 3)
      show "same_sight k k' d" by (rule 1(3) [OF d that(1)]) (simp add: that(2))
      show "same_sight k' k'' d"
        by (rule 2(3) [OF 1(1) [OF d] that(1)]) (simp add: same_conf_choice_of [OF c(1)] that(2) 1(1))
    qed
  qed
qed

lemma prompt_deps_fixed:
  "prompt_deps k s = (\<Union>p\<in>set (fixed_props k s). if p_text p \<noteq> None then dep_syms (p_visible p) else {})"
  by (auto simp: prompt_deps_def prompts_def fixed_props_def split: if_splits)

lemma value_deps_fixed:
  "value_deps k s =
     (\<Union>p\<in>set (fixed_props k s).
        if p_type p = P_DEFAULT then dep_syms (p_visible p) \<union> (if sym_is_choice k s then {} else dep_syms (p_expr p))
        else if p_type p = P_RANGE then dep_syms (p_visible p) \<union> (case range_syms p of None \<Rightarrow> {} | Some (a, b) \<Rightarrow> {a, b})
        else {})"
  unfolding value_deps_def fixed_props_def set_map by (simp only: image_image fixed_prop_simps)

lemma choice_members_fixed:
  "choice_members k c =
     (case first_prop P_CHOICE (fixed_props k c) of None \<Rightarrow> {} | Some p \<Rightarrow> set (list_syms (p_expr p))) \<union>
     {d. \<exists>p\<in>set (fixed_props k c). p_type p = P_DEFAULT \<and> prop_get_symbol p = Some d} \<union>
     {d. val (sym_def (syms k c) S_DEF_USER) = To d}"
  by (cases "find (\<lambda>p. p_type p = P_CHOICE) (props (syms k c))")
    (simp_all add: choice_members_def sym_get_choice_prop_def first_prop_def fixed_props_def find_map)

lemma deps_same:
  assumes "same_conf k k'"
  shows "prompt_deps k' s = prompt_deps k s" "rev_deps k' s = rev_deps k s" "value_deps k' s = value_deps k s"
    "choice_members k' s = choice_members k s" "deps k' s = deps k s"
proof -
  note q = same_conf_sym [OF assms]
  show 1: "prompt_deps k' s = prompt_deps k s" for s by (simp add: prompt_deps_fixed q)
  show 2: "rev_deps k' s = rev_deps k s" by (simp add: rev_deps_def q)
  show 3: "value_deps k' s = value_deps k s" by (simp add: value_deps_fixed q)
  show 4: "choice_members k' s = choice_members k s" by (simp add: choice_members_fixed q)
  show "deps k' s = deps k s" by (simp add: deps_def 1 2 3 4 q)
qed

lemma ball_fixed: "(\<And>p. Q (fixed_prop p) \<longleftrightarrow> Q p) \<Longrightarrow> (\<forall>p\<in>set (props (syms k s)). Q p) \<longleftrightarrow> (\<forall>p\<in>set (fixed_props k s). Q p)"
  by (simp add: fixed_props_def)

lemma choice_prop_fixed: "sym_get_choice_prop k s \<noteq> None \<longleftrightarrow> first_prop P_CHOICE (fixed_props k s) \<noteq> None"
  by (cases "find (\<lambda>p. p_type p = P_CHOICE) (props (syms k s))")
    (simp_all add: sym_get_choice_prop_def first_prop_def fixed_props_def find_map)

lemma sym_ok_same:
  assumes "sym_ok r k s" and c: "same_conf k k'"
    and 2: "is_constant s \<Longrightarrow> SYMBOL_VALID \<in> flags (syms k' s) \<and> chars (val (curr (syms k' s))) \<noteq> None"
  shows "sym_ok r k' s"
proof -
  note q = same_conf_sym [OF c] deps_same [OF c] same_conf_choice_of [OF c] choice_prop_fixed
  have 1: "(\<forall>p\<in>set (props (syms k' s)). Q p) \<longleftrightarrow> (\<forall>p\<in>set (props (syms k s)). Q p)"
    if "\<And>p. Q (fixed_prop p) \<longleftrightarrow> Q p" for Q
    using ball_fixed [of Q, OF that] by (simp add: q)
  have 3: "(\<forall>p\<in>set (props (syms k' s)).
       (p_type p = P_DEFAULT \<longrightarrow> (\<forall>d. prop_get_symbol p = Some d \<longrightarrow> \<not> sym_is_choice k d)) \<and>
       (p_type p = P_RANGE \<longrightarrow> (\<exists>a b. p_expr p = Some (Range a b) \<and> \<not> sym_is_choice k a \<and> \<not> sym_is_choice k b))) \<longleftrightarrow>
     (\<forall>p\<in>set (props (syms k s)).
       (p_type p = P_DEFAULT \<longrightarrow> (\<forall>d. prop_get_symbol p = Some d \<longrightarrow> \<not> sym_is_choice k d)) \<and>
       (p_type p = P_RANGE \<longrightarrow> (\<exists>a b. p_expr p = Some (Range a b) \<and> \<not> sym_is_choice k a \<and> \<not> sym_is_choice k b)))"
    by (rule 1) simp
  have 4: "(\<forall>p\<in>set (props (syms k' s)). p_type p = P_DEFAULT \<longrightarrow> prop_get_symbol p \<noteq> None) \<longleftrightarrow>
     (\<forall>p\<in>set (props (syms k s)). p_type p = P_DEFAULT \<longrightarrow> prop_get_symbol p \<noteq> None)"
    by (rule 1) simp
  have 5: "has_flag SYMBOL_CHOICE k' x = has_flag SYMBOL_CHOICE k x" "has_flag SYMBOL_CHOICEVAL k' x = has_flag SYMBOL_CHOICEVAL k x"
    "sym_has_value k' x = sym_has_value k x" for x by (simp_all add: q)
  show ?thesis using assms(1) 2 unfolding sym_ok_def 3 4 5 q by blast
qed

lemma sym_ok_keeps:
  assumes "sym_ok r k s" and "keeps_values C V k k'" and "is_constant s \<Longrightarrow> s \<in> C"
  shows "sym_ok r k' s"
  using assms by (intro sym_ok_same [OF assms(1)]) (simp_all add: sym_ok_def keeps_values_def has_flag_def)

lemma conf_ok_keeps:
  assumes "conf_ok r k" and "keeps_values C V k k'" and "\<And>s. is_constant s \<Longrightarrow> s \<in> C"
  shows "conf_ok r k'"
proof -
  have "modules_sym k' = modules_sym k" using assms(2) by (simp add: keeps_values_def same_conf_def)
  moreover have "SYMBOL_VALID \<in> flags (syms k' m)" if "SYMBOL_VALID \<in> flags (syms k m)" for m
    using assms(2) that by (simp add: keeps_values_def has_flag_def)
  ultimately show ?thesis
    using assms(1) sym_ok_keeps [OF _ assms(2,3)] unfolding conf_ok_def by (auto split: option.splits)
qed

section \<open>Steps of the calculation of one symbol\<close>

definition body :: "symbol \<Rightarrow> kconf \<Rightarrow> kconf \<Rightarrow> bool" where
  "body s k k' \<longleftrightarrow> keeps_values (- {s}) {d. d \<noteq> s \<and> choice_of k d \<noteq> Some s} k k'"

definition above :: "(symbol \<Rightarrow> nat) \<Rightarrow> symbol \<Rightarrow> kconf \<Rightarrow> kconf \<Rightarrow> bool" where
  "above r s k k' \<longleftrightarrow> keeps_values {d. d = s \<or> r d < r s} {d. d = s \<or> r d < r s} k k'"

definition below :: "(symbol \<Rightarrow> nat) \<Rightarrow> symbol \<Rightarrow> kconf \<Rightarrow> kconf \<Rightarrow> bool" where
  "below r s k k' \<longleftrightarrow> keeps_values {d. r d < r s} {d. r d < r s} k k'"

definition settled :: "(symbol \<Rightarrow> nat) \<Rightarrow> kconf \<Rightarrow> symbol \<Rightarrow> bool" where
  "settled r k s \<longleftrightarrow>
     has_flag SYMBOL_VALID k s \<and> (\<forall>c. choice_of k s = Some c \<longrightarrow> has_flag SYMBOL_VALID k c) \<and>
     (\<forall>k'. above r s k k' \<longrightarrow> fits k' s)"

definition good :: "(symbol \<Rightarrow> nat) \<Rightarrow> symbol \<Rightarrow> kconf \<Rightarrow> bool" where
  "good r s k \<longleftrightarrow>
     conf_ok r k \<and> \<not> is_constant s \<and> has_flag SYMBOL_VALID k s \<and>
     (\<forall>y. has_flag SYMBOL_VALID k y \<and> r y < r s \<longrightarrow> settled r k y)"

definition new_settled :: "(symbol \<Rightarrow> nat) \<Rightarrow> symbol \<Rightarrow> kconf \<Rightarrow> kconf \<Rightarrow> bool" where
  "new_settled r s k k' \<longleftrightarrow>
     (\<forall>y. has_flag SYMBOL_VALID k' y \<longrightarrow> has_flag SYMBOL_VALID k y \<or> r y < r s \<and> settled r k' y)"

definition step :: "(symbol \<Rightarrow> nat) \<Rightarrow> symbol \<Rightarrow> kconf \<Rightarrow> kconf \<Rightarrow> bool" where
  "step r s k k' \<longleftrightarrow> body s k k' \<and> new_settled r s k k'"

definition call :: "(symbol \<Rightarrow> nat) \<Rightarrow> symbol \<Rightarrow> kconf \<Rightarrow> kconf \<Rightarrow> bool" where
  "call r s k k' \<longleftrightarrow> keeps_values UNIV UNIV k k' \<and> new_settled r s k k'"

lemma choice_lower:
  assumes "conf_ok r k" and "choice_of k d = Some c"
  shows "r c < r d"
proof -
  have "sym_is_choice_value k d" using assms(2) by (auto simp: choice_of_def split: if_splits)
  moreover have "sym_ok r k d" using assms(1) by (simp add: conf_ok_def)
  ultimately show ?thesis using assms(2) unfolding sym_ok_def deps_def by auto
qed

lemma body_above:
  assumes "conf_ok r k" and "body s k k'" and "r y < r s"
  shows "above r y k k'"
  unfolding above_def
proof (rule keeps_values_mono [OF assms(2) [unfolded body_def]])
  show "{d. d = y \<or> r d < r y} \<subseteq> - {s}" using assms(3) by auto
  show "{d. d = y \<or> r d < r y} \<subseteq> {d. d \<noteq> s \<and> choice_of k d \<noteq> Some s}"
    using assms(3) choice_lower [OF assms(1), of _ s] by force
qed

lemma body_below:
  assumes "conf_ok r k" and "body s k k'"
  shows "below r s k k'"
  unfolding below_def
proof (rule keeps_values_mono [OF assms(2) [unfolded body_def]])
  show "{d. r d < r s} \<subseteq> - {s}" by auto
  show "{d. r d < r s} \<subseteq> {d. d \<noteq> s \<and> choice_of k d \<noteq> Some s}"
    using choice_lower [OF assms(1), of _ s] by force
qed

lemma above_below: "above r s k k' \<Longrightarrow> below r s k k'"
  unfolding above_def below_def by (erule keeps_values_mono) auto

lemma all_above: "keeps_values UNIV UNIV k k' \<Longrightarrow> above r s k k'"
  unfolding above_def by (erule keeps_values_mono) auto

lemma all_body: "keeps_values UNIV UNIV k k' \<Longrightarrow> body s k k'"
  unfolding body_def by (erule keeps_values_mono) auto

lemma body_conf: "body s k k' \<Longrightarrow> same_conf k k'"
  by (simp add: body_def keeps_values_def)

lemma body_trans:
  assumes "body s k k'" and "body s k' k''"
  shows "body s k k''"
proof -
  have "choice_of k' d = choice_of k d" for d by (rule same_conf_choice_of [OF body_conf [OF assms(1)]])
  then show ?thesis using assms unfolding body_def by (auto intro: keeps_values_trans)
qed

lemma above_trans: "above r s k k' \<Longrightarrow> above r s k' k'' \<Longrightarrow> above r s k k''"
  unfolding above_def by (rule keeps_values_trans)

lemma below_trans: "below r s k k' \<Longrightarrow> below r s k' k'' \<Longrightarrow> below r s k k''"
  unfolding below_def by (rule keeps_values_trans)

lemma refls [simp]: "body s k k" "above r s k k" "below r s k k" "step r s k k" "call r s k k"
  by (simp_all add: body_def above_def below_def step_def call_def new_settled_def)

lemma settled_above:
  assumes "settled r k y" and "above r y k k'"
  shows "settled r k' y"
proof -
  have "same_conf k k'" and v: "\<And>d. has_flag SYMBOL_VALID k d \<Longrightarrow> has_flag SYMBOL_VALID k' d"
    using assms(2) by (simp_all add: above_def keeps_values_def)
  from same_conf_choice_of [OF this(1), of y] show ?thesis
    using assms above_trans [OF assms(2)] v unfolding settled_def by auto
qed

lemma good_body:
  assumes "good r s k" and "body s k k'" and "new_settled r s k k'"
  shows "good r s k'"
proof -
  have ok: "conf_ok r k" using assms(1) by (simp add: good_def)
  have "s' \<noteq> s" if "is_constant s'" for s' using assms(1) that by (auto simp: good_def)
  then have "conf_ok r k'" using conf_ok_keeps [OF ok assms(2) [unfolded body_def]] by simp
  moreover have "settled r k' y" if "has_flag SYMBOL_VALID k' y" "r y < r s" for y
    using assms that settled_above [OF _ body_above [OF ok assms(2) that(2)]]
    unfolding good_def new_settled_def by blast
  moreover have "has_flag SYMBOL_VALID k' s"
    using assms(1,2) by (simp add: body_def keeps_values_def good_def)
  ultimately show ?thesis using assms(1) by (simp add: good_def)
qed

lemma good_step: "good r s k \<Longrightarrow> step r s k k' \<Longrightarrow> good r s k'"
  unfolding step_def using good_body by blast

lemma step_trans:
  assumes "good r s k" and "step r s k k'" and "step r s k' k''"
  shows "step r s k k''"
proof -
  have b: "body s k k'" "body s k' k''" using assms by (simp_all add: step_def)
  have "settled r k'' y" if "settled r k' y" "r y < r s" for y
    using settled_above [OF that(1) body_above [OF _ b(2) that(2)]] good_step [OF assms(1,2)] by (simp add: good_def)
  then show ?thesis using assms body_trans [OF b] unfolding step_def new_settled_def by blast
qed

lemma call_step: "call r s k k' \<Longrightarrow> step r s k k'"
  unfolding call_def step_def using all_body by blast

lemma call_trans:
  assumes "good r s k" and "call r s k k'" and "call r s k' k''"
  shows "call r s k k''"
  using assms step_trans [OF assms(1) call_step call_step, of k' k''] keeps_values_trans
  unfolding call_def step_def by blast

section \<open>Values that stay\<close>

lemma view_same:
  assumes "keeps_values C V k k'" and "d \<in> C" and "has_flag SYMBOL_VALID k d"
  shows "tri (view k') d = tri (view k) d" "str (view k') d = str (view k) d" "raw_chars k' d = raw_chars k d"
    "chars (sym_get_string_value k' d) = chars (sym_get_string_value k d)"
  using assms same_conf_sym(2) [of k k' d]
  by (simp_all add: keeps_values_def view_def raw_chars_def sym_get_string_value_def sym_get_tristate_value_def)

lemma calc_same:
  assumes "keeps_values C V k k'" and "expr_syms e \<subseteq> C" and "\<forall>d\<in>expr_syms e. has_flag SYMBOL_VALID k d"
  shows "expr_calc (view k') e = expr_calc (view k) e"
  using assms(2,3) by (induction e) (auto simp: view_same [OF assms(1)])

lemma calc_value_same:
  assumes "keeps_values C V k k'" and "dep_syms e \<subseteq> C" and "\<forall>d\<in>dep_syms e. has_flag SYMBOL_VALID k d"
  shows "expr_calc_value (view k') e = expr_calc_value (view k) e"
  using calc_same [OF assms(1)] assms(2,3) by (cases e) (simp_all add: dep_syms_def expr_calc_value_def)

text \<open>A symbol that may be read: its string value is a string.\<close>

lemma settled_fits: "settled r k y \<Longrightarrow> fits k y"
  by (simp add: settled_def)

lemma readable:
  assumes "good r s k" and "d \<in> deps k x" and "sym_ok r k x" and "d = s \<longrightarrow> sym_type (syms k s) \<in> {S_BOOLEAN, S_TRISTATE}"
    and "d \<noteq> s \<longrightarrow> has_flag SYMBOL_VALID k d \<and> r d < r s"
  shows "chars (sym_get_string_value k d) \<noteq> None"
proof (cases "sym_type (syms k d) \<in> {S_BOOLEAN, S_TRISTATE}")
  case True
  then show ?thesis by (auto simp: sym_get_string_value_def tri_chars_def chars_def)
next
  case False
  then have f: "fits k d" "sym_ok r k d" using assms(1,4,5) settled_fits by (auto simp: good_def conf_ok_def)
  moreover have "sym_type (syms k d) \<in> five_types \<or> sym_name (syms k d) \<noteq> None"
    using assms(2,3) by (auto simp: sym_ok_def)
  moreover have "\<not> sym_is_choice k d" if "sym_type (syms k d) \<in> five_types"
    using f(2) False that by (auto simp: sym_ok_def five_types_def)
  ultimately show ?thesis using False
    by (auto simp: fits_def sym_get_string_value_def name_pointer_def chars_def split: if_splits)
qed

section \<open>The functions that call \<open>sym_calc_value\<close>\<close>

text \<open>What they rely on while the value of \<open>s\<close> is calculated: a symbol with a smaller number can be calculated, and
  \<open>s\<close> itself is marked as valid, so that a call for it returns at once.\<close>

locale callee =
  fixes cv :: calc and r :: "symbol \<Rightarrow> nat" and s :: symbol
  assumes call: "good r s k \<Longrightarrow> r x < r s \<Longrightarrow> \<exists>k'. cv x k = Some k' \<and> call r s k k' \<and> has_flag SYMBOL_VALID k' x"
    and self: "has_flag SYMBOL_VALID k s \<Longrightarrow> cv s k = Some k"
begin

definition reads :: "kconf \<Rightarrow> symbol set \<Rightarrow> bool" where
  "reads k D \<longleftrightarrow>
     (\<forall>d\<in>D. (d = s \<longrightarrow> sym_type (syms k s) \<in> {S_BOOLEAN, S_TRISTATE}) \<and> (d \<noteq> s \<longrightarrow> r d < r s) \<and>
        (\<exists>x. d \<in> deps k x))"

lemma call_own:
  assumes "good r s k" and "d = s \<or> r d < r s"
  shows "\<exists>k'. cv d k = Some k' \<and> call r s k k' \<and> has_flag SYMBOL_VALID k' d"
  using assms call [OF assms(1)] self [of k] by (auto simp: good_def)

lemma good_call: "good r s k \<Longrightarrow> call r s k k' \<Longrightarrow> good r s k'"
  using good_step call_step by blast

lemma call_valid: "call r s k k' \<Longrightarrow> has_flag SYMBOL_VALID k d \<Longrightarrow> has_flag SYMBOL_VALID k' d"
  by (simp add: call_def keeps_values_def)

lemma reads_call: "reads k D \<Longrightarrow> call r s k k' \<Longrightarrow> reads k' D"
  using deps_same(5) [of k k'] same_conf_sym(2) [of k k'] by (simp add: reads_def call_def keeps_values_def)

lemma call_calc:
  "call r s k k' \<Longrightarrow> \<forall>d\<in>expr_syms e. has_flag SYMBOL_VALID k d \<Longrightarrow> expr_calc (view k') e = expr_calc (view k) e"
  unfolding call_def using calc_same [of UNIV UNIV k k' e] by simp

lemma same_chars_ok:
  assumes "good r s k" and "reads k {a, b}" and "has_flag SYMBOL_VALID k a" and "has_flag SYMBOL_VALID k b"
  shows "same_chars k a b = Some (str (view k) a = str (view k) b)"
proof -
  have "chars (sym_get_string_value k d) \<noteq> None" if "d \<in> {a, b}" for d
  proof -
    have q: "d = s \<longrightarrow> sym_type (syms k s) \<in> {S_BOOLEAN, S_TRISTATE}" "d \<noteq> s \<longrightarrow> r d < r s" "\<exists>x. d \<in> deps k x"
      using bspec [OF assms(2) [unfolded reads_def] that] by simp_all
    from q(3) obtain x where x: "d \<in> deps k x" by blast
    have "sym_ok r k x" using assms(1) by (simp add: good_def conf_ok_def)
    moreover have "has_flag SYMBOL_VALID k d" using that assms(3,4) by blast
    ultimately show ?thesis using readable [OF assms(1) x _ q(1)] q(2) by blast
  qed
  then have "chars (sym_get_string_value k a) \<noteq> None" "chars (sym_get_string_value k b) \<noteq> None" by blast+
  then show ?thesis by (auto simp: same_chars_def view_def)
qed

lemma calc_expr_ok:
  assumes "good r s k" and "reads k (expr_syms e)"
  shows "\<exists>v k'. calc_expr cv e k = Some (v, k') \<and> call r s k k' \<and> (\<forall>d\<in>expr_syms e. has_flag SYMBOL_VALID k' d) \<and>
    v = expr_calc (view k') e"
  using assms
proof (induction e arbitrary: k)
  case (Sym d)
  then show ?case using call_own [of k d] by (auto simp: reads_def view_def)
next
  case (Not e)
  then show ?case by fastforce
next
  case (Equal a b)
  then obtain k1 where k1: "cv a k = Some k1" "call r s k k1" "has_flag SYMBOL_VALID k1 a"
    using call_own [of k a] by (auto simp: reads_def)
  have g1: "good r s k1" "reads k1 {a, b}" using good_call reads_call Equal k1 by auto
  then obtain k2 where k2: "cv b k1 = Some k2" "call r s k1 k2" "has_flag SYMBOL_VALID k2 b"
    using call_own [of k1 b] by (auto simp: reads_def)
  have g2: "good r s k2" "reads k2 {a, b}" "has_flag SYMBOL_VALID k2 a"
    using good_call reads_call call_valid g1 k1 k2 by auto
  show ?case using k1 k2 same_chars_ok [OF g2 k2(3)] call_trans [OF Equal.prems(1) k1(2) k2(2)] g2 by simp
next
  case (Unequal a b)
  then obtain k1 where k1: "cv a k = Some k1" "call r s k k1" "has_flag SYMBOL_VALID k1 a"
    using call_own [of k a] by (auto simp: reads_def)
  have g1: "good r s k1" "reads k1 {a, b}" using good_call reads_call Unequal k1 by auto
  then obtain k2 where k2: "cv b k1 = Some k2" "call r s k1 k2" "has_flag SYMBOL_VALID k2 b"
    using call_own [of k1 b] by (auto simp: reads_def)
  have g2: "good r s k2" "reads k2 {a, b}" "has_flag SYMBOL_VALID k2 a"
    using good_call reads_call call_valid g1 k1 k2 by auto
  show ?case using k1 k2 same_chars_ok [OF g2 k2(3)] call_trans [OF Unequal.prems(1) k1(2) k2(2)] g2 by simp
next
  case (And a b)
  have ra: "reads k (expr_syms a)" "reads k (expr_syms b)" using And.prems(2) by (auto simp: reads_def)
  from And.IH(1) [OF And.prems(1) ra(1)] obtain x k1 where
    a: "calc_expr cv a k = Some (x, k1)" "call r s k k1" "\<forall>d\<in>expr_syms a. has_flag SYMBOL_VALID k1 d" "x = expr_calc (view k1) a"
    by blast
  from And.IH(2) [OF good_call [OF And.prems(1) a(2)] reads_call [OF ra(2) a(2)]] obtain y k2 where
    b: "calc_expr cv b k1 = Some (y, k2)" "call r s k1 k2" "\<forall>d\<in>expr_syms b. has_flag SYMBOL_VALID k2 d" "y = expr_calc (view k2) b"
    by blast
  show ?case using a b call_trans [OF And.prems(1) a(2) b(2)] call_valid [OF b(2)] call_calc [OF b(2) a(3)] by auto
next
  case (Or a b)
  have ra: "reads k (expr_syms a)" "reads k (expr_syms b)" using Or.prems(2) by (auto simp: reads_def)
  from Or.IH(1) [OF Or.prems(1) ra(1)] obtain x k1 where
    a: "calc_expr cv a k = Some (x, k1)" "call r s k k1" "\<forall>d\<in>expr_syms a. has_flag SYMBOL_VALID k1 d" "x = expr_calc (view k1) a"
    by blast
  from Or.IH(2) [OF good_call [OF Or.prems(1) a(2)] reads_call [OF ra(2) a(2)]] obtain y k2 where
    b: "calc_expr cv b k1 = Some (y, k2)" "call r s k1 k2" "\<forall>d\<in>expr_syms b. has_flag SYMBOL_VALID k2 d" "y = expr_calc (view k2) b"
    by blast
  show ?case using a b call_trans [OF Or.prems(1) a(2) b(2)] call_valid [OF b(2)] call_calc [OF b(2) a(3)] by auto
next
  case (List l d)
  then show ?case by simp
next
  case (Range a b)
  then show ?case by simp
qed

end

section \<open>Updates\<close>

text \<open>A step that keeps all values too, and one that changes nothing of them at all.\<close>

definition see :: "(symbol \<Rightarrow> nat) \<Rightarrow> symbol \<Rightarrow> kconf \<Rightarrow> kconf \<Rightarrow> bool" where
  "see r s k k' \<longleftrightarrow> keeps_values UNIV {d. d \<noteq> s \<and> choice_of k d \<noteq> Some s} k k' \<and> new_settled r s k k'"

definition quiet :: "kconf \<Rightarrow> kconf \<Rightarrow> bool" where
  "quiet k k' \<longleftrightarrow>
     same_conf k k' \<and>
     (\<forall>d. has_flag SYMBOL_VALID k' d = has_flag SYMBOL_VALID k d \<and> curr (syms k' d) = curr (syms k d) \<and> same_sight k k' d)"

lemma see_step: "see r s k k' \<Longrightarrow> step r s k k'"
  unfolding see_def step_def body_def by (auto elim: keeps_values_mono)

lemma call_see: "call r s k k' \<Longrightarrow> see r s k k'"
  unfolding see_def call_def by (auto elim: keeps_values_mono)

lemma same_valid_settled: "(\<And>d. has_flag SYMBOL_VALID k' d = has_flag SYMBOL_VALID k d) \<Longrightarrow> new_settled r s k k'"
  by (simp add: new_settled_def)

lemma quiet_call: "quiet k k' \<Longrightarrow> call r s k k'"
  unfolding quiet_def call_def keeps_values_def by (auto intro: same_valid_settled)

lemma quiet_refl [simp]: "quiet k k"
  by (simp add: quiet_def same_sight_def)

lemma quiet_trans: "quiet k k' \<Longrightarrow> quiet k' k'' \<Longrightarrow> quiet k k''"
  unfolding quiet_def same_sight_def by (auto intro: same_conf_trans)

lemma see_trans:
  assumes "good r s k" and "see r s k k'" and "see r s k' k''"
  shows "see r s k k''"
proof -
  have "choice_of k' d = choice_of k d" for d
    using assms(2) by (auto simp: see_def keeps_values_def intro: same_conf_choice_of)
  then have "keeps_values UNIV {d. d \<noteq> s \<and> choice_of k d \<noteq> Some s} k k''"
    using assms(2,3) keeps_values_trans unfolding see_def by auto
  then show ?thesis using step_trans [OF assms(1) see_step see_step] assms(2,3) by (simp add: see_def step_def)
qed

lemma see_refl [simp]: "see r s k k"
  by (simp add: see_def new_settled_def)

lemma see_valid: "see r s k k' \<Longrightarrow> has_flag SYMBOL_VALID k d \<Longrightarrow> has_flag SYMBOL_VALID k' d"
  by (simp add: see_def keeps_values_def)

lemma see_good: "good r s k \<Longrightarrow> see r s k k' \<Longrightarrow> good r s k'"
  using good_step see_step by blast

lemma see_conf: "see r s k k' \<Longrightarrow> same_conf k k'"
  by (simp add: see_def keeps_values_def)

lemma see_calc:
  "see r s k k' \<Longrightarrow> \<forall>d\<in>dep_syms e. has_flag SYMBOL_VALID k d \<Longrightarrow> expr_calc_value (view k') e = expr_calc_value (view k) e"
  unfolding see_def using calc_value_same [of UNIV _ k k' e] by blast

lemma syms_upd [simp]: "syms (upd_sym x f k) d = (if d = x then f (syms k x) else syms k d)"
  by (simp add: upd_sym_def)

lemma parts_upd [simp]:
  "symbol_hash (upd_sym x f k) = symbol_hash k" "modules_sym (upd_sym x f k) = modules_sym k"
  "modules_val (upd_sym x f k) = modules_val k"
  by (simp_all add: upd_sym_def)

lemma same_conf_upd: "fixed (f (syms k x)) = fixed (syms k x) \<Longrightarrow> same_conf k (upd_sym x f k)"
  by (simp add: same_conf_def)

text \<open>Storing the value of \<open>s\<close>, or the sight of \<open>s\<close> or of one of its choice values.\<close>

lemma step_own:
  assumes "fixed (f (syms k s)) = fixed (syms k s)" and "SYMBOL_VALID \<in> flags (f (syms k s)) \<longleftrightarrow> SYMBOL_VALID \<in> flags (syms k s)"
  shows "step r s k (upd_sym s f k)"
proof -
  have v: "has_flag SYMBOL_VALID (upd_sym s f k) d = has_flag SYMBOL_VALID k d" for d
    using assms(2) by (simp add: has_flag_def)
  have "body s k (upd_sym s f k)"
    unfolding body_def keeps_values_def using same_conf_upd [of f k s, OF assms(1)] v by (simp add: same_sight_def)
  then show ?thesis using same_valid_settled [OF v] by (simp add: step_def)
qed

lemma see_mine:
  assumes "x = s \<or> choice_of k x = Some s" and "fixed (f (syms k x)) = fixed (syms k x)"
    and "SYMBOL_VALID \<in> flags (f (syms k x)) \<longleftrightarrow> SYMBOL_VALID \<in> flags (syms k x)" and "curr (f (syms k x)) = curr (syms k x)"
  shows "see r s k (upd_sym x f k)"
proof -
  have v: "has_flag SYMBOL_VALID (upd_sym x f k) d = has_flag SYMBOL_VALID k d" for d
    using assms(3) by (simp add: has_flag_def)
  have "keeps_values UNIV {d. d \<noteq> s \<and> choice_of k d \<noteq> Some s} k (upd_sym x f k)"
    unfolding keeps_values_def using same_conf_upd [of f k x, OF assms(2)] v assms(1,4) by (auto simp: same_sight_def)
  then show ?thesis using same_valid_settled [OF v] by (simp add: see_def)
qed

lemma quiet_flags:
  assumes "\<And>x. f x = x\<lparr>flags := g (flags x)\<rparr>"
    and "\<And>F fl. fl \<notin> {SYMBOL_WRITE, SYMBOL_CHANGED} \<Longrightarrow> fl \<in> g F \<longleftrightarrow> fl \<in> F"
  shows "quiet k (upd_sym x f k)"
proof -
  have "g F - {SYMBOL_VALID, SYMBOL_WRITE, SYMBOL_CHANGED} = F - {SYMBOL_VALID, SYMBOL_WRITE, SYMBOL_CHANGED}" for F
    using assms(2) by blast
  then have "fixed (f y) = fixed y" for y
    by (simp add: assms(1) fixed_def)
  then show ?thesis using assms(2)
    by (auto simp: quiet_def same_sight_def same_conf_upd has_flag_def assms(1))
qed

lemma quiet_set_flag: "fl \<in> {SYMBOL_WRITE, SYMBOL_CHANGED} \<Longrightarrow> quiet k (set_flag fl x k)"
  unfolding set_flag_def by (rule quiet_flags [where g = "insert fl"]) auto

lemma quiet_clear_flag: "fl \<in> {SYMBOL_WRITE, SYMBOL_CHANGED} \<Longrightarrow> quiet k (clear_flag fl x k)"
  unfolding clear_flag_def by (rule quiet_flags [where g = "\<lambda>F. F - {fl}"]) auto

lemma quiet_menus: "quiet k (k\<lparr>changed_menus := m\<rparr>)"
  by (simp add: quiet_def same_conf_def same_sight_def has_flag_def)

lemma quiet_changed: "quiet k (sym_set_changed x k)"
  unfolding sym_set_changed_def by (rule quiet_trans [OF quiet_menus quiet_set_flag]) simp

lemma quiet_pass: "fl \<subseteq> {SYMBOL_WRITE, SYMBOL_CHANGED} \<Longrightarrow> quiet k (pass_flags fl d k)"
proof -
  assume fl: "fl \<subseteq> {SYMBOL_WRITE, SYMBOL_CHANGED}"
  have "quiet k (upd_sym d (\<lambda>x. x\<lparr>flags := flags x \<union> fl\<rparr>) k)"
    by (rule quiet_flags [where g = "\<lambda>F. F \<union> fl"]) (use fl in auto)
  then show ?thesis unfolding pass_flags_def Let_def using quiet_trans [OF _ quiet_changed] by simp
qed

lemma quiet_fold: "(\<And>x k. quiet k (f x k)) \<Longrightarrow> quiet k (fold f xs k)"
  by (induction xs arbitrary: k) (auto intro: quiet_trans)

text \<open>The sight of \<open>s\<close> itself stays, as long as its choice is valid.\<close>

definition own_sight :: "symbol \<Rightarrow> kconf \<Rightarrow> kconf \<Rightarrow> bool" where
  "own_sight s k k' \<longleftrightarrow>
     ((\<forall>c. choice_of k s = Some c \<longrightarrow> has_flag SYMBOL_VALID k c) \<longrightarrow>
        visible (syms k' s) = visible (syms k s) \<and> rev_tri (syms k' s) = rev_tri (syms k s))"

lemma own_sight_refl [simp]: "own_sight s k k"
  by (simp add: own_sight_def)

lemma own_sight_call: "good r s k \<Longrightarrow> call r s k k' \<Longrightarrow> own_sight s k k'"
  by (auto simp: own_sight_def good_def call_def keeps_values_def same_sight_def)

lemma own_sight_trans:
  assumes "see r s k k'" and "own_sight s k k'" and "own_sight s k' k''"
  shows "own_sight s k k''"
  using assms same_conf_choice_of [OF see_conf [OF assms(1)]] see_valid [OF assms(1)]
  unfolding own_sight_def by auto

section \<open>Conditions of properties\<close>

lemma fixed_props_nth: "i < length (props (syms k x)) \<Longrightarrow> fixed_props k x ! i = fixed_prop (prop_at k x i)"
  by (simp add: fixed_props_def prop_at_def)

lemma length_fixed_props [simp]: "length (fixed_props k x) = length (props (syms k x))"
  by (simp add: fixed_props_def)

lemma prop_at_same:
  assumes "same_conf k k'" and "i < length (props (syms k x))"
  shows "fixed_prop (prop_at k' x i) = fixed_prop (prop_at k x i)" "length (props (syms k' x)) = length (props (syms k x))"
proof -
  have q: "fixed_props k' x = fixed_props k x" using same_conf_sym(5) [OF assms(1)] .
  then show l: "length (props (syms k' x)) = length (props (syms k x))" by (metis length_fixed_props)
  show "fixed_prop (prop_at k' x i) = fixed_prop (prop_at k x i)"
    using q fixed_props_nth [of i k x] fixed_props_nth [of i k' x] assms(2) l by simp
qed

lemma prop_at_parts:
  assumes "same_conf k k'" and "i < length (props (syms k x))"
  shows "p_type (prop_at k' x i) = p_type (prop_at k x i)" "p_text (prop_at k' x i) = p_text (prop_at k x i)"
    "p_visible (prop_at k' x i) = p_visible (prop_at k x i)" "p_expr (prop_at k' x i) = p_expr (prop_at k x i)"
    "prop_get_symbol (prop_at k' x i) = prop_get_symbol (prop_at k x i)"
    "range_syms (prop_at k' x i) = range_syms (prop_at k x i)"
  using prop_at_same(1) [OF assms] by (metis fixed_prop_simps)+

lemma fixed_tri:
  "fixed (x\<lparr>props := (props x)[i := (props x ! i)\<lparr>p_tri := t\<rparr>]\<rparr>) = fixed x"
proof -
  have "map fixed_prop ((props x)[i := (props x ! i)\<lparr>p_tri := t\<rparr>]) = (map fixed_prop (props x))[i := fixed_prop (props x ! i)]"
    by (simp add: map_update fixed_prop_def)
  also have "\<dots> = map fixed_prop (props x)" by (metis list_update_id list_update_beyond map_update not_le)
  finally show ?thesis by (simp add: fixed_def)
qed

context callee
begin

lemma calc_dep_ok:
  assumes "good r s k" and "reads k (dep_syms e)"
  shows "\<exists>v k'. calc_dep cv e k = Some (v, k') \<and> call r s k k' \<and> (\<forall>d\<in>dep_syms e. has_flag SYMBOL_VALID k' d) \<and>
    v = expr_calc_value (view k') e"
  using calc_expr_ok [OF assms(1)] assms(2)
  by (cases e) (auto simp: calc_dep_def dep_syms_def expr_calc_value_def)

lemma reads_same: "reads k D \<Longrightarrow> same_conf k k' \<Longrightarrow> reads k' D"
  using deps_same(5) [of k k'] same_conf_sym(2) [of k k'] by (simp add: reads_def)

lemma reads_mono: "reads k D \<Longrightarrow> E \<subseteq> D \<Longrightarrow> reads k E"
  by (auto simp: reads_def)

lemma eval_prop_ok:
  assumes "good r s k" and "reads k (dep_syms (p_visible (prop_at k x i)))" and "x = s \<or> choice_of k x = Some s"
    and "i < length (props (syms k x))"
  shows "\<exists>t k'. eval_prop cv x i k = Some (t, k') \<and> see r s k k' \<and>
    (\<forall>d\<in>dep_syms (p_visible (prop_at k x i)). has_flag SYMBOL_VALID k' d) \<and>
    t = condition k' (prop_at k x i) \<and> p_tri (prop_at k' x i) = t \<and> own_sight s k k'"
proof -
  let ?e = "p_visible (prop_at k x i)"
  obtain t k1 where c: "calc_dep cv ?e k = Some (t, k1)" "call r s k k1" "\<forall>d\<in>dep_syms ?e. has_flag SYMBOL_VALID k1 d"
    "t = expr_calc_value (view k1) ?e" using calc_dep_ok [OF assms(1,2)] by blast
  let ?k = "upd_sym x (\<lambda>y. y\<lparr>props := (props y)[i := (props y ! i)\<lparr>p_tri := t\<rparr>]\<rparr>) k1"
  have s1: "same_conf k k1" using c(2) by (simp add: call_def keeps_values_def)
  have x: "x = s \<or> choice_of k1 x = Some s" using assms(3) same_conf_choice_of [OF s1] by simp
  have u: "see r s k1 ?k" using x by (intro see_mine fixed_tri) simp_all
  have "see r s k ?k" by (rule see_trans [OF assms(1) call_see [OF c(2)] u])
  moreover have "\<forall>d\<in>dep_syms ?e. has_flag SYMBOL_VALID ?k d" using c(3) see_valid [OF u] by blast
  moreover have "t = condition ?k (prop_at k x i)" using c(3,4) see_calc [OF u] by (simp add: condition_def)
  moreover have "i < length (props (syms k1 x))" using prop_at_same(2) [OF s1 assms(4)] assms(4) by simp
  then have "p_tri (prop_at ?k x i) = t" by (simp add: prop_at_def)
  moreover have "own_sight s k ?k"
    using own_sight_call [OF assms(1) c(2)] by (auto simp: own_sight_def)
  ultimately show ?thesis using c(1) by (simp add: eval_prop_def)
qed

definition text_syms :: "kconf \<Rightarrow> symbol \<Rightarrow> nat \<Rightarrow> symbol set" where
  "text_syms k x i = (if p_text (prop_at k x i) = None then {} else dep_syms (p_visible (prop_at k x i)))"

lemma prompts_visible_ok:
  assumes "good r s k" and "x = s \<or> choice_of k x = Some s" and "\<forall>i\<in>set is. i < length (props (syms k x))"
    and "reads k (\<Union> (text_syms k x ` set is))"
  shows "\<exists>t' k'. prompts_visible cv x is t k = Some (t', k') \<and> see r s k k' \<and> own_sight s k k' \<and>
    (\<forall>d\<in>\<Union> (text_syms k x ` set is). has_flag SYMBOL_VALID k' d) \<and>
    t' = fold (\<lambda>i t. if p_text (prop_at k x i) = None then t else EXPR_OR t (condition k' (prop_at k x i))) is t"
  using assms
proof (induction "is" arbitrary: k t)
  case Nil
  then show ?case by simp
next
  case (Cons i "is")
  have i: "i < length (props (syms k x))" and rest: "\<forall>i\<in>set is. i < length (props (syms k x))" using Cons.prems(3) by simp_all
  show ?case
  proof (cases "p_text (prop_at k x i) = None")
    case True
    moreover have "reads k (\<Union> (text_syms k x ` set is))" by (rule reads_mono [OF Cons.prems(4)]) auto
    ultimately show ?thesis using Cons.IH [OF Cons.prems(1,2) rest, of t] by (simp add: text_syms_def [of k x i])
  next
    case False
    then have ti: "text_syms k x i = dep_syms (p_visible (prop_at k x i))" by (auto simp: text_syms_def)
    have "reads k (dep_syms (p_visible (prop_at k x i)))" by (rule reads_mono [OF Cons.prems(4)]) (simp add: ti)
    from eval_prop_ok [OF Cons.prems(1) this Cons.prems(2) i] obtain u k1 where
      e: "eval_prop cv x i k = Some (u, k1)" "see r s k k1" "\<forall>d\<in>text_syms k x i. has_flag SYMBOL_VALID k1 d"
      "u = condition k1 (prop_at k x i)" "own_sight s k k1" unfolding ti by blast
    note sc = see_conf [OF e(2)]
    have same: "p_text (prop_at k1 x j) = p_text (prop_at k x j)" "p_visible (prop_at k1 x j) = p_visible (prop_at k x j)"
      if "j \<in> set is" for j using prop_at_parts [OF sc] rest that by simp_all
    then have ts: "text_syms k1 x j = text_syms k x j" if "j \<in> set is" for j using that by (simp add: text_syms_def)
    have x1: "x = s \<or> choice_of k1 x = Some s" using Cons.prems(2) same_conf_choice_of [OF sc] by simp
    have r1: "\<forall>i\<in>set is. i < length (props (syms k1 x))" using rest prop_at_same(2) [OF sc i] by simp
    have "\<Union> (text_syms k1 x ` set is) = \<Union> (text_syms k x ` set is)" using ts by simp
    then have rd: "reads k1 (\<Union> (text_syms k1 x ` set is))"
      using reads_mono [OF reads_same [OF Cons.prems(4) sc], of "\<Union> (text_syms k x ` set is)"] by auto
    obtain t' k2 where f: "prompts_visible cv x is (EXPR_OR t u) k1 = Some (t', k2)" "see r s k1 k2" "own_sight s k1 k2"
      "\<forall>d\<in>\<Union> (text_syms k1 x ` set is). has_flag SYMBOL_VALID k2 d"
      "t' = fold (\<lambda>i t. if p_text (prop_at k1 x i) = None then t else EXPR_OR t (condition k2 (prop_at k1 x i))) is (EXPR_OR t u)"
      using Cons.IH [OF see_good [OF Cons.prems(1) e(2)] x1 r1 rd, of "EXPR_OR t u"] by blast
    have cond: "condition k2 (prop_at k1 x j) = condition k2 (prop_at k x j)" if "j \<in> set is" for j
      using same that by (simp add: condition_def)
    have t': "t' = fold (\<lambda>i t. if p_text (prop_at k x i) = None then t else EXPR_OR t (condition k2 (prop_at k x i))) is (EXPR_OR t u)"
      unfolding f(5) by (rule fold_cong) (simp_all add: same cond cong: if_cong)
    have "condition k2 (prop_at k x i) = u" using see_calc [OF f(2), of "p_visible (prop_at k x i)"] e(3,4) ti
      by (simp add: condition_def)
    then show ?thesis using e f(1,2,4) t' False own_sight_trans [OF e(2,5) f(3)] see_trans [OF Cons.prems(1) e(2) f(2)] see_valid [OF f(2)] ts
      by (auto simp: Let_def)
  qed
qed

end

lemma good_deps: "good r s k \<Longrightarrow> d \<in> deps k s \<Longrightarrow> r d < r s"
  by (simp add: good_def conf_ok_def sym_ok_def)

lemma good_ok: "good r s k \<Longrightarrow> conf_ok r k \<and> sym_ok r k x"
  by (simp add: good_def conf_ok_def)

lemma see_below: "good r s k \<Longrightarrow> see r s k k' \<Longrightarrow> below r s k k'"
  using body_below good_ok see_step unfolding step_def by blast

lemma step_below: "good r s k \<Longrightarrow> step r s k k' \<Longrightarrow> below r s k k'"
  using body_below good_ok unfolding step_def by blast

text \<open>Expressions over the dependencies of \<open>s\<close> have their final value once these are valid.\<close>

lemma below_calc:
  assumes "good r s k" and "below r s k k'" and "dep_syms e \<subseteq> deps k s" and "\<forall>d\<in>dep_syms e. has_flag SYMBOL_VALID k d"
  shows "expr_calc_value (view k') e = expr_calc_value (view k) e"
  using assms good_deps [OF assms(1)] by (intro calc_value_same [OF assms(2) [unfolded below_def]]) auto

lemma below_condition:
  "good r s k \<Longrightarrow> below r s k k' \<Longrightarrow> dep_syms (p_visible p) \<subseteq> deps k s \<Longrightarrow>
   \<forall>d\<in>dep_syms (p_visible p). has_flag SYMBOL_VALID k d \<Longrightarrow> condition k' p = condition k p"
  unfolding condition_def by (rule below_calc)

context callee
begin

lemma reads_deps: "good r s k \<Longrightarrow> D \<subseteq> deps k s \<Longrightarrow> reads k D"
  using good_deps unfolding reads_def by blast

lemma visible_prop_ok:
  assumes "good r s k" and "\<forall>i\<in>set is. i < length (props (syms k s))"
    and "\<forall>i\<in>set is. p_type (prop_at k s i) = ty \<longrightarrow> dep_syms (p_visible (prop_at k s i)) \<subseteq> deps k s"
  shows "\<exists>res k'. visible_prop cv ty s is k = Some (res, k') \<and> see r s k k' \<and> own_sight s k k' \<and>
    (\<forall>k''. below r s k' k'' \<longrightarrow>
       find (\<lambda>i. p_type (prop_at k s i) = ty \<and> condition k'' (prop_at k s i) \<noteq> no) is = res) \<and>
    (\<forall>i. res = Some i \<longrightarrow> i \<in> set is \<and> p_type (prop_at k s i) = ty \<and>
       p_tri (prop_at k' s i) = condition k' (prop_at k s i) \<and>
       (\<forall>d\<in>dep_syms (p_visible (prop_at k s i)). has_flag SYMBOL_VALID k' d))"
  using assms
proof (induction "is" arbitrary: k)
  case Nil
  then show ?case by simp
next
  case (Cons i "is")
  have i: "i < length (props (syms k s))" and rest: "\<forall>i\<in>set is. i < length (props (syms k s))"
    "\<forall>i\<in>set is. p_type (prop_at k s i) = ty \<longrightarrow> dep_syms (p_visible (prop_at k s i)) \<subseteq> deps k s"
    using Cons.prems(2,3) by simp_all
  show ?case
  proof (cases "p_type (prop_at k s i) = ty")
    case False
    then show ?thesis using Cons.IH [OF Cons.prems(1) rest] by auto
  next
    case True
    let ?p = "prop_at k s i"
    have D: "dep_syms (p_visible ?p) \<subseteq> deps k s" using Cons.prems(3) True by simp
    obtain t k1 where e: "eval_prop cv s i k = Some (t, k1)" "see r s k k1"
      "\<forall>d\<in>dep_syms (p_visible ?p). has_flag SYMBOL_VALID k1 d" "t = condition k1 ?p" "p_tri (prop_at k1 s i) = t" "own_sight s k k1"
      using eval_prop_ok [OF Cons.prems(1) reads_deps [OF Cons.prems(1) D] _ i] by blast
    note sc = see_conf [OF e(2)] and g1 = see_good [OF Cons.prems(1) e(2)]
    have D1: "deps k1 s = deps k s" by (rule deps_same(5) [OF sc])
    have c: "condition k'' ?p = t" if "below r s k1 k''" for k''
      using below_condition [OF g1 that _ e(3)] D D1 e(4) by simp
    show ?thesis
    proof (cases "t = no")
      case False
      have "visible_prop cv ty s (i # is) k = Some (Some i, k1)" using e(1) False True by simp
      then show ?thesis using e(2,3,5,6) True False c by (intro exI [of _ "Some i"] exI [of _ k1]) simp
    next
      case True
      have same: "p_type (prop_at k1 s j) = p_type (prop_at k s j)" "p_visible (prop_at k1 s j) = p_visible (prop_at k s j)"
        "condition k'' (prop_at k1 s j) = condition k'' (prop_at k s j)"
        if "j \<in> set is" for j k'' using prop_at_parts [OF sc] rest(1) that by (simp_all add: condition_def)
      have l: "length (props (syms k1 s)) = length (props (syms k s))" by (rule prop_at_same(2) [OF sc i])
      have rest1: "\<forall>i\<in>set is. i < length (props (syms k1 s))"
        "\<forall>i\<in>set is. p_type (prop_at k1 s i) = ty \<longrightarrow> dep_syms (p_visible (prop_at k1 s i)) \<subseteq> deps k1 s"
        using rest by (simp_all add: same l D1)
      obtain res k2 where f: "visible_prop cv ty s is k1 = Some (res, k2)" "see r s k1 k2" "own_sight s k1 k2"
        "\<forall>k''. below r s k2 k'' \<longrightarrow>
           find (\<lambda>i. p_type (prop_at k1 s i) = ty \<and> condition k'' (prop_at k1 s i) \<noteq> no) is = res"
        "\<forall>i. res = Some i \<longrightarrow> i \<in> set is \<and> p_type (prop_at k1 s i) = ty \<and>
           p_tri (prop_at k2 s i) = condition k2 (prop_at k1 s i) \<and>
           (\<forall>d\<in>dep_syms (p_visible (prop_at k1 s i)). has_flag SYMBOL_VALID k2 d)"
        using Cons.IH [OF g1 rest1] by (elim exE conjE) (rule that)
      have "find (\<lambda>i. p_type (prop_at k s i) = ty \<and> condition k'' (prop_at k s i) \<noteq> no) is = res"
        if "below r s k2 k''" for k''
      proof -
        have "find (\<lambda>i. p_type (prop_at k s i) = ty \<and> condition k'' (prop_at k s i) \<noteq> no) is =
            find (\<lambda>i. p_type (prop_at k1 s i) = ty \<and> condition k'' (prop_at k1 s i) \<noteq> no) is"
          by (rule find_cong) (simp_all add: same)
        then show ?thesis using f(4) that by simp
      qed
      moreover have "condition k'' ?p = no" if "below r s k2 k''" for k''
        using c [OF below_trans [OF see_below [OF g1 f(2)] that]] True by simp
      moreover have "visible_prop cv ty s (i # is) k = Some (res, k2)"
        using e(1) f(1) True \<open>p_type ?p = ty\<close> by simp
      moreover have "i' \<in> set (i # is) \<and> p_type (prop_at k s i') = ty \<and>
         p_tri (prop_at k2 s i') = condition k2 (prop_at k s i') \<and>
         (\<forall>d\<in>dep_syms (p_visible (prop_at k s i')). has_flag SYMBOL_VALID k2 d)" if "res = Some i'" for i'
        using f(5) that same [of i'] by auto
      ultimately show ?thesis
        using see_trans [OF Cons.prems(1) e(2) f(2)] own_sight_trans [OF e(2,6) f(3)]
        by (intro exI [of _ res] exI [of _ k2]) simp
    qed
  qed
qed

end

section \<open>Visibility\<close>

lemma fold_nth: "fold (\<lambda>i. g (xs ! i)) [0..<length xs] t = fold g xs t"
proof -
  have "fold g xs t = fold g (map ((!) xs) [0..<length xs]) t" by (simp add: map_nth)
  also have "\<dots> = fold (\<lambda>i. g (xs ! i)) [0..<length xs] t" by (simp add: fold_map comp_def)
  finally show ?thesis by simp
qed

definition prompt_fold :: "kconf \<Rightarrow> property list \<Rightarrow> tristate" where
  "prompt_fold k ps = fold (\<lambda>p t. if p_text p = None then t else EXPR_OR t (condition k p)) ps no"

lemma prompt_fold_prompts: "prompt_fold k (props (syms k s)) = fold (\<lambda>p t. EXPR_OR t (condition k p)) (prompts k s) no"
proof -
  have q: "(\<lambda>p. if p_text p \<noteq> None then \<lambda>t. EXPR_OR t (condition k p) else id) =
      (\<lambda>p t. if p_text p = None then t else EXPR_OR t (condition k p))" by (intro ext) auto
  show ?thesis unfolding prompts_def fold_filter q prompt_fold_def ..
qed

lemma prompt_fold_fixed: "prompt_fold k (fixed_props k' s) = prompt_fold k (props (syms k' s))"
  by (simp add: prompt_fold_def fixed_props_def fold_map comp_def cong: if_cong)

lemma prompt_fold_cong:
  "(\<And>p. p \<in> set ps \<Longrightarrow> p_text p \<noteq> None \<Longrightarrow> condition k' p = condition k p) \<Longrightarrow> prompt_fold k' ps = prompt_fold k ps"
  unfolding prompt_fold_def by (rule fold_cong) auto

definition sight_spec :: "kconf \<Rightarrow> symbol \<Rightarrow> tristate \<Rightarrow> tristate" where
  "sight_spec k s t = (if t = modul \<and> (sym_type (syms k s) \<noteq> S_TRISTATE \<or> modules_val k = no) then yes else t)"

lemma visible_spec_fold: "visible_spec k s = sight_spec k s (prompt_fold k (fixed_props k s))"
  by (simp add: visible_spec_def sight_spec_def prompt_fold_fixed prompt_fold_prompts Let_def)

lemma prompt_deps_at:
  "prompt_deps k x = (\<Union>i<length (props (syms k x)). if p_text (prop_at k x i) = None then {} else dep_syms (p_visible (prop_at k x i)))"
  unfolding prompt_deps_def prompts_def prop_at_def
  by (auto simp: in_set_conv_nth split: if_splits)

lemma quiet_parts:
  assumes "quiet k k'"
  shows "visible (syms k' d) = visible (syms k d)" "rev_tri (syms k' d) = rev_tri (syms k d)"
    "props (syms k' d) = props (syms k d)" "curr (syms k' d) = curr (syms k d)" "same_conf k k'"
    "has_flag SYMBOL_VALID k' d = has_flag SYMBOL_VALID k d"
  using assms by (simp_all add: quiet_def same_sight_def)

text \<open>Storing a new visibility or a new value of the reverse dependencies.\<close>

lemma see_store:
  assumes "good r s k" and "x = s \<or> choice_of k x = Some s" and "\<And>y. fixed (f y) = fixed y"
    and "\<And>y. flags (f y) = flags y" and "\<And>y. curr (f y) = curr y"
    and "k' = (if b then sym_set_changed x (upd_sym x f k) else k)"
  shows "see r s k k'"
proof -
  have u: "see r s k (upd_sym x f k)"
    using assms(2,3,4,5) by (intro see_mine) simp_all
  then show ?thesis
    using assms(6) see_trans [OF assms(1) u call_see [OF quiet_call [OF quiet_changed]]] by simp
qed

lemma fixed_sight: "fixed (y\<lparr>visible := t\<rparr>) = fixed y" "fixed (y\<lparr>rev_tri := t\<rparr>) = fixed y" "fixed (y\<lparr>curr := v\<rparr>) = fixed y"
  by (simp_all add: fixed_def)

context callee
begin

lemma prompts_ok:
  assumes "good r s k" and "x = s \<or> choice_of k x = Some s" and "reads k (prompt_deps k x)"
  shows "\<exists>k'. prompts_visible cv x (prop_indices k x) no k = Some (prompt_fold k' (fixed_props k x), k') \<and> see r s k k' \<and> own_sight s k k' \<and>
    (\<forall>d\<in>prompt_deps k x. has_flag SYMBOL_VALID k' d)"
proof -
  have D: "\<Union> (text_syms k x ` set (prop_indices k x)) = prompt_deps k x"
    by (simp add: prop_indices_def prompt_deps_at text_syms_def lessThan_atLeast0)
  have I: "\<forall>i\<in>set (prop_indices k x). i < length (props (syms k x))" by (simp add: prop_indices_def)
  obtain t k' where p: "prompts_visible cv x (prop_indices k x) no k = Some (t, k')" "see r s k k'" "own_sight s k k'"
    "\<forall>d\<in>prompt_deps k x. has_flag SYMBOL_VALID k' d"
    "t = fold (\<lambda>i t. if p_text (prop_at k x i) = None then t else EXPR_OR t (condition k' (prop_at k x i))) (prop_indices k x) no"
    using prompts_visible_ok [OF assms(1,2), of "prop_indices k x" no, unfolded D, OF I assms(3)]
    by (elim exE conjE) (rule that)
  have "t = prompt_fold k' (fixed_props k x)"
    unfolding p(5) prop_indices_def prop_at_def prompt_fold_fixed unfolding prompt_fold_def by (rule fold_nth)
  then show ?thesis using p by blast
qed

lemma visibility_prompts:
  assumes "good r s k" and "x = s \<or> choice_of k x = Some s" and "reads k (prompt_deps k x)"
  shows "\<exists>k1 k2. prompts_visible cv x (prop_indices k x) no k = Some (prompt_fold k1 (fixed_props k x), k1) \<and>
    k2 = (let t = sight_spec k1 x (prompt_fold k1 (fixed_props k x))
          in if visible (syms k1 x) \<noteq> t then sym_set_changed x (upd_sym x (\<lambda>y. y\<lparr>visible := t\<rparr>) k1) else k1) \<and>
    see r s k k2 \<and> (x \<noteq> s \<longrightarrow> own_sight s k k2) \<and> (\<forall>d\<in>prompt_deps k x. has_flag SYMBOL_VALID k2 d) \<and>
    visible (syms k2 x) = sight_spec k2 x (prompt_fold k2 (fixed_props k x))"
proof -
  obtain k1 where p: "prompts_visible cv x (prop_indices k x) no k = Some (prompt_fold k1 (fixed_props k x), k1)" "see r s k k1"
    "\<forall>d\<in>prompt_deps k x. has_flag SYMBOL_VALID k1 d" "own_sight s k k1" using prompts_ok [OF assms] by blast
  define t where "t = sight_spec k1 x (prompt_fold k1 (fixed_props k x))"
  define k2 where "k2 = (if visible (syms k1 x) \<noteq> t then sym_set_changed x (upd_sym x (\<lambda>y. y\<lparr>visible := t\<rparr>) k1) else k1)"
  note g1 = see_good [OF assms(1) p(2)]
  have "x = s \<or> choice_of k1 x = Some s" using assms(2) same_conf_choice_of [OF see_conf [OF p(2)]] by simp
  then have u: "see r s k1 k2" by (rule see_store [OF g1 _ _ _ _ k2_def]) (simp_all add: fixed_sight)
  have vis: "visible (syms k2 x) = t"
    using quiet_parts(1) [OF quiet_changed, of x "upd_sym x (\<lambda>y. y\<lparr>visible := t\<rparr>) k1" x] by (simp add: k2_def)
  note sc = see_conf [OF u]
  have "prompt_fold k2 (fixed_props k x) = prompt_fold k1 (fixed_props k x)"
  proof (rule prompt_fold_cong)
    fix q assume q: "q \<in> set (fixed_props k x)" "p_text q \<noteq> None"
    then have "dep_syms (p_visible q) \<subseteq> prompt_deps k x" by (auto simp: prompt_deps_fixed)
    then show "condition k2 q = condition k1 q"
      unfolding condition_def using see_calc [OF u] p(3) by blast
  qed
  moreover have "sight_spec k2 x t = sight_spec k1 x t" for t
    by (simp only: sight_spec_def same_conf_sym [OF sc])
  moreover have "own_sight s k k2" if "x \<noteq> s"
    using p(4) that quiet_parts(1,2) [OF quiet_changed, of x "upd_sym x (\<lambda>y. y\<lparr>visible := t\<rparr>) k1" s]
    by (simp add: own_sight_def k2_def)
  ultimately show ?thesis
    using p(1,3) vis see_trans [OF assms(1) p(2) u] see_valid [OF u]
    by (intro exI [of _ k1] exI [of _ k2]) (simp add: Let_def k2_def [folded t_def] t_def [symmetric])
qed

end

lemma get_type_same:
  assumes "same_conf k k'" and "\<not> sym_is_choice_value k x \<or> visible (syms k' x) = visible (syms k x)"
  shows "sym_get_type k' x = sym_get_type k x"
  using assms(2) by (auto simp: sym_get_type_def same_conf_sym [OF assms(1)] Let_def)

lemma below_conf: "below r s k k' \<Longrightarrow> same_conf k k'"
  by (simp add: below_def keeps_values_def)

lemma prompts_stay:
  assumes "good r s k" and "\<forall>d\<in>prompt_deps k s. has_flag SYMBOL_VALID k d" and "below r s k k'"
    and "visible (syms k s) = sight_spec k s (prompt_fold k (fixed_props k s))"
  shows "visible_spec k' s = visible (syms k s)"
proof -
  note sc = below_conf [OF assms(3)]
  have "prompt_fold k' (fixed_props k s) = prompt_fold k (fixed_props k s)"
  proof (rule prompt_fold_cong)
    fix q assume "q \<in> set (fixed_props k s)" "p_text q \<noteq> None"
    then have q: "dep_syms (p_visible q) \<subseteq> prompt_deps k s" by (auto simp: prompt_deps_fixed)
    have "dep_syms (p_visible q) \<subseteq> deps k s" "\<forall>d\<in>dep_syms (p_visible q). has_flag SYMBOL_VALID k d"
      using q assms(2) by (auto simp: deps_def)
    then show "condition k' q = condition k q" by (rule below_condition [OF assms(1,3)])
  qed
  then show ?thesis using assms(4) by (simp add: visible_spec_fold sight_spec_def same_conf_sym [OF sc])
qed

lemma call_sight:
  assumes "call r s k k'" and "has_flag SYMBOL_VALID k d" and "\<And>c. choice_of k d = Some c \<Longrightarrow> has_flag SYMBOL_VALID k c"
  shows "visible (syms k' d) = visible (syms k d)" "rev_tri (syms k' d) = rev_tri (syms k d)"
    "props (syms k' d) = props (syms k d)" "curr (syms k' d) = curr (syms k d)"
  using assms by (auto simp: call_def keeps_values_def same_sight_def)

context callee
begin

lemma visibility_member:
  assumes "good r s k" and "choice_of k x = Some s" and "reads k (prompt_deps k x)"
  shows "\<exists>k'. sym_calc_visibility cv x k = Some k' \<and> see r s k k' \<and> own_sight s k k' \<and>
    (\<forall>d\<in>prompt_deps k x. has_flag SYMBOL_VALID k' d) \<and> visible (syms k' x) = visible_spec k' x"
proof -
  have "x \<noteq> s" using choice_lower [OF _ assms(2)] good_ok [OF assms(1)] by blast
  obtain k1 k2 where p: "prompts_visible cv x (prop_indices k x) no k = Some (prompt_fold k1 (fixed_props k x), k1)"
    "k2 = (let t = sight_spec k1 x (prompt_fold k1 (fixed_props k x))
          in if visible (syms k1 x) \<noteq> t then sym_set_changed x (upd_sym x (\<lambda>y. y\<lparr>visible := t\<rparr>) k1) else k1)"
    "see r s k k2" "own_sight s k k2" "\<forall>d\<in>prompt_deps k x. has_flag SYMBOL_VALID k2 d"
    "visible (syms k2 x) = sight_spec k2 x (prompt_fold k2 (fixed_props k x))"
    using visibility_prompts [OF assms(1) disjI2 [OF assms(2)] assms(3)] \<open>x \<noteq> s\<close> by (elim exE conjE) (rule that, simp_all)
  have "sym_is_choice_value k2 x"
    using assms(2) same_conf_sym(6) [OF see_conf [OF p(3)], of SYMBOL_CHOICEVAL x] by (auto simp: choice_of_def split: if_splits)
  then have "sym_calc_visibility cv x k = Some k2"
    by (simp only: sym_calc_visibility_def p(1) Option.bind_lunit prod.case Let_def
        p(2) [unfolded Let_def sight_spec_def, symmetric] if_True)
  moreover have "visible (syms k2 x) = visible_spec k2 x"
    using p(6) same_conf_sym(5) [OF see_conf [OF p(3)]] by (simp add: visible_spec_fold)
  ultimately show ?thesis using p(3-5) by blast
qed

text \<open>The value of the reverse dependencies.\<close>

lemma rev_ok:
  assumes "good r s k" and "\<not> sym_is_choice_value k s"
  shows "\<exists>t k'. (case rev_expr (syms k s) of None \<Rightarrow> Some (no, k) | Some e \<Rightarrow> calc_expr cv e k) = Some (t, k') \<and>
    call r s k k' \<and>
    (\<forall>k''. below r s k' k'' \<longrightarrow> rev_spec k'' s = (if t = modul \<and> sym_get_type k' s = S_BOOLEAN then yes else t))"
proof (cases "rev_expr (syms k s)")
  case None
  have "rev_spec k'' s = no" if "below r s k k''" for k''
    using assms(2) None by (simp add: rev_spec_def same_conf_sym [OF below_conf [OF that]])
  then show ?thesis using None by simp
next
  case (Some e)
  have D: "expr_syms e \<subseteq> deps k s" using Some assms(2) by (auto simp: deps_def rev_deps_def dep_syms_def)
  obtain t k1 where c: "calc_expr cv e k = Some (t, k1)" "call r s k k1" "\<forall>d\<in>expr_syms e. has_flag SYMBOL_VALID k1 d"
    "t = expr_calc (view k1) e" using calc_expr_ok [OF assms(1) reads_deps [OF assms(1) D]] by blast
  have sc: "same_conf k k1" using c(2) by (simp add: call_def keeps_values_def)
  note g1 = good_call [OF assms(1) c(2)]
  have "rev_spec k'' s = (if t = modul \<and> sym_get_type k1 s = S_BOOLEAN then yes else t)" if b: "below r s k1 k''" for k''
  proof -
    have "expr_calc_value (view k'') (Some e) = expr_calc_value (view k1) (Some e)"
      using D c(3) by (intro below_calc [OF g1 b]) (simp_all add: dep_syms_def deps_same [OF sc])
    moreover have "sym_get_type k'' s = sym_get_type k1 s"
      using get_type_same [OF below_conf [OF b], of s] assms(2) by (simp add: same_conf_sym [OF sc])
    ultimately show ?thesis using assms(2) Some c(4)
      by (simp add: rev_spec_def expr_calc_value_def same_conf_sym [OF below_conf [OF b]] same_conf_sym [OF sc] Let_def)
  qed
  then show ?thesis using Some c by auto
qed

lemma visibility_own:
  assumes "good r s k"
  shows "\<exists>k'. sym_calc_visibility cv s k = Some k' \<and> see r s k k' \<and> (\<forall>d\<in>prompt_deps k s. has_flag SYMBOL_VALID k' d) \<and>
    (\<forall>k''. below r s k' k'' \<longrightarrow> visible_spec k'' s = visible (syms k' s)) \<and>
    (sym_is_choice_value k s \<or> (\<forall>k''. below r s k' k'' \<longrightarrow> rev_spec k'' s = rev_tri (syms k' s)))"
proof -
  have "prompt_deps k s \<subseteq> deps k s" by (auto simp: deps_def)
  from visibility_prompts [OF assms _ reads_deps [OF assms this]]
  obtain k1 k2 where p: "prompts_visible cv s (prop_indices k s) no k = Some (prompt_fold k1 (fixed_props k s), k1)"
    "k2 = (let t = sight_spec k1 s (prompt_fold k1 (fixed_props k s))
          in if visible (syms k1 s) \<noteq> t then sym_set_changed s (upd_sym s (\<lambda>y. y\<lparr>visible := t\<rparr>) k1) else k1)"
    "see r s k k2" "\<forall>d\<in>prompt_deps k s. has_flag SYMBOL_VALID k2 d"
    "visible (syms k2 s) = sight_spec k2 s (prompt_fold k2 (fixed_props k s))" by blast
  note sc = see_conf [OF p(3)] and g2 = see_good [OF assms p(3)]
  have vis: "visible_spec k'' s = visible (syms k2 s)" if "below r s k2 k''" for k''
    using prompts_stay [OF g2 _ that] p(4,5) deps_same(1) [OF sc] same_conf_sym(5) [OF sc] by simp
  let ?r = "case rev_expr (syms k2 s) of None \<Rightarrow> Some (no, k2) | Some e \<Rightarrow> calc_expr cv e k2"
  have run: "sym_calc_visibility cv s k = (if sym_is_choice_value k2 s then Some k2
     else do {
       (t, k) \<leftarrow> ?r;
       let t = (if t = modul \<and> sym_get_type k s = S_BOOLEAN then yes else t);
       Some (if rev_tri (syms k s) \<noteq> t then sym_set_changed s (upd_sym s (\<lambda>x. x\<lparr>rev_tri := t\<rparr>) k) else k) })"
    by (simp only: sym_calc_visibility_def p(1) Option.bind_lunit prod.case Let_def
        p(2) [unfolded Let_def sight_spec_def, symmetric])
  show ?thesis
  proof (cases "sym_is_choice_value k s")
    case True
    then have "sym_is_choice_value k2 s" by (simp add: same_conf_sym [OF sc])
    then show ?thesis using run p(3,4) vis True by auto
  next
    case False
    then have nv: "\<not> sym_is_choice_value k2 s" by (simp add: same_conf_sym [OF sc])
    obtain t k3 where c: "?r = Some (t, k3)" "call r s k2 k3"
      "\<forall>k''. below r s k3 k'' \<longrightarrow> rev_spec k'' s = (if t = modul \<and> sym_get_type k3 s = S_BOOLEAN then yes else t)"
      using rev_ok [OF g2 nv] by blast
    define u where "u = (if t = modul \<and> sym_get_type k3 s = S_BOOLEAN then yes else t)"
    define k4 where "k4 = (if rev_tri (syms k3 s) \<noteq> u then sym_set_changed s (upd_sym s (\<lambda>x. x\<lparr>rev_tri := u\<rparr>) k3) else k3)"
    note g3 = good_call [OF g2 c(2)]
    have s3: "see r s k3 k4" by (rule see_store [OF g3 _ _ _ _ k4_def]) (simp_all add: fixed_sight)
    have s2: "see r s k2 k4" by (rule see_trans [OF g2 call_see [OF c(2)] s3])
    have "choice_of k2 s = None" using nv by (simp add: choice_of_def)
    then have "visible (syms k3 s) = visible (syms k2 s)"
      using call_sight(1) [OF c(2), of s] g2 by (simp add: good_def)
    moreover have "visible (syms k4 s) = visible (syms k3 s)" "rev_tri (syms k4 s) = u"
      using quiet_parts(1,2) [OF quiet_changed, of s "upd_sym s (\<lambda>x. x\<lparr>rev_tri := u\<rparr>) k3" s] by (simp_all add: k4_def)
    moreover have "rev_spec k'' s = u" if "below r s k4 k''" for k''
      using c(3) below_trans [OF see_below [OF g3 s3] that] by (simp add: u_def)
    moreover have "visible_spec k'' s = visible (syms k2 s)" if "below r s k4 k''" for k''
      by (rule vis [OF below_trans [OF see_below [OF g2 s2] that]])
    moreover have "sym_calc_visibility cv s k = Some k4"
      unfolding run using nv c(1) by (simp add: Let_def u_def [symmetric] k4_def)
    ultimately show ?thesis
      using see_trans [OF assms p(3) s2] see_valid [OF s2] p(4) by (intro exI [of _ k4]) simp
  qed
qed

end

section \<open>Defaults\<close>

lemma find_nth: "find P xs = map_option ((!) xs) (find (\<lambda>i. P (xs ! i)) [0..<length xs])"
proof -
  have "find P xs = find P (map ((!) xs) [0..<length xs])" by (simp add: map_nth)
  then show ?thesis by (simp add: find_map)
qed

lemma active_prop_at:
  "active_prop ty k s =
     map_option (prop_at k s) (find (\<lambda>i. p_type (prop_at k s i) = ty \<and> condition k (prop_at k s i) \<noteq> no) (prop_indices k s))"
  unfolding active_prop_def prop_indices_def prop_at_def [abs_def] by (subst find_nth) simp

lemma see_curr: "see r s k k' \<Longrightarrow> has_flag SYMBOL_VALID k d \<Longrightarrow> curr (syms k' d) = curr (syms k d)"
  by (simp add: see_def keeps_values_def)

lemma below_curr: "below r s k k' \<Longrightarrow> has_flag SYMBOL_VALID k d \<Longrightarrow> r d < r s \<Longrightarrow> curr (syms k' d) = curr (syms k d)"
  by (simp add: below_def keeps_values_def)

text \<open>A dependency that is no choice has a string.\<close>

lemma dep_chars:
  assumes "good r s k" and "d \<in> deps k s" and "has_flag SYMBOL_VALID k d" and "\<not> sym_is_choice k d"
  shows "\<exists>c. chars (val (curr (syms k d))) = Some c"
proof -
  have "fits k d" using assms good_deps [OF assms(1,2)] settled_fits by (auto simp: good_def)
  moreover have "sym_type (syms k d) \<in> five_types \<or> sym_name (syms k d) \<noteq> None"
    using assms(2) good_ok [OF assms(1), of s] by (auto simp: sym_ok_def)
  ultimately show ?thesis using assms(4)
    by (auto simp: fits_def name_pointer_def chars_def split: if_splits)
qed

lemma prop_value_deps:
  assumes "i < length (props (syms k s))"
  shows "p_type (prop_at k s i) \<in> {P_DEFAULT, P_RANGE} \<Longrightarrow> dep_syms (p_visible (prop_at k s i)) \<subseteq> deps k s"
    and "p_type (prop_at k s i) = P_DEFAULT \<Longrightarrow> \<not> sym_is_choice k s \<Longrightarrow> dep_syms (p_expr (prop_at k s i)) \<subseteq> deps k s"
    and "p_type (prop_at k s i) = P_RANGE \<Longrightarrow> range_syms (prop_at k s i) = Some (a, b) \<Longrightarrow> {a, b} \<subseteq> deps k s"
proof -
  let ?f = "\<lambda>p. if p_type p = P_DEFAULT then dep_syms (p_visible p) \<union> (if sym_is_choice k s then {} else dep_syms (p_expr p))
        else if p_type p = P_RANGE then dep_syms (p_visible p) \<union> (case range_syms p of None \<Rightarrow> {} | Some (a, b) \<Rightarrow> {a, b})
        else {}"
  have "prop_at k s i \<in> set (props (syms k s))" using assms by (simp add: prop_at_def)
  then have "?f (prop_at k s i) \<subseteq> value_deps k s" unfolding value_deps_def by (rule UN_upper)
  moreover have "value_deps k s \<subseteq> deps k s" by (auto simp: deps_def)
  ultimately have "?f (prop_at k s i) \<subseteq> deps k s" by (rule order_trans)
  then show "p_type (prop_at k s i) \<in> {P_DEFAULT, P_RANGE} \<Longrightarrow> dep_syms (p_visible (prop_at k s i)) \<subseteq> deps k s"
    "p_type (prop_at k s i) = P_DEFAULT \<Longrightarrow> \<not> sym_is_choice k s \<Longrightarrow> dep_syms (p_expr (prop_at k s i)) \<subseteq> deps k s"
    "p_type (prop_at k s i) = P_RANGE \<Longrightarrow> range_syms (prop_at k s i) = Some (a, b) \<Longrightarrow> {a, b} \<subseteq> deps k s"
    by (simp_all split: if_splits)
qed

context callee
begin

lemma active_ok:
  assumes "good r s k" and "ty \<in> {P_DEFAULT, P_RANGE}"
  shows "\<exists>res k'. visible_prop cv ty s (prop_indices k s) k = Some (res, k') \<and> see r s k k' \<and> own_sight s k k' \<and>
    (\<forall>k''. below r s k' k'' \<longrightarrow> active_prop ty k'' s = map_option (prop_at k'' s) res) \<and>
    (\<forall>i. res = Some i \<longrightarrow> i < length (props (syms k s)) \<and> p_type (prop_at k s i) = ty \<and>
       p_tri (prop_at k' s i) = condition k' (prop_at k s i) \<and>
       (\<forall>d\<in>dep_syms (p_visible (prop_at k s i)). has_flag SYMBOL_VALID k' d))"
proof -
  have I: "\<forall>i\<in>set (prop_indices k s). i < length (props (syms k s))" by (simp add: prop_indices_def)
  have D: "\<forall>i\<in>set (prop_indices k s). p_type (prop_at k s i) = ty \<longrightarrow> dep_syms (p_visible (prop_at k s i)) \<subseteq> deps k s"
    using I prop_value_deps(1) assms(2) by blast
  obtain res k' where v: "visible_prop cv ty s (prop_indices k s) k = Some (res, k')" "see r s k k'" "own_sight s k k'"
    "\<forall>k''. below r s k' k'' \<longrightarrow>
       find (\<lambda>i. p_type (prop_at k s i) = ty \<and> condition k'' (prop_at k s i) \<noteq> no) (prop_indices k s) = res"
    "\<forall>i. res = Some i \<longrightarrow> i \<in> set (prop_indices k s) \<and> p_type (prop_at k s i) = ty \<and>
       p_tri (prop_at k' s i) = condition k' (prop_at k s i) \<and>
       (\<forall>d\<in>dep_syms (p_visible (prop_at k s i)). has_flag SYMBOL_VALID k' d)"
    using visible_prop_ok [OF assms(1) I D] by (elim exE conjE) (rule that)
  have "active_prop ty k'' s = map_option (prop_at k'' s) res" if b: "below r s k' k''" for k''
  proof -
    have sc: "same_conf k k''" using see_conf [OF v(2)] below_conf [OF b] same_conf_trans by blast
    have l: "prop_indices k'' s = prop_indices k s"
      using same_conf_sym(5) [OF sc, of s] by (metis length_fixed_props prop_indices_def)
    have "find (\<lambda>i. p_type (prop_at k'' s i) = ty \<and> condition k'' (prop_at k'' s i) \<noteq> no) (prop_indices k s) =
        find (\<lambda>i. p_type (prop_at k s i) = ty \<and> condition k'' (prop_at k s i) \<noteq> no) (prop_indices k s)"
      by (rule find_cong) (use I prop_at_parts [OF sc] in \<open>simp_all add: condition_def\<close>)
    then show ?thesis unfolding active_prop_at l using v(4) b by simp
  qed
  then show ?thesis using v(1,2,3,5) I by (intro exI [of _ res] exI [of _ k']) blast
qed

lemma calc_default_ok:
  assumes "good r s k" and "\<And>c. choice_of k s = Some c \<Longrightarrow> has_flag SYMBOL_VALID k c"
  shows "\<exists>t k'. calc_default cv s k = Some (t, k') \<and> see r s k k' \<and> own_sight s k k' \<and>
    (\<forall>k''. below r s k' k'' \<longrightarrow> t = EXPR_OR (default_tri k'' s) (rev_tri (syms k s)))"
proof -
  define k1 where "k1 = (if rev_tri (syms k s) \<noteq> no then set_flag SYMBOL_WRITE s k else k)"
  have q1: "quiet k k1" by (simp add: k1_def quiet_set_flag)
  note s1 = call_see [OF quiet_call [OF q1]] and sc1 = quiet_parts(5) [OF q1]
  note g1 = see_good [OF assms(1) s1]
  have o1: "own_sight s k k1" by (rule own_sight_call [OF assms(1) quiet_call [OF q1]])
  have w1: "\<And>c. choice_of k1 s = Some c \<Longrightarrow> has_flag SYMBOL_VALID k1 c"
    using assms(2) same_conf_choice_of [OF sc1] quiet_parts(6) [OF q1] by simp
  have run: "calc_default cv s k =
     (if sym_is_choice k1 s then Some (or_rev k1 s no, k1)
     else do {
       (r, k) \<leftarrow> sym_get_default_prop cv s k1;
       case r of
         None \<Rightarrow> Some (or_rev k s no, k)
       | Some i \<Rightarrow> do {
           (t, k) \<leftarrow> calc_dep cv (p_expr (prop_at (set_flag SYMBOL_WRITE s k) s i)) (set_flag SYMBOL_WRITE s k);
           Some (or_rev k s (EXPR_AND t (p_tri (prop_at k s i))), k) } })"
    unfolding calc_default_def Let_def k1_def ..
  have rev1: "rev_tri (syms k1 s) = rev_tri (syms k s)" by (rule quiet_parts(2) [OF q1])
  show ?thesis
  proof (cases "sym_is_choice k1 s")
    case True
    have "default_tri k'' s = no" if "below r s k1 k''" for k''
      using True same_conf_sym(6) [OF below_conf [OF that], of SYMBOL_CHOICE s] by (simp add: default_tri_def)
    then show ?thesis using run True s1 o1 rev1 by (auto simp: or_rev_def)
  next
    case False
    obtain res k2 where a: "sym_get_default_prop cv s k1 = Some (res, k2)" "see r s k1 k2" "own_sight s k1 k2"
      "\<forall>k''. below r s k2 k'' \<longrightarrow> active_prop P_DEFAULT k'' s = map_option (prop_at k'' s) res"
      "\<forall>i. res = Some i \<longrightarrow> i < length (props (syms k1 s)) \<and> p_type (prop_at k1 s i) = P_DEFAULT \<and>
         p_tri (prop_at k2 s i) = condition k2 (prop_at k1 s i) \<and>
         (\<forall>d\<in>dep_syms (p_visible (prop_at k1 s i)). has_flag SYMBOL_VALID k2 d)"
      using active_ok [OF g1 insertI1, folded sym_get_default_prop_def] by (elim exE conjE) (rule that)
    note g2 = see_good [OF g1 a(2)] and sc2 = see_conf [OF a(2)]
    have rev2: "rev_tri (syms k2 s) = rev_tri (syms k s)" using a(3) w1 rev1 by (simp add: own_sight_def)
    have s2: "see r s k k2" by (rule see_trans [OF assms(1) s1 a(2)])
    have o2: "own_sight s k k2" by (rule own_sight_trans [OF s1 o1 a(3)])
    have nc: "\<not> sym_is_choice k'' s" if "below r s k2 k''" for k''
      using False same_conf_sym(6) [OF same_conf_trans [OF sc2 below_conf [OF that]], of SYMBOL_CHOICE s] by simp
    show ?thesis
    proof (cases res)
      case None
      then show ?thesis using run False a(1,4) s2 o2 rev2 nc by (auto simp: or_rev_def default_tri_def)
    next
      case (Some i)
      let ?p = "prop_at k1 s i"
      have i: "i < length (props (syms k1 s))" "p_type ?p = P_DEFAULT" "p_tri (prop_at k2 s i) = condition k2 ?p"
        "\<forall>d\<in>dep_syms (p_visible ?p). has_flag SYMBOL_VALID k2 d" using a(5) Some by simp_all
      define k3 where "k3 = set_flag SYMBOL_WRITE s k2"
      have q3: "quiet k2 k3" by (simp add: k3_def quiet_set_flag)
      note c3 = quiet_call [OF q3] and sc3 = same_conf_trans [OF sc2 quiet_parts(5) [OF q3]]
      note g3 = good_call [OF g2 c3]
      have e3: "p_expr (prop_at k3 s i) = p_expr ?p" by (rule prop_at_parts(4) [OF sc3 i(1)])
      have "dep_syms (p_expr ?p) \<subseteq> deps k1 s" by (rule prop_value_deps(2) [OF i(1,2) False])
      then have D: "dep_syms (p_expr ?p) \<subseteq> deps k3 s" by (simp add: deps_same [OF sc3])
      obtain t k4 where c: "calc_dep cv (p_expr ?p) k3 = Some (t, k4)" "call r s k3 k4"
        "\<forall>d\<in>dep_syms (p_expr ?p). has_flag SYMBOL_VALID k4 d" "t = expr_calc_value (view k4) (p_expr ?p)"
        using calc_dep_ok [OF g3 reads_deps [OF g3 D]] by blast
      note c4 = call_trans [OF g2 c3 c(2)]
      note g4 = good_call [OF g2 c4] and s4 = call_see [OF c4]
      have sc4: "same_conf k1 k4" by (rule same_conf_trans [OF sc2 see_conf [OF s4]])
      have v2: "has_flag SYMBOL_VALID k2 s" using g2 by (simp add: good_def)
      have w2: "\<And>c. choice_of k2 s = Some c \<Longrightarrow> has_flag SYMBOL_VALID k2 c"
        using w1 same_conf_choice_of [OF sc2] see_valid [OF a(2)] by simp
      have st: "p_tri (prop_at k4 s i) = condition k2 ?p" "rev_tri (syms k4 s) = rev_tri (syms k s)"
        using call_sight [OF c4 v2 w2] i(3) rev2 by (simp_all add: prop_at_def)
      have "EXPR_AND t (condition k2 ?p) = default_tri k'' s" if b: "below r s k4 k''" for k''
      proof -
        have b2: "below r s k2 k''" by (rule below_trans [OF see_below [OF g2 s4] b])
        note sc'' = same_conf_trans [OF sc4 below_conf [OF b]]
        have D': "dep_syms (p_visible ?p) \<subseteq> deps k2 s" "dep_syms (p_expr ?p) \<subseteq> deps k4 s"
          using prop_value_deps(1,2) [OF i(1)] i(2) False by (simp_all add: deps_same [OF sc2] deps_same [OF sc4])
        have "expr_calc_value (view k'') (p_expr ?p) = t" using below_calc [OF g4 b D'(2) c(3)] c(4) by simp
        moreover have "condition k'' (prop_at k'' s i) = condition k2 ?p"
          using below_condition [OF g2 b2 D'(1) i(4)] prop_at_parts(3) [OF sc'' i(1)] by (simp add: condition_def)
        ultimately show ?thesis using a(4) b2 Some nc [OF b2] prop_at_parts(4) [OF sc'' i(1)]
          by (simp add: default_tri_def)
      qed
      moreover have "calc_default cv s k = Some (or_rev k4 s (EXPR_AND t (condition k2 ?p)), k4)"
        using run False a(1) Some c(1) st(1) e3 by (simp add: k3_def)
      ultimately show ?thesis
        using see_trans [OF assms(1) s2 s4] own_sight_trans [OF s2 o2 own_sight_call [OF g2 c4]] st(2)
        by (intro exI) (auto simp: or_rev_def)
    qed
  qed
qed

end

section \<open>The two kinds of values\<close>

lemma good_choice:
  assumes "good r s k" and "sym_is_choice_value k s"
  shows "\<exists>c p. choice_of k s = Some c \<and> sym_get_choice_prop k s = Some p \<and> prop_get_symbol p = Some c \<and> r c < r s \<and> c \<in> prompt_deps k s"
proof -
  obtain c where c: "choice_of k s = Some c" "c \<in> prompt_deps k s" using good_ok [OF assms(1), of s] assms(2) by (auto simp: sym_ok_def)
  then obtain p where "sym_get_choice_prop k s = Some p" "prop_get_symbol p = Some c"
    using assms(2) by (auto simp: choice_of_def Option.bind_eq_Some_conv)
  then show ?thesis using c choice_lower [OF _ c(1)] good_ok [OF assms(1)] by blast
qed

lemma see_write: "good r s k \<Longrightarrow> k' = (if b then set_flag SYMBOL_WRITE s k else k) \<Longrightarrow> call r s k k' \<and> quiet k k'"
  by (simp add: quiet_set_flag quiet_call)

definition same_own :: "symbol \<Rightarrow> kconf \<Rightarrow> kconf \<Rightarrow> bool" where
  "same_own s k k' \<longleftrightarrow> visible (syms k' s) = visible (syms k s) \<and> rev_tri (syms k' s) = rev_tri (syms k s)"

context callee
begin

lemma calc_tristate_ok:
  assumes "good r s k" and "\<And>c. choice_of k s = Some c \<Longrightarrow> has_flag SYMBOL_VALID k c"
  shows "\<exists>t k'. calc_tristate cv s k = Some (t, k') \<and> see r s k k' \<and> own_sight s k k' \<and>
    (\<forall>k''. below r s k' k'' \<longrightarrow> same_own s k k'' \<longrightarrow> tri_spec k'' s = t)"
proof -
  define vis where "vis = visible (syms k s)"
  define k1 where "k1 = (if vis \<noteq> no then set_flag SYMBOL_WRITE s k else k)"
  have q1: "call r s k k1" "quiet k k1" using see_write [OF assms(1) k1_def] by simp_all
  note g1 = good_call [OF assms(1) q1(1)] and sc1 = quiet_parts(5) [OF q1(2)]
  have w1: "\<And>c. choice_of k1 s = Some c \<Longrightarrow> has_flag SYMBOL_VALID k1 c"
    using assms(2) same_conf_choice_of [OF sc1] quiet_parts(6) [OF q1(2)] by simp
  define W where "W = (\<lambda>k''. if sym_is_choice_value k'' s \<and> visible (syms k'' s) = yes then (if chosen k'' s then yes else no)
      else or_rev k'' s (if user_visible k'' s then EXPR_AND (vtri (sym_def (syms k'' s) S_DEF_USER)) (visible (syms k'' s))
                         else default_tri k'' s))"
  let ?inner = "if sym_is_choice_value k s \<and> vis = yes then do {
          p \<leftarrow> sym_get_choice_prop k s;
          c \<leftarrow> prop_get_symbol p;
          Some (if val (curr (syms k c)) = To s then yes else no, k) }
        else if vis \<noteq> no \<and> sym_has_value k1 s
          then Some (or_rev k1 s (EXPR_AND (vtri (sym_def (syms k1 s) S_DEF_USER)) vis), k1)
          else calc_default cv s k1"
  have run: "calc_tristate cv s k = do { (t, k) \<leftarrow> ?inner; Some (if t = modul \<and> sym_get_type k s = S_BOOLEAN then yes else t, k) }"
    unfolding calc_tristate_def Let_def k1_def vis_def ..
  have "\<exists>t k'. ?inner = Some (t, k') \<and> see r s k k' \<and> own_sight s k k' \<and>
    (\<forall>k''. below r s k' k'' \<longrightarrow> same_own s k k'' \<longrightarrow>
       t = W k'')"
  proof (cases "sym_is_choice_value k s \<and> vis = yes")
    case True
    obtain c p where c: "choice_of k s = Some c" "sym_get_choice_prop k s = Some p" "prop_get_symbol p = Some c" "r c < r s"
      using good_choice [OF assms(1)] True by blast
    have "chosen k'' s \<longleftrightarrow> val (curr (syms k c)) = To s" if "below r s k k''" for k''
      using same_conf_choice_of [OF below_conf [OF that], of s] below_curr [OF that assms(2) [OF c(1)] c(4)] c(1)
      by (simp add: chosen_def)
    then show ?thesis using True c by (auto simp: W_def vis_def same_own_def same_conf_sym(6) [OF below_conf])
  next
    case nc: False
    have nc'': "\<not> (sym_is_choice_value k'' s \<and> visible (syms k'' s) = yes)" if "below r s k k''" "same_own s k k''" for k''
      using nc that by (simp add: vis_def same_own_def same_conf_sym(6) [OF below_conf])
    have W: "W k'' = or_rev k'' s (if user_visible k'' s then EXPR_AND (vtri (sym_def (syms k'' s) S_DEF_USER)) (visible (syms k'' s))
                         else default_tri k'' s)" if "below r s k k''" "same_own s k k''" for k''
      unfolding W_def by (rule if_not_P [OF nc'' [OF that]])
    have o1: "rev_tri (syms k1 s) = rev_tri (syms k s)" by (rule quiet_parts(2) [OF q1(2)])
    have uv: "user_visible k'' s \<longleftrightarrow> vis \<noteq> no \<and> sym_has_value k1 s" if "below r s k1 k''" "same_own s k k''" for k''
      using that by (simp add: vis_def same_own_def user_visible_def same_conf_sym(6) [OF below_conf])
    have b1: "below r s k k''" if "below r s k1 k''" for k''
      by (rule below_trans [OF see_below [OF assms(1) call_see [OF q1(1)]] that])
    show ?thesis
    proof (cases "vis \<noteq> no \<and> sym_has_value k1 s")
      case True
      have "or_rev k1 s (EXPR_AND (vtri (sym_def (syms k1 s) S_DEF_USER)) vis) =
          or_rev k'' s (EXPR_AND (vtri (sym_def (syms k'' s) S_DEF_USER)) (visible (syms k'' s)))"
        if "below r s k1 k''" "same_own s k k''" for k''
        using that(2) o1 by (simp add: or_rev_def vis_def same_own_def same_conf_sym(3) [OF below_conf [OF that(1)]])
      then have "or_rev k1 s (EXPR_AND (vtri (sym_def (syms k1 s) S_DEF_USER)) vis) = W k''"
        if "below r s k1 k''" "same_own s k k''" for k'' using W [OF b1 [OF that(1)] that(2)] uv [OF that] True that by simp
      moreover have "?inner = Some (or_rev k1 s (EXPR_AND (vtri (sym_def (syms k1 s) S_DEF_USER)) vis), k1)"
        by (simp only: if_not_P [OF nc] if_P [OF True])
      ultimately show ?thesis using call_see [OF q1(1)] own_sight_call [OF assms(1) q1(1)] by blast
    next
      case False
      obtain t k2 where d: "calc_default cv s k1 = Some (t, k2)" "see r s k1 k2" "own_sight s k1 k2"
        "\<forall>k''. below r s k2 k'' \<longrightarrow> t = EXPR_OR (default_tri k'' s) (rev_tri (syms k1 s))"
        using calc_default_ok [OF g1 w1] by blast
      have b2: "below r s k1 k''" if "below r s k2 k''" for k'' by (rule below_trans [OF see_below [OF g1 d(2)] that])
      have "t = or_rev k'' s (default_tri k'' s)" if "below r s k2 k''" "same_own s k k''" for k''
        using d(4) that o1 by (simp add: or_rev_def same_own_def)
      then have "t = W k''" if "below r s k2 k''" "same_own s k k''" for k''
        using W [OF b1 [OF b2 [OF that(1)]] that(2)] uv [OF b2 [OF that(1)] that(2)] False that by auto
      moreover have "?inner = Some (t, k2)" by (simp only: if_not_P [OF nc] if_not_P [OF False] d(1))
      ultimately show ?thesis using see_trans [OF assms(1) call_see [OF q1(1)] d(2)]
          own_sight_trans [OF call_see [OF q1(1)] own_sight_call [OF assms(1) q1(1)] d(3)] by blast
    qed
  qed
  then obtain t k' where t: "?inner = Some (t, k')" "see r s k k'" "own_sight s k k'"
    "\<forall>k''. below r s k' k'' \<longrightarrow> same_own s k k'' \<longrightarrow>
       t = W k''" by (elim exE conjE) (rule that)
  have "tri_spec k'' s = (if t = modul \<and> sym_get_type k' s = S_BOOLEAN then yes else t)"
    if b: "below r s k' k''" "same_own s k k''" for k''
  proof -
    have "visible (syms k' s) = visible (syms k s)" using t(3) assms(2) by (simp add: own_sight_def)
    then have "sym_get_type k'' s = sym_get_type k' s"
      using get_type_same [OF below_conf [OF b(1)]] b(2) by (simp add: same_own_def)
    then show ?thesis unfolding tri_spec_def Let_def or_rev_def [symmetric] using t(4) b by (simp add: W_def)
  qed
  moreover have "calc_tristate cv s k = Some (if t = modul \<and> sym_get_type k' s = S_BOOLEAN then yes else t, k')"
    unfolding run t(1) by simp
  ultimately show ?thesis using t(2,3) by blast
qed

lemma calc_chars_ok:
  assumes "good r s k" and "sym_type (syms k s) \<in> {S_INT, S_HEX, S_STRING}"
  shows "\<exists>p c k'. calc_chars cv s k = Some (p, k') \<and> chars p = Some c \<and> see r s k k' \<and> own_sight s k k' \<and>
    (\<forall>k''. below r s k' k'' \<longrightarrow> same_own s k k'' \<longrightarrow> input_chars k'' s = c)"
proof -
  define vis where "vis = visible (syms k s)"
  define k1 where "k1 = (if vis \<noteq> no then set_flag SYMBOL_WRITE s k else k)"
  have q1: "call r s k k1" "quiet k k1" using see_write [OF assms(1) k1_def] by simp_all
  note g1 = good_call [OF assms(1) q1(1)] and sc1 = quiet_parts(5) [OF q1(2)]
  have ty1: "sym_type (syms k1 s) \<in> {S_INT, S_HEX, S_STRING}" using assms(2) by (simp add: same_conf_sym [OF sc1])
  then have sok: "\<not> sym_is_choice k1 s" "sym_has_value k1 s \<longrightarrow> chars (val (sym_def (syms k1 s) S_DEF_USER)) \<noteq> None"
    "\<forall>p\<in>set (props (syms k1 s)). p_type p = P_DEFAULT \<longrightarrow> (\<forall>d. prop_get_symbol p = Some d \<longrightarrow> \<not> sym_is_choice k1 d)"
    using good_ok [OF g1, of s] by (auto simp: sym_ok_def)
  have run: "calc_chars cv s k =
    (if vis \<noteq> no \<and> sym_has_value k1 s then Some (val (sym_def (syms k1 s) S_DEF_USER), k1)
     else do {
       (r, k) \<leftarrow> sym_get_default_prop cv s k1;
       case r of
         None \<Rightarrow> Some (val empty_value, k)
       | Some i \<Rightarrow>
           (case prop_get_symbol (prop_at k s i) of
              None \<Rightarrow> Some (val empty_value, k)
            | Some d \<Rightarrow> do {
                k \<leftarrow> cv d (set_flag SYMBOL_WRITE s k);
                Some (val (curr (syms k d)), k) }) })"
    unfolding calc_chars_def Let_def k1_def vis_def ..
  have uv: "user_visible k'' s \<longleftrightarrow> vis \<noteq> no \<and> sym_has_value k1 s" if "below r s k1 k''" "same_own s k k''" for k''
    using that by (simp add: vis_def same_own_def user_visible_def same_conf_sym(6) [OF below_conf])
  show ?thesis
  proof (cases "vis \<noteq> no \<and> sym_has_value k1 s")
    case True
    then obtain c where c: "chars (val (sym_def (syms k1 s) S_DEF_USER)) = Some c" using sok(2) by blast
    have "input_chars k'' s = c" if "below r s k1 k''" "same_own s k k''" for k''
      using uv [OF that] True c by (simp add: input_chars_def same_conf_sym(3) [OF below_conf [OF that(1)]])
    then show ?thesis using run True c call_see [OF q1(1)] own_sight_call [OF assms(1) q1(1)] by auto
  next
    case nu: False
    obtain res k2 where a: "sym_get_default_prop cv s k1 = Some (res, k2)" "see r s k1 k2" "own_sight s k1 k2"
      "\<forall>k''. below r s k2 k'' \<longrightarrow> active_prop P_DEFAULT k'' s = map_option (prop_at k'' s) res"
      "\<forall>i. res = Some i \<longrightarrow> i < length (props (syms k1 s)) \<and> p_type (prop_at k1 s i) = P_DEFAULT \<and>
         p_tri (prop_at k2 s i) = condition k2 (prop_at k1 s i) \<and>
         (\<forall>d\<in>dep_syms (p_visible (prop_at k1 s i)). has_flag SYMBOL_VALID k2 d)"
      using active_ok [OF g1 insertI1, folded sym_get_default_prop_def] by (elim exE conjE) (rule that)
    note g2 = see_good [OF g1 a(2)] and sc2 = see_conf [OF a(2)]
    have s2: "see r s k k2" by (rule see_trans [OF assms(1) call_see [OF q1(1)] a(2)])
    have o2: "own_sight s k k2"
      by (rule own_sight_trans [OF call_see [OF q1(1)] own_sight_call [OF assms(1) q1(1)] a(3)])
    have b1: "below r s k1 k''" if "below r s k2 k''" for k'' by (rule below_trans [OF see_below [OF g1 a(2)] that])
    let ?sym = "Option.bind (map_option (prop_at k2 s) res) prop_get_symbol"
    have sym: "Option.bind (active_prop P_DEFAULT k'' s) prop_get_symbol = ?sym" if b: "below r s k2 k''" for k''
    proof (cases res)
      case (Some i)
      then have "i < length (props (syms k2 s))" using a(5) prop_at_same(2) [OF sc2] by metis
      then show ?thesis using a(4) b Some prop_at_parts(5) [OF below_conf [OF b]] by simp
    qed (use a(4) b in simp)
    show ?thesis
    proof (cases ?sym)
      case None
      then have "calc_chars cv s k = Some (val empty_value, k2)" using run nu a(1) by (cases res) auto
      moreover have "input_chars k'' s = ''''" if "below r s k2 k''" "same_own s k k''" for k''
        using uv [OF b1 [OF that(1)] that(2)] nu sym [OF that(1)] None by (auto simp: input_chars_def)
      ultimately show ?thesis using s2 o2 by (auto simp: empty_value_def chars_def)
    next
      case (Some d)
      then obtain i where i: "res = Some i" "prop_get_symbol (prop_at k2 s i) = Some d" by (cases res) auto
      then have i1: "i < length (props (syms k1 s))" "p_type (prop_at k1 s i) = P_DEFAULT" using a(5) by simp_all
      have pd: "prop_get_symbol (prop_at k1 s i) = Some d" using i(2) prop_at_parts(5) [OF sc2 i1(1)] by simp
      then have "d \<in> dep_syms (p_expr (prop_at k1 s i))"
        by (auto simp: prop_get_symbol_def dep_syms_def split: option.splits expr.splits)
      then have d1: "d \<in> deps k1 s" using prop_value_deps(2) [OF i1 sok(1)] by blast
      define k3 where "k3 = set_flag SYMBOL_WRITE s k2"
      have q3: "quiet k2 k3" by (simp add: k3_def quiet_set_flag)
      note c3 = quiet_call [OF q3]
      note g3 = good_call [OF g2 c3]
      have d3: "r d < r s" by (rule good_deps [OF g1 d1])
      obtain k4 where c: "cv d k3 = Some k4" "call r s k3 k4" "has_flag SYMBOL_VALID k4 d" using call_own [OF g3] d3 by blast
      note c4 = call_trans [OF g2 c3 c(2)]
      note g4 = good_call [OF g2 c4] and s4 = call_see [OF c4]
      have sc4: "same_conf k1 k4" by (rule same_conf_trans [OF sc2 see_conf [OF s4]])
      have "\<not> sym_is_choice k1 d" using sok(3) pd i1 nth_mem [OF i1(1)] by (auto simp: prop_at_def)
      then have "\<not> sym_is_choice k4 d" by (simp add: same_conf_sym(6) [OF sc4])
      then obtain x where x: "chars (val (curr (syms k4 d))) = Some x"
        using dep_chars [OF g4 _ c(3)] d1 by (auto simp: deps_same [OF sc4])
      have "input_chars k'' s = x" if b: "below r s k4 k''" "same_own s k k''" for k''
      proof -
        have b2: "below r s k2 k''" by (rule below_trans [OF see_below [OF g2 s4] b(1)])
        have "raw_chars k'' d = x" using below_curr [OF b(1) c(3) d3] x by (simp add: raw_chars_def)
        then show ?thesis using uv [OF b1 [OF b2] b(2)] nu sym [OF b2] Some by (simp add: input_chars_def)
      qed
      moreover have "calc_chars cv s k = Some (val (curr (syms k4 d)), k4)"
        using run nu a(1) i c(1) by (simp add: k3_def)
      ultimately show ?thesis
        using x see_trans [OF assms(1) s2 s4] own_sight_trans [OF s2 o2 own_sight_call [OF g2 c4]] by blast
    qed
  qed
qed

end

section \<open>Ranges\<close>

lemma quiet_block: "quiet k (k\<lparr>next_block := m\<rparr>)"
  by (simp add: quiet_def same_conf_def same_sight_def has_flag_def)

lemma store_number_ok:
  assumes "good r s k"
  shows "step r s k (store_number s i k)" "own_sight s k (store_number s i k)"
    "chars (val (curr (syms (store_number s i k) s))) = Some (number_chars (sym_type (syms k s)) i)"
    "vtri (curr (syms (store_number s i k) s)) = vtri (curr (syms k s))"
proof -
  let ?k = "k\<lparr>next_block := Suc (next_block k)\<rparr>"
  let ?p = "Chars (Heap (next_block k)) (number_chars (sym_type (syms k s)) i)"
  have e: "store_number s i k = upd_sym s (\<lambda>x. x\<lparr>curr := (curr x)\<lparr>val := ?p\<rparr>\<rparr>) ?k"
    by (simp add: store_number_def strdup_def)
  have q: "quiet k ?k" by (rule quiet_block)
  have "step r s ?k (store_number s i k)" unfolding e by (rule step_own) (simp_all add: fixed_sight)
  then show "step r s k (store_number s i k)"
    using step_trans [OF assms call_step [OF quiet_call [OF q]]] by blast
  show "own_sight s k (store_number s i k)" by (simp add: e own_sight_def)
  show "chars (val (curr (syms (store_number s i k) s))) = Some (number_chars (sym_type (syms k s)) i)"
    "vtri (curr (syms (store_number s i k) s)) = vtri (curr (syms k s))"
    by (simp_all add: e chars_def)
qed

lemma own_sight_same: "own_sight s k k' \<Longrightarrow> (\<And>c. choice_of k s = Some c \<Longrightarrow> has_flag SYMBOL_VALID k c) \<Longrightarrow> same_own s k k'"
  by (simp add: own_sight_def same_own_def)

context callee
begin

lemma range_val_ok:
  assumes "good r s k" and "d \<in> deps k s" and "\<not> sym_is_choice k d"
  shows "\<exists>k'. sym_get_range_val cv d base k = Some (sym_number base k' d, k') \<and> call r s k k' \<and>
    (\<forall>k''. below r s k' k'' \<longrightarrow> sym_number base k'' d = sym_number base k' d)"
proof -
  have d: "r d < r s" by (rule good_deps [OF assms(1,2)])
  obtain k1 where c: "cv d k = Some k1" "call r s k k1" "has_flag SYMBOL_VALID k1 d" using call_own [OF assms(1)] d by blast
  note g1 = good_call [OF assms(1) c(2)] and sc = see_conf [OF call_see [OF c(2)]]
  have "d \<in> deps k1 s" "\<not> sym_is_choice k1 d" using assms(2,3) by (simp_all add: deps_same [OF sc] same_conf_sym [OF sc])
  then obtain x where "chars (val (curr (syms k1 d))) = Some x" using dep_chars [OF g1 _ c(3)] by blast
  moreover have "sym_number base k'' d = sym_number base k1 d" if "below r s k1 k''" for k''
    using below_curr [OF that c(3) d] by (simp add: sym_number_def raw_chars_def same_conf_sym [OF below_conf [OF that]])
  ultimately show ?thesis using c(1,2) by (auto simp: sym_get_range_val_def sym_number_def raw_chars_def)
qed

lemma validate_range_ok:
  assumes "good r s k" and "\<And>c. choice_of k s = Some c \<Longrightarrow> has_flag SYMBOL_VALID k c"
    and "sym_type (syms k s) \<in> {S_INT, S_HEX}" and "chars (val (curr (syms k s))) = Some c"
  shows "\<exists>c' k'. sym_validate_range cv s k = Some k' \<and> step r s k k' \<and> own_sight s k k' \<and>
    chars (val (curr (syms k' s))) = Some c' \<and> vtri (curr (syms k' s)) = vtri (curr (syms k s)) \<and>
    (\<forall>k''. below r s k' k'' \<longrightarrow> ranged_chars k'' s c = c')"
proof -
  define ty where "ty = sym_type (syms k s)"
  define base where "base = value_base ty 10"
  define v where "v = to_int (strtol base c)"
  have vs: "has_flag SYMBOL_VALID k s" using assms(1) by (simp add: good_def)
  obtain res k1 where a: "sym_get_range_prop cv s k = Some (res, k1)" "see r s k k1" "own_sight s k k1"
    "\<forall>k''. below r s k1 k'' \<longrightarrow> active_prop P_RANGE k'' s = map_option (prop_at k'' s) res"
    "\<forall>i. res = Some i \<longrightarrow> i < length (props (syms k s)) \<and> p_type (prop_at k s i) = P_RANGE \<and>
       p_tri (prop_at k1 s i) = condition k1 (prop_at k s i) \<and>
       (\<forall>d\<in>dep_syms (p_visible (prop_at k s i)). has_flag SYMBOL_VALID k1 d)"
    using active_ok [OF assms(1), of P_RANGE, OF insertI2 [OF singletonI], folded sym_get_range_prop_def]
    by (elim exE conjE) (rule that)
  note g1 = see_good [OF assms(1) a(2)] and sc1 = see_conf [OF a(2)]
  have cu: "curr (syms k1 s) = curr (syms k s)" by (rule see_curr [OF a(2) vs])
  have run: "sym_validate_range cv s k =
    (case res of
       None \<Rightarrow> Some k1
     | Some i \<Rightarrow> do {
         (x, y) \<leftarrow> range_syms (prop_at k1 s i);
         (lo, k) \<leftarrow> sym_get_range_val cv x base k1;
         if lo \<le> v then do {
           (hi, k) \<leftarrow> sym_get_range_val cv y base k;
           if v \<le> hi then Some k else Some (store_number s hi k) }
         else Some (store_number s lo k) })"
    using assms(3,4) a(1) cu unfolding sym_validate_range_def Let_def v_def base_def ty_def
    by (cases res) auto
  have ranged: "ranged_chars k'' s c = (case Option.bind (active_prop P_RANGE k'' s) range_syms of
           None \<Rightarrow> c
         | Some (x, y) \<Rightarrow>
             if v < sym_number base k'' x then number_chars ty (sym_number base k'' x)
             else if sym_number base k'' y < v then number_chars ty (sym_number base k'' y)
             else c)" if "same_conf k k''" for k''
    unfolding ranged_chars_def Let_def v_def base_def ty_def same_conf_sym [OF that] ..
  show ?thesis
  proof (cases res)
    case None
    have "ranged_chars k'' s c = c" if b: "below r s k1 k''" for k''
      using ranged [OF same_conf_trans [OF sc1 below_conf [OF b]]] a(4) b None by simp
    then show ?thesis using run None see_step [OF a(2)] a(3) cu assms(4) by auto
  next
    case (Some i)
    then have i: "i < length (props (syms k s))" "p_type (prop_at k s i) = P_RANGE" using a(5) by simp_all
    have "\<forall>p\<in>set (props (syms k s)). p_type p = P_RANGE \<longrightarrow>
        (\<exists>a b. p_expr p = Some (Range a b) \<and> \<not> sym_is_choice k a \<and> \<not> sym_is_choice k b)"
      using assms(3) good_ok [OF assms(1), of s] unfolding sym_ok_def by blast
    moreover have "prop_at k s i \<in> set (props (syms k s))" using i(1) by (simp add: prop_at_def)
    ultimately obtain x y where xy: "p_expr (prop_at k s i) = Some (Range x y)" "\<not> sym_is_choice k x" "\<not> sym_is_choice k y"
      using i(2) by blast
    then have rs: "range_syms (prop_at k s i) = Some (x, y)" by (simp add: range_syms_def)
    note D = prop_value_deps(3) [OF i rs]
    have rs1: "range_syms (prop_at k'' s i) = Some (x, y)" if "same_conf k k''" for k''
      using prop_at_parts(6) [OF that i(1)] rs by simp
    have act: "Option.bind (active_prop P_RANGE k'' s) range_syms = Some (x, y)" if b: "below r s k1 k''" for k''
      using a(4) b Some rs1 [OF same_conf_trans [OF sc1 below_conf [OF b]]] by simp
    have x1: "x \<in> deps k1 s" "\<not> sym_is_choice k1 x" using D xy(2) by (simp_all add: deps_same(5) [OF sc1] same_conf_sym(6) [OF sc1])
    obtain k2 where lo: "sym_get_range_val cv x base k1 = Some (sym_number base k2 x, k2)" "call r s k1 k2"
      "\<forall>k''. below r s k2 k'' \<longrightarrow> sym_number base k'' x = sym_number base k2 x"
      using range_val_ok [OF g1 x1] by blast
    note g2 = good_call [OF g1 lo(2)] and s2 = see_trans [OF assms(1) a(2) call_see [OF lo(2)]]
      and o2 = own_sight_trans [OF a(2,3) own_sight_call [OF g1 lo(2)]]
    note sc2 = see_conf [OF s2]
    have b1: "below r s k1 k''" if "below r s k2 k''" for k''
      by (rule below_trans [OF see_below [OF g1 call_see [OF lo(2)]] that])
    have cu2: "curr (syms k2 s) = curr (syms k s)" by (rule see_curr [OF s2 vs])
    show ?thesis
    proof (cases "sym_number base k2 x \<le> v")
      case False
      note st = store_number_ok [OF g2, of "sym_number base k2 x"]
      have "ranged_chars k'' s c = number_chars ty (sym_number base k2 x)" if b: "below r s (store_number s (sym_number base k2 x) k2) k''" for k''
      proof -
        have b2: "below r s k2 k''" by (rule below_trans [OF step_below [OF g2 st(1)] b])
        show ?thesis using ranged [OF same_conf_trans [OF sc2 below_conf [OF b2]]] act [OF b1 [OF b2]] lo(3) [rule_format, OF b2] False by simp
      qed
      moreover have "sym_validate_range cv s k = Some (store_number s (sym_number base k2 x) k2)"
        using run Some rs1 [OF sc1] lo(1) False by simp
      moreover have "chars (val (curr (syms (store_number s (sym_number base k2 x) k2) s))) = Some (number_chars ty (sym_number base k2 x))"
        "vtri (curr (syms (store_number s (sym_number base k2 x) k2) s)) = vtri (curr (syms k s))"
        using st(3,4) cu2 by (simp_all add: same_conf_sym(2) [OF sc2] ty_def)
      ultimately show ?thesis
        using step_trans [OF assms(1) see_step [OF s2] st(1)] own_sight_trans [OF s2 o2 st(2)] by blast
    next
      case lo_ok: True
      have y2: "y \<in> deps k2 s" "\<not> sym_is_choice k2 y" using D xy(3) by (simp_all add: deps_same(5) [OF sc2] same_conf_sym(6) [OF sc2])
      obtain k3 where hi: "sym_get_range_val cv y base k2 = Some (sym_number base k3 y, k3)" "call r s k2 k3"
        "\<forall>k''. below r s k3 k'' \<longrightarrow> sym_number base k'' y = sym_number base k3 y"
        using range_val_ok [OF g2 y2] by blast
      note g3 = good_call [OF g2 hi(2)] and s3 = see_trans [OF assms(1) s2 call_see [OF hi(2)]]
        and o3 = own_sight_trans [OF s2 o2 own_sight_call [OF g2 hi(2)]]
      note sc3 = see_conf [OF s3]
      have b2: "below r s k2 k''" if "below r s k3 k''" for k''
        by (rule below_trans [OF see_below [OF g2 call_see [OF hi(2)]] that])
      have cu3: "curr (syms k3 s) = curr (syms k s)" by (rule see_curr [OF s3 vs])
      show ?thesis
      proof (cases "v \<le> sym_number base k3 y")
        case True
        have "ranged_chars k'' s c = c" if b: "below r s k3 k''" for k''
          using ranged [OF same_conf_trans [OF sc3 below_conf [OF b]]] act [OF b1 [OF b2 [OF b]]] lo(3) [rule_format, OF b2 [OF b]] hi(3) [rule_format, OF b] lo_ok True
          by simp
        moreover have "sym_validate_range cv s k = Some k3" using run Some rs1 [OF sc1] lo(1) lo_ok hi(1) True by simp
        ultimately show ?thesis using see_step [OF s3] o3 cu3 assms(4) by auto
      next
        case False
        note st = store_number_ok [OF g3, of "sym_number base k3 y"]
        have "ranged_chars k'' s c = number_chars ty (sym_number base k3 y)" if b: "below r s (store_number s (sym_number base k3 y) k3) k''" for k''
        proof -
          have b3: "below r s k3 k''" by (rule below_trans [OF step_below [OF g3 st(1)] b])
          show ?thesis using ranged [OF same_conf_trans [OF sc3 below_conf [OF b3]]] act [OF b1 [OF b2 [OF b3]]] lo(3) [rule_format, OF b2 [OF b3]]
              hi(3) [rule_format, OF b3] lo_ok False by simp
        qed
        moreover have "sym_validate_range cv s k = Some (store_number s (sym_number base k3 y) k3)"
          using run Some rs1 [OF sc1] lo(1) lo_ok hi(1) False by simp
        moreover have "chars (val (curr (syms (store_number s (sym_number base k3 y) k3) s))) = Some (number_chars ty (sym_number base k3 y))"
        "vtri (curr (syms (store_number s (sym_number base k3 y) k3) s)) = vtri (curr (syms k s))"
        using st(3,4) cu3 by (simp_all add: same_conf_sym(2) [OF sc3] ty_def)
      ultimately show ?thesis
        using step_trans [OF assms(1) see_step [OF s3] st(1)] own_sight_trans [OF s3 o3 st(2)] by blast
      qed
    qed
  qed
qed

end

end
