(* ===== verification/KChoice.thy ===== *)
theory KChoice
  imports KValue
begin

text \<open>
  \<open>sym_calc_choice\<close>: the user's choice, then the defaults whose condition holds, then the symbols of the choice in
  their order; the first that is visible is chosen. Each part of the function finds the first visible one of its
  candidates, and what it found stays the first one, because the prompts only depend on symbols calculated before
  and on the choice itself, which has the value \<open>y\<close> then.
\<close>

lemma member_reads:
  assumes "good r s k" and "sym_is_choice k s" and "d \<in> choice_members k s"
  shows "choice_of k d = Some s" and "prompt_deps k d - {s} \<subseteq> deps k s"
  using good_ok [OF assms(1), of s] assms(2,3) by (auto simp: sym_ok_def deps_def)

lemma choice_members_same: "same_conf k k' \<Longrightarrow> choice_members k' s = choice_members k s"
  by (rule deps_same(4))

section \<open>Visibility while the choice is \<open>y\<close>\<close>

lemma calc_agree:
  "\<forall>d\<in>expr_syms e. tri t' d = tri t d \<and> str t' d = str t d \<Longrightarrow> expr_calc t' e = expr_calc t e"
  by (induction e) auto

lemma as_yes_syms [simp]: "syms (as_yes s k) d = (if d = s then (syms k s)\<lparr>curr := (curr (syms k s))\<lparr>vtri := yes\<rparr>\<rparr> else syms k d)"
  by (simp add: as_yes_def)

lemma as_yes_simps [simp]: "modules_val (as_yes s k) = modules_val k" "fixed_props (as_yes s k) d = fixed_props k d"
  by (simp_all add: as_yes_def upd_sym_def fixed_props_def)

lemma view_as_yes:
  assumes "same_conf k k'" and "sym_type (syms k s) \<in> {S_BOOLEAN, S_TRISTATE}" and "vtri (curr (syms k s)) = yes"
    and "d \<noteq> s \<Longrightarrow> curr (syms k' d) = curr (syms k d)"
  shows "tri (view (as_yes s k')) d = tri (view k) d" "str (view (as_yes s k')) d = str (view k) d"
  using assms same_conf_sym(2) [OF assms(1)]
  by (auto simp: view_def sym_get_string_value_def sym_get_tristate_value_def)

lemma visible_as_yes:
  assumes "same_conf k k'" and "sym_type (syms k s) \<in> {S_BOOLEAN, S_TRISTATE}" and "vtri (curr (syms k s)) = yes"
    and "\<forall>d\<in>prompt_deps k x. d \<noteq> s \<longrightarrow> curr (syms k' d) = curr (syms k d)"
  shows "visible_spec (as_yes s k') x = visible_spec k x"
proof -
  have "prompt_fold (as_yes s k') (fixed_props k x) = prompt_fold k (fixed_props k x)"
  proof (rule prompt_fold_cong)
    fix p assume "p \<in> set (fixed_props k x)" "p_text p \<noteq> None"
    then have d: "\<forall>d\<in>dep_syms (p_visible p). d \<noteq> s \<longrightarrow> curr (syms k' d) = curr (syms k d)"
      using assms(4) by (auto simp: prompt_deps_fixed)
    show "condition (as_yes s k') p = condition k p"
    proof (cases "p_visible p")
      case (Some e)
      have "expr_calc (view (as_yes s k')) e = expr_calc (view k) e"
        using d Some view_as_yes [OF assms(1-3)] by (intro calc_agree) (simp add: dep_syms_def)
      then show ?thesis using Some by (simp add: condition_def expr_calc_value_def)
    qed (simp add: condition_def expr_calc_value_def)
  qed
  moreover have "sym_type (syms (as_yes s k') x) = sym_type (syms k x)" by (simp add: same_conf_sym [OF assms(1)])
  ultimately show ?thesis by (simp add: visible_spec_fold sight_spec_def same_conf_sym [OF assms(1)])
qed

section \<open>Finding the first visible candidate\<close>

lemma find_append: "find P (xs @ ys) = (case find P xs of Some x \<Rightarrow> Some x | None \<Rightarrow> find P ys)"
  by (induction xs) simp_all

lemma choice_list_fixed:
  "choice_list k s = (case first_prop P_CHOICE (fixed_props k s) of None \<Rightarrow> [] | Some p \<Rightarrow> list_syms (p_expr p))"
  by (cases "find (\<lambda>p. p_type p = P_CHOICE) (props (syms k s))")
    (simp_all add: choice_list_def sym_get_choice_prop_def first_prop_def fixed_props_def find_map)

lemma default_candidates_fixed: "default_candidates k (props (syms k' s)) = default_candidates k (fixed_props k' s)"
proof -
  have "default_candidates k (map fixed_prop ps) = default_candidates k ps" for ps
    by (induction ps) (simp_all add: default_candidates_def List.map_filter_simps split: option.split)
  then show ?thesis by (simp add: fixed_props_def)
qed

context callee
begin

text \<open>A part returns, and what it returns is in the relation \<open>Q\<close> to all later states.\<close>

definition finds :: "('a \<Rightarrow> kconf \<Rightarrow> bool) \<Rightarrow> (kconf \<Rightarrow> ('a \<times> kconf) option) \<Rightarrow> kconf \<Rightarrow> bool" where
  "finds Q f k \<longleftrightarrow>
     (\<exists>d k'. f k = Some (d, k') \<and> see r s k k' \<and> own_sight s k k' \<and> (\<forall>k''. below r s k' k'' \<longrightarrow> Q d k''))"

definition choosing :: "kconf \<Rightarrow> bool" where
  "choosing k \<longleftrightarrow>
     good r s k \<and> sym_is_choice k s \<and> sym_type (syms k s) \<in> {S_BOOLEAN, S_TRISTATE} \<and> vtri (curr (syms k s)) = yes"

definition seen :: "kconf \<Rightarrow> symbol \<Rightarrow> bool" where
  "seen k d \<longleftrightarrow> visible_spec (as_yes s k) d \<noteq> no"

lemma choosing_good: "choosing k \<Longrightarrow> good r s k"
  by (simp add: choosing_def)

lemma choosing_see:
  assumes "choosing k" and "see r s k k'"
  shows "choosing k'"
proof -
  note g = choosing_good [OF assms(1)] and q = same_conf_sym [OF see_conf [OF assms(2)]]
  have "curr (syms k' s) = curr (syms k s)" using assms(2) g by (simp add: see_def keeps_values_def good_def)
  then show ?thesis using assms(1) see_good [OF g assms(2)] by (simp add: choosing_def q)
qed

lemma finds_ret: "(\<And>k''. below r s k k'' \<Longrightarrow> Q x k'') \<Longrightarrow> finds Q (\<lambda>k. Some (x, k)) k"
  by (simp add: finds_def)

lemma finds_mono:
  assumes "good r s k" and "finds P f k" and "\<And>d k''. below r s k k'' \<Longrightarrow> P d k'' \<Longrightarrow> Q d k''"
  shows "finds Q f k"
proof -
  obtain d k' where f: "f k = Some (d, k')" "see r s k k'" "own_sight s k k'" "\<forall>k''. below r s k' k'' \<longrightarrow> P d k''"
    using assms(2) by (auto simp: finds_def)
  have "Q d k''" if "below r s k' k''" for k''
    using assms(3) [OF below_trans [OF see_below [OF assms(1) f(2)] that]] f(4) that by blast
  then show ?thesis using f(1-3) by (auto simp: finds_def)
qed

lemma finds_bind:
  assumes "choosing k" and "finds P f k"
    and "\<And>x k'. f k = Some (x, k') \<Longrightarrow> see r s k k' \<Longrightarrow> choosing k' \<Longrightarrow> finds (\<lambda>y k''. P x k'' \<longrightarrow> Q y k'') (g x) k'"
  shows "finds Q (\<lambda>k. Option.bind (f k) (\<lambda>(x, k). g x k)) k"
proof -
  obtain x k1 where f: "f k = Some (x, k1)" "see r s k k1" "own_sight s k k1" "\<forall>k''. below r s k1 k'' \<longrightarrow> P x k''"
    using assms(2) by (auto simp: finds_def)
  note c1 = choosing_see [OF assms(1) f(2)]
  obtain y k2 where g: "g x k1 = Some (y, k2)" "see r s k1 k2" "own_sight s k1 k2" "\<forall>k''. below r s k2 k'' \<longrightarrow> P x k'' \<longrightarrow> Q y k''"
    using assms(3) [OF f(1,2) c1] by (auto simp: finds_def)
  have "Q y k''" if "below r s k2 k''" for k''
    using g(4) f(4) that below_trans [OF see_below [OF choosing_good [OF c1] g(2)] that] by blast
  then show ?thesis
    using f(1) g(1) see_trans [OF choosing_good [OF assms(1)] f(2) g(2)] own_sight_trans [OF f(2,3) g(3)]
    by (auto simp: finds_def)
qed

lemma choice_visible_finds:
  assumes "choosing k" and "d \<in> choice_members k s"
  shows "finds (\<lambda>b k''. b \<longleftrightarrow> seen k'' d) (choice_visible cv d) k"
proof -
  have g: "good r s k" "sym_is_choice k s" and ty: "sym_type (syms k s) \<in> {S_BOOLEAN, S_TRISTATE}"
    using assms(1) by (simp_all add: choosing_def)
  note m = member_reads [OF g assms(2)]
  have low: "r x < r s" if "x \<in> prompt_deps k d" "x \<noteq> s" for x using that m(2) good_deps [OF g(1)] by blast
  have "reads k (prompt_deps k d)" unfolding reads_def
  proof (intro ballI conjI impI)
    fix x assume x: "x \<in> prompt_deps k d"
    show "sym_type (syms k s) \<in> {S_BOOLEAN, S_TRISTATE}" by (rule ty)
    show "\<exists>y. x \<in> deps k y" using x by (auto simp: deps_def)
    show "r x < r s" if "x \<noteq> s" by (rule low [OF x that])
  qed
  then obtain k' where k': "sym_calc_visibility cv d k = Some k'" "see r s k k'" "own_sight s k k'"
    "\<forall>x\<in>prompt_deps k d. has_flag SYMBOL_VALID k' x" "visible (syms k' d) = visible_spec k' d"
    using visibility_member [OF g(1) m(1)] by blast
  note c' = choosing_see [OF assms(1) k'(2)] and sc = see_conf [OF k'(2)]
  have "visible_spec (as_yes s k'') d = visible_spec k' d" if b: "below r s k' k''" for k''
  proof (rule visible_as_yes [OF below_conf [OF b]])
    show "sym_type (syms k' s) \<in> {S_BOOLEAN, S_TRISTATE}" "vtri (curr (syms k' s)) = yes" using c' by (simp_all add: choosing_def)
    show "\<forall>x\<in>prompt_deps k' d. x \<noteq> s \<longrightarrow> curr (syms k'' x) = curr (syms k' x)"
      using below_curr [OF b] k'(4) low deps_same(1) [OF sc] by auto
  qed
  then show ?thesis using k'(1-3,5) by (simp add: finds_def choice_visible_def seen_def)
qed

lemma user_choice_finds:
  assumes "choosing k"
  shows "finds (\<lambda>d k''. d = find (seen k'') (user_candidate k s)) (user_choice cv s) k"
proof -
  have "chars (val (sym_def (syms k s) S_DEF_USER)) = None"
    using assms good_ok [of r s k s] by (auto simp: choosing_def sym_ok_def)
  then consider "val (sym_def (syms k s) S_DEF_USER) = Null" | d where "val (sym_def (syms k s) S_DEF_USER) = To d"
    by (cases "val (sym_def (syms k s) S_DEF_USER)") (auto simp: chars_def)
  then show ?thesis
  proof cases
    case 1
    then show ?thesis by (simp add: finds_def user_choice_def user_candidate_def)
  next
    case (2 d)
    then have m: "d \<in> choice_members k s" by (simp add: choice_members_def)
    have "finds (\<lambda>d' k''. d' = find (seen k'') [d])
        (\<lambda>k. Option.bind (choice_visible cv d k) (\<lambda>(b, k). Some (if b then Some d else None, k))) k"
      by (rule finds_bind [OF assms choice_visible_finds [OF assms m]]) (rule finds_ret, simp)
    then show ?thesis using 2 by (simp add: finds_def user_choice_def user_candidate_def)
  qed
qed

lemma first_visible_finds:
  "choosing k \<Longrightarrow> set ds \<subseteq> choice_members k s \<Longrightarrow> finds (\<lambda>d k''. d = find (seen k'') ds) (first_visible cv ds) k"
proof (induction ds arbitrary: k)
  case Nil
  then show ?case by (simp add: finds_def)
next
  case (Cons d ds)
  have "finds (\<lambda>d' k''. d' = find (seen k'') (d # ds))
      (\<lambda>k. Option.bind (choice_visible cv d k) (\<lambda>(b, k). if b then Some (Some d, k) else first_visible cv ds k)) k"
  proof (rule finds_bind [OF Cons.prems(1)])
    show "finds (\<lambda>b k''. b \<longleftrightarrow> seen k'' d) (choice_visible cv d) k" using choice_visible_finds Cons.prems by simp
    fix b k' assume s': "see r s k k'" and c': "choosing k'"
    show "finds (\<lambda>d' k''. (b \<longleftrightarrow> seen k'' d) \<longrightarrow> d' = find (seen k'') (d # ds))
        (\<lambda>k. if b then Some (Some d, k) else first_visible cv ds k) k'"
    proof (cases b)
      case False
      have "finds (\<lambda>d k''. d = find (seen k'') ds) (first_visible cv ds) k'"
        using Cons.IH [OF c'] Cons.prems(2) choice_members_same [OF see_conf [OF s']] by simp
      then show ?thesis using False by (simp add: finds_mono [OF choosing_good [OF c']])
    qed (simp add: finds_def)
  qed
  then show ?case by (simp add: finds_def)
qed

text \<open>The defaults of the choice, at the indices \<open>is\<close>.\<close>

definition defaults_at :: "kconf \<Rightarrow> nat list \<Rightarrow> kconf \<Rightarrow> symbol list" where
  "defaults_at k is k'' = default_candidates k'' (map (prop_at k s) is)"

lemma default_choice_finds:
  "choosing k \<Longrightarrow> \<forall>i\<in>set is. i < length (props (syms k s)) \<Longrightarrow>
   finds (\<lambda>d k''. d = find (seen k'') (defaults_at k is k'')) (default_choice cv s is) k"
proof (induction "is" arbitrary: k)
  case Nil
  then show ?case by (simp add: finds_def defaults_at_def default_candidates_def List.map_filter_simps)
next
  case (Cons i "is")
  have i: "i < length (props (syms k s))" and c: "choosing k" and g: "good r s k"
    using Cons.prems by (simp_all add: choosing_def)
  have at: "defaults_at k' js k'' = defaults_at k js k''" if "same_conf k k'" "\<forall>i\<in>set js. i < length (props (syms k s))" for k' js k''
    unfolding defaults_at_def using that(2)
  proof (induction js)
    case (Cons j js)
    then have "default_candidates k'' (map (prop_at k' s) js) = default_candidates k'' (map (prop_at k s) js)" by simp
    moreover have "p_type (prop_at k' s j) = p_type (prop_at k s j)" "condition k'' (prop_at k' s j) = condition k'' (prop_at k s j)"
      "prop_get_symbol (prop_at k' s j) = prop_get_symbol (prop_at k s j)"
      using prop_at_parts [OF that(1), of j s] Cons.prems by (simp_all add: condition_def)
    ultimately show ?case by (simp add: default_candidates_def List.map_filter_simps split: option.split)
  qed simp
  have rest: "finds (\<lambda>d k''. d = find (seen k'') (defaults_at k is k'')) (default_choice cv s is) k'"
    if "see r s k k'" "choosing k'" for k'
    using Cons.IH [OF that(2)] Cons.prems(2) prop_at_same(2) [OF see_conf [OF that(1)] i] at [OF see_conf [OF that(1)]] by simp
  let ?p = "prop_at k s i"
  show ?case
  proof (cases "p_type ?p = P_DEFAULT")
    case False
    then have "defaults_at k (i # is) k'' = defaults_at k is k''" for k'' by (simp add: defaults_at_def default_candidates_def)
    then show ?thesis using False rest [of k] c by (simp add: finds_def)
  next
    case True
    have p: "?p \<in> set (props (syms k s))" using i by (simp add: prop_at_def)
    then have "prop_get_symbol ?p \<noteq> None" using True c good_ok [OF g, of s] by (auto simp: choosing_def sym_ok_def)
    then obtain d where d: "prop_get_symbol ?p = Some d" by blast
    then have m: "d \<in> choice_members k s" using p True by (auto simp: choice_members_def)
    have D: "dep_syms (p_visible ?p) \<subseteq> deps k s" using prop_value_deps(1) [OF i] True by simp
    have first: "defaults_at k (i # is) k'' = (if condition k'' ?p = no then defaults_at k is k'' else d # defaults_at k is k'')" for k''
      using True d by (simp add: defaults_at_def default_candidates_def List.map_filter_simps)
    have "finds (\<lambda>d k''. d = find (seen k'') (defaults_at k (i # is) k''))
      (\<lambda>k. Option.bind (eval_prop cv s i k) (\<lambda>(t, k). if t = no then default_choice cv s is k
        else do { d \<leftarrow> prop_get_symbol (prop_at k s i);
          (b, k) \<leftarrow> choice_visible cv d k;
          if b then Some (Some d, k) else default_choice cv s is k })) k"
    proof (rule finds_bind [OF c, where P = "\<lambda>t k''. condition k'' ?p = t"])
      obtain t k' where e: "eval_prop cv s i k = Some (t, k')" "see r s k k'" "\<forall>d\<in>dep_syms (p_visible ?p). has_flag SYMBOL_VALID k' d"
        "t = condition k' ?p" "own_sight s k k'"
        using eval_prop_ok [OF g reads_deps [OF g D] _ i] by blast
      have "condition k'' ?p = t" if "below r s k' k''" for k''
        using below_condition [OF see_good [OF g e(2)] that _ e(3)] D deps_same(5) [OF see_conf [OF e(2)]] e(4) by simp
      then show "finds (\<lambda>t k''. condition k'' ?p = t) (eval_prop cv s i) k" using e(1,2,5) by (simp add: finds_def)
    next
      fix t k' assume s': "see r s k k'" and c': "choosing k'"
      note g' = choosing_good [OF c'] and sc = see_conf [OF s']
      show "finds (\<lambda>d k''. condition k'' ?p = t \<longrightarrow> d = find (seen k'') (defaults_at k (i # is) k''))
        (\<lambda>k. if t = no then default_choice cv s is k
          else do { d \<leftarrow> prop_get_symbol (prop_at k s i);
            (b, k) \<leftarrow> choice_visible cv d k;
            if b then Some (Some d, k) else default_choice cv s is k }) k'"
      proof (cases "t = no")
        case True
        then show ?thesis using finds_mono [OF g' rest [OF s' c']] by (simp add: first)
      next
        case False
        have "finds (\<lambda>d' k''. d' = find (seen k'') (d # defaults_at k is k''))
          (\<lambda>k. Option.bind (choice_visible cv d k) (\<lambda>(b, k). if b then Some (Some d, k) else default_choice cv s is k)) k'"
        proof (rule finds_bind [OF c'])
          show "finds (\<lambda>b k''. b \<longleftrightarrow> seen k'' d) (choice_visible cv d) k'"
            using choice_visible_finds [OF c'] m choice_members_same [OF sc] by simp
          fix b k2 assume s2: "see r s k' k2" and c2: "choosing k2"
          show "finds (\<lambda>d' k''. (b \<longleftrightarrow> seen k'' d) \<longrightarrow> d' = find (seen k'') (d # defaults_at k is k''))
            (\<lambda>k. if b then Some (Some d, k) else default_choice cv s is k) k2"
          proof (cases b)
            case False
            show ?thesis using False finds_mono [OF choosing_good [OF c2] rest [OF see_trans [OF g s' s2] c2]] by simp
          qed (simp add: finds_def)
        qed
        moreover have "prop_get_symbol (prop_at k' s i) = Some d" using d prop_at_parts(5) [OF sc i] by simp
        ultimately show ?thesis using False by (auto simp: finds_def first)
      qed
    qed
    then show ?thesis using True by (simp add: finds_def)
  qed
qed

lemma calc_choice_ok:
  assumes "choosing k"
  shows "\<exists>d k'. sym_calc_choice cv s k = Some (d, k') \<and> step r s k k' \<and> own_sight s k k' \<and>
    vtri (curr (syms k' s)) = (if d = None then no else yes) \<and> (\<forall>k''. below r s k' k'' \<longrightarrow> choice_spec k'' s = d)"
proof -
  have g: "good r s k" using assms by (rule choosing_good)
  have tri: "vtri (curr (syms k' s)) = yes" if "see r s k k'" for k'
    using choosing_see [OF assms that] by (simp add: choosing_def)
  obtain d k1 where u: "user_choice cv s k = Some (d, k1)" "see r s k k1" "own_sight s k k1"
    "\<forall>k''. below r s k1 k'' \<longrightarrow> d = find (seen k'') (user_candidate k s)"
    using user_choice_finds [OF assms] by (auto simp: finds_def)
  note c1 = choosing_see [OF assms u(2)] and sc1 = see_conf [OF u(2)]
  have cands: "choice_spec k'' s = (case find (seen k'') (user_candidate k s) of Some d \<Rightarrow> Some d | None \<Rightarrow>
      (case find (seen k'') (defaults_at k1 (prop_indices k1 s) k'') of Some d \<Rightarrow> Some d | None \<Rightarrow>
        find (seen k'') (choice_list k s)))" if b: "below r s k k''" for k''
  proof -
    have sc: "same_conf k k''" by (rule below_conf [OF b])
    have "user_candidate k'' s = user_candidate k s" by (simp add: user_candidate_def same_conf_sym [OF sc])
    moreover have "choice_list k'' s = choice_list k s"
      using same_conf_sym(5) [OF sc, of s] by (simp add: choice_list_fixed)
    moreover have "default_candidates k'' (props (syms k'' s)) = defaults_at k1 (prop_indices k1 s) k''"
    proof -
      have "map (prop_at k1 s) (prop_indices k1 s) = props (syms k1 s)"
        unfolding prop_indices_def prop_at_def by (rule map_nth)
      moreover have "fixed_props k'' s = fixed_props k1 s" using same_conf_sym(5) [OF sc] same_conf_sym(5) [OF sc1] by simp
      ultimately show ?thesis unfolding defaults_at_def by (metis default_candidates_fixed)
    qed
    ultimately show ?thesis by (simp add: choice_spec_def find_append seen_def [abs_def] cong: option.case_cong)
  qed
  show ?thesis
  proof (cases d)
    case (Some x)
    have "choice_spec k'' s = d" if "below r s k1 k''" for k''
      using cands [OF below_trans [OF see_below [OF g u(2)] that]] Some by (simp add: u(4) [rule_format, OF that, symmetric])
    then show ?thesis using u(1-3) see_step tri [OF u(2)] Some by (auto simp: sym_calc_choice_def)
  next
    case d: None
    obtain e k2 where v: "default_choice cv s (prop_indices k1 s) k1 = Some (e, k2)" "see r s k1 k2" "own_sight s k1 k2"
      "\<forall>k''. below r s k2 k'' \<longrightarrow> e = find (seen k'') (defaults_at k1 (prop_indices k1 s) k'')"
      using default_choice_finds [OF c1, of "prop_indices k1 s"] by (auto simp: finds_def prop_indices_def)
    note c2 = choosing_see [OF c1 v(2)] and s2 = see_trans [OF g u(2) v(2)] and o2 = own_sight_trans [OF u(2,3) v(3)]
    have u2: "find (seen k'') (user_candidate k s) = None" if "below r s k2 k''" for k''
      using u(4) below_trans [OF see_below [OF choosing_good [OF c1] v(2)] that] d by simp
    show ?thesis
    proof (cases e)
      case (Some x)
      have "choice_spec k'' s = e" if "below r s k2 k''" for k''
        using cands [OF below_trans [OF see_below [OF g s2] that]] Some
        by (simp add: u2 [OF that] v(4) [rule_format, OF that, symmetric])
      then show ?thesis using d u(1) v(1) s2 o2 see_step tri [OF s2] Some by (auto simp: sym_calc_choice_def)
    next
      case e: None
      have "sym_get_choice_prop k2 s \<noteq> None" using c2 good_ok [of r s k2 s] by (auto simp: choosing_def sym_ok_def)
      then obtain p where p: "sym_get_choice_prop k2 s = Some p" by blast
      then have "set (list_syms (p_expr p)) \<subseteq> choice_members k2 s" by (auto simp: choice_members_def)
      then obtain f k3 where w: "first_visible cv (list_syms (p_expr p)) k2 = Some (f, k3)" "see r s k2 k3" "own_sight s k2 k3"
        "\<forall>k''. below r s k3 k'' \<longrightarrow> f = find (seen k'') (list_syms (p_expr p))"
        using first_visible_finds [OF c2] unfolding finds_def by blast
      note s3 = see_trans [OF g s2 w(2)] and o3 = own_sight_trans [OF s2 o2 w(3)]
      have l: "list_syms (p_expr p) = choice_list k s"
        using p same_conf_sym(5) [OF see_conf [OF s2], of s] choice_list_fixed [of k2 s] choice_list_fixed [of k s]
        by (simp add: choice_list_def [of k2])
      have spec: "choice_spec k'' s = f" if b: "below r s k3 k''" for k''
      proof -
        have b2: "below r s k2 k''" by (rule below_trans [OF see_below [OF choosing_good [OF c2] w(2)] b])
        show ?thesis
          using cands [OF below_trans [OF see_below [OF g s3] b]] e
          by (simp add: u2 [OF b2] v(4) [rule_format, OF b2, symmetric] w(4) [rule_format, OF b, symmetric] l [symmetric])
      qed
      show ?thesis
      proof (cases f)
        case (Some x)
        then show ?thesis using d e u(1) v(1) p w(1) s3 o3 see_step tri [OF s3] spec by (auto simp: sym_calc_choice_def)
      next
        case None
        let ?k = "upd_sym s (\<lambda>x. x\<lparr>curr := (curr x)\<lparr>vtri := no\<rparr>\<rparr>) k3"
        have st: "step r s k3 ?k" by (rule step_own) (simp_all add: fixed_sight)
        have "step r s k ?k" by (rule step_trans [OF g see_step [OF s3] st])
        moreover have "own_sight s k ?k" using o3 by (simp add: own_sight_def)
        moreover have "choice_spec k'' s = None" if "below r s ?k k''" for k''
          using spec [OF below_trans [OF step_below [OF see_good [OF g s3] st] that]] None by simp
        ultimately show ?thesis using d e u(1) v(1) p w(1) None by (simp add: sym_calc_choice_def)
      qed
    qed
  qed
qed

end

end
