(* ===== verification/KCalc.thy ===== *)
theory KCalc
  imports KChoice
begin

text \<open>
  The whole of \<open>sym_calc_value\<close>: with as much fuel as the number of the symbol it returns, the symbol has the
  value its properties specify, and so has every symbol that became valid on the way. What follows for all symbols
  at once: the state is one the expressions of \<open>KExpr\<close> are about.
\<close>

section \<open>One symbol\<close>

context callee
begin

lemma calc_newval_ok:
  assumes "good r s k" and "\<forall>c. choice_of k s = Some c \<longrightarrow> has_flag SYMBOL_VALID k c"
    and "sym_type (syms k s) \<in> five_types" and "v = (if sym_type (syms k s) \<in> {S_INT, S_HEX, S_STRING} then empty_value else no_value)"
  shows "\<exists>v' k' c. calc_newval cv s v k = Some (v', k') \<and> see r s k k' \<and> own_sight s k k' \<and>
    chars (val v') = Some c \<and>
    (\<forall>k''. below r s k' k'' \<longrightarrow> same_own s k k'' \<longrightarrow>
       vtri v' = (if sym_type (syms k s) \<in> {S_BOOLEAN, S_TRISTATE} then tri_spec k'' s else no) \<and>
       (if sym_type (syms k s) \<in> {S_BOOLEAN, S_TRISTATE} then c = ''n'' else c = input_chars k'' s))"
proof (cases "sym_type (syms k s) \<in> {S_BOOLEAN, S_TRISTATE}")
  case True
  then have "sym_get_type k s \<in> {S_BOOLEAN, S_TRISTATE}" by (auto simp: sym_get_type_def Let_def)
  moreover obtain t k' where t: "calc_tristate cv s k = Some (t, k')" "see r s k k'" "own_sight s k k'"
    "\<forall>k''. below r s k' k'' \<longrightarrow> same_own s k k'' \<longrightarrow> tri_spec k'' s = t"
    using calc_tristate_ok [OF assms(1)] assms(2) by blast
  ultimately have "calc_newval cv s v k = Some (v\<lparr>vtri := t\<rparr>, k')" by (simp add: calc_newval_def)
  moreover have "chars (val (v\<lparr>vtri := t\<rparr>)) = Some ''n''" using assms(4) True by (auto simp: no_value_def chars_def)
  ultimately show ?thesis using t(2-4) True
    by (intro exI [of _ "v\<lparr>vtri := t\<rparr>"] exI [of _ k'] exI [of _ "''n''"]) simp
next
  case False
  then have ty: "sym_type (syms k s) \<in> {S_INT, S_HEX, S_STRING}" using assms(3) by (auto simp: five_types_def)
  then have g: "sym_get_type k s = sym_type (syms k s)" by (auto simp: sym_get_type_def Let_def)
  obtain p c k' where p: "calc_chars cv s k = Some (p, k')" "chars p = Some c" "see r s k k'" "own_sight s k k'"
    "\<forall>k''. below r s k' k'' \<longrightarrow> same_own s k k'' \<longrightarrow> input_chars k'' s = c"
    using calc_chars_ok [OF assms(1) ty] by blast
  have "calc_newval cv s v k = Some (v\<lparr>val := p\<rparr>, k')" unfolding calc_newval_def g using ty p(1) by auto
  moreover have "vtri (v\<lparr>val := p\<rparr>) = no" using assms(4) ty by (auto simp: empty_value_def)
  ultimately show ?thesis using p(2-5) False
    by (intro exI [of _ "v\<lparr>val := p\<rparr>"] exI [of _ k'] exI [of _ c]) simp
qed

text \<open>From the default value to the end of the range check.\<close>

lemma store_value_ok:
  assumes "good r s k" and "\<forall>c. choice_of k s = Some c \<longrightarrow> has_flag SYMBOL_VALID k c"
    and "sym_type (syms k s) \<in> five_types" and "v = (if sym_type (syms k s) \<in> {S_INT, S_HEX, S_STRING} then empty_value else no_value)"
  shows "\<exists>k'. do { (v, k) \<leftarrow> calc_newval cv s v k; k \<leftarrow> store_choice cv s v (set_curr s v k); sym_validate_range cv s k } = Some k' \<and>
    step r s k k' \<and> own_sight s k k' \<and>
    (if sym_is_choice k s
     then \<forall>k''. below r s k' k'' \<longrightarrow> same_own s k k'' \<longrightarrow> curr (syms k'' s) = curr (syms k' s) \<longrightarrow> choice_fits k'' s
     else \<forall>k''. below r s k' k'' \<longrightarrow> same_own s k k'' \<longrightarrow>
          vtri (curr (syms k' s)) = (if sym_type (syms k s) \<in> {S_BOOLEAN, S_TRISTATE} then tri_spec k'' s else no) \<and>
          chars (val (curr (syms k' s))) = Some (chars_spec k'' s))"
proof -
  obtain v' k1 c where n: "calc_newval cv s v k = Some (v', k1)" "see r s k k1" "own_sight s k k1" "chars (val v') = Some c"
    "\<forall>k''. below r s k1 k'' \<longrightarrow> same_own s k k'' \<longrightarrow>
       vtri v' = (if sym_type (syms k s) \<in> {S_BOOLEAN, S_TRISTATE} then tri_spec k'' s else no) \<and>
       (if sym_type (syms k s) \<in> {S_BOOLEAN, S_TRISTATE} then c = ''n'' else c = input_chars k'' s)"
    using calc_newval_ok [OF assms] by (elim exE conjE) (rule that)
  define k2 where "k2 = set_curr s v' k1"
  note g1 = see_good [OF assms(1) n(2)]
  have st2: "step r s k1 k2" unfolding k2_def set_curr_def by (rule step_own) (simp_all add: fixed_sight)
  have s2: "step r s k k2" by (rule step_trans [OF assms(1) see_step [OF n(2)] st2])
  note g2 = good_step [OF assms(1) s2]
  have o2: "own_sight s k k2" using n(3) by (simp add: own_sight_def k2_def set_curr_def)
  have sc2: "same_conf k k2" using s2 body_conf by (auto simp: step_def)
  have cu: "curr (syms k2 s) = v'" by (simp add: k2_def set_curr_def)
  have w2: "\<And>c. choice_of k2 s = Some c \<Longrightarrow> has_flag SYMBOL_VALID k2 c"
    using assms(2) same_conf_choice_of [OF sc2] s2 by (auto simp: step_def body_def keeps_values_def)
  have b1: "below r s k1 k''" if "below r s k2 k''" for k'' by (rule below_trans [OF step_below [OF g1 st2] that])
  show ?thesis
  proof (cases "sym_is_choice k2 s")
    case True
    then have ch: "sym_is_choice k s" by (simp add: same_conf_sym(6) [OF sc2])
    then have ty: "sym_type (syms k2 s) \<in> {S_BOOLEAN, S_TRISTATE}"
      using assms(3) good_ok [OF assms(1), of s] by (auto simp: sym_ok_def five_types_def same_conf_sym(2) [OF sc2])
    have v: "sym_validate_range cv s k' = Some k'" if "same_conf k2 k'" for k'
      using ty by (auto simp: sym_validate_range_def same_conf_sym(2) [OF that])
    have tri: "tri_spec k'' s = vtri v'" if "below r s k2 k''" "same_own s k k''" for k''
      using n(5) [rule_format, OF b1 [OF that(1)] that(2)] ty by (auto simp: same_conf_sym(2) [OF sc2])
    show ?thesis
    proof (cases "vtri v' = yes")
      case True
      have "choosing k2" using g2 ty True cu \<open>sym_is_choice k2 s\<close> by (simp add: choosing_def)
      then obtain d k3 where d: "sym_calc_choice cv s k2 = Some (d, k3)" "step r s k2 k3" "own_sight s k2 k3"
        "vtri (curr (syms k3 s)) = (if d = None then no else yes)" "\<forall>k''. below r s k3 k'' \<longrightarrow> choice_spec k'' s = d"
        using calc_choice_ok by blast
      define k4 where "k4 = upd_sym s (\<lambda>x. x\<lparr>curr := (curr x)\<lparr>val := (case d of None \<Rightarrow> Null | Some d \<Rightarrow> To d)\<rparr>\<rparr>) k3"
      have st4: "step r s k3 k4" unfolding k4_def by (rule step_own) (simp_all add: fixed_sight)
      have s4: "step r s k2 k4" by (rule step_trans [OF g2 d(2) st4])
      then have "same_conf k2 k4" using body_conf by (auto simp: step_def)
      then have "sym_validate_range cv s k4 = Some k4" by (rule v)
      moreover have "store_choice cv s v' k2 = Some k4" using d(1) True \<open>sym_is_choice k2 s\<close> by (simp add: store_choice_def k4_def)
      moreover have "own_sight s k k4"
      proof -
        have "choice_of k s = None" using ch good_ok [OF assms(1), of s] by (auto simp: choice_of_def sym_ok_def)
        then show ?thesis using o2 d(3) same_conf_choice_of [OF sc2] by (simp add: own_sight_def k4_def)
      qed
      moreover have "choice_fits k'' s" if "below r s k4 k''" "same_own s k k''" "curr (syms k'' s) = curr (syms k4 s)" for k''
      proof -
        have "tri_spec k'' s = yes" using tri [OF below_trans [OF step_below [OF g2 s4] that(1)] that(2)] True by simp
        moreover have "choice_spec k'' s = d" using d(5) below_trans [OF step_below [OF good_step [OF g2 d(2)] st4] that(1)] by blast
        moreover have "curr (syms k4 s) = \<lparr>val = (case d of None \<Rightarrow> Null | Some d \<Rightarrow> To d), vtri = (if d = None then no else yes)\<rparr>"
          using d(4) by (simp add: k4_def)
        ultimately show ?thesis using that(3) by (simp add: choice_fits_def split: option.split)
      qed
      ultimately show ?thesis using n(1) step_trans [OF assms(1) s2 s4] ch by (simp add: k2_def)
    next
      case False
      then have "choice_fits k'' s" if "below r s k2 k''" "same_own s k k''" "curr (syms k'' s) = curr (syms k2 s)" for k''
        using tri [OF that(1,2)] that(3) cu by (simp add: choice_fits_def)
      moreover have "store_choice cv s v' k2 = Some k2" using False by (simp add: store_choice_def)
      ultimately show ?thesis using n(1) s2 o2 ch v [of k2] by (simp add: k2_def [symmetric])
    qed
  next
    case nc: False
    then have st: "store_choice cv s v' k2 = Some k2" by (simp add: store_choice_def)
    have nk: "\<not> sym_is_choice k s" using nc by (simp add: same_conf_sym(6) [OF sc2])
    have ty2: "sym_type (syms k'' s) = sym_type (syms k s)" if "below r s k2 k''" for k''
      by (simp add: same_conf_sym(2) [OF below_conf [OF that]] same_conf_sym(2) [OF sc2])
    have spec: "vtri v' = (if sym_type (syms k s) \<in> {S_BOOLEAN, S_TRISTATE} then tri_spec k'' s else no)"
      "sym_type (syms k s) \<in> {S_BOOLEAN, S_TRISTATE} \<Longrightarrow> c = ''n''"
      "sym_type (syms k s) \<notin> {S_BOOLEAN, S_TRISTATE} \<Longrightarrow> c = input_chars k'' s"
      if "below r s k2 k''" "same_own s k k''" for k''
      using n(5) [rule_format, OF b1 [OF that(1)] that(2)] by (simp_all split: if_splits)
    show ?thesis
    proof (cases "sym_type (syms k s) \<in> {S_INT, S_HEX}")
      case False
      then have "sym_validate_range cv s k2 = Some k2" by (simp add: sym_validate_range_def same_conf_sym(2) [OF sc2])
      moreover have "chars_spec k'' s = c" if "below r s k2 k''" "same_own s k k''" for k''
        using spec(2,3) [OF that] ty2 [OF that(1)] False assms(3) by (auto simp: chars_spec_def five_types_def)
      ultimately show ?thesis using n(1,4) s2 o2 st cu spec(1) nk by (simp add: k2_def [symmetric])
    next
      case True
      then have ty: "sym_type (syms k2 s) \<in> {S_INT, S_HEX}" by (simp add: same_conf_sym(2) [OF sc2])
      obtain c' k3 where r: "sym_validate_range cv s k2 = Some k3" "step r s k2 k3" "own_sight s k2 k3"
        "chars (val (curr (syms k3 s))) = Some c'" "vtri (curr (syms k3 s)) = vtri (curr (syms k2 s))"
        "\<forall>k''. below r s k3 k'' \<longrightarrow> ranged_chars k'' s c = c'"
        using validate_range_ok [OF g2 w2 ty, of c] n(4) cu by blast
      have b2: "below r s k2 k''" if "below r s k3 k''" for k'' by (rule below_trans [OF step_below [OF g2 r(2)] that])
      have "chars_spec k'' s = c'" if "below r s k3 k''" "same_own s k k''" for k''
        using spec(3) [OF b2 [OF that(1)] that(2)] r(6) [rule_format, OF that(1)] ty2 [OF b2 [OF that(1)]] True
        by (auto simp: chars_spec_def)
      moreover have "own_sight s k k3"
        using o2 r(3) w2 unfolding own_sight_def by auto
      ultimately show ?thesis
        using nk n(1) st cu r(1,4,5) step_trans [OF assms(1) s2 r(2)] spec(1) [OF b2] by (simp add: k2_def [symmetric])
    qed
  qed
qed

end

text \<open>What a call leaves behind.\<close>

definition calculated :: "(symbol \<Rightarrow> nat) \<Rightarrow> symbol \<Rightarrow> kconf \<Rightarrow> kconf \<Rightarrow> bool" where
  "calculated r s k k' \<longleftrightarrow>
     keeps_values UNIV UNIV k k' \<and> settled r k' s \<and>
     (\<forall>y. has_flag SYMBOL_VALID k' y \<longrightarrow> has_flag SYMBOL_VALID k y \<or> r y \<le> r s \<and> settled r k' y)"

definition ready :: "(symbol \<Rightarrow> nat) \<Rightarrow> symbol \<Rightarrow> kconf \<Rightarrow> bool" where
  "ready r s k \<longleftrightarrow> conf_ok r k \<and> (\<forall>y. has_flag SYMBOL_VALID k y \<and> r y < r s \<longrightarrow> settled r k y)"

lemma marked: "keeps_values UNIV UNIV k (set_flag SYMBOL_VALID s k)"
proof -
  have "insert SYMBOL_VALID F - {SYMBOL_VALID, SYMBOL_WRITE, SYMBOL_CHANGED} = F - {SYMBOL_VALID, SYMBOL_WRITE, SYMBOL_CHANGED}" for F
    by blast
  then have "fixed (x\<lparr>flags := insert SYMBOL_VALID (flags x)\<rparr>) = fixed x" for x by (simp add: fixed_def)
  then have "same_conf k (set_flag SYMBOL_VALID s k)" unfolding set_flag_def by (intro same_conf_upd) simp
  then show ?thesis by (auto simp: keeps_values_def set_flag_def has_flag_def same_sight_def)
qed

lemma entered:
  assumes "\<forall>y. sym_ok r k y" and "\<forall>m. modules_sym k = Some m \<longrightarrow> m = s \<or> has_flag SYMBOL_VALID k m"
    and "\<forall>y. has_flag SYMBOL_VALID k y \<and> r y < r s \<longrightarrow> settled r k y" and "\<not> has_flag SYMBOL_VALID k s"
  shows "good r s (set_flag SYMBOL_VALID s k)"
proof -
  let ?k = "set_flag SYMBOL_VALID s k"
  note q = marked [of k s]
  have "settled r ?k y" if "has_flag SYMBOL_VALID ?k y" "r y < r s" for y
  proof (rule settled_above [OF _ all_above [OF q]])
    have "y \<noteq> s" using that(2) by auto
    then show "settled r k y" using assms(3) that by (simp add: set_flag_def has_flag_def)
  qed
  moreover have "sym_ok r ?k y" for y using assms(1) by (intro sym_ok_keeps [OF _ q]) simp_all
  then have "conf_ok r ?k"
    unfolding conf_ok_def using assms(2) by (auto simp: has_flag_def set_flag_def split: option.splits)
  moreover have "\<not> is_constant s" using assms(1,4) by (auto simp: sym_ok_def has_flag_def)
  ultimately show ?thesis by (simp add: good_def has_flag_def set_flag_def)
qed

lemma ready_entered: "ready r s k \<Longrightarrow> \<not> has_flag SYMBOL_VALID k s \<Longrightarrow> good r s (set_flag SYMBOL_VALID s k)"
  by (rule entered) (auto simp: ready_def conf_ok_def has_flag_def split: option.splits)

lemma leave:
  assumes "\<not> has_flag SYMBOL_VALID k s" and "step r s (set_flag SYMBOL_VALID s k) k'" and "settled r k' s"
  shows "calculated r s k k'"
proof -
  let ?k = "set_flag SYMBOL_VALID s k"
  have b: "body s ?k k'" and nw: "new_settled r s ?k k'" using assms(2) by (simp_all add: step_def)
  note e = marked [of k s]
  have sc: "same_conf k ?k" using e by (simp add: keeps_values_def)
  have "keeps_values UNIV UNIV k k'" unfolding keeps_values_def
  proof (intro conjI allI impI)
    show "same_conf k k'" by (rule same_conf_trans [OF sc body_conf [OF b]])
  next
    fix d assume d: "has_flag SYMBOL_VALID k d"
    then have ds: "d \<noteq> s" "has_flag SYMBOL_VALID ?k d" using assms(1) by (auto simp: has_flag_def set_flag_def)
    then show "has_flag SYMBOL_VALID k' d" "curr (syms k' d) = curr (syms k d)"
      using b by (simp_all add: body_def keeps_values_def set_flag_def)
    assume c: "\<forall>c. choice_of k d = Some c \<longrightarrow> has_flag SYMBOL_VALID k c"
    then have "choice_of ?k d \<noteq> Some s" "\<forall>c. choice_of ?k d = Some c \<longrightarrow> has_flag SYMBOL_VALID ?k c"
      using assms(1) e by (auto simp: same_conf_choice_of [OF sc] keeps_values_def)
    then have "same_sight ?k k' d" using b ds by (simp add: body_def keeps_values_def)
    then show "same_sight k k' d" using ds(1) by (simp add: same_sight_def set_flag_def)
  qed
  moreover have "has_flag SYMBOL_VALID k y \<or> r y \<le> r s \<and> settled r k' y" if y: "has_flag SYMBOL_VALID k' y" for y
  proof (cases "y = s")
    case True
    then show ?thesis using assms(3) by simp
  next
    case False
    then show ?thesis using nw y by (auto simp: new_settled_def has_flag_def set_flag_def)
  qed
  ultimately show ?thesis using assms(3) by (simp add: calculated_def)
qed

text \<open>The marks at the end change no value.\<close>

lemma note_change_quiet: "modules_sym k \<noteq> Some s \<Longrightarrow> quiet k (note_change s v k)"
proof -
  assume "modules_sym k \<noteq> Some s"
  moreover have "modules_sym (sym_set_changed s k) = modules_sym k" using quiet_changed [of k s] by (simp add: quiet_def same_conf_def)
  ultimately show ?thesis using quiet_changed [of k s] by (simp add: note_change_def Let_def)
qed

lemma spread_flags_quiet:
  assumes "sym_is_choice k s \<Longrightarrow> sym_get_choice_prop k s \<noteq> None"
  shows "\<exists>k'. spread_flags s k = Some k' \<and> quiet k k'"
proof (cases "sym_is_choice k s")
  case True
  then obtain p where p: "sym_get_choice_prop k s = Some p" using assms by blast
  have "quiet k (fold (pass_flags (flags (syms k s) \<inter> {SYMBOL_CHANGED, SYMBOL_WRITE})) (list_syms (p_expr p)) k)"
    by (rule quiet_fold, rule quiet_pass) blast
  then show ?thesis using True p by (simp add: spread_flags_def)
qed (simp add: spread_flags_def)

lemma settledI:
  assumes "good r s k" and "\<forall>c. choice_of k s = Some c \<longrightarrow> has_flag SYMBOL_VALID k c"
    and "\<And>k'. same_conf k k' \<Longrightarrow> below r s k k' \<Longrightarrow> curr (syms k' s) = curr (syms k s) \<Longrightarrow> same_own s k k' \<Longrightarrow> fits k' s"
  shows "settled r k s"
proof -
  have v: "has_flag SYMBOL_VALID k s" using assms(1) by (simp add: good_def)
  have "fits k' s" if a: "above r s k k'" for k'
  proof (rule assms(3))
    show "same_conf k k'" using a by (simp add: above_def keeps_values_def)
    show "below r s k k'" by (rule above_below [OF a])
    show "curr (syms k' s) = curr (syms k s)" "same_own s k k'"
      using a v assms(2) by (simp_all add: above_def keeps_values_def same_own_def same_sight_def)
  qed
  then show ?thesis using v assms(2) by (simp add: settled_def)
qed

context callee
begin

text \<open>All but the marks and the flags at the end.\<close>

lemma calc_body_parts:
  assumes "good r s (set_flag SYMBOL_VALID s k)" and "\<not> has_flag SYMBOL_VALID k s" and "sym_type (syms k s) \<in> five_types"
  shows "\<exists>k'. calc_body cv s k =
      do { k \<leftarrow> spread_flags s (note_change s (curr (syms k s)) k');
           Some (if has_flag SYMBOL_AUTO k s then clear_flag SYMBOL_WRITE s k else k) } \<and>
    step r s (set_flag SYMBOL_VALID s k) k' \<and> (\<forall>k''. quiet k' k'' \<longrightarrow> settled r k'' s)"
proof -
  define k1 where "k1 = set_flag SYMBOL_VALID s k"
  have g1: "good r s k1" using assms(1) by (simp add: k1_def)
  have nconst: "\<not> is_constant s" using g1 by (simp add: good_def)
  define ty where "ty = sym_type (syms k1 s)"
  have True: "ty \<in> five_types" using assms(3) by (simp add: ty_def k1_def set_flag_def)
  define k2 where "k2 = (if sym_is_choice_value k1 s then k1 else clear_flag SYMBOL_WRITE s k1)"
  have q2: "quiet k1 k2" by (simp add: k2_def quiet_clear_flag)
  have s2: "see r s k1 k2" by (rule call_see [OF quiet_call [OF q2]])
  note g2 = see_good [OF g1 s2]
  obtain k3 where v: "sym_calc_visibility cv s k2 = Some k3" "see r s k2 k3" "\<forall>d\<in>prompt_deps k2 s. has_flag SYMBOL_VALID k3 d"
    "\<forall>k''. below r s k3 k'' \<longrightarrow> visible_spec k'' s = visible (syms k3 s)"
    "sym_is_choice_value k2 s \<or> (\<forall>k''. below r s k3 k'' \<longrightarrow> rev_spec k'' s = rev_tri (syms k3 s))"
    using visibility_own [OF g2] by blast
  note g3 = see_good [OF g2 v(2)] and s3 = see_trans [OF g1 s2 v(2)]
  note sc3 = see_conf [OF s3]
  define new where "new = (if ty \<in> {S_INT, S_HEX, S_STRING} then empty_value else no_value)"
  define k4 where "k4 = set_curr s new k3"
  have st4: "step r s k3 k4" unfolding k4_def set_curr_def by (rule step_own) (simp_all add: fixed_sight)
  note g4 = good_step [OF g3 st4] and s4 = step_trans [OF g1 see_step [OF s3] st4]
  have sc4: "same_conf k1 k4" using s4 body_conf by (auto simp: step_def)
  have ty4: "sym_type (syms k4 s) = ty" by (simp add: same_conf_sym [OF sc4] ty_def)
  have w4: "has_flag SYMBOL_VALID k4 c" if "choice_of k4 s = Some c" for c
  proof -
    have c: "choice_of k2 s = Some c"
      using that by (simp only: same_conf_choice_of [OF sc4] same_conf_choice_of [OF see_conf [OF s2]])
    then have "sym_is_choice_value k2 s" by (auto simp: choice_of_def split: if_splits)
    note this c
    then have "c \<in> prompt_deps k2 s" using good_choice [OF g2] by auto
    then show ?thesis using v(3) by (auto simp: k4_def set_curr_def has_flag_def)
  qed
  obtain k5 where w: "do { (v, k) \<leftarrow> calc_newval cv s new k4; k \<leftarrow> store_choice cv s v (set_curr s v k); sym_validate_range cv s k } = Some k5"
    "step r s k4 k5" "own_sight s k4 k5"
    "if sym_is_choice k4 s
     then \<forall>k''. below r s k5 k'' \<longrightarrow> same_own s k4 k'' \<longrightarrow> curr (syms k'' s) = curr (syms k5 s) \<longrightarrow> choice_fits k'' s
     else \<forall>k''. below r s k5 k'' \<longrightarrow> same_own s k4 k'' \<longrightarrow>
        vtri (curr (syms k5 s)) = (if sym_type (syms k4 s) \<in> {S_BOOLEAN, S_TRISTATE} then tri_spec k'' s else no) \<and>
        chars (val (curr (syms k5 s))) = Some (chars_spec k'' s)"
  proof -
    have "\<forall>c. choice_of k4 s = Some c \<longrightarrow> has_flag SYMBOL_VALID k4 c" "sym_type (syms k4 s) \<in> five_types"
      "new = (if sym_type (syms k4 s) \<in> {S_INT, S_HEX, S_STRING} then empty_value else no_value)"
      using w4 True by (simp_all add: ty4 new_def)
    then show thesis using store_value_ok [OF g4] that by blast
  qed
  note g5 = good_step [OF g4 w(2)] and s5 = step_trans [OF g1 s4 w(2)]
  have run: "calc_body cv s k =
    do { k \<leftarrow> spread_flags s (note_change s (curr (syms k s)) k5);
         Some (if has_flag SYMBOL_AUTO k s then clear_flag SYMBOL_WRITE s k else k) }"
  proof -
    have f: "ty \<in> {S_INT, S_HEX, S_STRING, S_BOOLEAN, S_TRISTATE}" using True by (simp add: five_types_def)
    have c: "curr (syms k s) = curr (syms k1 s)" by (simp add: k1_def set_flag_def)
    have "calc_body cv s k = do {
        k \<leftarrow> do { (v, k) \<leftarrow> calc_newval cv s new k4; k \<leftarrow> store_choice cv s v (set_curr s v k); sym_validate_range cv s k };
        k \<leftarrow> spread_flags s (note_change s (curr (syms k1 s)) k);
        Some (if has_flag SYMBOL_AUTO k s then clear_flag SYMBOL_WRITE s k else k) }"
      using f assms(2) v(1)
      by (elim insertE emptyE)
        (simp_all add: calc_body_def Let_def k1_def [symmetric] ty_def [symmetric] k2_def [symmetric] new_def
          k4_def Option.bind_assoc split_def cong: if_cong)
    then show ?thesis unfolding w(1) c by simp
  qed
  have "settled r k8 s" if q8: "quiet k5 k8" for k8
  proof -
    have c8: "call r s k5 k8" by (rule quiet_call [OF q8])
    note g8 = good_call [OF g5 c8]
    have s48: "step r s k4 k8" by (rule step_trans [OF g4 w(2) call_step [OF c8]])
    have sc48: "same_conf k4 k8" using s48 body_conf by (auto simp: step_def)
    have own: "same_own s k4 k8"
      using w(3) w4 quiet_parts(1,2) [OF q8] by (simp add: own_sight_def same_own_def)
    show "settled r k8 s"
    proof (rule settledI [OF g8])
      show "\<forall>c. choice_of k8 s = Some c \<longrightarrow> has_flag SYMBOL_VALID k8 c"
        using w4 same_conf_choice_of [OF sc48] s48 by (auto simp: step_def body_def keeps_values_def)
      fix k'' assume k'': "same_conf k8 k''" "below r s k8 k''" "curr (syms k'' s) = curr (syms k8 s)" "same_own s k8 k''"
      have b5: "below r s k5 k''" by (rule below_trans [OF step_below [OF g5 call_step [OF c8]] k''(2)])
      have b3: "below r s k3 k''"
        by (rule below_trans [OF step_below [OF g3 step_trans [OF g3 st4 s48]] k''(2)])
      have o4: "same_own s k4 k''" using own k''(4) by (simp add: same_own_def)
      have o3: "visible (syms k'' s) = visible (syms k3 s)" "rev_tri (syms k'' s) = rev_tri (syms k3 s)"
        using o4 by (simp_all add: same_own_def k4_def set_curr_def)
      have cv2: "sym_is_choice_value k'' s = sym_is_choice_value k2 s" "sym_is_choice k'' s = sym_is_choice k4 s"
        using same_conf_sym(6) [OF k''(1)] same_conf_sym(6) [OF sc48] same_conf_sym(6) [OF sc4]
          same_conf_sym(6) [OF see_conf [OF s2]] by simp_all
      have "visible (syms k'' s) = visible_spec k'' s" using v(4) b3 o3 by simp
      moreover have "rev_tri (syms k'' s) = rev_spec k'' s"
      proof (cases "sym_is_choice_value k2 s")
        case True
        then show ?thesis using cv2 by (simp add: rev_spec_def)
      next
        case False
        then show ?thesis using v(5) b3 o3 by simp
      qed
      moreover have "sym_type (syms k'' s) = ty"
        by (simp add: same_conf_sym(2) [OF k''(1)] same_conf_sym(2) [OF sc48] ty4)
      moreover have "curr (syms k'' s) = curr (syms k5 s)" using k''(3) quiet_parts(4) [OF q8] by simp
      ultimately show "fits k'' s"
        using nconst True w(4) b5 o4 cv2(2) ty4 by (auto simp: fits_def)
    qed
  qed
  then show ?thesis using run s5 unfolding k1_def by blast
qed

text \<open>A symbol of another type.\<close>

lemma calc_body_untyped:
  assumes "good r s (set_flag SYMBOL_VALID s k)" and "\<not> has_flag SYMBOL_VALID k s" and "sym_type (syms k s) \<notin> five_types"
  shows "\<exists>k'. calc_body cv s k = Some k' \<and> step r s (set_flag SYMBOL_VALID s k) k' \<and> settled r k' s"
proof -
  define k1 where "k1 = set_flag SYMBOL_VALID s k"
  have g1: "good r s k1" using assms(1) by (simp add: k1_def)
  have nconst: "\<not> is_constant s" using g1 by (simp add: good_def)
  define ty where "ty = sym_type (syms k1 s)"
  have False: "ty \<notin> five_types" using assms(3) by (simp add: ty_def k1_def set_flag_def)
  define k' where "k' = set_curr s \<lparr>val = name_pointer k1 s, vtri = no\<rparr> k1"
  have st: "step r s k1 k'" unfolding k'_def set_curr_def by (rule step_own) (simp_all add: fixed_sight)
  note g' = good_step [OF g1 st]
  have sc: "same_conf k1 k'" using st body_conf by (auto simp: step_def)
  have "choice_of k1 s = None"
    using False good_ok [OF g1, of s] by (auto simp: choice_of_def sym_ok_def ty_def five_types_def)
  then have "choice_of k' s = None" by (simp only: same_conf_choice_of [OF sc])
  then have "settled r k' s"
  proof (intro settledI [OF g'])
    fix k'' assume k'': "same_conf k' k''" "curr (syms k'' s) = curr (syms k' s)"
    have "sym_type (syms k'' s) = ty" "name_pointer k'' s = name_pointer k1 s"
      by (simp_all add: same_conf_sym [OF k''(1)] same_conf_sym [OF sc] ty_def)
    then show "fits k'' s" using nconst False k''(2) by (simp add: fits_def k'_def set_curr_def)
  qed simp
  moreover have "calc_body cv s k = Some k'"
    using assms(2) False by (simp add: calc_body_def Let_def k1_def k'_def ty_def five_types_def)
  ultimately show ?thesis using st unfolding k1_def by blast
qed

lemma calc_body_ok:
  assumes "ready r s k" and "\<not> has_flag SYMBOL_VALID k s"
  shows "\<exists>k'. calc_body cv s k = Some k' \<and> calculated r s k k'"
proof (cases "sym_type (syms k s) \<in> five_types")
  case False
  then show ?thesis
    using calc_body_untyped [OF ready_entered [OF assms] assms(2)] leave [OF assms(2)] by blast
next
  case True
  note g = ready_entered [OF assms]
  obtain k1 where k1: "calc_body cv s k =
      do { k \<leftarrow> spread_flags s (note_change s (curr (syms k s)) k1);
           Some (if has_flag SYMBOL_AUTO k s then clear_flag SYMBOL_WRITE s k else k) }"
    "step r s (set_flag SYMBOL_VALID s k) k1" "\<forall>k''. quiet k1 k'' \<longrightarrow> settled r k'' s"
    using calc_body_parts [OF g assms(2) True] by (elim exE conjE) (rule that)
  note g1 = good_step [OF g k1(2)]
  define k2 where "k2 = note_change s (curr (syms k s)) k1"
  have "modules_sym k1 \<noteq> Some s"
  proof -
    have "same_conf (set_flag SYMBOL_VALID s k) k1" using k1(2) body_conf by (auto simp: step_def)
    then have "modules_sym k1 = modules_sym k" by (simp add: same_conf_sym set_flag_def)
    then show ?thesis using assms by (auto simp: ready_def conf_ok_def has_flag_def)
  qed
  then have q2: "quiet k1 k2" unfolding k2_def by (rule note_change_quiet)
  have "sym_get_choice_prop k2 s \<noteq> None" if "sym_is_choice k2 s"
    using that good_call [OF g1 quiet_call [OF q2]] good_ok by (auto simp: sym_ok_def)
  then obtain k3 where k3: "spread_flags s k2 = Some k3" "quiet k2 k3" using spread_flags_quiet by blast
  define k4 where "k4 = (if has_flag SYMBOL_AUTO k3 s then clear_flag SYMBOL_WRITE s k3 else k3)"
  have "quiet k3 k4" by (simp add: k4_def quiet_clear_flag)
  then have q: "quiet k1 k4" by (rule quiet_trans [OF q2 quiet_trans [OF k3(2)]])
  then have "settled r k4 s" using k1(3) by blast
  moreover have "step r s (set_flag SYMBOL_VALID s k) k4" by (rule step_trans [OF g k1(2) call_step [OF quiet_call [OF q]]])
  moreover have "calc_body cv s k = Some k4" using k1(1) k3(1) by (simp add: k2_def [symmetric] k4_def)
  ultimately show ?thesis using leave [OF assms(2)] by blast
qed

end

section \<open>The recursion\<close>

lemma valid_returns: "has_flag SYMBOL_VALID k s \<Longrightarrow> sym_calc_value (Suc n) s k = Some k"
  by (simp add: calc_body_def)

lemma good_ready: "good r s k \<Longrightarrow> r x < r s \<Longrightarrow> ready r x k"
  by (auto simp: good_def ready_def)

lemma calculated_call: "calculated r x k k' \<Longrightarrow> r x < r s \<Longrightarrow> call r s k k'"
  by (auto simp: calculated_def call_def new_settled_def)

text \<open>Fuel above the number of the symbol is enough for the calls the calculation makes.\<close>

lemma fuel_callee: "r s < n \<Longrightarrow> callee (sym_calc_value n) r s"
proof (induction n arbitrary: s)
  case (Suc n)
  show ?case
  proof
    fix k assume "has_flag SYMBOL_VALID k s"
    then show "sym_calc_value (Suc n) s k = Some k" by (rule valid_returns)
  next
    fix k x assume g: "good r s k" and x: "r x < r s"
    then have "r x < n" using Suc.prems by simp
    note c = callee.calc_body_ok [OF Suc.IH [OF this] good_ready [OF g x]]
    show "\<exists>k'. sym_calc_value (Suc n) x k = Some k' \<and> call r s k k' \<and> has_flag SYMBOL_VALID k' x"
    proof (cases "has_flag SYMBOL_VALID k x")
      case True
      then show ?thesis using valid_returns by simp
    next
      case False
      then obtain k' where "calc_body (sym_calc_value n) x k = Some k'" "calculated r x k k'" using c by blast
      then show ?thesis using calculated_call [of r x k k' s] x by (simp add: calculated_def settled_def)
    qed
  qed
qed simp

interpretation calc: callee "sym_calc_value (Suc (r s + n))" r s for r s n
  by (rule fuel_callee) simp

lemma sym_calc_value_ok:
  assumes "ready r s k" and "has_flag SYMBOL_VALID k s \<longrightarrow> settled r k s" and "r s + 2 \<le> n"
  shows "\<exists>k'. sym_calc_value n s k = Some k' \<and> calculated r s k k'"
proof -
  define m where "m = n - (r s + 2)"
  have n: "n = Suc (Suc (r s + m))" using assms(3) by (simp add: m_def)
  show ?thesis
  proof (cases "has_flag SYMBOL_VALID k s")
    case True
    then have "calculated r s k k" using assms(2) by (simp add: calculated_def)
    then show ?thesis unfolding n using valid_returns [OF True] by blast
  next
    case False
    then show ?thesis unfolding n using calc.calc_body_ok [OF assms(1)] by simp
  qed
qed

text \<open>A state in which every valid symbol has its value for good.\<close>

definition sound :: "(symbol \<Rightarrow> nat) \<Rightarrow> kconf \<Rightarrow> bool" where
  "sound r k \<longleftrightarrow> conf_ok r k \<and> (\<forall>y. has_flag SYMBOL_VALID k y \<longrightarrow> settled r k y)"

lemma sound_fits: "sound r k \<Longrightarrow> has_flag SYMBOL_VALID k y \<Longrightarrow> fits k y"
  unfolding sound_def using settled_fits by blast

lemma calculated_sound:
  assumes "sound r k" and "calculated r s k k'"
  shows "sound r k'"
proof -
  have q: "keeps_values UNIV UNIV k k'" using assms(2) by (simp add: calculated_def)
  have "settled r k' y" if "has_flag SYMBOL_VALID k y" for y
    using settled_above [OF _ all_above [OF q]] assms(1) that by (simp add: sound_def)
  then show ?thesis using assms conf_ok_keeps [OF _ q] by (auto simp: sound_def calculated_def)
qed

lemma calc_value_calculated:
  assumes "sound r k"
  shows "\<exists>k'. calc_value s k = Some k' \<and> calculated r s k k'"
  unfolding calc_value_def
proof (rule sym_calc_value_ok)
  show "ready r s k" "has_flag SYMBOL_VALID k s \<longrightarrow> settled r k s" using assms by (simp_all add: sound_def ready_def)
  have "sym_ok r k s" using assms by (simp add: sound_def conf_ok_def)
  then show "r s + 2 \<le> length (hashed k) + 2" by (simp add: sym_ok_def)
qed

end
