(* ===== verification/KSettle.thy ===== *)
theory KSettle
  imports KCalc
begin

text \<open>
  The configuration as the user of the tool sees it: every change makes all symbols calculate again
  (\<open>sym_clear_all_valid\<close>), a configuration of the right shape (\<open>shaped\<close>) is \<open>sound\<close> after that, and calculating a symbol
  keeps it so. A sound configuration has for every valid symbol the value its properties specify; what follows for
  \<open>select\<close>, for types and for ranges is here too.
\<close>

section \<open>A new start\<close>

text \<open>
  \<open>sym_clear_all_valid\<close> makes the hashed symbols calculate again and calculates the modules symbol. The value of
  that one is used in the visibility of the tristate symbols, so the symbols it depends on must not be tristate;
  \<open>conf_parse\<close> makes it boolean with the symbol \<open>MODULES\<close> as default.
\<close>

definition modules_ok :: "(symbol \<Rightarrow> nat) \<Rightarrow> kconf \<Rightarrow> symbol \<Rightarrow> bool" where
  "modules_ok r k m \<longleftrightarrow>
     m \<in> set (hashed k) \<and> sym_type (syms k m) = S_BOOLEAN \<and> \<not> sym_is_choice k m \<and> choice_of k m = None \<and>
     (\<forall>y. r y \<le> r m \<longrightarrow> sym_type (syms k y) \<noteq> S_TRISTATE)"

definition shaped :: "(symbol \<Rightarrow> nat) \<Rightarrow> kconf \<Rightarrow> bool" where
  "shaped r k \<longleftrightarrow>
     (\<forall>s. sym_ok r k s) \<and> (case modules_sym k of None \<Rightarrow> True | Some m \<Rightarrow> modules_ok r k m) \<and>
     (\<forall>s. is_constant s \<longrightarrow> s \<notin> set (hashed k) \<and> choice_of k s = None) \<and>
     (\<forall>s. has_flag SYMBOL_VALID k s \<longrightarrow> is_constant s \<or> s \<in> set (hashed k)) \<and>
     (\<forall>s\<in>set (hashed k). sym_type (syms k s) \<noteq> S_OTHER)"

lemma constant_settled:
  assumes "has_flag SYMBOL_VALID k s" and "is_constant s" and "chars (val (curr (syms k s))) \<noteq> None" and "choice_of k s = None"
  shows "settled r k s"
  using assms by (auto simp: settled_def fits_def above_def keeps_values_def)

text \<open>Another value of \<open>modules_val\<close>.\<close>

definition with_modules :: "tristate \<Rightarrow> kconf \<Rightarrow> kconf" where
  "with_modules t k = k\<lparr>modules_val := t\<rparr>"

lemma with_modules_simps [simp]:
  "syms (with_modules t k) = syms k" "hashed (with_modules t k) = hashed k" "symbol_hash (with_modules t k) = symbol_hash k"
  "modules_sym (with_modules t k) = modules_sym k" "modules_val (with_modules t k) = t"
  "has_flag fl (with_modules t k) s = has_flag fl k s" "choice_of (with_modules t k) s = choice_of k s"
  "view (with_modules t k) = view k" "chosen (with_modules t k) s = chosen k s"
  "prompt_deps (with_modules t k) s = prompt_deps k s" "deps (with_modules t k) s = deps k s"
  "choice_members (with_modules t k) s = choice_members k s" "sym_get_choice_prop (with_modules t k) s = sym_get_choice_prop k s"
  "name_pointer (with_modules t k) s = name_pointer k s"
  by (simp_all add: with_modules_def hashed_def has_flag_def choice_of_def sym_get_choice_prop_def view_def name_pointer_def
      sym_get_string_value_def sym_get_tristate_value_def chosen_def prompt_deps_def prompts_def deps_def rev_deps_def
      value_deps_def choice_members_def cong: option.case_cong if_cong)

lemma with_modules_sym_ok [simp]: "sym_ok r (with_modules t k) s = sym_ok r k s"
  by (simp add: sym_ok_def)

lemma with_modules_conf_ok [simp]: "conf_ok r (with_modules t k) = conf_ok r k"
  by (simp add: conf_ok_def cong: option.case_cong)

lemma with_modules_choice: "choice_spec (with_modules t k) s = choice_spec k s"
proof -
  have as: "as_yes s (with_modules t k) = with_modules t (as_yes s k)"
    by (simp add: with_modules_def as_yes_def upd_sym_def)
  have c: "condition (with_modules t k) = condition k" for k by (simp add: condition_def fun_eq_iff)
  have "visible_spec (with_modules t k) d = no \<longleftrightarrow> visible_spec k d = no" for k d
    by (simp add: visible_spec_def prompts_def c Let_def)
  then show ?thesis
    by (simp add: choice_spec_def as user_candidate_def default_candidates_def choice_list_def c)
qed

lemma with_modules_fits:
  assumes "is_constant s \<or> sym_type (syms k s) \<noteq> S_TRISTATE"
  shows "fits (with_modules t k) s = fits k s"
proof (cases "is_constant s")
  case True
  then show ?thesis by (simp add: fits_def)
next
  case False
  then have ty: "sym_type (syms k s) \<noteq> S_TRISTATE" using assms by simp
  have c: "condition (with_modules t k) = condition k" by (simp add: condition_def fun_eq_iff)
  have g: "sym_get_type (with_modules t k) s = sym_get_type k s" using ty by (simp add: sym_get_type_def Let_def)
  have a: "active_prop ty (with_modules t k) s = active_prop ty k s" for ty by (simp add: active_prop_def c)
  have "visible_spec (with_modules t k) s = visible_spec k s" using ty by (simp add: visible_spec_def prompts_def c)
  moreover have "rev_spec (with_modules t k) s = rev_spec k s" by (simp add: rev_spec_def g cong: option.case_cong)
  moreover have u: "user_visible (with_modules t k) s = user_visible k s" by (simp add: user_visible_def)
  moreover have "tri_spec (with_modules t k) s = tri_spec k s"
    by (simp add: tri_spec_def g u default_tri_def a c or_rev_def cong: option.case_cong if_cong)
  moreover have "chars_spec (with_modules t k) s = chars_spec k s"
    by (simp add: chars_spec_def ranged_chars_def input_chars_def a u sym_number_def raw_chars_def cong: option.case_cong if_cong split: symbol_type.split)
  ultimately show ?thesis by (simp add: fits_def choice_fits_def with_modules_choice)
qed

lemma with_modules_settled:
  assumes "settled r k s" and "is_constant s \<or> sym_type (syms k s) \<noteq> S_TRISTATE"
  shows "settled r (with_modules t k) s"
proof -
  have "fits k' s" if a: "above r s (with_modules t k) k'" for k'
  proof -
    have c: "same_conf (with_modules t k) k'" using a by (simp add: above_def keeps_values_def)
    have "above r s k (with_modules (modules_val k) k')"
      using a by (simp add: above_def keeps_values_def same_conf_def same_sight_def)
    then have "fits (with_modules (modules_val k) k') s" using assms(1) by (simp add: settled_def)
    then show ?thesis using assms(2) same_conf_sym(2) [OF c, of s] by (simp add: with_modules_fits)
  qed
  then show ?thesis using assms(1) by (simp add: settled_def)
qed

text \<open>The calculation of the modules symbol.\<close>

lemma quiet_all_changed: "quiet k (sym_set_all_changed k)"
  unfolding sym_set_all_changed_def each_symbol_def by (rule quiet_fold) (simp add: quiet_changed)

lemma note_change_modules: "\<exists>q t. quiet k q \<and> note_change s v k = with_modules t q"
proof (cases "v = curr (syms k s)")
  case True
  then have "note_change s v k = with_modules (modules_val k) k" by (simp add: note_change_def with_modules_def)
  then show ?thesis by (intro exI [of _ k] exI [of _ "modules_val k"]) simp
next
  case False
  let ?q = "sym_set_all_changed (sym_set_changed s k)"
  have "quiet k ?q" by (rule quiet_trans [OF quiet_changed quiet_all_changed])
  moreover have "note_change s v k = with_modules (vtri (curr (syms ?q s))) ?q \<or>
      note_change s v k = with_modules (modules_val (sym_set_changed s k)) (sym_set_changed s k)"
    using False by (simp add: note_change_def Let_def with_modules_def)
  ultimately show ?thesis using quiet_changed [of k s] by blast
qed

lemma with_modules_flag: "clear_flag fl s (with_modules t k) = with_modules t (clear_flag fl s k)"
  by (simp add: with_modules_def clear_flag_def upd_sym_def)

lemma modules_body:
  assumes shape: "\<forall>y. sym_ok r k y" and m: "modules_sym k = Some m" "modules_ok r k m" "\<not> has_flag SYMBOL_VALID k m"
    and valid: "\<forall>y. has_flag SYMBOL_VALID k y \<longrightarrow> is_constant y \<and> settled r k y"
  shows "\<exists>q t. sym_calc_value (Suc (Suc (r m + n))) m k = Some (with_modules t q) \<and> keeps_values UNIV UNIV k q \<and>
    sound r (with_modules t q) \<and> has_flag SYMBOL_VALID q m"
proof -
  have g: "good r m (set_flag SYMBOL_VALID m k)" using assms by (intro entered) auto
  have "sym_type (syms k m) \<in> five_types" using m(2) by (simp add: modules_ok_def five_types_def)
  note parts = calc.calc_body_parts [OF g m(3) this, of n, folded sym_calc_value.simps(2)]
  obtain k1 where k1: "sym_calc_value (Suc (Suc (r m + n))) m k =
      do { k \<leftarrow> spread_flags m (note_change m (curr (syms k m)) k1);
           Some (if has_flag SYMBOL_AUTO k m then clear_flag SYMBOL_WRITE m k else k) }"
    "step r m (set_flag SYMBOL_VALID m k) k1" "\<forall>k''. quiet k1 k'' \<longrightarrow> settled r k'' m"
    using parts by (elim exE conjE) (rule that)
  obtain q t where q: "quiet k1 q" "note_change m (curr (syms k m)) k1 = with_modules t q"
    using note_change_modules by blast
  note g1 = good_step [OF g k1(2)]
  have sc: "same_conf (set_flag SYMBOL_VALID m k) k1" using k1(2) body_conf by (auto simp: step_def)
  have sc': "same_conf k q"
    using marked [of k m] sc quiet_parts(5) [OF q(1)] by (auto simp: keeps_values_def intro: same_conf_trans)
  have "\<not> sym_is_choice q m" using m(2) by (simp add: modules_ok_def same_conf_sym(6) [OF sc'])
  then have "spread_flags m (with_modules t q) = Some (with_modules t q)" by (simp add: spread_flags_def)
  moreover define q' where "q' = (if has_flag SYMBOL_AUTO q m then clear_flag SYMBOL_WRITE m q else q)"
  ultimately have run: "sym_calc_value (Suc (Suc (r m + n))) m k = Some (with_modules t q')"
    using k1(1) q(2) by (simp add: with_modules_flag)
  have "quiet q q'" by (simp add: q'_def quiet_clear_flag)
  then have q': "quiet k1 q'" by (rule quiet_trans [OF q(1)])
  have st: "step r m (set_flag SYMBOL_VALID m k) q'" by (rule step_trans [OF g k1(2) call_step [OF quiet_call [OF q']]])
  have c: "calculated r m k q'" using leave [OF m(3) st] k1(3) q' by blast
  then have k: "keeps_values UNIV UNIV k q'" by (simp add: calculated_def)
  have "settled r q' y \<and> (is_constant y \<or> sym_type (syms q' y) \<noteq> S_TRISTATE)" if "has_flag SYMBOL_VALID q' y" for y
  proof (cases "has_flag SYMBOL_VALID k y")
    case True
    then show ?thesis using valid settled_above [OF _ all_above [OF k]] by blast
  next
    case False
    then have "r y \<le> r m" "settled r q' y" using c that by (auto simp: calculated_def)
    moreover from this(1) have "sym_type (syms q' y) \<noteq> S_TRISTATE"
      using m(2) k same_conf_sym(2) [of k q' y] by (simp add: modules_ok_def keeps_values_def)
    ultimately show ?thesis by simp
  qed
  moreover have "conf_ok r q'" using good_step [OF g st] by (simp add: good_def)
  ultimately have "sound r (with_modules t q')" by (simp add: sound_def with_modules_settled)
  moreover have "has_flag SYMBOL_VALID q' m" using c by (simp add: calculated_def settled_def)
  ultimately show ?thesis using run k by blast
qed

text \<open>All of \<open>sym_clear_all_valid\<close>.\<close>

lemma cleared_syms:
  "syms (fold (\<lambda>s k. if sym_type (syms k s) = S_OTHER then k else clear_flag fl s k) xs k) y =
     (if y \<in> set xs \<and> sym_type (syms k y) \<noteq> S_OTHER then (syms k y)\<lparr>flags := flags (syms k y) - {fl}\<rparr> else syms k y)"
  by (induction xs arbitrary: k) (auto simp: clear_flag_def upd_sym_def)

lemma cleared_rest:
  "symbol_hash (fold (\<lambda>s k. if sym_type (syms k s) = S_OTHER then k else clear_flag fl s k) xs k) = symbol_hash k"
  "modules_sym (fold (\<lambda>s k. if sym_type (syms k s) = S_OTHER then k else clear_flag fl s k) xs k) = modules_sym k"
  "modules_val (fold (\<lambda>s k. if sym_type (syms k s) = S_OTHER then k else clear_flag fl s k) xs k) = modules_val k"
  by (induction xs arbitrary: k) (simp_all add: clear_flag_def)

lemma clear_all_valid_sound:
  assumes "shaped r k"
  shows "\<exists>k'. sym_clear_all_valid k = Some k' \<and> sound r k' \<and> modules_sym k' = modules_sym k \<and>
    (\<forall>s. fixed (syms k' s) = fixed (syms k s))"
proof -
  define k0 where "k0 = sym_add_change_count 1 (each_symbol (clear_flag SYMBOL_VALID) k)"
  have s0: "syms k0 y = (if y \<in> set (hashed k) \<and> sym_type (syms k y) \<noteq> S_OTHER
      then (syms k y)\<lparr>flags := flags (syms k y) - {SYMBOL_VALID}\<rparr> else syms k y)" for y
    by (simp add: k0_def sym_add_change_count_def sym_set_change_count_def each_symbol_def cleared_syms)
  have "F - {SYMBOL_VALID} - {SYMBOL_VALID, SYMBOL_WRITE, SYMBOL_CHANGED} = F - {SYMBOL_VALID, SYMBOL_WRITE, SYMBOL_CHANGED}" for F
    by blast
  then have "fixed (syms k0 y) = fixed (syms k y)" for y
    unfolding s0 fixed_def by (cases "y \<in> set (hashed k) \<and> sym_type (syms k y) \<noteq> S_OTHER") simp_all
  then have sc: "same_conf k k0" unfolding same_conf_def by (simp_all add: k0_def sym_add_change_count_def sym_set_change_count_def each_symbol_def cleared_rest)
  have const: "is_constant y \<and> settled r k0 y" if "has_flag SYMBOL_VALID k0 y" for y
  proof -
    have "is_constant y" using assms that by (auto simp: shaped_def s0 has_flag_def split: if_splits)
    then show ?thesis using assms that
      by (intro conjI constant_settled) (auto simp: shaped_def sym_ok_def s0 same_conf_choice_of [OF sc])
  qed
  have ok: "\<forall>y. sym_ok r k0 y"
  proof
    fix y
    have "is_constant y \<Longrightarrow> syms k0 y = syms k y" using assms by (auto simp: shaped_def s0)
    moreover have "sym_ok r k y" using assms by (simp add: shaped_def)
    ultimately show "sym_ok r k0 y" by (intro sym_ok_same [OF _ sc]) (auto simp: sym_ok_def)
  qed
  show ?thesis
  proof (cases "modules_sym k")
    case None
    then have "modules_sym k0 = None" by (simp add: same_conf_sym [OF sc])
    moreover from this have "sound r k0" using ok const by (simp add: sound_def conf_ok_def)
    ultimately show ?thesis using sc None
      by (simp add: sym_clear_all_valid_def k0_def [symmetric] calc_modules_def same_conf_def)
  next
    case (Some m)
    have m: "modules_sym k0 = Some m" using Some by (simp add: same_conf_sym [OF sc])
    have "modules_ok r k m" using assms Some by (simp add: shaped_def)
    then have mo: "modules_ok r k0 m" "\<not> has_flag SYMBOL_VALID k0 m"
      using assms by (simp_all add: modules_ok_def same_conf_sym [OF sc] same_conf_choice_of [OF sc] shaped_def has_flag_def s0)
    have "r m \<le> length (hashed k0)" using ok by (simp add: sym_ok_def)
    then have f: "length (hashed k0) + 2 = Suc (Suc (r m + (length (hashed k0) - r m)))" by simp
    obtain q t where q: "calc_value m k0 = Some (with_modules t q)" "keeps_values UNIV UNIV k0 q" "sound r (with_modules t q)"
      using modules_body [OF ok m mo, of "length (hashed k0) - r m"] const unfolding calc_value_def f by blast
    have "same_conf k q" using sc q(2) by (auto simp: keeps_values_def intro: same_conf_trans)
    then show ?thesis using q(1,3) m by (simp add: sym_clear_all_valid_def k0_def [symmetric] calc_modules_def same_conf_def)
  qed
qed

section \<open>An example\<close>

text \<open>
  A configuration with the modules symbol, a boolean \<open>NET\<close> that selects \<open>LIB\<close>, a number \<open>PORT\<close> from 1 to 10 for which the
  user gave 99, and a choice between \<open>UDP\<close> and \<open>TCP\<close>, as the parser leaves them.
\<close>

definition example_names :: "string list" where
  "example_names = ['''', ''MODULES'', ''NET'', ''LIB'', ''PORT'', ''1'', ''10'', '''', ''UDP'', ''TCP'']"

definition prompt_if :: "expr option \<Rightarrow> property" where
  "prompt_if e = (new_property P_PROMPT)\<lparr>p_text := Some ''text'', p_visible := e\<rparr>"

definition typed :: "string \<Rightarrow> symbol_type \<Rightarrow> property list \<Rightarrow> sym" where
  "typed n ty ps = (new_symbol (Some n) {})\<lparr>sym_type := ty, props := ps\<rparr>"

definition given :: "symbol_value \<Rightarrow> sym \<Rightarrow> sym" where
  "given v x = x\<lparr>sym_def := \<lambda>_. v, flags := insert (SYMBOL_DEF S_DEF_USER) (flags x)\<rparr>"

definition example_syms :: "symbol \<Rightarrow> sym" where
  "example_syms = (\<lambda>_. new_symbol None {})(
     symbol_yes := const_symbol ''y'' yes, symbol_mod := const_symbol ''m'' modul, symbol_no := const_symbol ''n'' no,
     Other 0 := (new_symbol None {SYMBOL_AUTO})\<lparr>sym_type := S_BOOLEAN, props := [(new_property P_DEFAULT)\<lparr>p_expr := Some (Sym (Other 1))\<rparr>]\<rparr>,
     Other 1 := new_symbol (Some ''MODULES'') {},
     Other 2 := given \<lparr>val = Null, vtri = yes\<rparr> (typed ''NET'' S_BOOLEAN [prompt_if None]),
     Other 3 := (typed ''LIB'' S_BOOLEAN [])\<lparr>rev_expr := Some (Sym (Other 2))\<rparr>,
     Other 4 := given \<lparr>val = Chars (Heap 10) ''99'', vtri = no\<rparr> (typed ''PORT'' S_INT
       [prompt_if (Some (Sym (Other 2))), (new_property P_RANGE)\<lparr>p_expr := Some (Range (Other 5) (Other 6))\<rparr>]),
     Other 5 := new_symbol (Some ''1'') {SYMBOL_CONST},
     Other 6 := new_symbol (Some ''10'') {SYMBOL_CONST},
     Other 7 := (new_symbol None {SYMBOL_CHOICE, SYMBOL_DEF S_DEF_USER})\<lparr>sym_type := S_BOOLEAN,
       props := [(new_property P_CHOICE)\<lparr>p_expr := Some (List (Some (List None (Other 8))) (Other 9))\<rparr>, prompt_if None],
       sym_def := \<lambda>_. \<lparr>val = To (Other 9), vtri = yes\<rparr>\<rparr>,
     Other 8 := (typed ''UDP'' S_BOOLEAN [(new_property P_CHOICE)\<lparr>p_expr := Some (Sym (Other 7))\<rparr>, prompt_if (Some (Sym (Other 7)))])
       \<lparr>flags := {SYMBOL_CHOICEVAL}\<rparr>,
     Other 9 := (typed ''TCP'' S_BOOLEAN [(new_property P_CHOICE)\<lparr>p_expr := Some (Sym (Other 7))\<rparr>, prompt_if (Some (Sym (Other 7)))])
       \<lparr>flags := {SYMBOL_CHOICEVAL}\<rparr>)"

definition example :: kconf where
  "example = \<lparr>syms = example_syms, symbol_hash = [map Other [0..<10]], modules_sym = Some (Other 0), modules_val = no,
     changed_menus = {}, next_block = 20, change_count = 0, zconfnerrs = 0\<rparr>"

definition example_rank :: "symbol \<Rightarrow> nat" where
  "example_rank s = (if s \<in> Other ` {0, 3, 4, 8, 9} then 1 else 0)"

lemmas example_defs = example_def example_syms_def typed_def given_def prompt_if_def new_property_def new_symbol_def const_symbol_def

lemmas sym_ok_defs = is_constant_def sym_ok_def deps_def prompt_deps_def prompts_def rev_deps_def value_deps_def has_flag_def
  dep_syms_def choice_of_def chars_def hashed_def range_syms_def five_types_def choice_members_def sym_get_choice_prop_def
  first_prop_def list_syms_def prop_get_symbol_def

lemma example_ok: "sym_ok example_rank example s"
proof (cases s)
  case (Other n)
  show ?thesis
  proof (cases "n < 10")
    case True
    then have "n = 0 \<or> n = 1 \<or> n = 2 \<or> n = 3 \<or> n = 4 \<or> n = 5 \<or> n = 6 \<or> n = 7 \<or> n = 8 \<or> n = 9" by arith
    then show ?thesis unfolding Other
      by (elim disjE) (auto simp: example_defs sym_ok_defs example_rank_def image_iff)
  next
    case False
    then show ?thesis by (simp add: Other example_defs sym_ok_defs example_rank_def image_iff)
  qed
qed (auto simp: example_defs sym_ok_defs example_rank_def)

lemma example_shaped: "shaped example_rank example"
proof -
  have "modules_ok example_rank example (Other 0)"
    by (auto simp: modules_ok_def example_defs hashed_def has_flag_def choice_of_def split: if_splits)
  moreover have "s \<notin> set (hashed example) \<and> choice_of example s = None" if "is_constant s" for s
    using that by (auto simp: is_constant_def example_defs hashed_def has_flag_def choice_of_def)
  moreover have "is_constant s \<or> s \<in> set (hashed example)" if "has_flag SYMBOL_VALID example s" for s
    using that by (auto simp: is_constant_def example_defs hashed_def has_flag_def split: if_splits)
  moreover have "sym_type (syms example s) \<noteq> S_OTHER" for s by (simp add: example_defs)
  ultimately show ?thesis using example_ok by (simp add: shaped_def example_def)
qed

text \<open>The same after \<open>sym_clear_all_valid\<close>.\<close>

definition example_start :: kconf where
  "example_start = (case sym_clear_all_valid example of None \<Rightarrow> example | Some k \<Rightarrow> k)"

lemma example_sound: "sound example_rank example_start" "sym_clear_all_valid example = Some example_start"
  using clear_all_valid_sound [OF example_shaped] by (auto simp: example_start_def)

lemma example_start_fixed: "fixed (syms example_start s) = fixed (syms example s)"
  using clear_all_valid_sound [OF example_shaped] by (auto simp: example_start_def)

section \<open>Numbers and their characters\<close>

lemma number_append: "number b (xs @ [c]) = b * number b xs + xdigit_val c"
  by (simp add: number_def)

lemma dec_number: "number 10 (dec n) = n \<and> dec n \<noteq> [] \<and> list_all (base_digit 10) (dec n)"
proof (induction n rule: dec.induct)
  case (1 n)
  have d: "xdigit_val (char_of (48 + m)) = m" "base_digit 10 (char_of (48 + m))" if "m < 10" for m
    using isdigit_digit [OF that] by (simp_all add: xdigit_val_def digit_val_def base_digit_def)
  show ?case
  proof (cases "n < 10")
    case True
    then show ?thesis by (subst (1 2 3) dec.simps) (simp add: d number_def)
  next
    case False
    then show ?thesis using 1 by (subst (1 2 3) dec.simps) (simp add: d number_append)
  qed
qed

declare hex.simps [simp del]

lemma xdigit: "n < 16 \<Longrightarrow> xdigit_val (xdigit n) = n \<and> base_digit 16 (xdigit n)"
  by (auto simp: xdigit_def xdigit_val_def base_digit_def isxdigit_def isdigit_def code_def)

lemma hex_number: "number 16 (hex n) = n \<and> hex n \<noteq> [] \<and> list_all (base_digit 16) (hex n)"
proof (induction n rule: hex.induct)
  case (1 n)
  show ?case
  proof (cases "n < 16")
    case True
    then show ?thesis by (subst (1 2 3) hex.simps) (simp add: xdigit number_def)
  next
    case False
    then show ?thesis using 1 by (subst (1 2 3) hex.simps) (simp add: xdigit number_append)
  qed
qed

lemma digit_start: "base_digit b c \<Longrightarrow> \<not> isspace c \<and> c \<noteq> CHR ''-'' \<and> c \<noteq> CHR ''+'' \<and> c \<noteq> CHR ''x'' \<and> c \<noteq> CHR ''X''"
  by (auto simp: base_digit_def isxdigit_def isdigit_def isspace_def code_def split: if_splits)

lemma takeWhile_all: "list_all P xs \<Longrightarrow> takeWhile P xs = xs"
  by (induction xs) simp_all

text \<open>Reading digits with the sign and the prefix in front.\<close>

lemma strtol_digits:
  assumes "list_all (base_digit b) ds" and "ds \<noteq> []" and "number b ds < 2 ^ 32"
  shows "strtol b ds = int (number b ds)" "strtol b (CHR ''-'' # ds) = - int (number b ds)"
proof -
  obtain d r where d: "ds = d # r" "base_digit b d" "list_all (base_digit b) r" using assms(1,2) by (cases ds) auto
  note s = digit_start [OF d(2)]
  have "take 2 ds \<noteq> ''0x''" "take 2 ds \<noteq> ''0X''"
    using d digit_start by (cases r; auto)+
  moreover have "takeWhile (base_digit b) ds = ds" using assms(1) by (rule takeWhile_all)
  moreover have "dropWhile isspace ds = ds" "take 1 ds \<noteq> ''-''" "take 1 ds \<noteq> ''+''" using s d(1) by auto
  moreover have "max (- (2 ^ 63)) (min (2 ^ 63 - 1) (int (number b ds))) = int (number b ds)"
    "max (- (2 ^ 63)) (min (2 ^ 63 - 1) (- int (number b ds))) = - int (number b ds)" using assms(3) by simp_all
  ultimately show "strtol b ds = int (number b ds)" "strtol b (CHR ''-'' # ds) = - int (number b ds)"
    by (simp_all add: strtol_def Let_def isspace_def del: takeWhile_eq_all_conv)
qed

lemma strtol_prefix:
  assumes "list_all (base_digit 16) ds" and "ds \<noteq> []" and "number 16 ds < 2 ^ 32"
  shows "strtol 16 (''0x'' @ ds) = int (number 16 ds)"
proof -
  obtain d r where d: "ds = d # r" "base_digit 16 d" using assms(1,2) by (cases ds) auto
  have "takeWhile (base_digit 16) ds = ds" using assms(1) by (rule takeWhile_all)
  moreover have "isxdigit d" using d(2) by (simp add: base_digit_def)
  ultimately show ?thesis using d(1) assms(3) by (simp add: strtol_def Let_def isspace_def)
qed

lemma to_int_id: "- (2 ^ 31) \<le> i \<Longrightarrow> i < 2 ^ 31 \<Longrightarrow> to_int i = i"
  by (simp add: to_int_def)

lemma to_int_bounds: "- (2 ^ 31) \<le> to_int i" "to_int i < 2 ^ 31"
proof -
  define j where "j = (i + 2 ^ 31) mod 2 ^ 32"
  have "0 \<le> j" "j < 2 ^ 32" unfolding j_def by (rule pos_mod_sign pos_mod_bound; simp)+
  then show "- (2 ^ 31) \<le> to_int i" "to_int i < 2 ^ 31" unfolding to_int_def j_def [symmetric] by simp_all
qed

lemma read_number_chars:
  assumes "ty \<in> {S_INT, S_HEX}" and "- (2 ^ 31) \<le> i" and "i < 2 ^ 31"
  shows "to_int (strtol (value_base ty b) (number_chars ty i)) = i"
proof (cases "ty = S_INT")
  case True
  have n: "nat i < 2 ^ 32" "nat (- i) < 2 ^ 32" using assms by simp_all
  have "strtol 10 (dec_int i) = i"
  proof (cases "i < 0")
    case True
    then show ?thesis using dec_number [of "nat (- i)"] n strtol_digits(2) [of 10 "dec (nat (- i))"] by (simp add: dec_int_def)
  next
    case False
    then show ?thesis using dec_number [of "nat i"] n strtol_digits(1) [of 10 "dec (nat i)"] by (simp add: dec_int_def)
  qed
  then show ?thesis using True assms by (simp add: value_base_def number_chars_def to_int_id)
next
  case False
  have n: "int (nat (i mod 2 ^ 32)) = i mod 2 ^ 32" "nat (i mod 2 ^ 32) < 2 ^ 32" by simp_all
  have "strtol 16 (''0x'' @ hex (nat (i mod 2 ^ 32))) = i mod 2 ^ 32"
    using strtol_prefix [of "hex (nat (i mod 2 ^ 32))"] hex_number [of "nat (i mod 2 ^ 32)"] n by simp
  moreover have "to_int (i mod 2 ^ 32) = i"
  proof -
    have "(i mod 2 ^ 32 + 2 ^ 31) mod 2 ^ 32 = (i + 2 ^ 31) mod 2 ^ 32" by (rule mod_add_left_eq)
    then have "to_int (i mod 2 ^ 32) = to_int i" by (simp add: to_int_def)
    then show ?thesis using to_int_id [OF assms(2,3)] by simp
  qed
  ultimately show ?thesis using False assms(1) by (simp add: value_base_def number_chars_def)
qed

section \<open>What the user can rely on\<close>

lemma calculated_parts:
  assumes "sound r k" and "calc_value s k = Some k'"
  shows "sound r k'" "has_flag SYMBOL_VALID k' s" "fits k' s" "keeps_values UNIV UNIV k k'"
proof -
  have c: "calculated r s k k'" using calc_value_calculated [OF assms(1), of s] assms(2) by auto
  then show "sound r k'" "has_flag SYMBOL_VALID k' s" "keeps_values UNIV UNIV k k'"
    using calculated_sound [OF assms(1)] by (auto simp: calculated_def settled_def)
  then show "fits k' s" using sound_fits by blast
qed

lemma example_calculated:
  shows "\<exists>k. calc_value s example_start = Some k \<and> sound example_rank k \<and> fixed (syms k s) = fixed (syms example s)"
proof -
  obtain k where k: "calc_value s example_start = Some k" using calc_value_calculated [OF example_sound(1), of s] by blast
  then show ?thesis
    using calculated_parts [OF example_sound(1) k] example_start_fixed [of s] by (simp add: keeps_values_def same_conf_def)
qed



text \<open>C1. 
  \<open>sym_calc_value\<close>, for any symbol of such a configuration: it returns within the fuel, although it calls itself
  through the conditions, defaults, ranges, reverse dependencies and choices; afterwards the symbol and every other
  valid symbol have exactly the value, the visibility and the reverse dependency their properties specify; a value
  that was valid before is not touched, so the result does not depend on what was calculated earlier.
\<close>

theorem sym_calc_value_fits:
  assumes "sound r k"
  shows "\<exists>k'. calc_value s k = Some k' \<and> sound r k' \<and> has_flag SYMBOL_VALID k' s \<and>
    (\<forall>y. has_flag SYMBOL_VALID k' y \<longrightarrow> fits k' y) \<and>
    (\<forall>y. has_flag SYMBOL_VALID k y \<longrightarrow> has_flag SYMBOL_VALID k' y \<and> curr (syms k' y) = curr (syms k y)) \<and>
    (\<forall>y. fixed (syms k' y) = fixed (syms k y))"
proof -
  obtain k' where k': "calc_value s k = Some k'" using calc_value_calculated [OF assms] by blast
  note p = calculated_parts [OF assms k']
  show ?thesis using k' p sound_fits [OF p(1)] by (auto simp: keeps_values_def same_conf_def)
qed

lemma sym_calc_value_fits_witness:
  "\<exists>k'. calc_value (Other 4) example_start = Some k' \<and> fits k' (Other 4)"
  using sym_calc_value_fits [OF example_sound(1), of "Other 4"] by blast



lemma ranged_within:
  assumes "sym_type (syms k s) \<in> {S_INT, S_HEX}" and "active_prop P_RANGE k s = Some p" and "range_syms p = Some (a, b)"
    and "sym_number (value_base (sym_type (syms k s)) 10) k a \<le> sym_number (value_base (sym_type (syms k s)) 10) k b"
    and "raw_chars k s = ranged_chars k s c"
  shows "sym_number 10 k s \<in> {sym_number (value_base (sym_type (syms k s)) 10) k a..sym_number (value_base (sym_type (syms k s)) 10) k b}"
proof -
  let ?ty = "sym_type (syms k s)"
  have n: "to_int (strtol (value_base ?ty 10) (number_chars ?ty (sym_number b k x))) = sym_number b k x" for b x
    unfolding sym_number_def by (rule read_number_chars [OF assms(1) to_int_bounds])
  have vb: "value_base ?ty (value_base ?ty 10) = value_base ?ty 10" by (simp add: value_base_def)
  show ?thesis
    unfolding sym_number_def [of 10 k s] assms(5) ranged_chars_def Let_def assms(2,3) using assms(4) by (simp add: n assms(3))
qed


lemma example_step:
  assumes "sound example_rank k" and "\<forall>s. fixed (syms k s) = fixed (syms example s)"
  shows "\<exists>k'. calc_value x k = Some k' \<and> sound example_rank k' \<and> has_flag SYMBOL_VALID k' x \<and>
    (\<forall>s. has_flag SYMBOL_VALID k s \<longrightarrow> has_flag SYMBOL_VALID k' s) \<and> (\<forall>s. fixed (syms k' s) = fixed (syms example s))"
proof -
  obtain k' where k': "calc_value x k = Some k'" using calc_value_calculated [OF assms(1), of x] by blast
  show ?thesis using k' calculated_parts [OF assms(1) k'] assms(2) by (simp add: keeps_values_def same_conf_def)
qed

text \<open>The bounds of the range of \<open>PORT\<close>, then \<open>PORT\<close> and the values of the choice.\<close>

lemma example_port:
  shows "\<exists>k k'. sound example_rank k \<and> calc_value (Other 4) k = Some k' \<and>
    (\<forall>s\<in>{Other 5, Other 6}. has_flag SYMBOL_VALID k' s) \<and> (\<forall>s. fixed (syms k' s) = fixed (syms example s)) \<and> sound example_rank k'"
proof -
  have f: "\<forall>s. fixed (syms example_start s) = fixed (syms example s)" using example_start_fixed by blast
  obtain k1 where k1: "sound example_rank k1" "has_flag SYMBOL_VALID k1 (Other 5)" "\<forall>s. fixed (syms k1 s) = fixed (syms example s)"
    using example_step [OF example_sound(1) f, of "Other 5"] by blast
  obtain k2 where k2: "sound example_rank k2" "has_flag SYMBOL_VALID k2 (Other 5)" "has_flag SYMBOL_VALID k2 (Other 6)"
    "\<forall>s. fixed (syms k2 s) = fixed (syms example s)"
    using example_step [OF k1(1,3), of "Other 6"] k1(2) by blast
  show ?thesis using example_step [OF k2(1,4), of "Other 4"] k2(1-3) by blast
qed


text \<open>C8. 
  A choice with the value \<open>y\<close>: among its visible symbols that have been calculated, the one that the choice chooses
  has the value \<open>y\<close> and every other has the value \<open>n\<close>. The chosen one is the first of the user's choice, the defaults
  whose condition holds and the symbols of the choice that is visible.
\<close>

theorem choice_exclusive:
  assumes "sound r k" and "has_flag SYMBOL_VALID k (Other c)" and "sym_is_choice k (Other c)"
    and "sym_get_tristate_value k (Other c) = yes"
    and "has_flag SYMBOL_VALID k (Other m)" and "choice_of k (Other m) = Some (Other c)" and "visible (syms k (Other m)) = yes"
  shows "sym_get_tristate_value k (Other m) = (if choice_spec k (Other c) = Some (Other m) then yes else no)"
proof -
  have ok: "sym_ok r k s" for s using assms(1) by (simp add: sound_def conf_ok_def)
  have "sym_is_choice_value k (Other m)" using assms(6) by (auto simp: choice_of_def split: if_splits)
  then have m: "sym_type (syms k (Other m)) \<in> {S_BOOLEAN, S_TRISTATE}" "\<not> sym_is_choice k (Other m)" "sym_is_choice_value k (Other m)"
    using ok [of "Other m"] unfolding sym_ok_def by blast+
  then have "vtri (curr (syms k (Other m))) = tri_spec k (Other m)"
    using sound_fits [OF assms(1,5)] by (auto simp: fits_def is_constant_def five_types_def split: if_splits)
  then have v: "sym_get_tristate_value k (Other m) = (if val (curr (syms k (Other c))) = To (Other m) then yes else no)"
    using m(3) assms(6,7) by (simp add: sym_get_tristate_value_def tri_spec_def chosen_def Let_def)
  have "choice_fits k (Other c) \<or> sym_type (syms k (Other c)) \<notin> five_types"
    using sound_fits [OF assms(1,2)] assms(3) by (auto simp: fits_def is_constant_def split: if_splits)
  moreover have "vtri (curr (syms k (Other c))) = no" if "sym_type (syms k (Other c)) \<notin> five_types"
    using sound_fits [OF assms(1,2)] that by (simp add: fits_def is_constant_def)
  ultimately have "choice_fits k (Other c)" using assms(4) by (auto simp: sym_get_tristate_value_def)
  then have "val (curr (syms k (Other c))) = (case choice_spec k (Other c) of None \<Rightarrow> Null | Some d \<Rightarrow> To d)"
    using assms(4) by (auto simp: choice_fits_def sym_get_tristate_value_def split: if_splits option.splits)
  then show ?thesis using v by (simp split: option.split)
qed

lemma example_props:
  assumes "\<forall>s. fixed (syms k s) = fixed (syms example s)"
  shows "sym_type (syms k s) = sym_type (syms example s)" "fixed_props k s = fixed_props example s"
    "sym_def (syms k s) = sym_def (syms example s)"
    "fl \<notin> {SYMBOL_VALID, SYMBOL_WRITE, SYMBOL_CHANGED} \<Longrightarrow> has_flag fl k s = has_flag fl example s"
    "choice_of k s = choice_of example s"
proof -
  note p = fixed_parts [of "syms k s" "syms example s"]
  show "sym_type (syms k s) = sym_type (syms example s)" "sym_def (syms k s) = sym_def (syms example s)" using p assms by simp_all
  show f: "fixed_props k s = fixed_props example s" using p assms by (simp add: fixed_props_def)
  show h: "has_flag fl k s = has_flag fl example s" if "fl \<notin> {SYMBOL_VALID, SYMBOL_WRITE, SYMBOL_CHANGED}" for fl
    using p(6) [OF _ that] assms by (simp add: has_flag_def)
  show "choice_of k s = choice_of example s" by (simp add: choice_of_fixed f h)
qed

lemma choice_exclusive_witness:
  "\<exists>k. sound example_rank k \<and> sym_get_tristate_value k (Other 9) = yes \<and> sym_get_tristate_value k (Other 8) = no"
proof -
  have f: "\<forall>s. fixed (syms example_start s) = fixed (syms example s)" using example_start_fixed by blast
  obtain k1 where k1: "sound example_rank k1" "has_flag SYMBOL_VALID k1 (Other 7)" "\<forall>s. fixed (syms k1 s) = fixed (syms example s)"
    using example_step [OF example_sound(1) f, of "Other 7"] by blast
  obtain k2 where k2: "sound example_rank k2" "has_flag SYMBOL_VALID k2 (Other 7)" "has_flag SYMBOL_VALID k2 (Other 8)"
    "\<forall>s. fixed (syms k2 s) = fixed (syms example s)"
    using example_step [OF k1(1,3), of "Other 8"] k1(2) by blast
  obtain k where k: "sound example_rank k" "\<forall>n\<in>{7, 8, 9}. has_flag SYMBOL_VALID k (Other n)"
    "\<forall>s. fixed (syms k s) = fixed (syms example s)"
    using example_step [OF k2(1,4), of "Other 9"] k2(2,3) by auto
  note p = example_props [OF k(3)]
  have ft: "fits k (Other n)" if "n \<in> {7, 8, 9}" for n using sound_fits [OF k(1)] k(2) that by blast
  have v7: "visible_spec k' (Other 7) = yes" if "fixed_props k' (Other 7) = fixed_props example (Other 7)" for k'
    by (simp add: visible_spec_fold that sight_spec_def prompt_fold_def)
      (simp add: example_defs fixed_props_def fixed_prop_def EXPR_OR_max condition_def expr_calc_value_def)
  have v89: "visible_spec k' (Other n) = (if t = no then no else yes)"
    if "vtri (curr (syms k' (Other 7))) = t" "n \<in> {8, 9}" "fixed_props k' (Other n) = fixed_props example (Other n)"
      "sym_type (syms k' (Other n)) = S_BOOLEAN" for k' n t
    using that by (cases t) (auto simp: visible_spec_fold sight_spec_def prompt_fold_def condition_def expr_calc_value_def view_def
        example_defs fixed_props_def fixed_prop_def EXPR_OR_max max_def less_eq_tristate_def)
  have e7: "sym_type (syms k (Other 7)) = S_BOOLEAN" "sym_def (syms k (Other 7)) = (\<lambda>_. \<lparr>val = To (Other 9), vtri = yes\<rparr>)"
    "sym_is_choice k (Other 7)" "\<not> sym_is_choice_value k (Other 7)" "sym_has_value k (Other 7)"
    unfolding p(1,3) using p(4) [of SYMBOL_CHOICE "Other 7"] p(4) [of SYMBOL_CHOICEVAL "Other 7"] p(4) [of "SYMBOL_DEF S_DEF_USER" "Other 7"]
    by (simp_all add: example_defs has_flag_def)
  have "fits k (Other 7)" by (rule ft) simp
  then have f7: "visible (syms k (Other 7)) = yes" "choice_fits k (Other 7)"
    using e7(1,3) v7 [OF p(2)] by (auto simp: fits_def is_constant_def five_types_def)
  then have t7: "tri_spec k (Other 7) = yes"
    using e7 by (cases "rev_tri (syms k (Other 7))") (simp_all add: tri_spec_def user_visible_def or_rev_def EXPR_OR_max EXPR_AND_min max_def min_def less_eq_tristate_def)
  have m: "sym_type (syms example (Other n)) = S_BOOLEAN" "choice_of example (Other n) = Some (Other 7)" if "n \<in> {8, 9}" for n
    using that by (auto simp: choice_of_def sym_get_choice_prop_def first_prop_def prop_get_symbol_def has_flag_def example_defs)
  have "user_candidate k (Other 7) = [Other 9]" by (simp add: user_candidate_def e7(2))
  moreover have "visible_spec (as_yes (Other 7) k) (Other 9) = yes"
    using v89 [of "as_yes (Other 7) k" yes 9] p(1,2) m(1) [of 9] by simp
  ultimately have c: "choice_spec k (Other 7) = Some (Other 9)" by (simp add: choice_spec_def)
  then have t: "vtri (curr (syms k (Other 7))) = yes" using t7 f7(2) by (simp add: choice_fits_def)
  have "visible (syms k (Other n)) = yes" if "n \<in> {8, 9}" for n
    using ft [of n] that v89 [OF t that p(2)] p(1) m(1) [OF that] by (auto simp: fits_def is_constant_def five_types_def)
  then have "sym_get_tristate_value k (Other n) = (if n = 9 then yes else no)" if "n \<in> {8, 9}" for n
    using choice_exclusive [OF k(1), of 7 n] k(2) t c e7(3) p(5) m(2) [OF that] that by (auto simp: sym_get_tristate_value_def)
  then show ?thesis using k(1) by (intro exI [of _ k]) simp
qed

end
