(* ===== verification/KSet.thy ===== *)
theory KSet
  imports KSettle
begin

text \<open>
  What the user does to the configuration: setting and toggling a value, which values a symbol accepts, the characters
  of a number, and finding a symbol by its name.
\<close>

section \<open>Setting a tristate value\<close>

lemma set_refused:
  "sym_get_tristate_value k s \<noteq> v \<Longrightarrow> \<not> sym_tristate_within_range k s v \<Longrightarrow> sym_set_tristate_value s v k = Some (False, k)"
  by (simp add: sym_set_tristate_value_def Let_def)

lemma set_accepted:
  "sym_get_tristate_value k s = v \<or> sym_tristate_within_range k s v \<Longrightarrow>
   sym_set_tristate_value s v k = map_option (\<lambda>(b, k'). (True, k')) (sym_set_tristate_value s v k)"
  by (cases "sym_set_tristate_value s v k")
    (auto simp: sym_set_tristate_value_def Let_def bind_eq_Some_conv split: if_splits)


text \<open>What a user's choice changes, and that it keeps the shape of the configuration.\<close>

definition user_change :: "kconf \<Rightarrow> kconf \<Rightarrow> bool" where
  "user_change k k' \<longleftrightarrow>
     symbol_hash k' = symbol_hash k \<and> modules_sym k' = modules_sym k \<and>
     (\<forall>x. sym_name (syms k' x) = sym_name (syms k x) \<and> sym_type (syms k' x) = sym_type (syms k x) \<and>
        curr (syms k' x) = curr (syms k x) \<and> props (syms k' x) = props (syms k x) \<and> rev_expr (syms k' x) = rev_expr (syms k x)) \<and>
     (\<forall>x fl. fl \<notin> {SYMBOL_WRITE, SYMBOL_CHANGED, SYMBOL_DEF S_DEF_USER} \<longrightarrow> (fl \<in> flags (syms k' x) \<longleftrightarrow> fl \<in> flags (syms k x))) \<and>
     (\<forall>x. sym_type (syms k x) \<in> {S_INT, S_HEX, S_STRING} \<longrightarrow>
        sym_def (syms k' x) = sym_def (syms k x) \<and> sym_has_value k' x = sym_has_value k x) \<and>
     (\<forall>c. sym_is_choice k c \<longrightarrow>
        (case val (sym_def (syms k' c) S_DEF_USER) of Chars a t \<Rightarrow> False | Null \<Rightarrow> True | To d \<Rightarrow> d \<in> choice_members k c))"

lemma user_change_shaped:
  assumes "shaped r k" and u: "user_change k k'"
  shows "shaped r k'"
proof -
  have fl: "has_flag fl k' x = has_flag fl k x" if "fl \<notin> {SYMBOL_WRITE, SYMBOL_CHANGED, SYMBOL_DEF S_DEF_USER}" for fl x
    using u that by (simp add: user_change_def has_flag_def)
  have q: "sym_name (syms k' x) = sym_name (syms k x)" "sym_type (syms k' x) = sym_type (syms k x)"
    "curr (syms k' x) = curr (syms k x)" "props (syms k' x) = props (syms k x)" "rev_expr (syms k' x) = rev_expr (syms k x)"
    "hashed k' = hashed k" "modules_sym k' = modules_sym k" for x
    using u by (simp_all add: user_change_def hashed_def)
  have f: "sym_is_choice k' x = sym_is_choice k x" "sym_is_choice_value k' x = sym_is_choice_value k x"
    "has_flag SYMBOL_VALID k' x = has_flag SYMBOL_VALID k x" for x by (simp_all add: fl)
  have d: "prompt_deps k' x = prompt_deps k x" "rev_deps k' x = rev_deps k x" "value_deps k' x = value_deps k x"
    "sym_get_choice_prop k' x = sym_get_choice_prop k x" "choice_of k' x = choice_of k x" for x
    by (simp_all add: prompt_deps_def prompts_def rev_deps_def value_deps_def sym_get_choice_prop_def choice_of_def q f)
  have m: "choice_members k' c \<subseteq> choice_members k c" if "sym_is_choice k c" for c
  proof -
    have "d \<in> choice_members k c" if "val (sym_def (syms k' c) S_DEF_USER) = To d" for d
      using u \<open>sym_is_choice k c\<close> that by (fastforce simp: user_change_def)
    then show ?thesis unfolding choice_members_def [of k'] d q by (auto simp: choice_members_def)
  qed
  have D: "deps k' x \<subseteq> deps k x" for x
    using m [of x] unfolding deps_def d f by auto
  have "sym_ok r k' x" for x
  proof -
    have ok: "sym_ok r k x" using assms(1) by (simp add: shaped_def)
    have c: "chars (val (sym_def (syms k' x) S_DEF_USER)) = None" if "sym_is_choice k x"
      using u that by (auto simp: user_change_def chars_def split: pointer.splits)
    have i: "sym_def (syms k' x) = sym_def (syms k x)" "sym_has_value k' x = sym_has_value k x" if "sym_type (syms k x) \<in> {S_INT, S_HEX, S_STRING}"
      using u that unfolding user_change_def by blast+
    show ?thesis unfolding sym_ok_def q f d
    proof (intro conjI impI)
      show "\<forall>y\<in>deps k' x. r y < r x \<and> (sym_type (syms k y) \<in> five_types \<or> sym_name (syms k y) \<noteq> None)"
        using ok D [of x] unfolding sym_ok_def by blast
    qed (use ok c i m [of x] f(3) [of x] in \<open>auto simp: sym_ok_def has_flag_def\<close>)
  qed
  then have "\<forall>x. sym_ok r k' x" by blast
  then show ?thesis using assms(1) unfolding shaped_def modules_ok_def q d f by simp
qed

text \<open>The parts of \<open>sym_set_tristate_value\<close> before everything is calculated again.\<close>

lemma user_change_refl [simp]: "shaped r k \<Longrightarrow> user_change k k"
proof -
  assume "shaped r k"
  then have ok: "sym_ok r k c" for c by (simp add: shaped_def)
  have "case val (sym_def (syms k c) S_DEF_USER) of Chars a t \<Rightarrow> False | Null \<Rightarrow> True | To d \<Rightarrow> d \<in> choice_members k c"
    if "sym_is_choice k c" for c
    using ok [of c] that by (auto simp: sym_ok_def chars_def choice_members_def split: pointer.splits)
  then show ?thesis by (simp add: user_change_def)
qed

definition settable :: "kconf \<Rightarrow> symbol \<Rightarrow> bool" where
  "settable k s \<longleftrightarrow>
     sym_type (syms k s) \<in> {S_BOOLEAN, S_TRISTATE} \<and>
     (sym_is_choice_value k s \<longrightarrow> (\<exists>c. choice_of k s = Some c \<and> sym_is_choice k c \<and> s \<in> set (choice_list k c)))"

definition user_syms :: "kconf \<Rightarrow> symbol \<Rightarrow> tristate \<Rightarrow> kconf \<Rightarrow> bool" where
  "user_syms k s v k' \<longleftrightarrow> user_change k k' \<and> sym_has_value k' s \<and> vtri (sym_def (syms k' s) S_DEF_USER) = v"

lemma set_changed_syms: "syms (sym_set_changed s k) x = (if x = s then (syms k s)\<lparr>flags := insert SYMBOL_CHANGED (flags (syms k s))\<rparr> else syms k x)"
  by (simp add: sym_set_changed_def set_flag_def)

lemma set_changed_rest: "symbol_hash (sym_set_changed s k) = symbol_hash k" "modules_sym (sym_set_changed s k) = modules_sym k"
  by (simp_all add: sym_set_changed_def set_flag_def)

lemma mark_user_syms:
  "syms (mark_user s k) x = (if x = s then (syms k s)\<lparr>flags := flags (syms k s) \<union> (if sym_has_value k s then {} else {SYMBOL_DEF S_DEF_USER, SYMBOL_CHANGED})\<rparr> else syms k x)"
  by (auto simp: mark_user_def set_changed_syms set_flag_def has_flag_def insert_commute)

lemma mark_user_rest: "symbol_hash (mark_user s k) = symbol_hash k" "modules_sym (mark_user s k) = modules_sym k"
  by (simp_all add: mark_user_def set_changed_rest set_flag_def)

lemma take_fold_syms:
  "syms (fold (\<lambda>d k. if visible (syms k d) \<noteq> no then set_flag fl d k else k) ds k) x =
     (if x \<in> set ds \<and> visible (syms k x) \<noteq> no then (syms k x)\<lparr>flags := insert fl (flags (syms k x))\<rparr> else syms k x)"
  by (induction ds arbitrary: k) (auto simp: set_flag_def)

lemma take_fold_rest:
  "symbol_hash (fold (\<lambda>d k. if visible (syms k d) \<noteq> no then set_flag fl d k else k) ds k) = symbol_hash k"
  "modules_sym (fold (\<lambda>d k. if visible (syms k d) \<noteq> no then set_flag fl d k else k) ds k) = modules_sym k"
  by (induction ds arbitrary: k) (simp_all add: set_flag_def)

lemma set_prepared:
  assumes "shaped r k" and "settable k s"
  shows "\<exists>k'. (if sym_is_choice_value (mark_user s k) s \<and> v = yes then take_choice s (mark_user s k) else Some (mark_user s k)) = Some k' \<and>
    user_syms k s v (set_def_tri S_DEF_USER s v k')"
proof -
  define k1 where "k1 = mark_user s k"
  have ok: "sym_ok r k x" for x using assms(1) by (simp add: shaped_def)
  have ty: "sym_type (syms k s) \<in> {S_BOOLEAN, S_TRISTATE}" using assms(2) by (simp add: settable_def)
  have s1: "syms k1 x = (if x = s then (syms k s)\<lparr>flags := flags (syms k s) \<union> (if sym_has_value k s then {} else {SYMBOL_DEF S_DEF_USER, SYMBOL_CHANGED})\<rparr> else syms k x)" for x
    by (simp add: k1_def mark_user_syms)
  have r1: "symbol_hash k1 = symbol_hash k" "modules_sym k1 = modules_sym k" by (simp_all add: k1_def mark_user_rest)
  have hv: "sym_has_value k1 s" by (simp add: s1 has_flag_def)
  have cho: "case val (sym_def (syms k c) S_DEF_USER) of Chars a t \<Rightarrow> False | Null \<Rightarrow> True | To d \<Rightarrow> d \<in> choice_members k c"
    if "sym_is_choice k c" for c
    using user_change_refl [OF assms(1)] that by (simp add: user_change_def)
  show ?thesis
  proof (cases "sym_is_choice_value k1 s \<and> v = yes")
    case False
    have "user_syms k s v (set_def_tri S_DEF_USER s v k1)"
      using ty cho hv by (auto simp: user_syms_def user_change_def set_def_tri_def s1 r1 has_flag_def split: if_splits)
    then show ?thesis unfolding if_not_P [OF False [unfolded k1_def]] by (auto simp: k1_def)
  next
    case True
    then have "sym_is_choice_value k s" by (auto simp: s1 has_flag_def split: if_splits)
    then obtain c where c: "choice_of k s = Some c" "sym_is_choice k c" "s \<in> set (choice_list k c)" using assms(2) by (auto simp: settable_def)
    then obtain p where p: "sym_get_choice_prop k s = Some p" "prop_get_symbol p = Some c"
      using \<open>sym_is_choice_value k s\<close> by (auto simp: choice_of_def Option.bind_eq_Some_conv)
    have pr: "props (syms k1 x) = props (syms k x)" for x by (simp add: s1)
    define k2 where "k2 = set_flag (SYMBOL_DEF S_DEF_USER) c (set_def_val S_DEF_USER c (To s) k1)"
    obtain q where q: "sym_get_choice_prop k c = Some q" using ok [of c] c(2) by (auto simp: sym_ok_def)
    have sc: "s \<noteq> c" using c(2) \<open>sym_is_choice_value k s\<close> ok [of s] by (auto simp: sym_ok_def)
    have l: "list_syms (p_expr q) = choice_list k c" by (simp add: choice_list_def q)
    define k3 where "k3 = fold (\<lambda>d k. if visible (syms k d) \<noteq> no then set_flag (SYMBOL_DEF S_DEF_USER) d k else k) (choice_list k c) k2"
    have s2: "syms k2 x = (if x = c then (syms k1 c)\<lparr>sym_def := (sym_def (syms k1 c))(S_DEF_USER := (sym_def (syms k1 c) S_DEF_USER)\<lparr>val := To s\<rparr>),
        flags := insert (SYMBOL_DEF S_DEF_USER) (flags (syms k1 c))\<rparr> else syms k1 x)" for x
      by (simp add: k2_def set_flag_def set_def_val_def)
    have run: "take_choice s k1 = Some k3"
    proof -
      have "sym_get_choice_prop k1 s = Some p" "sym_get_choice_prop k2 c = Some q"
        using p(1) q by (simp_all add: sym_get_choice_prop_def pr s2)
      then show ?thesis using p(2) by (simp add: take_choice_def k2_def [symmetric] k3_def l)
    qed
    have s3: "syms k3 x = (if x \<in> set (choice_list k c) \<and> visible (syms k2 x) \<noteq> no
        then (syms k2 x)\<lparr>flags := insert (SYMBOL_DEF S_DEF_USER) (flags (syms k2 x))\<rparr> else syms k2 x)" for x
      by (simp add: k3_def take_fold_syms)
    have r3: "symbol_hash k3 = symbol_hash k" "modules_sym k3 = modules_sym k"
      by (simp_all add: k3_def take_fold_rest k2_def set_flag_def set_def_val_def r1)
    have mem: "d \<in> choice_members k c" if "d \<in> set (choice_list k c)" for d using that by (simp add: choice_members_def choice_list_def q)
    have ms: "sym_type (syms k d) \<in> {S_BOOLEAN, S_TRISTATE}" if "d \<in> set (choice_list k c)" for d
    proof -
      have "choice_of k d = Some c" using mem [OF that] ok [of c] c(2) unfolding sym_ok_def by blast
      then have "sym_is_choice_value k d" by (auto simp: choice_of_def split: if_splits)
      then show ?thesis using ok [of d] unfolding sym_ok_def by blast
    qed
    have cty: "sym_type (syms k c) \<notin> {S_INT, S_HEX, S_STRING}" using ok [of c] c(2) unfolding sym_ok_def by blast
    have "user_change k (set_def_tri S_DEF_USER s v k3)"
      unfolding user_change_def
    proof (intro conjI allI impI)
      fix x assume x: "sym_type (syms k x) \<in> {S_INT, S_HEX, S_STRING}"
      then have "x \<noteq> s" "x \<noteq> c" using ty cty by auto
      moreover have "x \<notin> set (choice_list k c)" using x ms [of x] by auto
      ultimately show "sym_def (syms (set_def_tri S_DEF_USER s v k3) x) = sym_def (syms k x)"
        "sym_has_value (set_def_tri S_DEF_USER s v k3) x = sym_has_value k x"
        by (simp_all add: set_def_tri_def s3 s2 s1 has_flag_def)
    next
      fix x assume "sym_is_choice k x"
      then show "case val (sym_def (syms (set_def_tri S_DEF_USER s v k3) x) S_DEF_USER) of Chars a t \<Rightarrow> False | Null \<Rightarrow> True | To d \<Rightarrow> d \<in> choice_members k x"
        using cho [of x] mem [OF c(3)] by (cases "x = c") (auto simp: set_def_tri_def s3 s2 s1 split: pointer.splits)
    next
      fix x fl assume "fl \<notin> {SYMBOL_WRITE, SYMBOL_CHANGED, SYMBOL_DEF S_DEF_USER}"
      then show "(fl \<in> flags (syms (set_def_tri S_DEF_USER s v k3) x)) = (fl \<in> flags (syms k x))"
        by (auto simp: set_def_tri_def s3 s2 s1 has_flag_def)
    qed (simp_all add: set_def_tri_def s3 s2 s1 r3)
    moreover have "sym_has_value k3 s" using hv sc by (simp add: s3 s2 has_flag_def)
    ultimately have "user_syms k s v (set_def_tri S_DEF_USER s v k3)"
      by (simp add: user_syms_def set_def_tri_def has_flag_def)
    then show ?thesis using True run by (simp add: k1_def)
  qed
qed


text \<open>A value in the range of a symbol is the one that is calculated.\<close>

lemma in_range_calculated:
  assumes "fits k (Other n)" and "sym_type (syms k (Other n)) \<in> {S_BOOLEAN, S_TRISTATE}" and "\<not> sym_is_choice k (Other n)"
    and "\<not> sym_is_choice_value k (Other n)" and "sym_has_value k (Other n)"
    and "sym_tristate_within_range k (Other n) (vtri (sym_def (syms k (Other n)) S_DEF_USER))"
  shows "sym_get_tristate_value k (Other n) = vtri (sym_def (syms k (Other n)) S_DEF_USER)"
proof -
  define v where "v = vtri (sym_def (syms k (Other n)) S_DEF_USER)"
  have t: "sym_get_tristate_value k (Other n) = tri_spec k (Other n)"
    using assms(1-3) by (auto simp: fits_def is_constant_def five_types_def sym_get_tristate_value_def)
  have w: "visible (syms k (Other n)) \<noteq> no" "sym_get_type k (Other n) = S_BOOLEAN \<Longrightarrow> v \<noteq> modul"
    "rev_tri (syms k (Other n)) \<le> v" "v \<le> visible (syms k (Other n))"
    using assms(4,6) by (auto simp: sym_tristate_within_range_def Let_def v_def split: if_splits)
  have "or_rev k (Other n) (EXPR_AND v (visible (syms k (Other n)))) = v"
    using w(3,4) by (simp add: or_rev_def EXPR_OR_max EXPR_AND_min min_absorb1 max_absorb1)
  then have "tri_spec k (Other n) = v"
    using w(1,2) assms(4,5) by (auto simp: tri_spec_def or_rev_def user_visible_def v_def [symmetric] Let_def)
  then show ?thesis using t by (simp add: v_def)
qed



section \<open>Numbers the tool accepts\<close>

lemma digit_chars: "char_of (48::nat) = CHR ''0''" "char_of (49::nat) = CHR ''1''" "char_of (55::nat) = CHR ''7''"
  by (simp_all add: char_of_def bit_Suc bit_0)

lemma digits_value_append: "digits_value (xs @ [c]) = 10 * digits_value xs + digit_val c"
  by (simp add: digits_value_def)

lemma digit_of_val: "isdigit c \<Longrightarrow> char_of (48 + digit_val c) = c \<and> digit_val c < 10"
  by (auto simp: isdigit_def digit_val_def code_def)

lemma dec_of_digits:
  "list_all isdigit ds \<Longrightarrow> ds \<noteq> [] \<Longrightarrow> hd ds \<noteq> CHR ''0'' \<or> length ds = 1 \<Longrightarrow> dec (digits_value ds) = ds"
proof (induction ds rule: rev_induct)
  case (snoc c ds)
  have c: "isdigit c" using snoc.prems by simp
  note d = digit_of_val [OF c]
  show ?case
  proof (cases "ds = []")
    case True
    then show ?thesis using d by (subst dec.simps) (simp add: digits_value_def)
  next
    case False
    then have h: "hd ds \<noteq> CHR ''0''" using snoc.prems(3) by (simp add: hd_append)
    then have IH: "dec (digits_value ds) = ds" using snoc.IH snoc.prems(1) False by simp
    have "digits_value ds \<noteq> 0"
    proof
      assume "digits_value ds = 0"
      then have "ds = dec 0" using IH by simp
      moreover have "dec 0 = ''0''" by (subst dec.simps) (simp add: digit_chars)
      ultimately show False using h by simp
    qed
    then have "\<not> digits_value (ds @ [c]) < 10" "digits_value (ds @ [c]) div 10 = digits_value ds"
      "digits_value (ds @ [c]) mod 10 = digit_val c" using d by (simp_all add: digits_value_append)
    then show ?thesis using IH d by (subst dec.simps) simp
  qed
qed simp

lemma dec_start: "dec n = c # r \<Longrightarrow> c = CHR ''0'' \<Longrightarrow> n = 0 \<and> r = []"
proof (induction n arbitrary: r rule: dec.induct)
  case (1 n)
  show ?case
  proof (cases "n < 10")
    case True
    then have "dec n = [char_of (48 + n)]" by (subst dec.simps) simp
    then have "char_of (48 + n) = c" "r = []" using "1.prems"(1) by simp_all
    then show ?thesis using True "1.prems"(2) isdigit_digit [OF True] by (auto simp: digit_val_def code_def)
  next
    case False
    then have "dec n = dec (n div 10) @ [char_of (48 + n mod 10)]" by (subst dec.simps) simp
    then have q: "dec (n div 10) @ [char_of (48 + n mod 10)] = c # r" using "1.prems"(1) by simp
    then obtain r' where "dec (n div 10) = c # r'" using dec_digits [of "n div 10"] by (cases "dec (n div 10)") auto
    then have "n div 10 = 0" using "1.IH" [OF False _ "1.prems"(2)] by blast
    then show ?thesis using False by simp
  qed
qed

lemma nat_chars:
  "(case s of [] \<Rightarrow> False | c # r \<Rightarrow> isdigit c \<and> \<not> (c = CHR ''0'' \<and> r \<noteq> []) \<and> list_all isdigit r) \<longleftrightarrow> (\<exists>n. s = dec n)"
proof
  assume a: "case s of [] \<Rightarrow> False | c # r \<Rightarrow> isdigit c \<and> \<not> (c = CHR ''0'' \<and> r \<noteq> []) \<and> list_all isdigit r"
  then have "dec (digits_value s) = s" by (intro dec_of_digits) (auto split: list.splits)
  then show "\<exists>n. s = dec n" by metis
next
  assume "\<exists>n. s = dec n"
  then obtain n where n: "s = dec n" by blast
  then show "case s of [] \<Rightarrow> False | c # r \<Rightarrow> isdigit c \<and> \<not> (c = CHR ''0'' \<and> r \<noteq> []) \<and> list_all isdigit r"
    using dec_digits [of n] dec_start [of n] by (cases "dec n") auto
qed

text \<open>
  The characters a number symbol accepts from the user are exactly those the tool itself prints for an integer, of any
  size, and besides them \<open>-0\<close>: no leading zeros, no blanks, no plus sign.
\<close>

theorem sym_string_valid_int:
  "sym_type (syms k s) = S_INT \<Longrightarrow> sym_string_valid k s txt \<longleftrightarrow> txt = ''-0'' \<or> (\<exists>i. txt = dec_int i)"
proof -
  assume "sym_type (syms k s) = S_INT"
  then have "sym_string_valid k s txt \<longleftrightarrow> int_chars txt" by (simp add: sym_string_valid_def)
  also have "\<dots> \<longleftrightarrow> (\<exists>n. (if take 1 txt = ''-'' then tl txt else txt) = dec n)"
    unfolding int_chars_def Let_def nat_chars ..
  also have "\<dots> \<longleftrightarrow> txt = ''-0'' \<or> (\<exists>i. txt = dec_int i)"
  proof (cases "take 1 txt = ''-''")
    case True
    then obtain r where r: "txt = CHR ''-'' # r" by (cases "txt") auto
    have z: "dec 0 = ''0''" by (subst dec.simps) (simp add: digit_chars)
    have "(\<exists>n. r = dec n) \<longleftrightarrow> r = ''0'' \<or> (\<exists>i<0. r = dec (nat (- i)))"
    proof
      assume "\<exists>n. r = dec n"
      then obtain n where "r = dec n" by blast
      then show "r = ''0'' \<or> (\<exists>i<0. r = dec (nat (- i)))" using z by (cases "n = 0") (auto intro!: exI [of _ "- int n"])
    next
      assume "r = ''0'' \<or> (\<exists>i<0. r = dec (nat (- i)))"
      then show "\<exists>n. r = dec n" using z by metis
    qed
    moreover have "CHR ''-'' # r \<noteq> dec (nat i)" for i
    proof
      assume "CHR ''-'' # r = dec (nat i)"
      then show False using dec_digits [of "nat i"] by (auto simp: isdigit_def code_def dest: sym)
    qed
    ultimately show ?thesis using True r by (auto simp: dec_int_def split: if_splits)
  next
    case False
    have "txt \<noteq> ''-0''" using False by auto
    moreover have "(\<exists>i. txt = dec_int i) \<longleftrightarrow> (\<exists>n. txt = dec n)"
    proof
      assume "\<exists>i. txt = dec_int i"
      then obtain i where "txt = dec_int i" by blast
      then show "\<exists>n. txt = dec n" using False by (cases "i < 0") (auto simp: dec_int_def)
    next
      assume "\<exists>n. txt = dec n"
      then obtain n where "txt = dec n" by blast
      then have "txt = dec_int (int n)" by (simp add: dec_int_def)
      then show "\<exists>i. txt = dec_int i" by blast
    qed
    ultimately show ?thesis using False by simp
  qed
  finally show ?thesis .
qed

lemma sym_string_valid_int_witness:
  "sym_string_valid example (Other 4) ''-17'' \<and> \<not> sym_string_valid example (Other 4) ''007''"
proof -
  have t: "sym_type (syms example (Other 4)) = S_INT" by (simp add: example_defs)
  have "dec 17 = ''17''" by (subst dec.simps, subst dec.simps) (simp add: digit_chars)
  then have "dec_int (-17) = ''-17''" by (simp add: dec_int_def)
  then have "\<exists>i. ''-17'' = dec_int i" by metis
  moreover have "dec_int i \<noteq> ''007''" for i
    using dec_start [of "nat i" "CHR ''0''" "''07''"] by (auto simp: dec_int_def)
  then have "\<not> (\<exists>i. ''007'' = dec_int i)" by metis
  ultimately show ?thesis
    using sym_string_valid_int [OF t, of "''-17''"] sym_string_valid_int [OF t, of "''007''"] by simp
qed

section \<open>Names\<close>

text \<open>The chains of the hash table hold the named symbols, each in its own chain, and no number is used twice.\<close>

definition hash_ok :: "kconf \<Rightarrow> bool" where
  "hash_ok k \<longleftrightarrow>
     length (symbol_hash k) = 257 \<and>
     (\<forall>h<256. \<forall>s\<in>set (symbol_hash k ! h). \<exists>n. sym_name (syms k s) = Some n \<and> chain_of n = h) \<and>
     (\<forall>s\<in>set (hashed k). \<exists>i<next_block k. s = Other i)"

lemma chain_hashed: "h < length (symbol_hash k) \<Longrightarrow> s \<in> set (symbol_hash k ! h) \<Longrightarrow> s \<in> set (hashed k)"
  by (auto simp: hashed_def intro: nth_mem)

lemma add_symbol_ok:
  assumes "hash_ok k" and "case n of None \<Rightarrow> h = 256 | Some m \<Rightarrow> h = chain_of m"
  shows "hash_ok (snd (add_symbol h n fl k))"
proof -
  let ?s = "Other (next_block k)" and ?k = "snd (add_symbol h n fl k)"
  have h: "h < 257" using assms(2) by (auto simp: chain_of_def less_Suc_eq_le intro: order_trans split: option.splits)
  have l: "length (symbol_hash k) = 257" using assms(1) by (simp add: hash_ok_def)
  have new: "?s \<notin> set (hashed k)" using assms(1) by (auto simp: hash_ok_def)
  have sh: "symbol_hash ?k = (symbol_hash k)[h := ?s # symbol_hash k ! h]" "next_block ?k = Suc (next_block k)"
    "syms ?k = (syms k)(?s := new_symbol n fl)" by (simp_all add: add_symbol_def Let_def)
  have "set (hashed ?k) \<subseteq> insert ?s (set (hashed k))"
  proof
    fix x assume "x \<in> set (hashed ?k)"
    then obtain c where c: "c \<in> set (symbol_hash ?k)" "x \<in> set c" by (auto simp: hashed_def)
    then have "c \<in> insert (?s # symbol_hash k ! h) (set (symbol_hash k))" using set_update_subset_insert [of "symbol_hash k" h] sh(1) by auto
    then show "x \<in> insert ?s (set (hashed k))" using c(2) chain_hashed [of h k x] h l by (auto simp: hashed_def)
  qed
  moreover have "\<exists>m. sym_name (syms ?k x) = Some m \<and> chain_of m = i" if i: "i < 256" and x: "x \<in> set (symbol_hash ?k ! i)" for i x
  proof (cases "x = ?s")
    case True
    then have "i = h" using x new chain_hashed [of i k x] i l sh(1) by (cases "i = h") auto
    then show ?thesis using True sh(3) assms(2) i by (auto simp: new_symbol_def split: option.splits)
  next
    case False
    then have "x \<in> set (symbol_hash k ! i)" using x sh(1) h l by (cases "i = h") auto
    then show ?thesis using assms(1) i False sh(3) by (auto simp: hash_ok_def)
  qed
  moreover have "\<exists>i<Suc (next_block k). x = Other i" if x: "x \<in> insert ?s (set (hashed k))" for x
    using assms(1) x unfolding hash_ok_def by (cases "x = ?s") (auto simp: less_Suc_eq)
  ultimately show ?thesis using l sh(1,2) unfolding hash_ok_def by auto
qed


text \<open>
  \<open>sym_lookup\<close> for a name of an ordinary symbol: it finds the symbol or adds it, and from then on the same name gives
  the same symbol, from \<open>sym_lookup\<close> and from \<open>sym_find\<close>; the symbol has that name, and the table stays in order.
\<close>

theorem sym_lookup_find:
  assumes "hash_ok k" and "\<forall>x\<in>set (hashed k). sym_name (syms k x) \<noteq> None \<longrightarrow> \<not> sym_is_choice k x"
    and "sym_lookup (Some n) {} k = (s, k')"
  shows "sym_lookup (Some n) {} k' = (s, k') \<and> sym_find n k' = Some s \<and> hash_ok k' \<and>
    (constant_name n = None \<longrightarrow> sym_name (syms k' s) = Some n)"
proof (cases "constant_name n")
  case (Some c)
  then show ?thesis using assms by (simp add: sym_lookup_def sym_find_def)
next
  case None
  let ?h = "chain_of n"
  have h: "?h < 256" by (simp add: chain_of_def)
  have l: "length (symbol_hash k) = 257" using assms(1) by (simp add: hash_ok_def)
  have found: "find (name_matches k1 {} n) (symbol_hash k1 ! ?h) = Some s \<Longrightarrow> sym_name (syms k1 s) = Some n" for k1
    by (auto simp: find_Some_iff name_matches_def)
  have cand: "name_matches k {} n x \<longleftrightarrow> sym_name (syms k x) = Some n \<and> SYMBOL_CONST \<notin> flags (syms k x)"
    if "x \<in> set (symbol_hash k ! ?h)" for x
    using assms(2) chain_hashed [of ?h k x] that h l by (auto simp: name_matches_def has_flag_def)
  show ?thesis
  proof (cases "find (name_matches k {} n) (symbol_hash k ! ?h)")
    case f: (Some x)
    then have e: "x = s" "k' = k" using assms(3) None by (simp_all add: sym_lookup_def)
    have "find (\<lambda>s. sym_name (syms k s) = Some n \<and> SYMBOL_CONST \<notin> flags (syms k s)) (symbol_hash k ! ?h) = Some s"
      using f e(1) cand by (metis (mono_tags, lifting) find_cong)
    then show ?thesis using None f e assms(1) found [of k] by (simp add: sym_lookup_def sym_find_def)
  next
    case f: None
    then have a: "add_symbol ?h (Some n) {} k = (s, k')" using assms(3) None by (simp add: sym_lookup_def)
    then have p: "s = Other (next_block k)" "symbol_hash k' = (symbol_hash k)[?h := s # symbol_hash k ! ?h]"
      "syms k' = (syms k)(s := new_symbol (Some n) {})" by (auto simp: add_symbol_def Let_def)
    have "hash_ok k'" using add_symbol_ok [OF assms(1), where n = "Some n" and h = ?h and fl = "{}"] a by simp
    moreover have "symbol_hash k' ! ?h = s # symbol_hash k ! ?h" using p(2) h l by simp
    ultimately show ?thesis using None p(3) by (simp add: sym_lookup_def sym_find_def name_matches_def new_symbol_def)
  qed
qed

definition empty_table :: kconf where
  "empty_table = example\<lparr>symbol_hash := replicate 257 []\<rparr>"

lemma sym_lookup_find_witness:
  "case sym_lookup (Some ''NET'') {} empty_table of (s, k) \<Rightarrow> sym_find ''NET'' k = Some s \<and> sym_name (syms k s) = Some ''NET''"
proof -
  have h: "hash_ok empty_table" by (simp add: hash_ok_def empty_table_def hashed_def)
  obtain s k where l: "sym_lookup (Some ''NET'') {} empty_table = (s, k)" by (cases "sym_lookup (Some ''NET'') {} empty_table")
  have "constant_name ''NET'' = None" by (simp add: constant_name_def)
  then show ?thesis using sym_lookup_find [OF h _ l] l by (simp add: empty_table_def hashed_def)
qed

end
