(* ===== verification/KConf.thy ===== *)
theory KConf
  imports KSet
begin

text \<open>
  \<open>package/config/confdata.c\<close>: reading a configuration file into the values of the symbols, writing it, the files
  \<open>auto.conf\<close> and \<open>autoconf.h\<close> for the build, the decision which header files of the split configuration are touched,
  and giving values to all new symbols. A file is the list of its characters. Messages are not kept, but counted where
  the code counts them; the names of temporary files, renaming them and the time stamp are not modelled.
\<close>

section \<open>Names\<close>

definition conf_get_configname :: "(string \<Rightarrow> string option) \<Rightarrow> string" where
  "conf_get_configname getenv = (case getenv ''BUILDROOT_CONFIG'' of Some n \<Rightarrow> n | None \<Rightarrow> ''.config'')"

definition conf_get_autoconfig_name :: "(string \<Rightarrow> string option) \<Rightarrow> string option" where
  "conf_get_autoconfig_name getenv = getenv ''KCONFIG_AUTOCONFIG''"

definition SYMBOL_MAXLENGTH :: nat where "SYMBOL_MAXLENGTH = 256"

text \<open>\<open>conf_expand_value\<close>; \<open>None\<close> also when one of the two buffers is exceeded.\<close>

definition name_char :: "char \<Rightarrow> bool" where
  "name_char c \<longleftrightarrow> isalnum c \<or> c = CHR ''_''"

lemma strchr_length: "strchr c s = Some (a, b) \<Longrightarrow> length s = length a + 1 + length b"
  by (induction s arbitrary: a) (auto split: if_splits option.splits)

function expand_from :: "string \<Rightarrow> string \<Rightarrow> kconf \<Rightarrow> (string \<times> kconf) option" where
  "expand_from res s k =
     (case strchr CHR ''$'' s of
        None \<Rightarrow> if length (res @ s) < SYMBOL_MAXLENGTH then Some (res @ s, k) else None
      | Some (a, src) \<Rightarrow>
          let n = takeWhile name_char src
          in if SYMBOL_MAXLENGTH \<le> length (res @ a) \<or> SYMBOL_MAXLENGTH \<le> length n then None
             else case sym_lookup (Some n) {} k of
               (d, k) \<Rightarrow> do {
                 k \<leftarrow> calc_value d k;
                 v \<leftarrow> chars (sym_get_string_value k d);
                 if SYMBOL_MAXLENGTH \<le> length (res @ a @ v) then None
                 else expand_from (res @ a @ v) (dropWhile name_char src) k })"
  by pat_completeness auto

termination
proof (relation "measure (\<lambda>(res, s, k). length s)")
  fix s p a src n q d k1 x2 x2a and res :: string and k :: kconf
  assume "strchr CHR ''$'' s = Some p" "(a, src) = p"
  then have "length src < length s" using strchr_length [of "CHR ''$''" s a src] by simp
  then have "length (dropWhile name_char src) < length s" using length_dropWhile_le [of name_char src] by linarith
  then show "((res @ a @ x2a, dropWhile name_char src, x2), res, s, k) \<in> measure (\<lambda>(res, s, k). length s)" by simp
qed simp

definition conf_expand_value :: "string \<Rightarrow> kconf \<Rightarrow> (string \<times> kconf) option" where
  "conf_expand_value s k = expand_from [] s k"

section \<open>Reading a value\<close>

record reader =
  rk :: kconf
  conf_warnings :: nat
  conf_unsaved :: nat

definition upd_k :: "(kconf \<Rightarrow> kconf) \<Rightarrow> reader \<Rightarrow> reader" where
  "upd_k f r = r\<lparr>rk := f (rk r)\<rparr>"

definition conf_warning :: "reader \<Rightarrow> reader" where
  "conf_warning r = r\<lparr>conf_warnings := Suc (conf_warnings r)\<rparr>"

text \<open>The string up to the closing quote, without the backslashes in front of characters.\<close>

fun unquote :: "string \<Rightarrow> string option" where
  "unquote [] = None"
| "unquote (c # cs) =
     (if c = CHR 0x22 then Some []
      else if c = CHR 0x5C then (case cs of [] \<Rightarrow> None | d # ds \<Rightarrow> map_option ((#) d) (unquote ds))
      else map_option ((#) c) (unquote cs))"

definition store_tri :: "def_index \<Rightarrow> symbol \<Rightarrow> tristate \<Rightarrow> reader \<Rightarrow> reader" where
  "store_tri d s t r = upd_k (\<lambda>k. set_flag (SYMBOL_DEF d) s (set_def_tri d s t k)) r"

definition store_chars :: "def_index \<Rightarrow> symbol \<Rightarrow> string \<Rightarrow> reader \<Rightarrow> int \<times> reader" where
  "store_chars d s p r =
     (if sym_string_valid (rk r) s p
      then (0, upd_k (\<lambda>k. case strdup p k of (q, k) \<Rightarrow> set_flag (SYMBOL_DEF d) s (set_def_val d s q k)) r)
      else (1, conf_warning r))"

definition conf_set_sym_val :: "def_index \<Rightarrow> symbol \<Rightarrow> string \<Rightarrow> reader \<Rightarrow> int \<times> reader" where
  "conf_set_sym_val d s p r =
     (let ty = sym_type (syms (rk r) s)
      in if ty = S_TRISTATE \<and> take 1 p = ''m'' then (0, store_tri d s modul r)
         else if ty \<in> {S_TRISTATE, S_BOOLEAN} then
           (if take 1 p = ''y'' then (0, store_tri d s yes r)
            else if take 1 p = ''n'' then (0, store_tri d s no r)
            else (0, conf_warning r))
         else if ty = S_OTHER \<and> take 1 p \<noteq> [CHR 0x22] then
           store_chars d s p (upd_k (upd_sym s (\<lambda>x. x\<lparr>sym_type := S_STRING\<rparr>)) r)
         else if ty \<in> {S_OTHER, S_STRING} then
           (if take 1 p \<noteq> [CHR 0x22] then (0, r)
            else case unquote (tl p) of None \<Rightarrow> (1, conf_warning r) | Some t \<Rightarrow> store_chars d s t r)
         else if ty \<in> {S_INT, S_HEX} then store_chars d s p r
         else (0, r))"

section \<open>Reading a file\<close>

text \<open>A value of a symbol of a choice is noted in the choice.\<close>

definition note_choice :: "def_index \<Rightarrow> symbol \<Rightarrow> reader \<Rightarrow> reader option" where
  "note_choice d s r =
     (if \<not> sym_is_choice_value (rk r) s then Some r
      else do {
        p \<leftarrow> sym_get_choice_prop (rk r) s;
        c \<leftarrow> prop_get_symbol p;
        let t = vtri (sym_def (syms (rk r) s) d);
        let u = vtri (sym_def (syms (rk r) c) d);
        let r = (if t = modul \<and> u = yes then upd_k (clear_flag (SYMBOL_DEF d) c) (conf_warning r)
                 else if t = yes then upd_k (set_def_val d c (To s)) (if u \<noteq> no then conf_warning r else r)
                 else r);
        Some (upd_k (set_def_tri d c (EXPR_OR u t)) r) })"

text \<open>The symbol of a line: it must be known in \<open>.config\<close>, and is added for \<open>auto.conf\<close>.\<close>

definition line_sym :: "def_index \<Rightarrow> symbol_type \<Rightarrow> string \<Rightarrow> reader \<Rightarrow> symbol option \<times> reader" where
  "line_sym d ty n r =
     (if d = S_DEF_USER then
        (case sym_find n (rk r) of None \<Rightarrow> (None, upd_k (sym_add_change_count 1) r) | Some s \<Rightarrow> (Some s, r))
      else case sym_lookup (Some n) {} (rk r) of
        (s, k) \<Rightarrow> (Some s, r\<lparr>rk := if sym_type (syms k s) = S_UNKNOWN then upd_sym s (\<lambda>x. x\<lparr>sym_type := ty\<rparr>) k else k\<rparr>))"

definition warn_override :: "def_index \<Rightarrow> symbol \<Rightarrow> reader \<Rightarrow> reader" where
  "warn_override d s r = (if has_flag (SYMBOL_DEF d) (rk r) s then conf_warning r else r)"

definition unset_sym :: "def_index \<Rightarrow> symbol \<Rightarrow> reader \<Rightarrow> reader" where
  "unset_sym d s r = (if sym_type (syms (rk r) s) \<in> {S_BOOLEAN, S_TRISTATE} then store_tri d s no r else r)"

text \<open>The value without the line feed and a carriage return in front of it.\<close>

definition line_value :: "string \<Rightarrow> string" where
  "line_value p =
     (case strchr CHR 0x0A p of
        None \<Rightarrow> p
      | Some (v, _) \<Rightarrow> if v \<noteq> [] \<and> last v = CHR 0x0D then butlast v else v)"

definition unset_line :: "def_index \<Rightarrow> string \<Rightarrow> reader \<Rightarrow> reader option" where
  "unset_line d rest r =
     (case strchr CHR '' '' rest of
        None \<Rightarrow> Some r
      | Some (n, p) \<Rightarrow>
          if take 10 p \<noteq> ''is not set'' then Some r
          else (case line_sym d S_BOOLEAN n r of
                  (None, r) \<Rightarrow> Some r
                | (Some s, r) \<Rightarrow> note_choice d s (unset_sym d s (warn_override d s r))))"

definition set_line :: "def_index \<Rightarrow> string \<Rightarrow> reader \<Rightarrow> reader option" where
  "set_line d line r =
     (case strchr CHR ''='' line of
        None \<Rightarrow> Some r
      | Some (n, p) \<Rightarrow>
          (case line_sym d S_OTHER n r of
             (None, r) \<Rightarrow> Some r
           | (Some s, r) \<Rightarrow>
               (case conf_set_sym_val d s (line_value p) (warn_override d s r) of
                  (e, r) \<Rightarrow> if e \<noteq> 0 then Some r else note_choice d s r)))"

definition conf_line :: "def_index \<Rightarrow> string \<Rightarrow> reader \<Rightarrow> reader option" where
  "conf_line d line r =
     (if take 2 line = ''# '' then unset_line d (drop 2 line) r
      else case line of
        [] \<Rightarrow> Some (conf_warning r)
      | c # _ \<Rightarrow>
          if isupper c then set_line d line r
          else if c \<in> {CHR ''#'', CHR 0x0A, CHR 0x0D} then Some r
          else Some (conf_warning r))"

text \<open>\<open>fgets (line, 1024, in)\<close>: at most 1023 characters, up to a line feed; a NUL ends the string.\<close>

definition fgets :: "string \<Rightarrow> string \<times> string" where
  "fgets s =
     (let n = min 1023 (Suc (length (takeWhile (\<lambda>c. c \<noteq> CHR 0x0A) s)))
      in (takeWhile (\<lambda>c. c \<noteq> CHR 0x00) (take n s), drop n s))"

function conf_lines :: "def_index \<Rightarrow> string \<Rightarrow> reader \<Rightarrow> reader option" where
  "conf_lines d s r =
     (if s = [] then Some r
      else case fgets s of (line, rest) \<Rightarrow> do { r \<leftarrow> conf_line d line r; conf_lines d rest r })"
  by pat_completeness auto

termination
  by (relation "measure (\<lambda>(d, s, r). length s)") (auto simp: fgets_def Let_def)

declare conf_lines.simps [simp del]

text \<open>All values are forgotten before.\<close>

definition forget :: "def_index \<Rightarrow> symbol \<Rightarrow> kconf \<Rightarrow> kconf" where
  "forget d s k =
     upd_sym s (\<lambda>x. x\<lparr>flags := (let f = insert SYMBOL_CHANGED (flags x) - {SYMBOL_DEF d, SYMBOL_VALID}
                                 in if SYMBOL_CHOICE \<in> f then insert (SYMBOL_DEF d) f else f),
                      sym_def := (sym_def x)(d := \<lparr>val = Null, vtri = no\<rparr>)\<rparr>) k"

definition conf_load :: "def_index \<Rightarrow> string \<Rightarrow> kconf \<Rightarrow> reader option" where
  "conf_load d s k = do {
     r \<leftarrow> conf_lines d s \<lparr>rk = each_symbol (forget d) k, conf_warnings = 0, conf_unsaved = 0\<rparr>;
     k \<leftarrow> calc_modules (rk r);
     Some (r\<lparr>rk := k\<rparr>) }"

text \<open>The file: the one named, or \<open>.config\<close>, or the first default of \<open>defconfig_list\<close> that can be opened.\<close>

fun default_files :: "(string \<Rightarrow> string option) \<Rightarrow> property list \<Rightarrow> kconf \<Rightarrow> (string option \<times> kconf) option" where
  "default_files zconf_fopen [] k = Some (None, k)"
| "default_files zconf_fopen (p # ps) k =
     (if p_type p \<noteq> P_DEFAULT then default_files zconf_fopen ps k
      else do {
        (t, k) \<leftarrow> calc_dep calc_value (p_visible p) k;
        case p_expr p of
          Some (Sym d) \<Rightarrow>
            if t = no then default_files zconf_fopen ps k
            else do {
              n \<leftarrow> sym_name (syms k d);
              (n, k) \<leftarrow> conf_expand_value n k;
              case zconf_fopen n of Some c \<Rightarrow> Some (Some c, k) | None \<Rightarrow> default_files zconf_fopen ps k }
        | Some _ \<Rightarrow> default_files zconf_fopen ps k
        | None \<Rightarrow> if t = no then default_files zconf_fopen ps k else None })"

definition conf_read_simple ::
    "(string \<Rightarrow> string option) \<Rightarrow> (string \<Rightarrow> string option) \<Rightarrow> symbol option \<Rightarrow> string option \<Rightarrow> def_index \<Rightarrow> reader \<Rightarrow>
     (int \<times> reader) option" where
  "conf_read_simple getenv zconf_fopen sym_defconfig_list name d r = do {
     (c, k) \<leftarrow>
       (case name of
          Some n \<Rightarrow> Some (zconf_fopen n, rk r)
        | None \<Rightarrow>
            case zconf_fopen (conf_get_configname getenv) of
              Some c \<Rightarrow> Some (Some c, rk r)
            | None \<Rightarrow>
                let k = sym_add_change_count 1 (rk r)
                in case sym_defconfig_list of
                     None \<Rightarrow> Some (None, k)
                   | Some s \<Rightarrow> default_files zconf_fopen (props (syms k s)) k);
     case c of
       None \<Rightarrow> Some (1, r\<lparr>rk := k\<rparr>)
     | Some s \<Rightarrow> do { r \<leftarrow> conf_load d s k; Some (0, r) } }"

section \<open>\<open>conf_read\<close>\<close>

text \<open>Whether the saved value agrees with the calculated one.\<close>

definition saved_agrees :: "kconf \<Rightarrow> symbol \<Rightarrow> bool option" where
  "saved_agrees k s =
     (if sym_is_choice k s \<or> has_flag SYMBOL_AUTO k s then Some True
      else if sym_has_value k s \<and> has_flag SYMBOL_WRITE k s then
        (if sym_type (syms k s) \<in> {S_BOOLEAN, S_TRISTATE}
         then Some (vtri (sym_def (syms k s) S_DEF_USER) = sym_get_tristate_value k s)
         else do {
           a \<leftarrow> chars (val (curr (syms k s)));
           b \<leftarrow> chars (val (sym_def (syms k s) S_DEF_USER));
           Some (a = b) })
      else Some (\<not> sym_has_value k s \<and> \<not> has_flag SYMBOL_WRITE k s))"

text \<open>A choice stays set by the user only if all its visible values are.\<close>

definition choice_known :: "symbol \<Rightarrow> kconf \<Rightarrow> kconf option" where
  "choice_known s k =
     (if \<not> sym_is_choice k s then Some k
      else do {
        p \<leftarrow> sym_get_choice_prop k s;
        Some (if list_all (\<lambda>d. visible (syms k d) \<noteq> no \<longrightarrow> sym_has_value k d) (list_syms (p_expr p)) then k
              else clear_flag (SYMBOL_DEF S_DEF_USER) s k) })"

fun compare_values :: "symbol list \<Rightarrow> reader \<Rightarrow> reader option" where
  "compare_values [] r = Some r"
| "compare_values (s # ss) r =
     (if sym_type (syms (rk r) s) = S_OTHER then compare_values ss r
      else do {
        k \<leftarrow> calc_value s (rk r);
        ok \<leftarrow> saved_agrees k s;
        k \<leftarrow> choice_known s k;
        compare_values ss (r\<lparr>rk := k, conf_unsaved := (if ok then conf_unsaved r else Suc (conf_unsaved r))\<rparr>) })"

definition reset_value :: "symbol \<Rightarrow> reader \<Rightarrow> reader option" where
  "reset_value s r =
     (if \<not> sym_has_value (rk r) s \<or> sym_is_choice_value (rk r) s then Some r
      else do {
        let k = (if visible (syms (rk r) s) = no \<and> conf_unsaved r = 0 then clear_flag (SYMBOL_DEF S_DEF_USER) s (rk r) else rk r);
        if sym_type (syms k s) \<notin> {S_STRING, S_INT, S_HEX} then Some (r\<lparr>rk := k\<rparr>)
        else do {
          v \<leftarrow> chars (val (sym_def (syms k s) S_DEF_USER));
          (b, k) \<leftarrow> sym_string_within_range s v k;
          Some (if b then r\<lparr>rk := k\<rparr>
                else r\<lparr>rk := clear_flag SYMBOL_VALID s (clear_flag (SYMBOL_DEF S_DEF_USER) s k), conf_unsaved := Suc (conf_unsaved r)\<rparr>) } })"

fun reset_values :: "symbol list \<Rightarrow> reader \<Rightarrow> reader option" where
  "reset_values [] r = Some r"
| "reset_values (s # ss) r =
     (if sym_type (syms (rk r) s) = S_OTHER then reset_values ss r
      else do { r \<leftarrow> reset_value s r; reset_values ss r })"

definition conf_read ::
    "(string \<Rightarrow> string option) \<Rightarrow> (string \<Rightarrow> string option) \<Rightarrow> symbol option \<Rightarrow> string option \<Rightarrow> reader \<Rightarrow> (int \<times> reader) option" where
  "conf_read getenv zconf_fopen sym_defconfig_list name r = do {
     (e, r) \<leftarrow> conf_read_simple getenv zconf_fopen sym_defconfig_list name S_DEF_USER (upd_k (sym_set_change_count 0) r);
     if e \<noteq> 0 then Some (1, r)
     else do {
       r \<leftarrow> compare_values (hashed (rk r)) r;
       r \<leftarrow> reset_values (hashed (rk r)) r;
       Some (0, upd_k (sym_add_change_count (if conf_warnings r \<noteq> 0 \<or> conf_unsaved r \<noteq> 0 then 1 else 0)) r) } }"

section \<open>Writing\<close>

text \<open>The menus that hold the symbols: each has a symbol, or a prompt with its condition, and entries below it.\<close>

datatype menu = Menu (menu_sym: "symbol option") (menu_prompt: "property option") (menu_list: "menu list")

text \<open>The order in which the loop of \<open>conf_write\<close> follows the pointers \<open>list\<close>, \<open>next\<close> and \<open>parent\<close>.\<close>

fun menu_walk :: "menu list \<Rightarrow> menu list" where
  "menu_walk [] = []"
| "menu_walk (Menu s p ms # rest) = Menu s p ms # menu_walk ms @ menu_walk rest"

definition menu_get_prompt :: "kconf \<Rightarrow> menu \<Rightarrow> string option" where
  "menu_get_prompt k m =
     (case menu_prompt m of
        Some p \<Rightarrow> p_text p
      | None \<Rightarrow> (case menu_sym m of Some s \<Rightarrow> sym_name (syms k s) | None \<Rightarrow> None))"

text \<open>\<open>%s\<close> with a null pointer\<close>

definition show_name :: "string option \<Rightarrow> string" where
  "show_name n = (case n of Some s \<Rightarrow> s | None \<Rightarrow> ''(null)'')"

definition sname_of :: "kconf \<Rightarrow> symbol \<Rightarrow> string" where
  "sname_of k s = show_name (sym_name (syms k s))"

text \<open>The characters with a backslash in front of quotes and backslashes.\<close>

fun quote :: "string \<Rightarrow> string" where
  "quote [] = []"
| "quote (c # cs) = (if c \<in> {CHR 0x22, CHR 0x5C} then CHR 0x5C # c # quote cs else c # quote cs)"

definition nl :: string where "nl = [CHR 0x0A]"

definition quoted :: "string \<Rightarrow> string" where
  "quoted c = [CHR 0x22] @ quote c @ [CHR 0x22]"

definition symbol_line :: "symbol_type \<Rightarrow> kconf \<Rightarrow> symbol \<Rightarrow> string option" where
  "symbol_line ty k s =
     (let n = sname_of k s
      in case ty of
           S_BOOLEAN \<Rightarrow> Some (case sym_get_tristate_value k s of no \<Rightarrow> ''# '' @ n @ '' is not set'' @ nl
             | modul \<Rightarrow> n @ ''=m'' @ nl | yes \<Rightarrow> n @ ''=y'' @ nl)
         | S_TRISTATE \<Rightarrow> Some (case sym_get_tristate_value k s of no \<Rightarrow> ''# '' @ n @ '' is not set'' @ nl
             | modul \<Rightarrow> n @ ''=m'' @ nl | yes \<Rightarrow> n @ ''=y'' @ nl)
         | S_STRING \<Rightarrow> (case chars (sym_get_string_value k s) of None \<Rightarrow> None | Some c \<Rightarrow> Some (n @ ''='' @ quoted c @ nl))
         | S_HEX \<Rightarrow> (case chars (sym_get_string_value k s) of None \<Rightarrow> None | Some c \<Rightarrow> Some (n @ ''='' @ c @ nl))
         | S_INT \<Rightarrow> (case chars (sym_get_string_value k s) of None \<Rightarrow> None | Some c \<Rightarrow> Some (n @ ''='' @ c @ nl))
         | _ \<Rightarrow> Some [])"

text \<open>One entry. Tristate symbols are written as boolean ones while the modules symbol is \<open>n\<close>.\<close>

definition write_symbol :: "symbol \<Rightarrow> kconf \<Rightarrow> (string \<times> kconf) option" where
  "write_symbol s k = do {
     k \<leftarrow> calc_value s k;
     if \<not> has_flag SYMBOL_WRITE k s then Some ([], k)
     else do {
       let k = clear_flag SYMBOL_WRITE s k;
       (ty, k) \<leftarrow>
         (if sym_type (syms k s) \<noteq> S_TRISTATE then Some (sym_type (syms k s), k)
          else do {
            m \<leftarrow> modules_sym k;
            k \<leftarrow> calc_value m k;
            Some (if vtri (curr (syms k m)) = no then S_BOOLEAN else S_TRISTATE, k) });
       t \<leftarrow> symbol_line ty k s;
       Some (t, k) } }"

definition write_entry :: "menu \<Rightarrow> kconf \<Rightarrow> (string \<times> kconf) option" where
  "write_entry m k =
     (case menu_sym m of
        None \<Rightarrow>
          (case menu_prompt m of
             None \<Rightarrow> Some ([], k)
           | Some p \<Rightarrow> do {
               (t, k) \<leftarrow> calc_dep calc_value (p_visible p) k;
               Some (if t = no then [] else nl @ ''#'' @ nl @ ''# '' @ show_name (p_text p) @ nl @ ''#'' @ nl, k) })
      | Some s \<Rightarrow> if sym_is_choice k s then Some ([], k) else write_symbol s k)"

fun write_entries :: "menu list \<Rightarrow> kconf \<Rightarrow> (string \<times> kconf) option" where
  "write_entries [] k = Some ([], k)"
| "write_entries (m # ms) k = do {
     (a, k) \<leftarrow> write_entry m k;
     (b, k) \<leftarrow> write_entries ms k;
     Some (a @ b, k) }"

definition conf_header :: "string \<Rightarrow> string" where
  "conf_header stamp = ''#'' @ nl @ ''# Automatically generated make config: don't edit'' @ nl @ stamp @ ''#'' @ nl"

definition conf_get_changed :: "kconf \<Rightarrow> bool" where
  "conf_get_changed k \<longleftrightarrow> change_count k \<noteq> 0"

text \<open>The text of the new file; the first argument is the line with the time, or empty.\<close>

definition conf_write :: "string \<Rightarrow> menu list \<Rightarrow> kconf \<Rightarrow> (string \<times> kconf) option" where
  "conf_write stamp ms k = do {
     let (v, k) = sym_lookup (Some ''BR2_VERSION'') {} k;
     k \<leftarrow> calc_value v k;
     k \<leftarrow> (if conf_get_changed k then Some k else sym_clear_all_valid k);
     (t, k) \<leftarrow> write_entries (menu_walk ms) k;
     Some (conf_header stamp @ t, sym_set_change_count 0 k) }"

section \<open>The files for the build\<close>

text \<open>The lines for \<open>auto.conf\<close> and \<open>autoconf.h\<close>.\<close>

definition auto_lines :: "kconf \<Rightarrow> symbol \<Rightarrow> (string \<times> string) option" where
  "auto_lines k s =
     (let n = sname_of k s; def = ''#define ''
      in if sym_type (syms k s) \<in> {S_BOOLEAN, S_TRISTATE} then
           Some (case sym_get_tristate_value k s of
                   no \<Rightarrow> ([], [])
                 | modul \<Rightarrow> (n @ ''=m'' @ nl, def @ n @ ''_MODULE 1'' @ nl)
                 | yes \<Rightarrow> (n @ ''=y'' @ nl, def @ n @ '' 1'' @ nl))
         else if sym_type (syms k s) \<in> {S_STRING, S_HEX, S_INT} then do {
           c \<leftarrow> chars (sym_get_string_value k s);
           Some (if sym_type (syms k s) = S_STRING then (n @ ''='' @ quoted c @ nl, def @ n @ '' '' @ quoted c @ nl)
                 else if sym_type (syms k s) = S_HEX \<and> take 2 c \<notin> {''0x'', ''0X''}
                 then (n @ ''='' @ c @ nl, def @ n @ '' 0x'' @ c @ nl)
                 else (n @ ''='' @ c @ nl, def @ n @ '' '' @ c @ nl)) }
         else Some ([], []))"

fun auto_symbols :: "symbol list \<Rightarrow> kconf \<Rightarrow> (string \<times> string \<times> kconf) option" where
  "auto_symbols [] k = Some ([], [], k)"
| "auto_symbols (s # ss) k =
     (if sym_type (syms k s) = S_OTHER then auto_symbols ss k
      else do {
        k \<leftarrow> calc_value s k;
        (a, h) \<leftarrow> (if has_flag SYMBOL_WRITE k s \<and> sym_name (syms k s) \<noteq> None then auto_lines k s else Some ([], []));
        (as, hs, k) \<leftarrow> auto_symbols ss k;
        Some (a @ as, h @ hs, k) })"

text \<open>\<open>conf_split_config\<close>: the header file of a symbol is touched when its value differs from the one in \<open>auto.conf\<close>.\<close>

definition split_changed :: "kconf \<Rightarrow> symbol \<Rightarrow> bool option" where
  "split_changed k s =
     (let ty = sym_type (syms k s); old = has_flag (SYMBOL_DEF S_DEF_AUTO) k s
      in if has_flag SYMBOL_WRITE k s then
           (if ty \<in> {S_BOOLEAN, S_TRISTATE} then
              Some (sym_get_tristate_value k s \<noteq> (if old then vtri (sym_def (syms k s) S_DEF_AUTO) else no))
            else if old \<and> ty \<in> {S_STRING, S_HEX, S_INT} then do {
              a \<leftarrow> chars (sym_get_string_value k s);
              b \<leftarrow> chars (val (sym_def (syms k s) S_DEF_AUTO));
              Some (a \<noteq> b) }
            else Some True)
         else Some old)"

definition split_path :: "string \<Rightarrow> string" where
  "split_path n = map (\<lambda>c. if to_lower c = CHR ''_'' then CHR ''/'' else to_lower c) n @ ''.h''"

fun split_symbols :: "symbol list \<Rightarrow> kconf \<Rightarrow> (string list \<times> kconf) option" where
  "split_symbols [] k = Some ([], k)"
| "split_symbols (s # ss) k =
     (if sym_type (syms k s) = S_OTHER then split_symbols ss k
      else do {
        k \<leftarrow> calc_value s k;
        (case sym_name (syms k s) of
           None \<Rightarrow> split_symbols ss k
         | Some n \<Rightarrow>
             if has_flag SYMBOL_AUTO k s then split_symbols ss k
             else do {
               b \<leftarrow> split_changed k s;
               (ps, k) \<leftarrow> split_symbols ss k;
               Some (if b then split_path n # ps else ps, k) }) })"

text \<open>The files touched, and the state; paths of 128 characters and more exceed the buffer.\<close>

definition conf_split_config ::
    "(string \<Rightarrow> string option) \<Rightarrow> (string \<Rightarrow> string option) \<Rightarrow> reader \<Rightarrow> (string list \<times> reader) option" where
  "conf_split_config getenv zconf_fopen r = do {
     n \<leftarrow> conf_get_autoconfig_name getenv;
     (e, r) \<leftarrow> conf_read_simple getenv zconf_fopen None (Some n) S_DEF_AUTO r;
     (ps, k) \<leftarrow> split_symbols (hashed (rk r)) (rk r);
     if list_ex (\<lambda>p. 128 \<le> length p) ps then None else Some (ps, r\<lparr>rk := k\<rparr>) }"

text \<open>\<open>conf_write_autoconf\<close>: the touched files and the two texts behind their headings.\<close>

definition conf_write_autoconf ::
    "(string \<Rightarrow> string option) \<Rightarrow> (string \<Rightarrow> string option) \<Rightarrow> reader \<Rightarrow> (string list \<times> string \<times> string \<times> reader) option" where
  "conf_write_autoconf getenv zconf_fopen r = do {
     k \<leftarrow> sym_clear_all_valid (rk r);
     (ps, r) \<leftarrow> conf_split_config getenv zconf_fopen (r\<lparr>rk := k\<rparr>);
     let (v, k) = sym_lookup (Some ''BR2_VERSION'') {} (rk r);
     k \<leftarrow> calc_value v k;
     (a, h, k) \<leftarrow> auto_symbols (hashed k) k;
     Some (ps, a, h, r\<lparr>rk := k\<rparr>) }"

section \<open>All new symbols\<close>

datatype conf_def_mode = def_default | def_yes | def_mod | def_no | def_random

text \<open>The value a mode gives, with the list of random numbers still to come.\<close>

definition mode_value :: "conf_def_mode \<Rightarrow> nat list \<Rightarrow> (tristate option \<times> nat list)" where
  "mode_value m rs =
     (case m of
        def_yes \<Rightarrow> (Some yes, rs) | def_mod \<Rightarrow> (Some modul, rs) | def_no \<Rightarrow> (Some no, rs)
      | def_random \<Rightarrow> (Some ([no, modul, yes] ! (hd rs mod 3)), tl rs) | def_default \<Rightarrow> (None, rs))"

fun new_values :: "conf_def_mode \<Rightarrow> symbol list \<Rightarrow> nat list \<Rightarrow> kconf \<Rightarrow> nat list \<times> kconf" where
  "new_values m [] rs k = (rs, k)"
| "new_values m (s # ss) rs k =
     (if sym_type (syms k s) = S_OTHER \<or> sym_has_value k s \<or> sym_get_type k s \<notin> {S_BOOLEAN, S_TRISTATE} then new_values m ss rs k
      else case mode_value m rs of
        (None, rs) \<Rightarrow> new_values m ss rs k
      | (Some t, rs) \<Rightarrow>
          new_values m ss rs
            ((if sym_is_choice k s \<and> m = def_random then id else set_flag (SYMBOL_DEF S_DEF_USER) s) (set_def_tri S_DEF_USER s t k)))"

text \<open>A random member of a choice without a value gets \<open>y\<close>, the others \<open>n\<close>.\<close>

fun pick_member :: "symbol \<Rightarrow> nat \<Rightarrow> nat \<Rightarrow> symbol list \<Rightarrow> kconf \<Rightarrow> kconf" where
  "pick_member c cnt n [] k = k"
| "pick_member c cnt n (d # ds) k =
     pick_member c (Suc cnt) n ds
       (if n = cnt then set_def_val S_DEF_USER c (To d) (set_def_tri S_DEF_USER d yes k) else set_def_tri S_DEF_USER d no k)"

fun random_choices :: "symbol list \<Rightarrow> nat list \<Rightarrow> kconf \<Rightarrow> kconf option" where
  "random_choices [] rs k = Some k"
| "random_choices (c # cs) rs k =
     (if sym_type (syms k c) = S_OTHER \<or> sym_has_value k c \<or> \<not> sym_is_choice k c then random_choices cs rs k
      else do {
        k \<leftarrow> calc_value c k;
        if vtri (curr (syms k c)) \<noteq> yes then random_choices cs rs k
        else do {
          p \<leftarrow> sym_get_choice_prop k c;
          let ds = list_syms (p_expr p);
          if ds = [] then None
          else random_choices cs (tl rs)
                 (clear_flag SYMBOL_VALID c (set_flag (SYMBOL_DEF S_DEF_USER) c (pick_member c 0 (hd rs mod length ds) ds k))) } })"

definition conf_set_all_new_symbols :: "conf_def_mode \<Rightarrow> nat list \<Rightarrow> kconf \<Rightarrow> kconf option" where
  "conf_set_all_new_symbols m rs k =
     (case new_values m (hashed k) rs k of
        (rs, k) \<Rightarrow> do {
          k \<leftarrow> sym_clear_all_valid k;
          if m \<noteq> def_random then Some k else random_choices (hashed k) rs k })"

section \<open>Saving and loading\<close>

text \<open>Reading a line keeps the table, and the names, types, properties and kinds of the symbols.\<close>

definition kinds :: "sym \<Rightarrow> flag set" where
  "kinds x = flags x \<inter> {SYMBOL_CONST, SYMBOL_CHOICE, SYMBOL_CHOICEVAL}"

definition same_symbols :: "kconf \<Rightarrow> kconf \<Rightarrow> bool" where
  "same_symbols k k' \<longleftrightarrow>
     symbol_hash k' = symbol_hash k \<and>
     (\<forall>x. sym_name (syms k' x) = sym_name (syms k x) \<and> sym_type (syms k' x) = sym_type (syms k x) \<and>
          props (syms k' x) = props (syms k x) \<and> kinds (syms k' x) = kinds (syms k x))"

lemma same_symbols_refl [simp]: "same_symbols k k"
  by (simp add: same_symbols_def)

lemma same_symbols_trans: "same_symbols k k' \<Longrightarrow> same_symbols k' k'' \<Longrightarrow> same_symbols k k''"
  by (simp add: same_symbols_def)

lemma same_symbols_kind:
  "same_symbols k k' \<Longrightarrow> fl \<in> {SYMBOL_CONST, SYMBOL_CHOICE, SYMBOL_CHOICEVAL} \<Longrightarrow> has_flag fl k' s = has_flag fl k s"
  by (auto simp: same_symbols_def kinds_def has_flag_def)

lemma same_symbols_find: "same_symbols k k' \<Longrightarrow> sym_find n k' = sym_find n k"
proof -
  assume s: "same_symbols k k'"
  then have "SYMBOL_CONST \<notin> flags (syms k' x) \<longleftrightarrow> SYMBOL_CONST \<notin> flags (syms k x)" for x
    using same_symbols_kind [OF s, of SYMBOL_CONST] by (simp add: has_flag_def)
  with s show ?thesis by (cases "constant_name n") (simp_all add: sym_find_def same_symbols_def)
qed

lemma same_symbols_choice: "same_symbols k k' \<Longrightarrow> sym_get_choice_prop k' s = sym_get_choice_prop k s"
  by (simp add: sym_get_choice_prop_def same_symbols_def)

lemma same_symbols_upd:
  "(\<And>x. sym_name (f x) = sym_name x \<and> sym_type (f x) = sym_type x \<and> props (f x) = props x \<and> kinds (f x) = kinds x) \<Longrightarrow>
   same_symbols k (upd_sym s f k)"
  by (simp add: same_symbols_def upd_sym_def)

lemma same_symbols_set_flag: "fl \<notin> {SYMBOL_CONST, SYMBOL_CHOICE, SYMBOL_CHOICEVAL} \<Longrightarrow> same_symbols k (set_flag fl s k)"
  unfolding set_flag_def by (rule same_symbols_upd) (auto simp: kinds_def)

lemma same_symbols_clear_flag: "fl \<notin> {SYMBOL_CONST, SYMBOL_CHOICE, SYMBOL_CHOICEVAL} \<Longrightarrow> same_symbols k (clear_flag fl s k)"
  unfolding clear_flag_def by (rule same_symbols_upd) (auto simp: kinds_def)

lemma same_symbols_def_val: "same_symbols k (set_def_val d s p k)"
  unfolding set_def_val_def by (rule same_symbols_upd) (simp add: kinds_def)

lemma same_symbols_def_tri: "same_symbols k (set_def_tri d s t k)"
  unfolding set_def_tri_def by (rule same_symbols_upd) (simp add: kinds_def)

lemmas same_symbols_ops = same_symbols_set_flag same_symbols_clear_flag same_symbols_def_val same_symbols_def_tri

lemma upd_sym_other: "x \<noteq> s \<Longrightarrow> syms (upd_sym s f k) x = syms k x"
  by (simp add: upd_sym_def)

lemmas other_symbols = set_flag_def clear_flag_def set_def_val_def set_def_tri_def upd_sym_other

text \<open>Only the choice of a value changes when the value is noted.\<close>

lemma note_choice_keeps:
  assumes "sym_is_choice_value (rk r) s \<longrightarrow>
      (\<exists>p c. sym_get_choice_prop (rk r) s = Some p \<and> prop_get_symbol p = Some c \<and> sym_is_choice (rk r) c)"
  shows "\<exists>r'. note_choice d s r = Some r' \<and> same_symbols (rk r) (rk r') \<and>
    (\<forall>x. \<not> sym_is_choice (rk r) x \<longrightarrow> syms (rk r') x = syms (rk r) x)"
proof (cases "sym_is_choice_value (rk r) s")
  case True
  then obtain p c where p: "sym_get_choice_prop (rk r) s = Some p" "prop_get_symbol p = Some c" "sym_is_choice (rk r) c"
    using assms by blast
  let ?K = "{rk r, clear_flag (SYMBOL_DEF d) c (rk r), set_def_val d c (To s) (rk r)}"
  have "\<exists>r' t. \<exists>k\<in>?K. note_choice d s r = Some r' \<and> rk r' = set_def_tri d c t k"
    using True p(1,2) by (auto simp: note_choice_def Let_def upd_k_def conf_warning_def)
  then obtain r' t k where r: "note_choice d s r = Some r'" "rk r' = set_def_tri d c t k" "k \<in> ?K" by blast
  have "same_symbols (rk r) k" "\<forall>x. x \<noteq> c \<longrightarrow> syms k x = syms (rk r) x"
    using r(3) by (auto simp: same_symbols_ops) (auto simp: other_symbols)
  moreover have "\<forall>x. x \<noteq> c \<longrightarrow> syms (set_def_tri d c t k) x = syms k x" by (simp add: other_symbols)
  ultimately show ?thesis using r(1,2) p(3) same_symbols_trans [OF _ same_symbols_def_tri] by metis
qed (simp add: note_choice_def)

text \<open>What a line that was read left behind.\<close>

definition reads_back :: "kconf \<Rightarrow> kconf \<Rightarrow> symbol \<Rightarrow> bool" where
  "reads_back k k' s \<longleftrightarrow>
     sym_has_value k' s \<and>
     (if sym_type (syms k s) \<in> {S_BOOLEAN, S_TRISTATE}
      then vtri (sym_def (syms k' s) S_DEF_USER) = sym_get_tristate_value k s
      else chars (val (sym_def (syms k' s) S_DEF_USER)) = chars (sym_get_string_value k s))"

text \<open>A text leaves behind the values of a set of symbols, and touches nothing else but choices.\<close>

definition keeps_others :: "kconf \<Rightarrow> symbol set \<Rightarrow> reader \<Rightarrow> reader \<Rightarrow> bool" where
  "keeps_others k W r r' \<longleftrightarrow>
     same_symbols k (rk r') \<and> (\<forall>s\<in>W. reads_back k (rk r') s) \<and>
     (\<forall>x. x \<notin> W \<and> \<not> sym_is_choice k x \<longrightarrow> syms (rk r') x = syms (rk r) x)"

definition reads :: "kconf \<Rightarrow> string \<Rightarrow> symbol set \<Rightarrow> bool" where
  "reads k t W \<longleftrightarrow>
     (\<forall>rest r. same_symbols k (rk r) \<longrightarrow>
        (\<exists>r'. conf_lines S_DEF_USER (t @ rest) r = conf_lines S_DEF_USER rest r' \<and> keeps_others k W r r'))"

lemma readsD:
  "reads k t W \<Longrightarrow> same_symbols k (rk r) \<Longrightarrow>
   \<exists>r'. conf_lines S_DEF_USER (t @ rest) r = conf_lines S_DEF_USER rest r' \<and> keeps_others k W r r'"
  by (simp add: reads_def)

lemma reads_Nil: "reads k [] {}"
  by (auto simp: reads_def keeps_others_def)

lemma reads_append:
  assumes a: "reads k a V" and b: "reads k b W" and n: "\<forall>s\<in>V. \<not> sym_is_choice k s"
  shows "reads k (a @ b) (V \<union> W)"
  unfolding reads_def
proof (intro allI impI)
  fix rest and r :: reader assume "same_symbols k (rk r)"
  then obtain r1 where 1: "conf_lines S_DEF_USER (a @ b @ rest) r = conf_lines S_DEF_USER (b @ rest) r1" "keeps_others k V r r1"
    using readsD [OF a, of r "b @ rest"] by auto
  then obtain r2 where 2: "conf_lines S_DEF_USER (b @ rest) r1 = conf_lines S_DEF_USER rest r2" "keeps_others k W r1 r2"
    using readsD [OF b, of r1 rest] by (auto simp: keeps_others_def)
  have "reads_back k (rk r2) s" if "s \<in> V \<union> W" for s
  proof (cases "s \<in> W")
    case False
    then have "syms (rk r2) s = syms (rk r1) s" "reads_back k (rk r1) s" using that n 1(2) 2(2) by (auto simp: keeps_others_def)
    then show ?thesis by (simp add: reads_back_def has_flag_def)
  qed (use 2(2) in \<open>simp add: keeps_others_def\<close>)
  then have "keeps_others k (V \<union> W) r r2" using 1(2) 2(2) by (auto simp: keeps_others_def)
  then show "\<exists>r'. conf_lines S_DEF_USER ((a @ b) @ rest) r = conf_lines S_DEF_USER rest r' \<and> keeps_others k (V \<union> W) r r'"
    using 1(1) 2(1) by auto
qed

subsection \<open>One line\<close>

definition plain :: "string \<Rightarrow> bool" where
  "plain c \<longleftrightarrow> CHR 0x0A \<notin> set c \<and> CHR 0x00 \<notin> set c"

lemma plain_append [simp]: "plain (a @ b) \<longleftrightarrow> plain a \<and> plain b"
  by (auto simp: plain_def)

lemma fgets_line: "plain l \<Longrightarrow> length l < 1023 \<Longrightarrow> fgets (l @ nl @ rest) = (l @ nl, rest)"
proof -
  assume l: "plain l" "length l < 1023"
  then have "takeWhile (\<lambda>c. c \<noteq> CHR 0x0A) (l @ CHR 0x0A # rest) = l" by (subst takeWhile_append2) (auto simp: plain_def)
  moreover have "takeWhile (\<lambda>c. c \<noteq> CHR 0x00) (l @ [CHR 0x0A]) = l @ [CHR 0x0A]"
    using l(1) by (subst takeWhile_eq_all_conv) (auto simp: plain_def)
  ultimately show ?thesis using l(2) by (simp add: fgets_def nl_def)
qed

lemma reads_line:
  assumes "plain l" and "length l < 1023"
    and "\<And>r. same_symbols k (rk r) \<Longrightarrow> \<exists>r'. conf_line S_DEF_USER (l @ nl) r = Some r' \<and> keeps_others k W r r'"
  shows "reads k (l @ nl) W"
  unfolding reads_def
proof (intro allI impI)
  fix rest and r :: reader assume "same_symbols k (rk r)"
  then obtain r' where r: "conf_line S_DEF_USER (l @ nl) r = Some r'" "keeps_others k W r r'" using assms(3) by blast
  then have "conf_lines S_DEF_USER ((l @ nl) @ rest) r = conf_lines S_DEF_USER rest r'"
    using fgets_line [OF assms(1,2), of rest] by (subst conf_lines.simps) (simp add: nl_def)
  with r(2) show "\<exists>r'. conf_lines S_DEF_USER ((l @ nl) @ rest) r = conf_lines S_DEF_USER rest r' \<and> keeps_others k W r r'"
    by blast
qed

text \<open>Comment lines without \<open>is not set\<close> in the third place are passed over.\<close>

definition harmless :: "string \<Rightarrow> bool" where
  "harmless w \<longleftrightarrow> plain w \<and> length w < 1021 \<and>
     (case strchr CHR '' '' w of None \<Rightarrow> True | Some (n, p) \<Rightarrow> take 10 p \<noteq> ''is not set'')"

lemma strchr_other: "c \<noteq> d \<Longrightarrow> strchr c (w @ [d]) = map_option (\<lambda>(a, b). (a, b @ [d])) (strchr c w)"
  by (induction w) (auto split: option.splits)

lemma prefix_no_nl: "CHR 0x0A \<notin> set x \<Longrightarrow> length x = n \<Longrightarrow> take n (p @ [CHR 0x0A]) = x \<Longrightarrow> take n p = x"
  by (cases "n \<le> length p") auto

lemma reads_comment:
  assumes "harmless w"
  shows "reads k (''# '' @ w @ nl) {}"
proof -
  have "conf_line S_DEF_USER ((''# '' @ w) @ nl) r = Some r" for r
  proof (cases "strchr CHR '' '' w")
    case None
    then show ?thesis by (simp add: conf_line_def unset_line_def nl_def strchr_other)
  next
    case (Some a)
    obtain n p where a: "a = (n, p)" by (cases a)
    have "take 10 (p @ [CHR 0x0A]) \<noteq> ''is not set''"
    proof
      assume "take 10 (p @ [CHR 0x0A]) = ''is not set''"
      then have "take 10 p = ''is not set''" by (rule prefix_no_nl [rotated 2]) simp_all
      then show False using assms Some a by (simp add: harmless_def)
    qed
    then show ?thesis using Some a by (simp add: conf_line_def unset_line_def nl_def strchr_other)
  qed
  moreover have "plain (''# '' @ w)" "length (''# '' @ w) < 1023" using assms by (auto simp: harmless_def plain_def)
  ultimately have "reads k ((''# '' @ w) @ nl) {}" by (intro reads_line) (auto simp: keeps_others_def)
  then show ?thesis by simp
qed

lemma reads_hash: "reads k (''#'' @ nl) {}" and reads_blank: "reads k nl {}"
proof -
  have "conf_line S_DEF_USER (''#'' @ nl) r = Some r" "conf_line S_DEF_USER ([] @ nl) r = Some r" for r
    by (simp_all add: conf_line_def nl_def isupper_def code_def)
  then have "reads k (''#'' @ nl) {}" "reads k ([] @ nl) {}"
    by (intro reads_line; auto simp: keeps_others_def plain_def)+
  then show "reads k (''#'' @ nl) {}" "reads k nl {}" by simp_all
qed

text \<open>
  A symbol that survives: its name starts with a capital letter and is the name \<open>sym_find\<close> knows it by, a value of
  a choice has its choice, its line fits the buffer, and its value is one of its type.
\<close>

definition value_ok :: "kconf \<Rightarrow> symbol \<Rightarrow> bool" where
  "value_ok k s =
     (let ty = sym_type (syms k s); v = chars (sym_get_string_value k s)
      in ty = S_TRISTATE \<or>
         ty = S_BOOLEAN \<and> sym_get_tristate_value k s \<noteq> modul \<or>
         ty = S_STRING \<and> (case v of None \<Rightarrow> False | Some c \<Rightarrow> plain c) \<or>
         ty \<in> {S_INT, S_HEX} \<and> (case v of None \<Rightarrow> False | Some c \<Rightarrow> string_valid ty c))"

definition in_choice :: "kconf \<Rightarrow> symbol \<Rightarrow> bool" where
  "in_choice k s \<longleftrightarrow>
     (case sym_get_choice_prop k s of
        None \<Rightarrow> False
      | Some p \<Rightarrow> (case prop_get_symbol p of None \<Rightarrow> False | Some c \<Rightarrow> sym_is_choice k c))"

definition savable :: "kconf \<Rightarrow> symbol \<Rightarrow> bool" where
  "savable k s \<longleftrightarrow>
     (case sym_name (syms k s) of
        None \<Rightarrow> False
      | Some n \<Rightarrow> n \<noteq> [] \<and> isupper (hd n) \<and> list_all name_char n \<and> sym_find n k = Some s) \<and>
     \<not> sym_is_choice k s \<and> (sym_is_choice_value k s \<longrightarrow> in_choice k s) \<and> value_ok k s \<and>
     (case symbol_line (sym_type (syms k s)) k s of None \<Rightarrow> False | Some l \<Rightarrow> length l \<le> 1023)"

lemma noted:
  assumes k: "same_symbols k (rk r)" and "\<not> sym_is_choice k s" and c: "sym_is_choice_value k s \<longrightarrow> in_choice k s"
    and k1: "same_symbols (rk r) (rk r1)" and o: "\<forall>x. x \<noteq> s \<longrightarrow> syms (rk r1) x = syms (rk r) x"
    and b: "reads_back k (rk r1) s"
  shows "\<exists>r'. note_choice S_DEF_USER s r1 = Some r' \<and> keeps_others k {s} r r'"
proof -
  have k2: "same_symbols k (rk r1)" by (rule same_symbols_trans [OF k k1])
  have ch: "sym_is_choice (rk r1) x = sym_is_choice k x" for x by (rule same_symbols_kind [OF k2]) simp
  have cv: "sym_is_choice_value (rk r1) s = sym_is_choice_value k s" by (rule same_symbols_kind [OF k2]) simp
  have "sym_is_choice_value (rk r1) s \<longrightarrow>
      (\<exists>p c. sym_get_choice_prop (rk r1) s = Some p \<and> prop_get_symbol p = Some c \<and> sym_is_choice (rk r1) c)"
    using c ch cv same_symbols_choice [OF k2, of s] by (auto simp: in_choice_def split: option.splits)
  then obtain r' where r: "note_choice S_DEF_USER s r1 = Some r'" "same_symbols (rk r1) (rk r')"
      "\<forall>x. \<not> sym_is_choice (rk r1) x \<longrightarrow> syms (rk r') x = syms (rk r1) x"
    using note_choice_keeps by blast
  have "reads_back k (rk r') s" using b r(3) ch assms(2) by (simp add: reads_back_def has_flag_def)
  then have "keeps_others k {s} r r'" using r(3) ch o same_symbols_trans [OF k2 r(2)] by (simp add: keeps_others_def)
  then show ?thesis using r(1) by blast
qed

lemma name_chars: "list_all name_char n \<Longrightarrow> \<not> name_char c \<Longrightarrow> c \<notin> set n"
  by (auto simp: list_all_iff)

lemma not_name_char:
  "\<not> name_char (CHR 0x00)" "\<not> name_char (CHR 0x0A)" "\<not> name_char (CHR '' '')" "\<not> name_char (CHR ''='')"
  by (simp_all add: name_char_def isalnum_def isalpha_def isupper_def islower_def isdigit_def code_def)

lemma plain_name: "list_all name_char n \<Longrightarrow> plain n"
  by (simp add: plain_def name_chars not_name_char)

lemma plain_quote [simp]: "plain (quote c) \<longleftrightarrow> plain c"
  by (induction c rule: quote.induct) (auto simp: plain_def)

lemma unquote_quote: "unquote (quote c @ CHR 0x22 # r) = Some c"
  by (induction c rule: quote.induct) auto

lemma line_value_plain: "plain v \<Longrightarrow> v = [] \<or> last v \<noteq> CHR 0x0D \<Longrightarrow> line_value (v @ nl) = v"
  by (auto simp: line_value_def nl_def plain_def strchr_append)

lemma valid_number_plain:
  assumes "string_valid ty v" and "ty \<in> {S_INT, S_HEX}"
  shows "plain v \<and> (v = [] \<or> last v \<noteq> CHR 0x0D)"
proof -
  have "CHR 0x0A \<notin> set v \<and> CHR 0x00 \<notin> set v \<and> CHR 0x0D \<notin> set v"
  proof (cases "ty = S_INT")
    case True
    have s: "\<exists>w. set v \<subseteq> insert CHR ''-'' (set w) \<and> list_all isdigit w"
      using assms(1) True
      by (cases v) (fastforce simp: int_chars_def Let_def split: list.splits if_splits intro: exI [of _ v] exI [of _ "tl v"])+
    then show ?thesis by (fastforce simp: list_all_iff isdigit_def code_def)
  next
    case False
    then have "list_all isxdigit v \<or> list_all isxdigit (drop 2 v) \<and> take 2 v \<in> {''0x'', ''0X''}"
      using assms by (auto simp: hex_chars_def Let_def split: if_splits)
    moreover have "set v = set (take 2 v) \<union> set (drop 2 v)" by (metis append_take_drop_id set_append)
    ultimately show ?thesis by (fastforce simp: list_all_iff isxdigit_def isdigit_def code_def)
  qed
  then show ?thesis by (metis last_in_set plain_def)
qed

text \<open>The effect of storing a value.\<close>

definition stored :: "kconf \<Rightarrow> symbol \<Rightarrow> reader \<Rightarrow> reader \<Rightarrow> bool" where
  "stored k s r r1 \<longleftrightarrow>
     same_symbols (rk r) (rk r1) \<and> (\<forall>x. x \<noteq> s \<longrightarrow> syms (rk r1) x = syms (rk r) x) \<and> reads_back k (rk r1) s"

lemma stored_tri:
  assumes "sym_type (syms k s) \<in> {S_BOOLEAN, S_TRISTATE}" and "t = sym_get_tristate_value k s"
  shows "stored k s r (store_tri S_DEF_USER s t r)"
proof -
  have "same_symbols (rk r) (rk (store_tri S_DEF_USER s t r))"
    by (auto simp: store_tri_def upd_k_def intro: same_symbols_trans [OF same_symbols_def_tri same_symbols_set_flag])
  then show ?thesis using assms
    by (auto simp: stored_def store_tri_def upd_k_def other_symbols reads_back_def) (simp_all add: has_flag_def upd_sym_def)
qed

lemma stored_chars:
  assumes "sym_type (syms k s) \<notin> {S_BOOLEAN, S_TRISTATE}" and "chars (sym_get_string_value k s) = Some v"
    and "string_valid (sym_type (syms (rk r) s)) v"
  shows "\<exists>r1. store_chars S_DEF_USER s v r = (0, r1) \<and> stored k s r r1"
proof -
  let ?b = "(rk r)\<lparr>next_block := Suc (next_block (rk r))\<rparr>" and ?p = "Chars (Heap (next_block (rk r))) v"
  let ?k = "set_flag (SYMBOL_DEF S_DEF_USER) s (set_def_val S_DEF_USER s ?p ?b)"
  have "same_symbols (rk r) ?b" by (simp add: same_symbols_def)
  then have "same_symbols (rk r) ?k"
    by (rule same_symbols_trans [OF _ same_symbols_trans [OF same_symbols_def_val same_symbols_set_flag]]) simp
  then have "stored k s r (upd_k (\<lambda>_. ?k) r)" using assms(1,2)
    by (auto simp: stored_def upd_k_def other_symbols reads_back_def chars_def) (simp_all add: has_flag_def upd_sym_def chars_def)
  moreover have "store_chars S_DEF_USER s v r = (0, upd_k (\<lambda>_. ?k) r)"
    using assms(3) by (simp add: store_chars_def sym_string_valid_def strdup_def upd_k_def)
  ultimately show ?thesis by blast
qed

lemma reads_stored:
  assumes s: "savable k s" and "plain l" and "length l < 1023"
    and "\<And>r. same_symbols k (rk r) \<Longrightarrow> \<exists>r1. conf_line S_DEF_USER (l @ nl) r = note_choice S_DEF_USER s r1 \<and> stored k s r r1"
  shows "reads k (l @ nl) {s}"
proof (rule reads_line [OF assms(2,3)])
  fix r :: reader assume r: "same_symbols k (rk r)"
  then obtain r1 where r1: "conf_line S_DEF_USER (l @ nl) r = note_choice S_DEF_USER s r1" "stored k s r r1" using assms(4) by blast
  then obtain r' where "note_choice S_DEF_USER s r1 = Some r'" "keeps_others k {s} r r'"
    using noted [OF r, of s r1] s by (auto simp: stored_def savable_def)
  then show "\<exists>r'. conf_line S_DEF_USER (l @ nl) r = Some r' \<and> keeps_others k {s} r r'" using r1(1) by auto
qed

lemma warn_override_rk [simp]: "rk (warn_override d s r) = rk r"
  by (simp add: warn_override_def conf_warning_def)

lemma stored_warn [simp]: "stored k s (warn_override d s r) r1 \<longleftrightarrow> stored k s r r1"
  by (simp add: stored_def)

text \<open>The two forms of a line.\<close>

lemma conf_line_set:
  assumes "savable k s" and "sym_name (syms k s) = Some n" and "same_symbols k (rk r)"
    and "conf_set_sym_val S_DEF_USER s (line_value w) (warn_override S_DEF_USER s r) = (0, r1)"
  shows "conf_line S_DEF_USER (n @ ''='' @ w) r = note_choice S_DEF_USER s r1"
proof -
  have n: "n \<noteq> []" "isupper (hd n)" "list_all name_char n" "sym_find n (rk r) = Some s"
    using assms(1,2) same_symbols_find [OF assms(3)] by (auto simp: savable_def)
  then obtain c m where m: "n = c # m" "isupper c" by (cases n) auto
  have "CHR ''='' \<notin> set n" using n(3) by (simp add: name_chars not_name_char)
  then have "strchr CHR ''='' (n @ CHR ''='' # w) = Some (n, w)" by (rule strchr_append)
  then have "set_line S_DEF_USER (n @ ''='' @ w) r = note_choice S_DEF_USER s r1"
    using n(4) assms(4) by (simp add: set_line_def line_sym_def)
  moreover have "c \<noteq> CHR ''#''" using m(2) by (auto simp: isupper_def code_def)
  ultimately show ?thesis using m by (simp add: conf_line_def)
qed

lemma conf_line_unset:
  assumes "savable k s" and "sym_name (syms k s) = Some n" and "same_symbols k (rk r)"
    and "sym_type (syms k s) \<in> {S_BOOLEAN, S_TRISTATE}"
  shows "conf_line S_DEF_USER (''# '' @ n @ '' is not set'' @ nl) r =
    note_choice S_DEF_USER s (store_tri S_DEF_USER s no (warn_override S_DEF_USER s r))"
proof -
  have n: "list_all name_char n" "sym_find n (rk r) = Some s"
    using assms(1,2) same_symbols_find [OF assms(3)] by (auto simp: savable_def)
  have "CHR '' '' \<notin> set n" using n(1) by (simp add: name_chars not_name_char)
  then have "strchr CHR '' '' (n @ CHR '' '' # ''is not set'' @ nl) = Some (n, ''is not set'' @ nl)" by (rule strchr_append)
  moreover have "sym_type (syms (rk r) s) \<in> {S_BOOLEAN, S_TRISTATE}" using assms(3,4) by (simp add: same_symbols_def)
  ultimately show ?thesis using n(2)
    by (simp add: conf_line_def unset_line_def line_sym_def unset_sym_def nl_def)
qed

lemma set_tri_val:
  assumes "sym_type (syms k s) = S_TRISTATE \<or> sym_type (syms k s) = S_BOOLEAN \<and> t \<noteq> modul" and "t \<noteq> no"
    and "t = sym_get_tristate_value k s" and "sym_type (syms (rk r) s) = sym_type (syms k s)"
  shows "\<exists>r1. conf_set_sym_val S_DEF_USER s (tri_letter t) r = (0, r1) \<and> stored k s r r1"
proof -
  have "conf_set_sym_val S_DEF_USER s (tri_letter t) r = (0, store_tri S_DEF_USER s t r)"
    using assms(1,2,4) by (cases t) (auto simp: conf_set_sym_val_def Let_def)
  then show ?thesis using stored_tri [OF _ assms(3)] assms(1) by auto
qed

lemma set_chars_val:
  assumes "sym_type (syms k s) \<in> {S_STRING, S_INT, S_HEX}" and "chars (sym_get_string_value k s) = Some v"
    and "string_valid (sym_type (syms k s)) v" and "sym_type (syms (rk r) s) = sym_type (syms k s)"
  shows "\<exists>r1. conf_set_sym_val S_DEF_USER s (if sym_type (syms k s) = S_STRING then quoted v else v) r = (0, r1) \<and> stored k s r r1"
proof -
  have "conf_set_sym_val S_DEF_USER s (if sym_type (syms k s) = S_STRING then quoted v else v) r = store_chars S_DEF_USER s v r"
    using assms(1,4) unquote_quote [of v "[]"] by (auto simp: conf_set_sym_val_def quoted_def)
  then show ?thesis using stored_chars [of k s v r] assms by auto
qed

text \<open>Every line \<open>conf_write\<close> writes for a symbol gives its value back.\<close>

lemma reads_set:
  assumes s: "savable k s" and n: "sym_name (syms k s) = Some n" and w: "plain w" "w \<noteq> [] \<longrightarrow> last w \<noteq> CHR 0x0D"
    and l: "length (n @ ''='' @ w) < 1023"
    and "\<And>r. same_symbols k (rk r) \<Longrightarrow> \<exists>r1. conf_set_sym_val S_DEF_USER s w r = (0, r1) \<and> stored k s r r1"
  shows "reads k ((n @ ''='' @ w) @ nl) {s}"
proof (rule reads_stored [OF s _ l])
  have "list_all name_char n" using s n by (simp add: savable_def)
  then show "plain (n @ ''='' @ w)" using plain_name w(1) by (simp add: plain_def)
  fix r :: reader assume k: "same_symbols k (rk r)"
  then obtain r1 where "conf_set_sym_val S_DEF_USER s w (warn_override S_DEF_USER s r) = (0, r1)" "stored k s r r1"
    using assms(6) [of "warn_override S_DEF_USER s r"] by auto
  then have "conf_line S_DEF_USER (n @ ''='' @ w @ nl) r = note_choice S_DEF_USER s r1"
    using conf_line_set [OF s n k] line_value_plain [of w] w by auto
  then show "\<exists>r1. conf_line S_DEF_USER ((n @ ''='' @ w) @ nl) r = note_choice S_DEF_USER s r1 \<and> stored k s r r1"
    using \<open>stored k s r r1\<close> by auto
qed

lemma reads_tri:
  assumes s: "savable k s" and ty: "sym_type (syms k s) \<in> {S_BOOLEAN, S_TRISTATE}"
    and t: "symbol_line (sym_type (syms k s)) k s = Some t"
  shows "reads k t {s}"
proof -
  obtain n where n: "sym_name (syms k s) = Some n" "list_all name_char n" using s by (auto simp: savable_def split: option.splits)
  have len: "length t \<le> 1023" using s t by (simp add: savable_def)
  let ?v = "sym_get_tristate_value k s"
  show ?thesis
  proof (cases "?v = no")
    case True
    then have l: "t = (''# '' @ n @ '' is not set'') @ nl"
      using t ty n by (auto simp: symbol_line_def sname_of_def show_name_def)
    have "plain (''# '' @ n @ '' is not set'')" using plain_name [OF n(2)] by (simp add: plain_def)
    moreover have "\<exists>r1. conf_line S_DEF_USER ((''# '' @ n @ '' is not set'') @ nl) r = note_choice S_DEF_USER s r1 \<and> stored k s r r1"
      if "same_symbols k (rk r)" for r
      using conf_line_unset [OF s n(1) that ty] stored_tri [OF ty, of no "warn_override S_DEF_USER s r"] True by auto
    ultimately show ?thesis unfolding l using len l by (intro reads_stored [OF s]) (auto simp: nl_def)
  next
    case False
    have l: "t = (n @ ''='' @ tri_letter ?v) @ nl"
      using t ty n False by (cases ?v) (auto simp: symbol_line_def sname_of_def show_name_def)
    have "sym_type (syms k s) = S_TRISTATE \<or> sym_type (syms k s) = S_BOOLEAN \<and> ?v \<noteq> modul"
      using s ty by (auto simp: savable_def value_ok_def Let_def)
    then have "\<exists>r1. conf_set_sym_val S_DEF_USER s (tri_letter ?v) r = (0, r1) \<and> stored k s r r1" if "same_symbols k (rk r)" for r
      using set_tri_val [OF _ False refl] that by (simp add: same_symbols_def)
    moreover have "plain (tri_letter ?v)" "last (tri_letter ?v) \<noteq> CHR 0x0D" by (cases ?v; simp add: plain_def)+
    ultimately show ?thesis unfolding l using len l by (intro reads_set [OF s n(1)]) (auto simp: nl_def)
  qed
qed

lemma reads_chars:
  assumes s: "savable k s" and ty: "sym_type (syms k s) \<in> {S_STRING, S_INT, S_HEX}"
    and t: "symbol_line (sym_type (syms k s)) k s = Some t"
  shows "reads k t {s}"
proof -
  obtain n where n: "sym_name (syms k s) = Some n" "list_all name_char n" using s by (auto simp: savable_def split: option.splits)
  have len: "length t \<le> 1023" using s t by (simp add: savable_def)
  obtain v where v: "chars (sym_get_string_value k s) = Some v" "string_valid (sym_type (syms k s)) v"
      "sym_type (syms k s) = S_STRING \<longrightarrow> plain v"
    using s ty by (auto simp: savable_def value_ok_def Let_def split: option.splits)
  let ?w = "if sym_type (syms k s) = S_STRING then quoted v else v"
  have l: "t = (n @ ''='' @ ?w) @ nl" using t ty n(1) v(1) by (auto simp: symbol_line_def sname_of_def show_name_def)
  have w: "plain ?w" "?w \<noteq> [] \<longrightarrow> last ?w \<noteq> CHR 0x0D"
    using v ty valid_number_plain [OF v(2)] by (auto simp: quoted_def plain_def plain_quote [unfolded plain_def])
  have "\<exists>r1. conf_set_sym_val S_DEF_USER s ?w r = (0, r1) \<and> stored k s r r1" if "same_symbols k (rk r)" for r
    using set_chars_val [OF ty v(1,2)] that by (simp add: same_symbols_def)
  then show ?thesis unfolding l using len l w by (intro reads_set [OF s n(1)]) (auto simp: nl_def)
qed

lemma reads_symbol:
  assumes "savable k s" and "symbol_line (sym_type (syms k s)) k s = Some t"
  shows "reads k t {s}"
proof -
  have "sym_type (syms k s) \<in> {S_BOOLEAN, S_TRISTATE} \<or> sym_type (syms k s) \<in> {S_STRING, S_INT, S_HEX}"
    using assms(1) by (auto simp: savable_def value_ok_def Let_def)
  then show ?thesis using reads_tri [OF assms(1) _ assms(2)] reads_chars [OF assms(1) _ assms(2)] by blast
qed

subsection \<open>A whole file\<close>

text \<open>The state changes only in the flags \<open>SYMBOL_WRITE\<close> while a file is written from calculated values.\<close>

definition written :: "kconf \<Rightarrow> menu list \<Rightarrow> symbol set" where
  "written k ms = {s. \<exists>m\<in>set ms. menu_sym m = Some s \<and> \<not> sym_is_choice k s \<and> has_flag SYMBOL_WRITE k s}"

definition entry_ok :: "kconf \<Rightarrow> menu \<Rightarrow> bool" where
  "entry_ok k m =
     (case menu_sym m of
        None \<Rightarrow>
          (case menu_prompt m of
             None \<Rightarrow> True
           | Some p \<Rightarrow> (\<forall>s\<in>dep_syms (p_visible p). has_flag SYMBOL_VALID k s) \<and> harmless (show_name (p_text p)))
      | Some s \<Rightarrow> sym_is_choice k s \<or> has_flag SYMBOL_VALID k s \<and> (has_flag SYMBOL_WRITE k s \<longrightarrow> savable k s))"

definition unwrite :: "symbol set \<Rightarrow> kconf \<Rightarrow> kconf" where
  "unwrite W k = k\<lparr>syms := \<lambda>x. (syms k x)\<lparr>flags := flags (syms k x) - (if x \<in> W then {SYMBOL_WRITE} else {})\<rparr>\<rparr>"

lemma calc_value_valid: "has_flag SYMBOL_VALID k s \<Longrightarrow> calc_value s k = Some k"
  using valid_returns [of k s "Suc (length (hashed k))"] by (simp add: calc_value_def)

lemma calc_expr_valid:
  "\<forall>s\<in>expr_syms e. has_flag SYMBOL_VALID k s \<Longrightarrow> calc_expr calc_value e k = Some (t, k') \<Longrightarrow> k' = k"
  by (induction e arbitrary: t k') (auto simp: calc_value_valid split: bind_splits)

lemma calc_dep_valid:
  "\<forall>s\<in>dep_syms e. has_flag SYMBOL_VALID k s \<Longrightarrow> calc_dep calc_value e k = Some (t, k') \<Longrightarrow> k' = k"
  using calc_expr_valid by (cases e) (auto simp: calc_dep_def dep_syms_def)

lemma unwrite_none [simp]: "unwrite {} k = k"
  by (simp add: unwrite_def)

lemma unwrite_syms [simp]:
  "sym_name (syms (unwrite W k) x) = sym_name (syms k x)" "sym_type (syms (unwrite W k) x) = sym_type (syms k x)"
  "curr (syms (unwrite W k) x) = curr (syms k x)" "modules_sym (unwrite W k) = modules_sym k"
  by (simp_all add: unwrite_def)

lemma unwrite_flags [simp]:
  "has_flag fl (unwrite W k) x \<longleftrightarrow> has_flag fl k x \<and> \<not> (fl = SYMBOL_WRITE \<and> x \<in> W)"
  by (simp add: unwrite_def has_flag_def)

lemma unwrite_more: "clear_flag SYMBOL_WRITE s (unwrite W k) = unwrite (insert s W) k"
  by (auto simp: unwrite_def clear_flag_def upd_sym_def fun_eq_iff)

lemma unwrite_values [simp]:
  "sym_get_tristate_value (unwrite W k) s = sym_get_tristate_value k s"
  "sym_get_string_value (unwrite W k) s = sym_get_string_value k s"
  by (simp_all add: sym_get_tristate_value_def sym_get_string_value_def)

lemma symbol_line_unwrite: "symbol_line ty (unwrite W k) s = symbol_line ty k s"
  by (cases ty) (simp_all add: symbol_line_def sname_of_def)

text \<open>A symbol that is not to be written, or already was, leaves no text.\<close>

lemma write_symbol_reads:
  assumes v: "has_flag SYMBOL_VALID k s" and sv: "has_flag SYMBOL_WRITE k s \<longrightarrow> savable k s"
    and m: "\<forall>m. modules_sym k = Some m \<longrightarrow> has_flag SYMBOL_VALID k m"
    and w: "write_symbol s (unwrite W k) = Some (t, k')"
  shows "k' = unwrite (W \<union> {s. has_flag SYMBOL_WRITE k s} \<inter> {s}) k \<and> reads k t ({s. has_flag SYMBOL_WRITE k s} \<inter> {s} - W)"
proof (cases "has_flag SYMBOL_WRITE k s \<and> s \<notin> W")
  case True
  let ?ty = "sym_type (syms k s)"
  have b: "symbol_line S_TRISTATE k s = symbol_line S_BOOLEAN k s" by (simp add: symbol_line_def)
  have "symbol_line ?ty k s = Some t \<and> k' = unwrite (insert s W) k"
    using w True v m b unfolding write_symbol_def
    by (auto simp: calc_value_valid unwrite_more symbol_line_unwrite Let_def split: bind_splits if_splits)
  moreover have "{s. has_flag SYMBOL_WRITE k s} \<inter> {s} = {s}" "{s} - W = {s}" using True by auto
  ultimately show ?thesis using reads_symbol [of k s t] sv True by simp
next
  case False
  then have "t = []" "k' = unwrite W k" using w v by (auto simp: write_symbol_def calc_value_valid)
  moreover have "W \<union> {s. has_flag SYMBOL_WRITE k s} \<inter> {s} = W" "{s. has_flag SYMBOL_WRITE k s} \<inter> {s} - W = {}" using False by auto
  ultimately show ?thesis by (simp only: reads_Nil simp_thms)
qed

lemma reads_title: "harmless w \<Longrightarrow> reads k (nl @ ''#'' @ nl @ ''# '' @ w @ nl @ ''#'' @ nl) {}"
  using reads_append [OF reads_blank reads_append [OF reads_hash reads_append [OF reads_comment [of w k] reads_hash]]]
  by simp

lemma write_entry_reads:
  assumes e: "entry_ok k m" and m: "\<forall>m. modules_sym k = Some m \<longrightarrow> has_flag SYMBOL_VALID k m"
    and w: "write_entry m (unwrite W k) = Some (t, k')"
  shows "k' = unwrite (W \<union> written k [m]) k \<and> reads k t (written k [m] - W)"
proof (cases "menu_sym m")
  case None
  then have n: "written k [m] = {}" by (simp add: written_def)
  show ?thesis
  proof (cases "menu_prompt m")
    case p: (Some p)
    then have "\<forall>s\<in>dep_syms (p_visible p). has_flag SYMBOL_VALID (unwrite W k) s" "harmless (show_name (p_text p))"
      using e None by (auto simp: entry_ok_def)
    moreover obtain u where "calc_dep calc_value (p_visible p) (unwrite W k) = Some (u, k')"
        "t = (if u = no then [] else nl @ ''#'' @ nl @ ''# '' @ show_name (p_text p) @ nl @ ''#'' @ nl)"
      using w None p by (auto simp: write_entry_def split: bind_splits)
    ultimately show ?thesis using calc_dep_valid reads_title reads_Nil n by auto
  qed (use w None n reads_Nil in \<open>auto simp: write_entry_def\<close>)
next
  case (Some s)
  show ?thesis
  proof (cases "sym_is_choice k s")
    case True
    then have "written k [m] = {}" using Some by (auto simp: written_def)
    then show ?thesis using w Some True reads_Nil by (auto simp: write_entry_def)
  next
    case False
    then have "written k [m] = {s. has_flag SYMBOL_WRITE k s} \<inter> {s}" using Some by (auto simp: written_def)
    moreover have "write_symbol s (unwrite W k) = Some (t, k')" using w Some False by (simp add: write_entry_def)
    moreover have "has_flag SYMBOL_VALID k s" "has_flag SYMBOL_WRITE k s \<longrightarrow> savable k s"
      using e Some False by (auto simp: entry_ok_def)
    ultimately show ?thesis using write_symbol_reads m by metis
  qed
qed

lemma written_Cons: "written k (m # ms) = written k [m] \<union> written k ms"
  by (auto simp: written_def)

lemma write_entries_reads:
  assumes "\<forall>m\<in>set ms. entry_ok k m" and "\<forall>m. modules_sym k = Some m \<longrightarrow> has_flag SYMBOL_VALID k m"
    and "write_entries ms (unwrite W k) = Some (t, k')"
  shows "reads k t (written k ms - W)"
  using assms
proof (induction ms arbitrary: W t)
  case Nil
  then show ?case using reads_Nil by (simp add: written_def)
next
  case (Cons m ms)
  obtain a k1 b where a: "write_entry m (unwrite W k) = Some (a, k1)" and b: "write_entries ms k1 = Some (b, k')" and t: "t = a @ b"
    using Cons.prems(3) by (auto split: bind_splits)
  have a1: "k1 = unwrite (W \<union> written k [m]) k" "reads k a (written k [m] - W)"
    using write_entry_reads [OF _ Cons.prems(2) a] Cons.prems(1) by auto
  have "reads k b (written k ms - (W \<union> written k [m]))" using Cons.IH [OF _ Cons.prems(2)] Cons.prems(1) b a1(1) by auto
  then have "reads k t ((written k [m] - W) \<union> (written k ms - (W \<union> written k [m])))"
    unfolding t by (rule reads_append [OF a1(2)]) (auto simp: written_def)
  moreover have "(written k [m] - W) \<union> (written k ms - (W \<union> written k [m])) = written k (m # ms) - W"
    by (auto simp: written_Cons [of k m ms])
  ultimately show ?case by simp
qed

lemma reads_header:
  assumes "harmless stamp"
  shows "reads k (conf_header (''# '' @ stamp @ nl)) {}"
proof -
  let ?w = "''Automatically generated make config: don't edit''"
  have "harmless ?w" by (simp add: harmless_def plain_def)
  then have "reads k ((''#'' @ nl) @ (''# '' @ ?w @ nl) @ (''# '' @ stamp @ nl) @ (''#'' @ nl)) ({} \<union> ({} \<union> ({} \<union> {})))"
    using assms by (intro reads_append reads_hash reads_comment ballI) simp_all
  then show ?thesis by (simp add: conf_header_def)
qed

lemma forget_same: "same_symbols k (each_symbol (forget d) k)"
proof -
  have one: "same_symbols k (forget d s k)" for k s
    unfolding forget_def by (rule same_symbols_upd) (auto simp: kinds_def Let_def)
  have "same_symbols k0 k \<Longrightarrow> same_symbols k0 (fold (\<lambda>s k. if sym_type (syms k s) = S_OTHER then k else forget d s k) ss k)" for k0 ss
  proof (induction ss arbitrary: k)
    case (Cons a ss)
    then show ?case using same_symbols_trans [OF Cons.prems one] by simp
  qed simp
  then show ?thesis by (simp add: each_symbol_def)
qed


text \<open>A configuration with a boolean symbol and a string with a quote and a backslash in it, below a menu.\<close>

definition saved_sym :: "string \<Rightarrow> symbol_type \<Rightarrow> symbol_value \<Rightarrow> flag set \<Rightarrow> sym" where
  "saved_sym n ty v fl = (new_symbol (Some n) (insert SYMBOL_VALID fl))\<lparr>sym_type := ty, curr := v\<rparr>"

definition odd_chars :: string where "odd_chars = [CHR ''a'', CHR 0x22, CHR 0x5C]"

definition saved :: kconf where
  "saved = empty_table\<lparr>
     syms := (\<lambda>_. new_symbol None {})
       (Other 0 := saved_sym ''BR2_VERSION'' S_STRING \<lparr>val = Chars Literal ''1'', vtri = no\<rparr> {},
        Other 1 := saved_sym ''NET'' S_BOOLEAN \<lparr>val = Null, vtri = yes\<rparr> {SYMBOL_WRITE},
        Other 2 := saved_sym ''HOST'' S_STRING \<lparr>val = Chars Literal odd_chars, vtri = no\<rparr> {SYMBOL_WRITE}),
     symbol_hash := (replicate 257 [])
       [chain_of ''BR2_VERSION'' := [Other 0], chain_of ''NET'' := [Other 1], chain_of ''HOST'' := [Other 2]],
     modules_sym := None, change_count := 1\<rparr>"

definition saved_menu :: "menu list" where
  "saved_menu =
     [Menu None (Some ((new_property P_MENU)\<lparr>p_text := Some ''Network''\<rparr>))
        [Menu (Some (Other 1)) None [], Menu (Some (Other 2)) None []]]"

lemma saved_chains: "chain_of ''BR2_VERSION'' = 75" "chain_of ''NET'' = 231" "chain_of ''HOST'' = 62"
  by (simp_all add: chain_of_def code_def)

lemma saved_syms [simp]:
  "syms saved (Other 0) = saved_sym ''BR2_VERSION'' S_STRING \<lparr>val = Chars Literal ''1'', vtri = no\<rparr> {}"
  "syms saved (Other (Suc 0)) = saved_sym ''NET'' S_BOOLEAN \<lparr>val = Null, vtri = yes\<rparr> {SYMBOL_WRITE}"
  "syms saved (Other 2) = saved_sym ''HOST'' S_STRING \<lparr>val = Chars Literal odd_chars, vtri = no\<rparr> {SYMBOL_WRITE}"
  "modules_sym saved = None" "change_count saved = 1"
  by (simp_all add: saved_def)

lemma saved_parts [simp]:
  "sym_name (saved_sym n ty v fl) = Some n" "sym_type (saved_sym n ty v fl) = ty" "curr (saved_sym n ty v fl) = v"
  "flags (saved_sym n ty v fl) = insert SYMBOL_VALID fl" "props (saved_sym n ty v fl) = []"
  by (simp_all add: saved_sym_def new_symbol_def)

lemma saved_find:
  "sym_find ''NET'' saved = Some (Other 1)" "sym_find ''HOST'' saved = Some (Other 2)"
  "sym_lookup (Some ''BR2_VERSION'') {} saved = (Other 0, saved)"
proof -
  have h: "symbol_hash saved = (replicate 257 [])[75 := [Other 0], 231 := [Other 1], 62 := [Other 2]]"
    by (simp add: saved_def saved_chains)
  show "sym_find ''NET'' saved = Some (Other 1)" "sym_find ''HOST'' saved = Some (Other 2)"
    "sym_lookup (Some ''BR2_VERSION'') {} saved = (Other 0, saved)"
    by (simp_all add: sym_find_def sym_lookup_def constant_name_def h saved_chains name_matches_def)
qed

lemma saved_ok: "savable saved (Other 1)" "savable saved (Other 2)"
  by (simp_all add: savable_def value_ok_def saved_find isupper_def name_char_def isalnum_def isalpha_def code_def has_flag_def
      sym_get_tristate_value_def sym_get_string_value_def chars_def odd_chars_def plain_def symbol_line_def sname_of_def
      show_name_def quoted_def nl_def)

lemma saved_entries: "\<forall>m\<in>set (menu_walk saved_menu). entry_ok saved m"
  using saved_ok by (simp add: saved_menu_def entry_ok_def new_property_def dep_syms_def harmless_def plain_def show_name_def has_flag_def)

lemma saved_written: "written saved (menu_walk saved_menu) = {Other 1, Other 2}"
  by (auto simp: written_def saved_menu_def has_flag_def)

lemma saved_text:
  "\<exists>t k. conf_write (''# '' @ ''Mon'' @ nl) saved_menu saved = Some (t, k)"
proof -
  have c: "calc_value s (unwrite W saved) = Some (unwrite W saved)" if "s \<in> {Other 0, Other 1, Other 2}" for s W
    using that by (intro calc_value_valid) (auto simp: has_flag_def unwrite_def)
  have w: "\<exists>t k. write_symbol s (unwrite W saved) = Some (t, unwrite k saved)" if "s \<in> {Other 1, Other 2}" for s W
    using that by (auto simp: write_symbol_def c unwrite_more symbol_line_def sym_get_tristate_value_def
        sym_get_string_value_def chars_def Let_def)
  obtain a V where a: "write_symbol (Other 1) (unwrite {} saved) = Some (a, unwrite V saved)" using w [of "Other 1"] by blast
  obtain b W where b: "write_symbol (Other 2) (unwrite V saved) = Some (b, unwrite W saved)" using w [of "Other 2"] by blast
  have "\<not> sym_is_choice saved s" if "s \<in> {Other 1, Other 2}" for s using that by (auto simp: has_flag_def)
  then have n: "\<not> sym_is_choice (unwrite U saved) s" if "s \<in> {Other 1, Other 2}" for s U using that by simp
  have "\<exists>x. write_entries (menu_walk saved_menu) saved = Some x"
    using a b n [of "Other 1" "{}"] n [of "Other 2" V]
    by (simp add: saved_menu_def write_entry_def calc_dep_def new_property_def)
  moreover have "has_flag SYMBOL_VALID saved (Other 0)" by (simp add: has_flag_def)
  ultimately show ?thesis by (auto simp: conf_write_def saved_find calc_value_valid conf_get_changed_def)
qed


section \<open>Long values\<close>

definition known_as :: "kconf \<Rightarrow> string \<Rightarrow> symbol \<Rightarrow> bool" where
  "known_as k n s \<longleftrightarrow>
     n \<noteq> [] \<and> isupper (hd n) \<and> list_all name_char n \<and> sym_find n k = Some s \<and> \<not> sym_is_choice_value k s"

lemma unquote_open: "unquote (quote c) = None"
  by (induction c rule: quote.induct) auto

lemma quote_append: "quote (a @ b) = quote a @ quote b"
  by (induction a rule: quote.induct) auto

lemma quote_name: "list_all name_char n \<Longrightarrow> quote n = n"
proof (induction n)
  case (Cons c n)
  have "\<not> name_char (CHR 0x22)" "\<not> name_char (CHR 0x5C)"
    by (simp_all add: name_char_def isalnum_def isalpha_def isupper_def islower_def isdigit_def code_def)
  then have "c \<notin> {CHR 0x22, CHR 0x5C}" using Cons.prems by auto
  then show ?case using Cons by simp
qed simp

lemma set_line_known:
  assumes "known_as (rk r) n s"
  shows "conf_line S_DEF_USER (n @ ''='' @ w) r =
    (case conf_set_sym_val S_DEF_USER s (line_value w) (warn_override S_DEF_USER s r) of
       (e, r) \<Rightarrow> if e \<noteq> 0 then Some r else note_choice S_DEF_USER s r)"
proof -
  have n: "list_all name_char n" "sym_find n (rk r) = Some s" using assms by (auto simp: known_as_def)
  obtain c m where m: "n = c # m" "isupper c" using assms by (cases n) (auto simp: known_as_def)
  have "CHR ''='' \<notin> set n" using n(1) by (simp add: name_chars not_name_char)
  then have "strchr CHR ''='' (n @ CHR ''='' # w) = Some (n, w)" by (rule strchr_append)
  moreover have "c \<noteq> CHR ''#''" using m(2) by (auto simp: isupper_def code_def)
  ultimately show ?thesis using n(2) m by (simp add: conf_line_def set_line_def line_sym_def)
qed

lemma fgets_full:
  assumes "plain l" and "length l = 1023"
  shows "fgets (l @ rest) = (l, rest)"
proof -
  have "1023 \<le> length (takeWhile (\<lambda>c. c \<noteq> CHR 0x0A) (l @ rest))"
    using assms by (subst takeWhile_append2) (auto simp: plain_def)
  moreover have "takeWhile (\<lambda>c. c \<noteq> CHR 0x00) l = l" using assms(1) by (subst takeWhile_eq_all_conv) (auto simp: plain_def)
  ultimately show ?thesis using assms(2) by (simp add: fgets_def)
qed

lemma conf_lines_step:
  "fgets t = (l, rest) \<Longrightarrow> t \<noteq> [] \<Longrightarrow> conf_line d l r = Some r' \<Longrightarrow> conf_lines d t r = conf_lines d rest r'"
  by (subst conf_lines.simps) simp

text \<open>C19. 
  A string value that does not fit the buffer of 1024 bytes is lost when its line is read back, and what is behind
  the cut is read as a line of its own: a value that ends in \<open>NAME=y\<close> there sets another symbol.
\<close>

theorem long_value_spills:
  assumes s: "known_as (rk r) n s" "sym_type (syms (rk r) s) = S_STRING"
    and x: "known_as (rk r) m x" "sym_type (syms (rk r) x) = S_BOOLEAN" and "s \<noteq> x"
    and a: "plain a" "length (n @ ''='' @ [CHR 0x22] @ quote a) = 1023" and m: "length m < 1000"
  shows "\<exists>r'. conf_lines S_DEF_USER (n @ ''='' @ quoted (a @ m @ ''=y'') @ nl) r = Some r' \<and>
    syms (rk r') s = syms (rk r) s \<and>
    sym_has_value (rk r') x \<and> vtri (sym_def (syms (rk r') x) S_DEF_USER) = yes"
proof -
  let ?l = "n @ ''='' @ [CHR 0x22] @ quote a" and ?t = "m @ ''=y'' @ [CHR 0x22]"
  have n: "list_all name_char n" "list_all name_char m" using s(1) x(1) by (auto simp: known_as_def)
  have whole: "n @ ''='' @ quoted (a @ m @ ''=y'') @ nl = ?l @ ?t @ nl" using quote_name [OF n(2)] by (simp add: quoted_def quote_append)
  have "plain ?l" using plain_name [OF n(1)] a(1) plain_quote [of a] by (simp add: plain_def)
  then have f1: "fgets (?l @ ?t @ nl) = (?l, ?t @ nl)" by (rule fgets_full [OF _ a(2)])
  have "plain ?t" using plain_name [OF n(2)] by (simp add: plain_def)
  then have f2: "fgets (?t @ nl @ []) = (?t @ nl, [])" using m by (intro fgets_line) simp_all
  let ?r1 = "conf_warning (warn_override S_DEF_USER s r)"
  have p: "CHR 0x0A \<notin> set (CHR 0x22 # quote a)" using a(1) plain_quote [of a] by (simp add: plain_def)
  then have lv: "line_value ([CHR 0x22] @ quote a) = [CHR 0x22] @ quote a"
    using strchr_None [of "CHR 0x0A" "CHR 0x22 # quote a"] by (simp add: line_value_def)
  have "conf_set_sym_val S_DEF_USER s ([CHR 0x22] @ quote a) (warn_override S_DEF_USER s r) = (1, ?r1)"
    using s(2) unquote_open [of a] by (simp add: conf_set_sym_val_def)
  then have l1: "conf_line S_DEF_USER ?l r = Some ?r1" using set_line_known [OF s(1), of "[CHR 0x22] @ quote a"] lv by simp
  have rk1: "rk ?r1 = rk r" by (simp add: conf_warning_def)
  let ?r2 = "store_tri S_DEF_USER x yes (warn_override S_DEF_USER x ?r1)"
  have "line_value ((''y'' @ [CHR 0x22]) @ nl) = ''y'' @ [CHR 0x22]" by (rule line_value_plain) (simp_all add: plain_def)
  then have "conf_line S_DEF_USER (m @ ''='' @ (''y'' @ [CHR 0x22]) @ nl) ?r1 = note_choice S_DEF_USER x ?r2"
    using set_line_known [of ?r1 m x] x rk1 by (simp add: conf_set_sym_val_def)
  moreover have "\<not> sym_is_choice_value (rk ?r2) x"
    using x(1) rk1 by (auto simp: known_as_def store_tri_def upd_k_def has_flag_def set_flag_def set_def_tri_def upd_sym_def)
  ultimately have l2: "conf_line S_DEF_USER (?t @ nl) ?r1 = Some ?r2" by (simp add: note_choice_def)
  have "conf_lines S_DEF_USER (?l @ ?t @ nl) r = Some ?r2"
    using conf_lines_step [OF f1 _ l1] conf_lines_step [OF f2 _ l2] by (simp add: conf_lines.simps)
  moreover have "syms (rk ?r2) s = syms (rk r) s" "sym_has_value (rk ?r2) x" "vtri (sym_def (syms (rk ?r2) x) S_DEF_USER) = yes"
    using rk1 \<open>s \<noteq> x\<close> by (simp_all add: store_tri_def upd_k_def has_flag_def set_flag_def set_def_tri_def upd_sym_def)
  ultimately show ?thesis unfolding whole by blast
qed

lemma long_value_spills_witness:
  "\<exists>r'. conf_lines S_DEF_USER (''HOST='' @ quoted (replicate 1017 CHR ''x'' @ ''NET=y'') @ nl)
      \<lparr>rk = saved, conf_warnings = 0, conf_unsaved = 0\<rparr> = Some r' \<and>
    sym_has_value (rk r') (Other 1) \<and> vtri (sym_def (syms (rk r') (Other 1)) S_DEF_USER) = yes"
proof -
  let ?r = "\<lparr>rk = saved, conf_warnings = 0, conf_unsaved = 0\<rparr>"
  have "known_as (rk ?r) ''HOST'' (Other 2)" "known_as (rk ?r) ''NET'' (Other 1)"
    by (simp_all add: known_as_def saved_find isupper_def name_char_def isalnum_def isalpha_def code_def has_flag_def)
  moreover have "quote (replicate k CHR ''x'') = replicate k CHR ''x''" "plain (replicate k CHR ''x'')" for k
    by (induction k) (auto simp: plain_def)
  ultimately show ?thesis
    using long_value_spills [of ?r "''HOST''" "Other 2" "''NET''" "Other 1" "replicate 1017 CHR ''x''"] by auto
qed

end
