(* ===== verification/CFloat.thy ===== *)
theory CFloat
  imports CLib Complex_Main
begin

text \<open>
  The floating-point arithmetic of C as far as the sources use it: \<open>float\<close> and \<open>double\<close> values are rational
  numbers, every operation gives the exact result rounded to the nearest value of the format, ties to even.
  Rounding is monotone and exact on the integers that fit, which is what the lemmas on thresholds need.
\<close>

section \<open>The binary exponent\<close>

lemma floor_half: "1 \<le> y \<Longrightarrow> \<lfloor>y / 2\<rfloor> < \<lfloor>y :: rat\<rfloor>"
proof -
  assume "1 \<le> y"
  then have "(1 :: rat) \<le> of_int \<lfloor>y\<rfloor>" by simp
  moreover have "y < of_int \<lfloor>y\<rfloor> + 1" by linarith
  ultimately have "y / 2 < of_int \<lfloor>y\<rfloor>" by linarith
  then show ?thesis by (simp add: floor_less_iff)
qed

text \<open>The exponent \<open>k\<close> with \<open>2^k \<le> x < 2^(k+1)\<close>, for positive \<open>x\<close>.\<close>

function ilog2 :: "rat \<Rightarrow> int" where
  "ilog2 x = (if x \<le> 0 then 0 else if 2 \<le> x then 1 + ilog2 (x / 2) else if x < 1 then ilog2 (2 * x) - 1 else 0)"
  by pat_completeness auto

termination
proof (relation "measure (\<lambda>x. if 1 \<le> x then nat \<lfloor>x\<rfloor> else nat \<lfloor>1 / x\<rfloor> + 2)", goal_cases)
  case 1
  show ?case by simp
next
  case (2 x)
  then have "1 \<le> x / 2" "1 \<le> x" by simp_all
  moreover have "\<lfloor>x / 2\<rfloor> < \<lfloor>x\<rfloor>" using \<open>1 \<le> x\<close> by (rule floor_half)
  ultimately show ?case using 2 by simp
next
  case (3 x)
  then have x: "0 < x" "x < 1" by simp_all
  have "1 < 1 / x" using x by simp
  then have "\<lfloor>1 / x / 2\<rfloor> < \<lfloor>1 / x\<rfloor>" by (intro floor_half) simp
  moreover have "1 / x / 2 = 1 / (2 * x)" by simp
  ultimately have less: "\<lfloor>1 / (2 * x)\<rfloor> < \<lfloor>1 / x\<rfloor>" by (simp add: mult.commute)
  have "\<lfloor>2 * x\<rfloor> \<le> 1" using x by linarith
  then have "nat \<lfloor>2 * x\<rfloor> < nat \<lfloor>1 / x\<rfloor> + 2" by linarith
  moreover have "nat \<lfloor>1 / (2 * x)\<rfloor> < nat \<lfloor>1 / x\<rfloor>"
    using less x by (simp add: nat_less_iff)
  ultimately show ?case using x by simp
qed

declare ilog2.simps [simp del]

lemma ilog2_bounds: "0 < x \<Longrightarrow> 2 powi ilog2 x \<le> x \<and> x < 2 powi (ilog2 x + 1)"
proof (induction x rule: ilog2.induct)
  case (1 x)
  consider "2 \<le> x" | "x < 1" | "1 \<le> x" "x < 2" by linarith
  then show ?case
  proof cases
    case 1
    with "1.IH"(1) "1.prems" have "2 powi ilog2 (x / 2) \<le> x / 2" "x / 2 < 2 powi (ilog2 (x / 2) + 1)" by auto
    moreover have "ilog2 x = ilog2 (x / 2) + 1" using 1 by (subst ilog2.simps) simp
    ultimately show ?thesis by (simp add: power_int_add)
  next
    case 2
    with "1.IH"(2) "1.prems" have "2 powi ilog2 (2 * x) \<le> 2 * x" "2 * x < 2 powi (ilog2 (2 * x) + 1)" by auto
    moreover have "ilog2 x = ilog2 (2 * x) - 1" using 2 "1.prems" by (subst ilog2.simps) simp
    ultimately show ?thesis by (simp add: power_int_add power_int_diff)
  next
    case 3
    then have "ilog2 x = 0" by (subst ilog2.simps) simp
    with 3 show ?thesis by simp
  qed
qed

lemma ilog2_mono: "0 < x \<Longrightarrow> x \<le> y \<Longrightarrow> ilog2 x \<le> ilog2 y"
proof (rule ccontr)
  assume x: "0 < x" "x \<le> y" and "\<not> ilog2 x \<le> ilog2 y"
  then have "ilog2 y + 1 \<le> ilog2 x" by linarith
  then have "(2 :: rat) powi (ilog2 y + 1) \<le> 2 powi ilog2 x" by (simp add: power_int_increasing)
  with ilog2_bounds [of x] ilog2_bounds [of y] x show False by linarith
qed

section \<open>Rounding\<close>

text \<open>Round to the nearest integer, ties to even.\<close>

definition rint :: "rat \<Rightarrow> int" where
  "rint x =
     (let f = \<lfloor>x\<rfloor>; d = x - of_int f
      in if d < 1 / 2 then f else if 1 / 2 < d then f + 1 else if even f then f else f + 1)"

lemma rint_bounds: "\<lfloor>x\<rfloor> \<le> rint x" "rint x \<le> \<lfloor>x\<rfloor> + 1" "rint x \<le> \<lceil>x\<rceil>"
proof -
  have "x - of_int \<lfloor>x\<rfloor> = 0 \<or> \<lceil>x\<rceil> = \<lfloor>x\<rfloor> + 1" by (simp add: ceiling_altdef)
  then show "\<lfloor>x\<rfloor> \<le> rint x" "rint x \<le> \<lfloor>x\<rfloor> + 1" "rint x \<le> \<lceil>x\<rceil>"
    using floor_le_ceiling [of x] by (auto simp: rint_def Let_def)
qed

lemma rint_mono: "x \<le> y \<Longrightarrow> rint x \<le> rint y"
proof (cases "\<lfloor>x\<rfloor> = \<lfloor>y\<rfloor>")
  case True
  assume "x \<le> y"
  with True show ?thesis by (auto simp: rint_def Let_def)
next
  case False
  assume "x \<le> y"
  then have "\<lfloor>x\<rfloor> \<le> \<lfloor>y\<rfloor>" by (rule floor_mono)
  with False have "\<lfloor>x\<rfloor> + 1 \<le> \<lfloor>y\<rfloor>" by simp
  with rint_bounds(2) [of x] rint_bounds(1) [of y] show ?thesis by linarith
qed

lemma rint_of_int [simp]: "rint (of_int i) = i"
  by (simp add: rint_def)

text \<open>
  The value a binary floating-point format with \<open>p\<close> bits of precision gives to a real result: 24 bits for
  \<open>float\<close>, 53 for \<open>double\<close>. The range of the exponent is not bounded, so there is neither overflow to
  infinity nor a subnormal number.
\<close>

definition quantum :: "nat \<Rightarrow> rat \<Rightarrow> rat" where
  "quantum p x = 2 powi (ilog2 x - int p + 1)"

definition rnd_pos :: "nat \<Rightarrow> rat \<Rightarrow> rat" where
  "rnd_pos p x = of_int (rint (x / quantum p x)) * quantum p x"

definition rnd :: "nat \<Rightarrow> rat \<Rightarrow> rat" where
  "rnd p x = (if x = 0 then 0 else if x < 0 then - rnd_pos p (- x) else rnd_pos p x)"

abbreviation flt :: "rat \<Rightarrow> rat" where "flt \<equiv> rnd 24"
abbreviation dbl :: "rat \<Rightarrow> rat" where "dbl \<equiv> rnd 53"

lemma quantum_pos [simp]: "0 < quantum p x"
  by (simp add: quantum_def)

text \<open>A positive number stays between the powers of two around it.\<close>

lemma rnd_pos_bounds:
  assumes "0 < x" and "0 < p"
  shows "2 powi ilog2 x \<le> rnd_pos p x" and "rnd_pos p x \<le> 2 powi (ilog2 x + 1)"
proof -
  let ?q = "quantum p x"
  have lo: "2 powi ilog2 x = of_int (2 ^ (p - 1)) * ?q" and hi: "2 powi (ilog2 x + 1) = of_int (2 ^ p) * ?q"
    using assms(2) by (simp_all add: quantum_def power_int_add [symmetric] flip: power_int_of_nat)
  have "of_int (2 ^ (p - 1)) \<le> x / ?q" "x / ?q \<le> of_int (2 ^ p)"
    using ilog2_bounds [OF assms(1)] unfolding lo hi by (simp_all add: field_simps)
  then have "2 ^ (p - 1) \<le> rint (x / ?q)" "rint (x / ?q) \<le> 2 ^ p"
    using rint_mono [of "of_int (2 ^ (p - 1))" "x / ?q"] rint_mono [of "x / ?q" "of_int (2 ^ p)"]
    by (simp_all del: of_int_power)
  then have "(of_int (2 ^ (p - 1)) :: rat) \<le> of_int (rint (x / ?q))" "(of_int (rint (x / ?q)) :: rat) \<le> of_int (2 ^ p)"
    unfolding of_int_le_iff by simp_all
  then show "2 powi ilog2 x \<le> rnd_pos p x" "rnd_pos p x \<le> 2 powi (ilog2 x + 1)"
    unfolding rnd_pos_def lo hi by (simp_all add: mult_right_mono del: of_int_power)
qed

lemma rnd_pos_mono:
  assumes "0 < x" and "x \<le> y" and "0 < p"
  shows "rnd_pos p x \<le> rnd_pos p y"
proof (cases "ilog2 x = ilog2 y")
  case True
  then have q: "quantum p x = quantum p y" by (simp add: quantum_def)
  have "x / quantum p y \<le> y / quantum p y" using assms(2) by (intro divide_right_mono) (simp_all add: less_imp_le)
  then show ?thesis unfolding rnd_pos_def q using rint_mono by (simp add: mult_right_mono)
next
  case False
  then have "ilog2 x + 1 \<le> ilog2 y" using ilog2_mono [OF assms(1,2)] by linarith
  then have "(2 :: rat) powi (ilog2 x + 1) \<le> 2 powi ilog2 y" by (simp add: power_int_increasing)
  then show ?thesis
    using rnd_pos_bounds(2) [OF assms(1,3)] rnd_pos_bounds(1) [of y p] assms by linarith
qed

lemma rnd_pos_pos: "0 < x \<Longrightarrow> 0 < p \<Longrightarrow> 0 < rnd_pos p x"
  using rnd_pos_bounds(1) [of x p] zero_less_power_int [of "2 :: rat" "ilog2 x"] by linarith

lemma rnd_mono: "x \<le> y \<Longrightarrow> 0 < p \<Longrightarrow> rnd p x \<le> rnd p y"
  using rnd_pos_mono [of x y p] rnd_pos_mono [of "- y" "- x" p] rnd_pos_pos [of y p] rnd_pos_pos [of "- x" p]
  by (auto simp: rnd_def)

lemma rnd_0 [simp]: "rnd p 0 = 0"
  by (simp add: rnd_def)

lemma rnd_nonneg: "0 \<le> x \<Longrightarrow> 0 < p \<Longrightarrow> 0 \<le> rnd p x"
  using rnd_mono [of 0 x p] by simp

text \<open>Integers that fit the precision are represented exactly.\<close>

lemma rnd_pos_of_nat:
  assumes "0 < n" and "n < 2 ^ p"
  shows "rnd_pos p (of_nat n) = of_nat n"
proof -
  let ?x = "of_nat n :: rat" and ?q = "quantum p (of_nat n)"
  have x: "0 < ?x" using assms by simp
  have "ilog2 ?x < int p"
  proof (rule ccontr)
    assume "\<not> ?thesis"
    then have "int p \<le> ilog2 ?x" by simp
    then have "(2 :: rat) powi int p \<le> 2 powi ilog2 ?x" by (rule power_int_increasing) simp_all
    also have "\<dots> \<le> ?x" using ilog2_bounds [OF x] by simp
    finally have "(of_nat (2 ^ p) :: rat) \<le> of_nat n" by simp
    with assms(2) show False unfolding of_nat_le_iff by simp
  qed
  then obtain k where k: "int k = int p - 1 - ilog2 ?x" by (metis zero_le_imp_eq_int diff_ge_0_iff_ge zle_diff1_eq add_diff_cancel_left' diff_diff_eq)
  have q: "?q = 2 powi (- int k)" unfolding quantum_def k by (simp add: algebra_simps)
  have "?q = 1 / 2 ^ k"
    unfolding q by (simp add: power_int_minus divide_inverse)
  then have "?x / ?q = of_int (int n * 2 ^ k)" by simp
  then have "rnd_pos p ?x = of_int (int n * 2 ^ k) * ?q" unfolding rnd_pos_def by (simp only: rint_of_int)
  then show ?thesis using \<open>?q = 1 / 2 ^ k\<close> by simp
qed

lemma rnd_of_int: "\<bar>i\<bar> < 2 ^ p \<Longrightarrow> rnd p (of_int i) = of_int i"
proof -
  assume i: "\<bar>i\<bar> < 2 ^ p"
  obtain n where n: "i = int n \<or> i = - int n" by (cases i rule: int_cases2) auto
  have "n < 2 ^ p" using i n by (metis abs_minus_cancel abs_of_nat of_nat_less_iff of_nat_numeral of_nat_power)
  then show ?thesis using n rnd_pos_of_nat [of n p] by (auto simp: rnd_def)
qed

section \<open>Reading floats\<close>

text \<open>
  The decimal numbers \<open>atof\<close> and \<open>strtof\<close> read, before they are rounded: sign, digits with an optional
  point, optional exponent. What is not a number is 0; hexadecimal floats, infinities and NaNs are not covered.
\<close>

definition scan_exp :: "string \<Rightarrow> int" where
  "scan_exp s =
     (case s of
        c # r \<Rightarrow>
          if c = CHR ''e'' \<or> c = CHR ''E'' then
            (let neg = (case r of d # _ \<Rightarrow> d = CHR ''-'' | [] \<Rightarrow> False);
                 r' = (case r of d # t \<Rightarrow> if d = CHR ''-'' \<or> d = CHR ''+'' then t else r | [] \<Rightarrow> []);
                 ds = takeWhile isdigit r'
             in if neg then - int (digits_value ds) else int (digits_value ds))
          else 0
      | [] \<Rightarrow> 0)"

definition scan_float :: "string \<Rightarrow> rat" where
  "scan_float s =
     (let s1 = dropWhile isspace s;
          neg = (case s1 of c # _ \<Rightarrow> c = CHR ''-'' | [] \<Rightarrow> False);
          s2 = (case s1 of c # r \<Rightarrow> if c = CHR ''-'' \<or> c = CHR ''+'' then r else s1 | [] \<Rightarrow> []);
          ds = takeWhile isdigit s2;
          s3 = dropWhile isdigit s2;
          fs = (case s3 of c # r \<Rightarrow> if c = CHR ''.'' then takeWhile isdigit r else [] | [] \<Rightarrow> []);
          s4 = (case s3 of c # r \<Rightarrow> if c = CHR ''.'' then dropWhile isdigit r else s3 | [] \<Rightarrow> []);
          m = of_nat (digits_value (ds @ fs)) * 10 powi (scan_exp s4 - int (length fs))
      in if ds = [] \<and> fs = [] then 0 else if neg then - m else m)"

end
