(* ===== verification/SysFiles.thy ===== *)
theory SysFiles
  imports CFloat
begin

text \<open>
  What the control daemon \<open>sysctrl\<close> needs of the box, and its helpers on files. The kernel, the drives and the
  user's scripts are arguments (the record \<open>env\<close>): which paths can be written, what \<open>stat\<close> says of a script,
  how long a script runs, what the disks answer, what an uninitialised local variable holds. The daemon's view of the machine is the record \<open>os\<close>: the files
  it reads and writes (sysfs attributes included), the button events with the time at which they become
  readable, the clock in microseconds, and the actions taken so far. \<open>syslog\<close> output is not modelled.
\<close>

section \<open>The machine\<close>

text \<open>What \<open>read\<close> on the event device can return: an event, an end of file, a short read or an error.\<close>

datatype rd = Ev (ev_type: nat) (ev_code: nat) (ev_value: int) | Eof | Short | Err

datatype action =
    Script string nat "string option"  \<comment> \<open>\<open>exec_userscript\<close>: the program, its time limit and argument\<close>
  | Execl string                       \<comment> \<open>\<open>execl\<close> in the daemon itself\<close>
  | Mail string int int                \<comment> \<open>\<open>smail\<close>: the kind, the fan speed and the limit\<close>
  | Spindown string                    \<comment> \<open>a SCSI stop command\<close>
  | Exit int

record os =
  files :: "string \<Rightarrow> string option"
  events :: "(nat \<times> rd) list"
  now :: nat
  acts :: "action list"

text \<open>Replies of a disk to the two power-mode commands: success with the sector count, or an error.\<close>

datatype ioctl = Done nat | Fail bool nat nat  \<comment> \<open>errno is EIO, and the two status bytes left behind\<close>

record env =
  writable :: "string \<Rightarrow> bool"
  stat_of :: "string \<Rightarrow> (nat \<times> nat) option"
  script_time :: "string \<Rightarrow> nat"
  self :: int
  alive :: "int \<Rightarrow> bool"
  lock_free :: "nat \<Rightarrow> bool"
  dev_opens :: bool
  mail_set :: bool
  powermode :: "string \<Rightarrow> (ioctl \<times> ioctl) option"
  hddtemp :: "nat \<Rightarrow> string"
  execl_ok :: "string \<Rightarrow> bool"
  junk :: int
  junk_str :: string

definition tick :: "nat \<Rightarrow> os \<Rightarrow> os" where
  "tick n s = s\<lparr>now := now s + n\<rparr>"

definition act :: "action \<Rightarrow> os \<Rightarrow> os" where
  "act a s = s\<lparr>acts := acts s @ [a]\<rparr>"

lemma tick_simps [simp]:
  "files (tick n s) = files s" "events (tick n s) = events s" "now (tick n s) = now s + n" "acts (tick n s) = acts s"
  by (simp_all add: tick_def)

lemma act_simps [simp]:
  "files (act a s) = files s" "events (act a s) = events s" "now (act a s) = now s" "acts (act a s) = acts s @ [a]"
  by (simp_all add: act_def)

text \<open>\<open>time (NULL)\<close>, in seconds.\<close>

definition seconds :: "os \<Rightarrow> nat" where
  "seconds s = now s div 1000000"

section \<open>Files\<close>

text \<open>
  \<open>read_str_from_file\<close>: at most \<open>sz\<close> bytes, the last of which is overwritten by the NUL (it is taken for the
  newline). \<open>None\<close> is the result -1, and the caller's buffer keeps its contents.
\<close>

definition read_str_from_file :: "string \<Rightarrow> nat \<Rightarrow> os \<Rightarrow> string option" where
  "read_str_from_file f sz s =
     (case files s f of
        None \<Rightarrow> None
      | Some c \<Rightarrow> (let b = take sz c in if length b < 1 then None else Some (butlast b)))"

definition write_str_to_file :: "env \<Rightarrow> string \<Rightarrow> string \<Rightarrow> os \<Rightarrow> int \<times> os" where
  "write_str_to_file e f v s =
     (if writable e f then (0, s\<lparr>files := (files s)(f \<mapsto> v @ [CHR 0x0A])\<rparr>) else (-1, s))"

text \<open>\<open>read_int_from_file\<close>: -1 when nothing can be read, else 0 with the number, or the old value of \<open>*u\<close>.\<close>

definition read_int_from_file :: "string \<Rightarrow> int \<Rightarrow> os \<Rightarrow> int \<times> int" where
  "read_int_from_file f u s =
     (case read_str_from_file f 64 s of
        None \<Rightarrow> (-1, u)
      | Some b \<Rightarrow> (0, case scan_d b of None \<Rightarrow> u | Some v \<Rightarrow> v))"

definition write_int_to_file :: "env \<Rightarrow> string \<Rightarrow> int \<Rightarrow> os \<Rightarrow> int \<times> os" where
  "write_int_to_file e f u s = write_str_to_file e f (dec_int u) s"

text \<open>\<open>syswrite\<close>\<close>

definition syswrite :: "env \<Rightarrow> string \<Rightarrow> string \<Rightarrow> os \<Rightarrow> os" where
  "syswrite e f v s = snd (write_str_to_file e f v s)"

lemma syswrite_frame [simp]:
  "events (syswrite e f v s) = events s" "now (syswrite e f v s) = now s" "acts (syswrite e f v s) = acts s"
  by (simp_all add: syswrite_def write_str_to_file_def)

lemma files_syswrite:
  "files (syswrite e f v s) = (if writable e f then (files s)(f \<mapsto> v @ [CHR 0x0A]) else files s)"
  by (simp add: syswrite_def write_str_to_file_def)

section \<open>A store of settings\<close>

text \<open>
  The interface the LED code relies on: a value that fits is read back after it was put, and putting one key
  leaves the others alone.
\<close>

locale settings =
  fixes put :: "'k \<Rightarrow> 'v \<Rightarrow> 's \<Rightarrow> 's"
    and get :: "'k \<Rightarrow> 's \<Rightarrow> 'v option"
    and usable :: "'k \<Rightarrow> bool"
    and fits :: "'v \<Rightarrow> bool"
  assumes get_put: "usable k \<Longrightarrow> fits v \<Longrightarrow> get k (put k v s) = Some v"
    and get_put_other: "k \<noteq> k' \<Longrightarrow> get k' (put k v s) = get k' s"
begin

definition puts :: "('k \<times> 'v) list \<Rightarrow> 's \<Rightarrow> 's" where
  "puts kvs s = fold (\<lambda>(k, v). put k v) kvs s"

lemma puts_simps [simp]: "puts [] s = s" "puts ((k, v) # r) s = puts r (put k v s)"
  by (simp_all add: puts_def)

lemma puts_append: "puts (xs @ ys) s = puts ys (puts xs s)"
  by (simp add: puts_def)

lemma get_puts_other: "k \<notin> fst ` set kvs \<Longrightarrow> get k (puts kvs s) = get k s"
  by (induction kvs arbitrary: s) (auto simp: get_put_other)

text \<open>After a run of writes every key holds the last value written to it.\<close>

lemma get_puts_last:
  assumes "usable k" and "fits v" and "k \<notin> fst ` set r"
  shows "get k (puts (l @ (k, v) # r) s) = Some v"
  using assms by (simp add: puts_append get_puts_other get_put)

end

text \<open>The strings the daemon writes have no NUL in C and fit the 64-byte buffers.\<close>

interpretation sysfs: settings "syswrite e" "\<lambda>f s. read_str_from_file f 64 s" "writable e" "\<lambda>v. length v < 64"
  by unfold_locales (simp_all add: read_str_from_file_def files_syswrite)

section \<open>Numbers in files\<close>

lemma dec_int_length: "LONG_MIN \<le> u \<Longrightarrow> u \<le> LONG_MAX \<Longrightarrow> length (dec_int u) \<le> 11"
proof -
  assume b: "LONG_MIN \<le> u" "u \<le> LONG_MAX"
  have "nat (- u) < 10 ^ Suc 9" "nat u < 10 ^ Suc 9" using b by (simp_all add: LONG_MIN_def LONG_MAX_def)
  then have "length (dec (nat (- u))) \<le> 10" "length (dec (nat u)) \<le> 10" using length_dec [of _ 9] by simp_all
  then show ?thesis by (simp add: dec_int_def)
qed

lemma strtol10_neg:
  assumes "int n \<le> LONG_MAX"
  shows "strtol10 (CHR ''-'' # dec n) = (- int n, [])"
proof -
  obtain d ds where d: "dec n = d # ds" and dd: "list_all isdigit (dec n)"
    using dec_digits [of n] by (cases "dec n") simp_all
  have t: "takeWhile isdigit (dec n) = dec n" "dropWhile isdigit (dec n) = []"
    using takeWhile_digits [OF dd, of "[]"] dropWhile_digits [OF dd, of "[]"] by simp_all
  have "LONG_MIN \<le> - int n" "- int n \<le> LONG_MAX" using assms by (simp_all add: LONG_MIN_def LONG_MAX_def)
  then have "saturate (- int n) = - int n" by (rule saturate_id)
  then show ?thesis using t d digits_value_dec [of n] by (simp add: strtol10_def Let_def isspace_def)
qed

lemma scan_d_dec_int:
  assumes "- LONG_MAX \<le> u" and "u \<le> LONG_MAX"
  shows "scan_d (dec_int u) = Some u"
proof (cases "u < 0")
  case True
  then have "strtol10 (dec_int u) = (u, [])" using strtol10_neg [of "nat (- u)"] assms by (simp add: dec_int_def)
  then show ?thesis using True by (simp add: scan_d_def dec_int_def)
next
  case False
  then show ?thesis using scan_d_dec [of "nat u" "[]"] assms by (simp add: dec_int_def)
qed

text \<open>A number written by \<open>write_int_to_file\<close> is read back by \<open>read_int_from_file\<close>.\<close>

lemma read_write_int:
  assumes "writable e f" and "- LONG_MAX \<le> u" and "u \<le> LONG_MAX"
  shows "read_int_from_file f d (snd (write_int_to_file e f u s)) = (0, u)"
proof -
  have l: "length (dec_int u) < 64" using dec_int_length [of u] assms(2,3) by (simp add: LONG_MIN_def LONG_MAX_def)
  have "read_str_from_file f 64 (snd (write_int_to_file e f u s)) = Some (dec_int u)"
    using sysfs.get_put [OF assms(1) l, of s] by (simp add: write_int_to_file_def syswrite_def)
  then show ?thesis using scan_d_dec_int [OF assms(2,3)] by (simp add: read_int_from_file_def)
qed

section \<open>The error log\<close>

definition syserrorfn :: string where "syserrorfn = ''/var/log/systemerror.log''"

text \<open>\<open>syserrorlog\<close> appends one list item to the log file; the entry is built in a buffer of 256 bytes.\<close>

definition syserrorlog :: "env \<Rightarrow> string \<Rightarrow> os \<Rightarrow> int \<times> os" where
  "syserrorlog e msg s =
     (if writable e syserrorfn then
        (0, s\<lparr>files := (files s)(syserrorfn \<mapsto>
               (case files s syserrorfn of None \<Rightarrow> [] | Some c \<Rightarrow> c) @ ''<li>'' @ msg @ ''</li>'' @ [CHR 0x0A])\<rparr>)
      else (-1, s))"

lemma syserrorlog_frame [simp]:
  "events (snd (syserrorlog e m s)) = events s" "now (snd (syserrorlog e m s)) = now s"
  "acts (snd (syserrorlog e m s)) = acts s"
  by (simp_all add: syserrorlog_def)

lemma syserrorlog_other: "f \<noteq> syserrorfn \<Longrightarrow> files (snd (syserrorlog e m s)) f = files s f"
  by (simp add: syserrorlog_def)

section \<open>User scripts\<close>

text \<open>
  \<open>exec_userscript\<close>: nothing for a null or empty name; otherwise the parent waits for the child until the alarm
  goes off. The call always comes back in the parent.
\<close>

definition exec_userscript :: "env \<Rightarrow> string option \<Rightarrow> nat \<Rightarrow> string option \<Rightarrow> os \<Rightarrow> os" where
  "exec_userscript e script timeout arg s =
     (case script of
        None \<Rightarrow> s
      | Some p \<Rightarrow>
          if p = [] then s
          else tick (min (script_time e p) (timeout * 1000000)) (act (Script p timeout arg) s))"

lemma exec_userscript_frame [simp]:
  "files (exec_userscript e p t a s) = files s" "events (exec_userscript e p t a s) = events s"
  "now s \<le> now (exec_userscript e p t a s)"
  by (simp_all add: exec_userscript_def split: option.splits)

text \<open>\<open>checkfile\<close>: a script is accepted only when it belongs to root, is executable by root and cannot be
  written by group or others.\<close>

definition checkfile :: "env \<Rightarrow> string option \<Rightarrow> string option" where
  "checkfile e fname =
     (case fname of
        None \<Rightarrow> None
      | Some f \<Rightarrow>
          if f = [] then None
          else (case stat_of e f of
                  None \<Rightarrow> None
                | Some (uid, mode) \<Rightarrow>
                    if uid \<noteq> 0 \<or> mode AND 64 = 0 \<or> mode AND 18 \<noteq> 0 then None else Some f))"

definition trusted :: "env \<Rightarrow> string \<Rightarrow> bool" where
  "trusted e f \<longleftrightarrow> (\<exists>mode. stat_of e f = Some (0, mode) \<and> bit mode 6 \<and> \<not> bit mode 4 \<and> \<not> bit mode 1)"

lemma checkfile_trusted: "checkfile e f = Some g \<Longrightarrow> f = Some g \<and> g \<noteq> [] \<and> trusted e g"
proof -
  have b: "bit (18 :: nat) k \<longleftrightarrow> k = 4 \<or> k = 1" "bit (64 :: nat) k \<longleftrightarrow> k = 6" for k
    by (auto simp: bit_numeral_rec bit_1_iff simp del: One_nat_def split: nat.splits)
  have m: "(mode :: nat) AND 18 = 0 \<longleftrightarrow> \<not> bit mode 4 \<and> \<not> bit mode 1"
    "mode AND 64 = 0 \<longleftrightarrow> \<not> bit mode 6" for mode
    by (auto simp: bit_eq_iff [of _ 0] bit_and_iff b)
  show "checkfile e f = Some g \<Longrightarrow> f = Some g \<and> g \<noteq> [] \<and> trusted e g"
    by (auto simp: checkfile_def trusted_def m split: option.splits if_splits prod.splits)
qed

end
