(* ===== verification/SysConf.thy ===== *)
theory SysConf
  imports SysFiles
begin

text \<open>
  The configuration of the control daemon: the arguments of \<open>/etc/sysctrl.conf\<close>, the board the box has, the
  disks of \<open>/etc/bay\<close> and their spin-down times in \<open>/etc/misc.conf\<close>. A result \<open>None\<close> of \<open>read_config\<close> is the
  crash of the process on a line without \<open>=\<close>.
\<close>

section \<open>The daemon's settings\<close>

definition FAN_AUTO :: int where "FAN_AUTO = 0"
definition FAN_ALWAYS_OFF :: int where "FAN_ALWAYS_OFF = 1"
definition FAN_ALWAYS_SLOW :: int where "FAN_ALWAYS_SLOW = 2"
definition FAN_ALWAYS_FAST :: int where "FAN_ALWAYS_FAST = 3"

lemmas fan_modes = FAN_AUTO_def FAN_ALWAYS_OFF_def FAN_ALWAYS_SLOW_def FAN_ALWAYS_FAST_def

record args_t =
  hist_temp :: rat
  lo_fan :: int
  hi_fan :: int
  lo_temp :: int
  hi_temp :: int
  disks_temp :: int
  mail :: int
  recovery :: int
  fan_off_temp :: int
  max_fan_speed :: int
  warn_temp :: int
  crit_temp :: int
  fan_mode :: int
  warn_temp_command :: "string option"
  crit_temp_command :: "string option"
  front_button_command1 :: "string option"
  front_button_command2 :: "string option"
  back_button_command :: "string option"

definition default_args :: args_t where
  "default_args = \<lparr>hist_temp = 2, lo_fan = 2000, hi_fan = 5000, lo_temp = 40, hi_temp = 50, disks_temp = 0,
     mail = 1, recovery = 1, fan_off_temp = 38, max_fan_speed = 6000, warn_temp = 52, crit_temp = 54,
     fan_mode = FAN_AUTO, warn_temp_command = None, crit_temp_command = Some ''/usr/sbin/poweroff'',
     front_button_command1 = None, front_button_command2 = None, back_button_command = None\<rparr>"

datatype Board = DNS_323_A1 | DNS_323_B1 | DNS_323_C1 | DNS_321_Ax | DNS_325_Ax | DNS_320_Ax | DNS_320_Bx
  | DNS_320L_Ax | DNS_327L_Ax | DNR_322L_Ax

text \<open>The indices of the LEDs and of the slots of the box.\<close>

definition left_led :: nat where "left_led = 0"
definition right_led :: nat where "right_led = 1"
definition usb_led :: nat where "usb_led = 2"
definition power_led :: nat where "power_led = 3"

definition led_dirs :: "string option list" where
  "led_dirs = [Some ''/tmp/sys/left_led/'', Some ''/tmp/sys/right_led/'', Some ''/tmp/sys/usb_led/'',
     Some ''/tmp/sys/power_led/'']"

definition left_dev :: nat where "left_dev = 0"
definition right_dev :: nat where "right_dev = 1"
definition usb_dev :: nat where "usb_dev = 2"

record box =
  board :: Board
  leds :: "string option list"
  nslots :: nat
  args :: args_t

definition initial_box :: box where
  "initial_box = \<lparr>board = DNS_323_A1, leds = led_dirs, nslots = 3, args = default_args\<rparr>"

section \<open>The board\<close>

definition no_usb_led :: "box \<Rightarrow> box" where
  "no_usb_led s = s\<lparr>leds := (leds s)[usb_led := None]\<rparr>"

definition hot_box :: "box \<Rightarrow> box" where
  "hot_box s = s\<lparr>args := (args s)\<lparr>lo_temp := 45\<rparr>\<rparr>"

definition slow_fan :: "box \<Rightarrow> box" where
  "slow_fan s = s\<lparr>args := (args s)\<lparr>fan_mode := FAN_ALWAYS_SLOW\<rparr>\<rparr>"

definition set_board :: "string \<Rightarrow> box \<Rightarrow> box option" where
  "set_board res s =
     (if res = ''DNS-323-A1'' then Some (no_usb_led (s\<lparr>board := DNS_323_A1\<rparr>))
      else if res = ''DNS-323-B1'' then Some (no_usb_led (s\<lparr>board := DNS_323_B1\<rparr>))
      else if res = ''DNS-323-C1'' then Some (hot_box (no_usb_led (s\<lparr>board := DNS_323_C1\<rparr>)))
      else if res = ''DNS-321-Ax'' then
        Some (hot_box ((no_usb_led (s\<lparr>board := DNS_321_Ax\<rparr>))\<lparr>nslots := 2\<rparr>))
      else if res = ''DNS-325-Ax'' then Some (hot_box (s\<lparr>board := DNS_325_Ax\<rparr>))
      else if res = ''DNS-320-Ax'' then Some (slow_fan (hot_box (s\<lparr>board := DNS_320_Ax\<rparr>)))
      else if res = ''DNS-320L-Ax'' then Some (slow_fan (hot_box (s\<lparr>board := DNS_320L_Ax\<rparr>)))
      else if res = ''DNS-320-Bx'' then Some (slow_fan (hot_box (s\<lparr>board := DNS_320_Bx\<rparr>)))
      else if res = ''DNS-327L-Ax'' then
        Some (slow_fan (hot_box (no_usb_led (s\<lparr>board := DNS_327L_Ax\<rparr>))))
      else if res = ''DNR-322L-Ax'' then Some (slow_fan (hot_box (s\<lparr>board := DNR_322L_Ax\<rparr>)))
      else None)"

text \<open>\<open>check_board\<close>: the process exits with 1 when the board cannot be read or is not a supported one.\<close>

definition check_board :: "env \<Rightarrow> box \<Rightarrow> (os, int, box) op" where
  "check_board e s o1 =
     (case read_str_from_file ''/tmp/board'' 64 o1 of
        None \<Rightarrow> (Inl 1, snd (syserrorlog e ''Can't read /tmp/board, exiting'' o1))
      | Some res \<Rightarrow>
          (case set_board res s of
             Some s' \<Rightarrow> (Inr s', o1)
           | None \<Rightarrow> (Inl 1, snd (syserrorlog e
               (take 255 (''Hardware board '' @ res @ '' not supported, exiting.'')) o1))))"

section \<open>\<open>/etc/sysctrl.conf\<close>\<close>

text \<open>\<open>trim\<close>: the surrounding white space, then one pair of double quotes. A lone quote becomes the empty string.\<close>

definition trim :: "string \<Rightarrow> string" where
  "trim s =
     (let t = rev (dropWhile isspace (rev (dropWhile isspace s)))
      in if t \<noteq> [] \<and> t ! 0 = CHR 0x22 \<and> last t = CHR 0x22 then butlast (drop 1 t) else t)"

text \<open>\<open>config\<close>: one assignment. An unknown name is reported to the system log and changes nothing.\<close>

definition config :: "env \<Rightarrow> string \<Rightarrow> string \<Rightarrow> args_t \<Rightarrow> args_t" where
  "config e n v a =
     (if n = ''lo_fan'' then a\<lparr>lo_fan := atoi v\<rparr>
      else if n = ''hi_fan'' then a\<lparr>hi_fan := atoi v\<rparr>
      else if n = ''lo_temp'' then a\<lparr>lo_temp := atoi v\<rparr>
      else if n = ''hi_temp'' then a\<lparr>hi_temp := atoi v\<rparr>
      else if n = ''hist_temp'' then a\<lparr>hist_temp := flt (dbl (scan_float v))\<rparr>
      else if n = ''disks_temp'' then a\<lparr>disks_temp := atoi v\<rparr>
      else if n = ''fan_mode'' then
        a\<lparr>fan_mode := (if atoi v \<in> {FAN_ALWAYS_OFF, FAN_ALWAYS_SLOW, FAN_ALWAYS_FAST, FAN_AUTO} then atoi v
                      else FAN_AUTO)\<rparr>
      else if n = ''fan_off_temp'' then a\<lparr>fan_off_temp := atoi v\<rparr>
      else if n = ''max_fan_speed'' then a\<lparr>max_fan_speed := atoi v\<rparr>
      else if n = ''crit_temp'' then a\<lparr>crit_temp := atoi v\<rparr>
      else if n = ''warn_temp'' then a\<lparr>warn_temp := atoi v\<rparr>
      else if n = ''mail'' then a\<lparr>mail := atoi v\<rparr>
      else if n = ''recovery'' then a\<lparr>recovery := atoi v\<rparr>
      else if n = ''crit_temp_command'' then a\<lparr>crit_temp_command := checkfile e (Some v)\<rparr>
      else if n = ''warn_temp_command'' then a\<lparr>warn_temp_command := checkfile e (Some v)\<rparr>
      else if n = ''front_button_command1'' then a\<lparr>front_button_command1 := checkfile e (Some v)\<rparr>
      else if n = ''front_button_command2'' then a\<lparr>front_button_command2 := checkfile e (Some v)\<rparr>
      else if n = ''back_button_command'' then a\<lparr>back_button_command := checkfile e (Some v)\<rparr>
      else a)"

text \<open>
  One line of the file: comments are cut, an empty line is skipped. Without a \<open>=\<close> the error is logged and the
  code goes on with the pointer \<open>NULL + 1\<close>: \<open>None\<close>.
\<close>

definition config_line :: "env \<Rightarrow> string \<Rightarrow> args_t \<Rightarrow> args_t option" where
  "config_line e l a =
     (let s = takeWhile (\<lambda>c. c \<noteq> CHR ''#'') l
      in if list_all isspace s then Some a
         else (case strchr (CHR ''='') s of
                 None \<Rightarrow> None
               | Some (n, v) \<Rightarrow> Some (config e (trim n) (trim v) a)))"

fun config_lines :: "env \<Rightarrow> string list \<Rightarrow> args_t \<Rightarrow> args_t option" where
  "config_lines e [] a = Some a"
| "config_lines e (l # ls) a = (case config_line e l a of None \<Rightarrow> None | Some b \<Rightarrow> config_lines e ls b)"

definition read_config :: "env \<Rightarrow> os \<Rightarrow> args_t \<Rightarrow> args_t option" where
  "read_config e o1 a =
     (case files o1 ''/etc/sysctrl.conf'' of
        None \<Rightarrow> Some a
      | Some c \<Rightarrow> config_lines e (fgets_all 128 c) a)"

section \<open>The disks\<close>

record disk =
  dev :: "string option"
  slot :: "string option"
  rdwr_cnt :: nat
  last_access :: nat
  spindow_time :: int
  power_state :: int

definition blank_disk :: disk where
  "blank_disk = \<lparr>dev = None, slot = None, rdwr_cnt = 0, last_access = 0, spindow_time = 0, power_state = 0\<rparr>"

text \<open>The table has three entries on every board; a loop over the slots touches the first \<open>nslots\<close>.\<close>

definition on_slots :: "nat \<Rightarrow> (disk \<Rightarrow> disk) \<Rightarrow> disk list \<Rightarrow> disk list" where
  "on_slots n f ds = map f (take n ds) @ drop n ds"

definition set_slot :: "nat \<Rightarrow> (disk \<Rightarrow> disk) \<Rightarrow> disk list \<Rightarrow> disk list" where
  "set_slot i f ds = (if i < length ds then ds[i := f (ds ! i)] else ds)"

text \<open>The two calls of \<open>strtok\<close> on a line \<open>name=value\<close>.\<close>

definition name_value :: "string \<Rightarrow> (string \<times> string \<times> string) option" where
  "name_value l =
     (case strtok (CHR ''='') l of
        None \<Rightarrow> None
      | Some (n, r) \<Rightarrow> (case strtok (CHR 0x0A) r of None \<Rightarrow> None | Some (v, r') \<Rightarrow> Some (n, v, r)))"

definition INT_wrap :: "int \<Rightarrow> int" where
  "INT_wrap i = sint (word_of_int i :: 32 word)"

text \<open>
  \<open>read_misc\<close>. The number of a line is scanned into the one variable \<open>sl\<close> of the function, so a value that is
  not a number leaves the one of the line before it (or, first, what the stack held).
\<close>

definition misc_line :: "string \<Rightarrow> int \<times> disk list \<Rightarrow> int \<times> disk list" where
  "misc_line l = (\<lambda>(sl, ds).
     (case name_value l of
        None \<Rightarrow> (sl, ds)
      | Some (cmd, val, _) \<Rightarrow>
          let sl = (case scan_d val of None \<Rightarrow> sl | Some v \<Rightarrow> v);
              set = (\<lambda>i. set_slot i (\<lambda>d. d\<lparr>spindow_time := INT_wrap (sl * 60)\<rparr>) ds)
          in if cmd = ''HDSLEEP_LEFT'' then (sl, set left_dev)
             else if cmd = ''HDSLEEP_RIGHT'' then (sl, set right_dev)
             else if cmd = ''HDSLEEP_USB'' then (sl, set usb_dev)
             else (sl, ds)))"

definition read_misc :: "env \<Rightarrow> nat \<Rightarrow> disk list \<Rightarrow> os \<Rightarrow> disk list \<times> os" where
  "read_misc e n ds o1 =
     (case files o1 ''/etc/misc.conf'' of
        None \<Rightarrow> (ds, snd (syserrorlog e ''can't open /etc/misc.conf'' o1))
      | Some c \<Rightarrow>
          (snd (fold misc_line (fgets_all 256 c) (junk e, on_slots n (\<lambda>d. d\<lparr>spindow_time := 0\<rparr>) ds)), o1))"

text \<open>
  \<open>read_bay\<close>. For a USB disk the four characters from the fifth on must be \<open>_dev\<close>; when the name is just
  \<open>usb\<close> they lie behind its end, in the value.
\<close>

definition is_usb :: "string \<Rightarrow> string \<Rightarrow> bool" where
  "is_usb opt rest \<longleftrightarrow> strneq 3 opt ''usb'' \<and>
     strneq 4 (if length opt < 4 then takeWhile (\<lambda>c. c \<noteq> CHR 0x0A) rest else drop 4 opt) ''_dev''"

definition plug :: "nat \<Rightarrow> string \<Rightarrow> string \<Rightarrow> nat \<times> disk list \<Rightarrow> nat \<times> disk list" where
  "plug i name d = (\<lambda>(k, ds). (k + 1, set_slot i (\<lambda>x. x\<lparr>dev := Some d, slot := Some name\<rparr>) ds))"

definition bay_line :: "string \<Rightarrow> nat \<times> disk list \<Rightarrow> nat \<times> disk list" where
  "bay_line l st =
     (case name_value l of
        None \<Rightarrow> st
      | Some (opt, d, rest) \<Rightarrow>
          if opt = ''left_dev'' then plug left_dev ''left'' d st
          else if opt = ''right_dev'' then plug right_dev ''right'' d st
          else if is_usb opt rest then plug usb_dev ''usb'' d st
          else st)"

definition read_bay :: "env \<Rightarrow> nat \<Rightarrow> nat \<times> disk list \<Rightarrow> os \<Rightarrow> (nat \<times> disk list) \<times> os" where
  "read_bay e n st o1 =
     (case files o1 ''/etc/bay'' of
        None \<Rightarrow> (st, snd (syserrorlog e ''can't open /etc/bay'' o1))
      | Some c \<Rightarrow> (fold bay_line (fgets_all 256 c) (0, on_slots n (\<lambda>d. d\<lparr>dev := None\<rparr>) (snd st)), o1))"

section \<open>Invariant of the settings\<close>

definition commands :: "args_t \<Rightarrow> string option list" where
  "commands a = [warn_temp_command a, crit_temp_command a, front_button_command1 a, front_button_command2 a,
     back_button_command a]"

text \<open>The fan mode is one of the four, and every script is trusted or the default one.\<close>

definition args_ok :: "env \<Rightarrow> args_t \<Rightarrow> bool" where
  "args_ok e a \<longleftrightarrow> fan_mode a \<in> {0..3} \<and>
     (\<forall>c \<in> set (commands a). case c of None \<Rightarrow> True | Some p \<Rightarrow> p = ''/usr/sbin/poweroff'' \<or> trusted e p)"

lemma default_args_ok: "args_ok e default_args"
  by (simp add: args_ok_def default_args_def commands_def fan_modes)

lemma checkfile_ok: "case checkfile e f of None \<Rightarrow> True | Some p \<Rightarrow> p = q \<or> trusted e p"
  by (auto split: option.split dest: checkfile_trusted)

lemma config_ok: "args_ok e a \<Longrightarrow> args_ok e (config e n v a)"
  using checkfile_ok [where e = e and f = "Some v" and q = "''/usr/sbin/poweroff''"]
  by (simp add: args_ok_def config_def commands_def fan_modes)

lemma config_lines_ok: "args_ok e a \<Longrightarrow> config_lines e ls a = Some b \<Longrightarrow> args_ok e b"
proof (induction e ls a rule: config_lines.induct)
  case (2 e l ls a)
  then obtain c where c: "config_line e l a = Some c" "config_lines e ls c = Some b"
    by (auto split: option.splits)
  have "args_ok e c" using c(1) 2(2) config_ok
    by (auto simp: config_line_def Let_def split: if_splits option.splits)
  then show ?case using 2(1) c by simp
qed simp

lemma read_config_ok: "args_ok e a \<Longrightarrow> read_config e s a = Some b \<Longrightarrow> args_ok e b"
  using config_lines_ok by (auto simp: read_config_def split: option.splits)

lemma set_board_ok:
  assumes "set_board res initial_box = Some b"
  shows "length (leds b) = 4 \<and> nslots b \<le> 3 \<and> args_ok e (args b) \<and>
    (nslots b = 2 \<longleftrightarrow> board b = DNS_321_Ax) \<and> leds b ! left_led \<noteq> None \<and> leds b ! right_led \<noteq> None"
  using assms default_args_ok [of e]
  by (auto simp: set_board_def initial_box_def led_dirs_def no_usb_led_def hot_box_def slow_fan_def usb_led_def
      left_led_def right_led_def args_ok_def commands_def fan_modes split: if_splits)


section \<open>Reading a well-formed file\<close>

definition clean :: "string \<Rightarrow> bool" where
  "clean s \<longleftrightarrow> s \<noteq> [] \<and> CHR ''#'' \<notin> set s \<and> CHR 0x0A \<notin> set s \<and>
     \<not> isspace (s ! 0) \<and> \<not> isspace (last s) \<and> s ! 0 \<noteq> CHR 0x22"

lemma trim_clean:
  assumes "clean s" and "list_all isspace x" and "list_all isspace y"
  shows "trim (x @ s @ y) = s"
proof -
  have d: "list_all isspace x \<Longrightarrow> dropWhile isspace (x @ r) = dropWhile isspace r" for x r
    by (induction x) simp_all
  have s: "s \<noteq> []" "\<not> isspace (s ! 0)" "\<not> isspace (last s)" "s ! 0 \<noteq> CHR 0x22"
    using assms(1) by (simp_all add: clean_def)
  have "dropWhile isspace (s @ y) = s @ y" using s by (cases s) simp_all
  moreover have "dropWhile isspace (rev y @ rev s) = dropWhile isspace (rev s)"
    using assms(3) by (intro d) (simp add: list_all_iff)
  moreover have "dropWhile isspace (rev s) = rev s" using s by (cases s rule: rev_cases) simp_all
  ultimately show ?thesis using d [OF assms(2)] s by (simp add: trim_def Let_def)
qed

definition setting :: "string \<times> string \<Rightarrow> string" where
  "setting = (\<lambda>(n, v). n @ ''='' @ v @ [CHR 0x0A])"

definition setting_ok :: "string \<times> string \<Rightarrow> bool" where
  "setting_ok = (\<lambda>(n, v). clean n \<and> CHR ''='' \<notin> set n \<and> clean v \<and> length n + length v \<le> 125)"

lemma config_line_setting:
  assumes "setting_ok (n, v)"
  shows "config_line e (setting (n, v)) a = Some (config e n v a)"
proof -
  have n: "clean n" "CHR ''='' \<notin> set n" and v: "clean v" using assms by (simp_all add: setting_ok_def)
  have t: "takeWhile (\<lambda>c. c \<noteq> CHR ''#'') (setting (n, v)) = setting (n, v)"
    using n(1) v by (auto simp: takeWhile_eq_all_conv setting_def clean_def)
  have "\<not> isspace (n ! 0)" "n ! 0 \<in> set (setting (n, v))"
    using n(1) by (auto simp: clean_def setting_def)
  then have "\<not> list_all isspace (setting (n, v))" by (auto simp: list_all_iff)
  moreover have "strchr (CHR ''='') (setting (n, v)) = Some (n, v @ [CHR 0x0A])"
    using strchr_append [OF n(2), of "v @ [CHR 0x0A]"] by (simp add: setting_def)
  moreover have "trim n = n" "trim (v @ [CHR 0x0A]) = v"
    using trim_clean [OF n(1), of "[]" "[]"] trim_clean [OF v, of "[]" "[CHR 0x0A]"] by (simp_all add: isspace_def)
  ultimately show ?thesis unfolding config_line_def t by simp
qed

lemma fgets_settings:
  "list_all setting_ok kvs \<Longrightarrow> fgets_all 128 (concat (map setting kvs)) = map setting kvs"
proof (induction kvs)
  case (Cons kv kvs)
  obtain n v where kv: "kv = (n, v)" by (cases kv)
  have nl: "CHR 0x0A \<notin> set (n @ ''='' @ v)" and len: "length (n @ ''='' @ v) + 2 \<le> 128"
    using Cons.prems by (auto simp: kv setting_ok_def clean_def)
  have "concat (map setting (kv # kvs)) = (n @ ''='' @ v) @ CHR 0x0A # concat (map setting kvs)"
    by (simp add: kv setting_def)
  then show ?case using fgets_all_line [OF nl len, of "concat (map setting kvs)"] Cons
    by (simp add: kv setting_def)
qed simp

lemma config_lines_settings:
  "list_all setting_ok kvs \<Longrightarrow> config_lines e (map setting kvs) a = Some (fold (\<lambda>(n, v). config e n v) kvs a)"
  by (induction kvs arbitrary: a) (auto simp: config_line_setting)

text \<open>C30. A configuration file of lines \<open>name=value\<close> that fit the line buffer is read as the assignments in their
  order; later ones win.\<close>

theorem settings_file:
  assumes "list_all setting_ok kvs" and "files s ''/etc/sysctrl.conf'' = Some (concat (map setting kvs))"
  shows "read_config e s a = Some (fold (\<lambda>(n, v). config e n v) kvs a)"
  using assms by (simp add: read_config_def fgets_settings config_lines_settings)

definition conf_os :: "string \<Rightarrow> os" where
  "conf_os c = \<lparr>files = [''/etc/sysctrl.conf'' \<mapsto> c, ''/tmp/board'' \<mapsto> ''DNS-323-B1'' @ [CHR 0x0A]],
     events = [], now = 0, acts = []\<rparr>"

lemma settings_file_witness:
  "\<forall>e. \<exists>a. read_config e (conf_os (concat (map setting [(''lo_temp'', ''42''), (''fan_mode'', ''7'')]))) default_args = Some a \<and>
     lo_temp a = 42 \<and> fan_mode a = FAN_AUTO"
proof
  fix e :: env
  let ?k = "[(''lo_temp'', ''42''), (''fan_mode'', ''7'')]"
  have k: "list_all setting_ok ?k" by (simp add: setting_ok_def clean_def isspace_def)
  have v: "atoi ''42'' = 42" "atoi ''7'' = 7" by code_simp+
  show "\<exists>a. read_config e (conf_os (concat (map setting ?k))) default_args = Some a \<and> lo_temp a = 42 \<and> fan_mode a = FAN_AUTO"
    using settings_file [OF k, of "conf_os (concat (map setting ?k))" e default_args] v
    by (simp add: conf_os_def config_def fan_modes)
qed


section \<open>Long comments\<close>

lemma fgets_all_long:
  assumes "CHR 0x0A \<notin> set l" and "length l = n" and "0 < n"
  shows "fgets_all (Suc n) (l @ r) = l # fgets_all (Suc n) r"
proof -
  have "takeWhile (\<lambda>c. c \<noteq> CHR 0x0A) (l @ r) = l @ takeWhile (\<lambda>c. c \<noteq> CHR 0x0A) r"
    using assms(1) by (intro takeWhile_append2) auto
  then have "fgets_piece (Suc n) (l @ r) = l" using assms(2) by (simp add: fgets_piece_def)
  then show ?thesis using assms(2,3) by (subst fgets_all.simps) auto
qed

text \<open>A comment of more than 126 characters takes the daemon down: the line buffer splits it, the second piece no
  longer starts with \<open>#\<close>, and without a \<open>=\<close> in it the code follows a null pointer.\<close>

theorem long_comment_crashes:
  assumes "files s ''/etc/sysctrl.conf'' = Some (CHR ''#'' # c @ d @ CHR 0x0A # r)"
    and "length c = 126" and "length d \<le> 126" and "CHR 0x0A \<notin> set (c @ d)"
    and "CHR ''#'' \<notin> set d" and "CHR ''='' \<notin> set d" and "\<not> list_all isspace d"
  shows "read_config e s a = None"
proof -
  have "fgets_all 128 ((CHR ''#'' # c) @ d @ CHR 0x0A # r) = (CHR ''#'' # c) # fgets_all 128 (d @ CHR 0x0A # r)"
    using fgets_all_long [of "CHR ''#'' # c" 127] assms(2,4) by simp
  also have "fgets_all 128 (d @ CHR 0x0A # r) = (d @ [CHR 0x0A]) # fgets_all 128 r"
    using assms(3,4) by (intro fgets_all_line) auto
  finally have p: "fgets_all 128 (CHR ''#'' # c @ d @ CHR 0x0A # r) = (CHR ''#'' # c) # (d @ [CHR 0x0A]) # fgets_all 128 r"
    by simp
  have "takeWhile (\<lambda>c. c \<noteq> CHR ''#'') (d @ [CHR 0x0A]) = d @ [CHR 0x0A]"
    using assms(5) by (auto simp: takeWhile_eq_all_conv)
  moreover have "strchr (CHR ''='') (d @ [CHR 0x0A]) = None" using assms(6) by (simp add: strchr_None)
  ultimately have "config_line e (d @ [CHR 0x0A]) a = None"
    using assms(7) by (simp add: config_line_def)
  moreover have "config_line e (CHR ''#'' # c) a = Some a" by (simp add: config_line_def)
  ultimately show ?thesis by (simp add: read_config_def assms(1) p)
qed

lemma long_comment_crashes_witness:
  "\<forall>e a. read_config e (conf_os (CHR ''#'' # replicate 127 (CHR ''-'') @ [CHR 0x0A])) a = None"
proof (intro allI)
  fix e :: env and a
  have r: "replicate 127 (CHR ''-'') = replicate 126 (CHR ''-'') @ ''-''"
    using replicate_append_same [of 126 "CHR ''-''"] by (simp add: replicate_Suc [symmetric] del: replicate_Suc)
  show "read_config e (conf_os (CHR ''#'' # replicate 127 (CHR ''-'') @ [CHR 0x0A])) a = None"
    by (rule long_comment_crashes [where c = "replicate 126 (CHR ''-'')" and d = "''-''" and r = "[]"])
      (simp_all add: conf_os_def r isspace_def)
qed

section \<open>The bay file\<close>

lemma name_value_line:
  assumes "n \<noteq> []" and "CHR ''='' \<notin> set n" and "v \<noteq> []" and "CHR 0x0A \<notin> set v"
  shows "name_value (n @ CHR ''='' # v @ [CHR 0x0A]) = Some (n, v, v @ [CHR 0x0A])"
proof -
  have tok: "strtok d (x @ d # y) = Some (x, y)" if "x \<noteq> []" "d \<notin> set x" for d x y
  proof -
    have "dropWhile (\<lambda>c. c = d) (x @ d # y) = x @ d # y" using that by (cases x) auto
    moreover have "takeWhile (\<lambda>c. c \<noteq> d) (x @ d # y) = x" "dropWhile (\<lambda>c. c \<noteq> d) (x @ d # y) = d # y"
      using that(2) by (induction x) auto
    ultimately show ?thesis by (simp add: strtok_def)
  qed
  show ?thesis using tok [OF assms(1,2)] tok [OF assms(3,4), of "[]"] by (simp add: name_value_def)
qed

definition bay_entry :: "string \<times> string \<Rightarrow> string" where
  "bay_entry = (\<lambda>(n, v). n @ ''='' @ v @ [CHR 0x0A])"

definition dev_name :: "string \<Rightarrow> bool" where
  "dev_name v \<longleftrightarrow> v \<noteq> [] \<and> CHR 0x0A \<notin> set v \<and> length v \<le> 200"

lemma fgets_bay:
  "list_all (\<lambda>(n, v). CHR 0x0A \<notin> set n \<and> length n \<le> 50 \<and> dev_name v) kvs \<Longrightarrow>
   fgets_all 256 (concat (map bay_entry kvs)) = map bay_entry kvs"
proof (induction kvs)
  case (Cons kv kvs)
  obtain n v where kv: "kv = (n, v)" by (cases kv)
  have nl: "CHR 0x0A \<notin> set (n @ ''='' @ v)" and len: "length (n @ ''='' @ v) + 2 \<le> 256"
    using Cons.prems by (auto simp: kv dev_name_def)
  have "concat (map bay_entry (kv # kvs)) = (n @ ''='' @ v) @ CHR 0x0A # concat (map bay_entry kvs)"
    by (simp add: kv bay_entry_def)
  then show ?case using fgets_all_line [OF nl len, of "concat (map bay_entry kvs)"] Cons
    by (simp add: kv bay_entry_def)
qed simp

lemma bay_line_entry:
  assumes "dev_name v"
  shows "bay_line (bay_entry (''left_dev'', v)) st = plug left_dev ''left'' v st"
    and "bay_line (bay_entry (''right_dev'', v)) st = plug right_dev ''right'' v st"
    and "bay_line (bay_entry (''usb1_dev'', v)) st = plug usb_dev ''usb'' v st"
  using assms name_value_line [of "''left_dev''" v] name_value_line [of "''right_dev''" v]
    name_value_line [of "''usb1_dev''" v]
  by (simp_all add: bay_line_def bay_entry_def dev_name_def is_usb_def strneq_def)

lemma length_on_slots [simp]: "length (on_slots n f ds) = length ds"
  by (simp add: on_slots_def)

lemma on_slots_keeps: "(\<And>d. g (f d) = g d) \<Longrightarrow> map g (on_slots n f ds) = map g ds"
proof -
  assume "\<And>d. g (f d) = g d"
  then have "map g (on_slots n f ds) = map g (take n ds) @ map g (drop n ds)" by (simp add: on_slots_def)
  then show ?thesis by (simp flip: map_append)
qed

text \<open>The three lines the hot-plug scripts write for a full box are read as the three disks in their slots,
  whatever was in the table before, and nothing else of a disk changes.\<close>

theorem full_bay:
  assumes "dev_name l" and "dev_name r" and "dev_name u" and "length ds = 3"
    and "files s ''/etc/bay'' = Some (concat (map bay_entry [(''left_dev'', l), (''right_dev'', r), (''usb1_dev'', u)]))"
  shows "\<exists>ds'. read_bay e n (k, ds) s = ((3, ds'), s) \<and> map dev ds' = [Some l, Some r, Some u] \<and>
    map slot ds' = [Some ''left'', Some ''right'', Some ''usb''] \<and> map spindow_time ds' = map spindow_time ds \<and>
    map power_state ds' = map power_state ds"
proof -
  let ?l = "map bay_entry [(''left_dev'', l), (''right_dev'', r), (''usb1_dev'', u)]"
  let ?ds = "on_slots n (\<lambda>d. d\<lparr>dev := None\<rparr>) ds"
  have f: "fgets_all 256 (concat ?l) = ?l" using assms(1-3) by (intro fgets_bay) simp
  have "length ?ds = 3" using assms(4) by simp
  then obtain x y z where xyz: "?ds = [x, y, z]" by (auto simp: numeral_3_eq_3 length_Suc_conv simp del: length_on_slots)
  have m: "map spindow_time ?ds = map spindow_time ds" "map power_state ?ds = map power_state ds"
    by (rule on_slots_keeps, simp)+
  have "fold bay_line ?l (0, [x, y, z]) =
      (3, [x\<lparr>dev := Some l, slot := Some ''left''\<rparr>, y\<lparr>dev := Some r, slot := Some ''right''\<rparr>, z\<lparr>dev := Some u, slot := Some ''usb''\<rparr>])"
    using assms(1-3) by (simp add: bay_line_entry plug_def set_slot_def left_dev_def right_dev_def usb_dev_def)
  then show ?thesis using m unfolding xyz by (simp add: read_bay_def assms(5) f xyz del: concat.simps list.map) simp
qed

definition bay_os :: os where
  "bay_os = \<lparr>files = [''/etc/bay'' \<mapsto> concat (map bay_entry [(''left_dev'', ''sda''), (''right_dev'', ''sdb''), (''usb1_dev'', ''sdc'')])],
     events = [], now = 0, acts = []\<rparr>"

lemma full_bay_witness:
  "\<forall>e. \<exists>ds'. read_bay e 3 (0, replicate 3 blank_disk) bay_os = ((3, ds'), bay_os) \<and>
     map dev ds' = [Some ''sda'', Some ''sdb'', Some ''sdc'']"
proof
  fix e :: env
  have d: "dev_name ''sda''" "dev_name ''sdb''" "dev_name ''sdc''" by (simp_all add: dev_name_def)
  have f: "files bay_os ''/etc/bay'' =
      Some (concat (map bay_entry [(''left_dev'', ''sda''), (''right_dev'', ''sdb''), (''usb1_dev'', ''sdc'')]))"
    by (simp only: bay_os_def os.select_convs fun_upd_same)
  have l: "length (replicate 3 blank_disk) = 3" by simp
  show "\<exists>ds'. read_bay e 3 (0, replicate 3 blank_disk) bay_os = ((3, ds'), bay_os) \<and>
      map dev ds' = [Some ''sda'', Some ''sdb'', Some ''sdc'']"
    by (rule ex_forward [OF full_bay [OF d l f, where e = e and n = 3 and k = 0]]) (elim conjE, intro conjI)
qed

end
