(* ===== verification/SysLeds.thy ===== *)
theory SysLeds
  imports SysConf
begin

text \<open>
  The LEDs of the box and the two watches that light them: the RAID state and the error log. The daemon keeps one
  requested mode per priority; \<open>leds_proc\<close> applies them in the order of the priorities, so the last one written
  is what the LEDs show.
\<close>

section \<open>One LED\<close>

definition led_set :: "env \<Rightarrow> string option list \<Rightarrow> nat \<Rightarrow> string \<Rightarrow> os \<Rightarrow> os" where
  "led_set e ls which mode s =
     (case ls ! which of
        None \<Rightarrow> s
      | Some d \<Rightarrow> syswrite e (d @ ''brightness'') mode (syswrite e (d @ ''trigger'') ''none'' s))"

text \<open>The trigger in use stands in square brackets in the list of triggers.\<close>

definition bracketed :: "string \<Rightarrow> string \<Rightarrow> string" where
  "bracketed mode t =
     (case (strchr (CHR ''['') t, strchr (CHR '']'') t) of
        (Some (a, b), Some (c, d)) \<Rightarrow> if length a < length c then take (length c - length a - 1) b else b
      | (None, None) \<Rightarrow> t
      | _ \<Rightarrow> mode)"

text \<open>\<open>led_get\<close>: the brightness, or -1, and the mode buffer; \<open>u\<close> is what the variable for the brightness held.\<close>

definition led_get :: "string option list \<Rightarrow> nat \<Rightarrow> int \<Rightarrow> string \<Rightarrow> os \<Rightarrow> int \<times> string" where
  "led_get ls which u mode s =
     (case ls ! which of
        None \<Rightarrow> (-1, mode)
      | Some d \<Rightarrow>
          (case read_str_from_file (d @ ''trigger'') 128 s of
             None \<Rightarrow> (-1, mode)
           | Some t \<Rightarrow>
               (case read_int_from_file (d @ ''brightness'') u s of
                  (r, v) \<Rightarrow> (if r \<noteq> 0 then -1 else v, bracketed mode t))))"

definition led_blink :: "env \<Rightarrow> string option list \<Rightarrow> nat \<Rightarrow> string \<Rightarrow> string \<Rightarrow> os \<Rightarrow> os" where
  "led_blink e ls which on off s =
     (case ls ! which of
        None \<Rightarrow> s
      | Some d \<Rightarrow>
          syswrite e (d @ ''delay_off'') off
            (syswrite e (d @ ''delay_on'') on
              (syswrite e (d @ ''trigger'') ''timer'' (led_set e ls which ''0'' s))))"

definition leds_on :: "env \<Rightarrow> string option list \<Rightarrow> os \<Rightarrow> os" where
  "leds_on e ls s = fold (\<lambda>i. led_set e ls i ''1'') [0, 1] s"

definition leds_off :: "env \<Rightarrow> string option list \<Rightarrow> os \<Rightarrow> os" where
  "leds_off e ls s = fold (\<lambda>i. led_set e ls i ''0'') [0, 1] s"

definition leds_blink :: "env \<Rightarrow> string option list \<Rightarrow> os \<Rightarrow> os" where
  "leds_blink e ls s = fold (\<lambda>i. led_blink e ls i ''250'' ''250'') [0, 1] s"

section \<open>Requests by priority\<close>

datatype ledmode = NA | LEDOFF | LEDON | LEDBLINK

definition PHIGH :: nat where "PHIGH = 0"
definition PMED :: nat where "PMED = 1"
definition PLOW :: nat where "PLOW = 2"

lemmas priorities = PHIGH_def PMED_def PLOW_def

text \<open>The queue and the static variables of the two watches.\<close>

record ledq =
  leds_pqueue :: "ledmode list"
  leds_state :: int
  last_degraded :: int
  degraded :: "int list"

definition initial_ledq :: ledq where
  "initial_ledq = \<lparr>leds_pqueue = [LEDOFF, LEDOFF, LEDOFF], leds_state = 0, last_degraded = 0,
     degraded = replicate 10 0\<rparr>"

definition leds_set :: "nat \<Rightarrow> ledmode \<Rightarrow> ledq \<Rightarrow> ledq" where
  "leds_set priority mode q = q\<lparr>leds_pqueue := (leds_pqueue q)[priority := mode]\<rparr>"

definition leds_step :: "env \<Rightarrow> string option list \<Rightarrow> nat \<Rightarrow> ledq \<times> os \<Rightarrow> ledq \<times> os" where
  "leds_step e ls i = (\<lambda>(q, s).
     (case leds_pqueue q ! i of
        NA \<Rightarrow> (q, s)
      | LEDOFF \<Rightarrow> (leds_set i NA q, leds_off e ls s)
      | LEDON \<Rightarrow> (q, leds_on e ls s)
      | LEDBLINK \<Rightarrow> (q, leds_blink e ls s)))"

definition leds_proc :: "env \<Rightarrow> string option list \<Rightarrow> ledq \<times> os \<Rightarrow> ledq \<times> os" where
  "leds_proc e ls st = fold (leds_step e ls) [PHIGH, PMED, PLOW] st"

section \<open>The error log\<close>

definition check_syserrlog :: "ledq \<times> os \<Rightarrow> int \<times> ledq \<times> os" where
  "check_syserrlog = (\<lambda>(q, s).
     (case files s syserrorfn of
        None \<Rightarrow>
          (0, if leds_state q = 1 then leds_set PLOW LEDOFF (q\<lparr>leds_state := 0\<rparr>) else q, s)
      | Some c \<Rightarrow>
          if length c \<noteq> 0 then
            (1, if leds_state q = 0 then leds_set PLOW LEDON (q\<lparr>leds_state := 1\<rparr>) else q, s)
          else
            (0, if leds_state q = 1 then leds_set PLOW LEDOFF (q\<lparr>leds_state := 0\<rparr>) else q, s)))"

section \<open>The RAID state\<close>

text \<open>
  The locals of \<open>md_stat\<close>, which a failing read leaves as they are, and with them the daemon's state. The arrays
  \<open>state\<close> and \<open>level\<close> have 16 bytes while 64 may be read into them; the kernel's words are shorter.
\<close>

record mdvars =
  mstate :: string
  mlevel :: string
  cdegraded :: int
  mq :: ledq
  mo :: os

definition md_path :: "nat \<Rightarrow> string \<Rightarrow> string" where
  "md_path d a = ''/sys/block/md'' @ dec d @ ''/md/'' @ a"

definition set_degraded :: "nat \<Rightarrow> int \<Rightarrow> ledq \<Rightarrow> ledq" where
  "set_degraded d v q = q\<lparr>degraded := (degraded q)[d := v]\<rparr>"

definition reread :: "string \<Rightarrow> string \<Rightarrow> os \<Rightarrow> string" where
  "reread old f s = (case read_str_from_file f 64 s of None \<Rightarrow> old | Some c \<Rightarrow> c)"

definition md_degraded :: "env \<Rightarrow> nat \<Rightarrow> mdvars \<Rightarrow> mdvars" where
  "md_degraded e d m =
     (if files (mo m) (md_path d ''degraded'') = None then m
      else
        (let c = snd (read_int_from_file (md_path d ''degraded'') (cdegraded m) (mo m));
             m = m\<lparr>cdegraded := c\<rparr>
         in if c = 0 then m\<lparr>mq := set_degraded d 0 (mq m)\<rparr>
            else if degraded (mq m) ! d = 0 then
              m\<lparr>mq := leds_set PHIGH LEDON ((set_degraded d 1 (mq m))\<lparr>last_degraded := 1\<rparr>),
                mo := snd (syserrorlog e (''Your md'' @ dec d @ '' '' @ mlevel m @ '' device is degraded!'') (mo m))\<rparr>
            else m))"

definition md_dev :: "env \<Rightarrow> nat \<Rightarrow> mdvars \<Rightarrow> mdvars" where
  "md_dev e d m =
     (if files (mo m) (''/dev/md'' @ dec d) = None then m
      else
        (let m = m\<lparr>mstate := reread (mstate m) (md_path d ''array_state'') (mo m)\<rparr>
         in if mstate m \<noteq> ''inactive'' then
              (let m = m\<lparr>mlevel := reread (mlevel m) (md_path d ''level'') (mo m)\<rparr>
               in if mlevel m = ''raid1'' \<or> mlevel m = ''raid5'' then md_degraded e d m
                  else m\<lparr>mq := set_degraded d 0 (mq m)\<rparr>)
            else m\<lparr>mq := set_degraded d 0 (mq m)\<rparr>))"

definition md_stat :: "env \<Rightarrow> string \<Rightarrow> string \<Rightarrow> int \<Rightarrow> ledq \<times> os \<Rightarrow> int \<times> ledq \<times> os" where
  "md_stat e junk1 junk2 junk3 = (\<lambda>(q, s).
     (if files s ''/proc/mdstat'' = None then (0, q, s)
      else
        (let m = fold (md_dev e) [0..<9] \<lparr>mstate = junk1, mlevel = junk2, cdegraded = junk3, mq = q, mo = s\<rparr>;
             q = mq m;
             ret = sum_list (take 9 (degraded q))
         in (ret,
             if last_degraded q = 1 \<and> ret = 0 then leds_set PHIGH LEDOFF (q\<lparr>last_degraded := 0\<rparr>) else q,
             mo m))))"

text \<open>What the main loop does every five rounds, after the power check of the disks.\<close>

definition status_leds :: "env \<Rightarrow> string option list \<Rightarrow> string \<Rightarrow> string \<Rightarrow> int \<Rightarrow> ledq \<times> os \<Rightarrow> ledq \<times> os" where
  "status_leds e ls j1 j2 j3 st =
     (let (_, st) = md_stat e j1 j2 j3 st; (_, st) = check_syserrlog st in leds_proc e ls st)"

section \<open>What the LEDs show\<close>

text \<open>On every board the first two LEDs are the left and the right one.\<close>

definition box_leds :: "env \<Rightarrow> string option list \<Rightarrow> bool" where
  "box_leds e ls \<longleftrightarrow> take 2 ls = take 2 led_dirs \<and>
     (\<forall>d \<in> {''/tmp/sys/left_led/'', ''/tmp/sys/right_led/''}. writable e (d @ ''trigger'') \<and> writable e (d @ ''brightness''))"

lemma set_board_leds: "set_board res initial_box = Some b \<Longrightarrow> take 2 (leds b) = take 2 led_dirs"
  by (auto simp: set_board_def initial_box_def no_usb_led_def hot_box_def slow_fan_def usb_led_def split: if_splits)

lemma box_ledsD:
  assumes "box_leds e ls"
  shows "ls ! 0 = Some ''/tmp/sys/left_led/''" "ls ! Suc 0 = Some ''/tmp/sys/right_led/''"
    "writable e ''/tmp/sys/left_led/trigger''" "writable e ''/tmp/sys/left_led/brightness''"
    "writable e ''/tmp/sys/right_led/trigger''" "writable e ''/tmp/sys/right_led/brightness''"
proof -
  have t: "take 2 ls = [Some ''/tmp/sys/left_led/'', Some ''/tmp/sys/right_led/'']"
    using assms by (simp add: box_leds_def led_dirs_def)
  then show "ls ! 0 = Some ''/tmp/sys/left_led/''" "ls ! Suc 0 = Some ''/tmp/sys/right_led/''"
    using nth_take [of 0 2 ls] nth_take [of 1 2 ls] by simp_all
qed (use assms in \<open>simp_all add: box_leds_def\<close>)

text \<open>\<open>led_get\<close> after \<open>led_set\<close>: two writes to the store of settings, read back.\<close>

lemma led_set_puts:
  "ls ! i = Some d \<Longrightarrow> led_set e ls i m s =
     settings.puts (syswrite e) [(d @ ''trigger'', ''none''), (d @ ''brightness'', m)] s"
  by (simp add: led_set_def)

lemma led_get_set:
  assumes "ls ! i = Some d" and "writable e (d @ ''trigger'')" and "writable e (d @ ''brightness'')"
    and "- LONG_MAX \<le> v" and "v \<le> LONG_MAX"
  shows "led_get ls i u m (led_set e ls i (dec_int v) s) = (v, ''none'')"
proof -
  let ?s = "led_set e ls i (dec_int v) s"
  have l: "length (dec_int v) < 64" using dec_int_length [of v] assms(4,5) by (simp add: LONG_MIN_def LONG_MAX_def)
  have b: "read_str_from_file (d @ ''brightness'') 64 ?s = Some (dec_int v)"
    using sysfs.get_puts_last [OF assms(3) l, of "[]" "[(d @ ''trigger'', ''none'')]" s]
    by (simp add: led_set_puts [OF assms(1)] del: sysfs.puts_simps)
  have "read_str_from_file (d @ ''trigger'') 128 ?s = Some ''none''"
    using assms(2) by (simp add: led_set_def assms(1) read_str_from_file_def files_syswrite)
  then show ?thesis
    using b scan_d_dec_int [OF assms(4,5)] by (simp add: led_get_def assms(1) read_int_from_file_def bracketed_def)
qed

definition bright :: "string \<Rightarrow> os \<Rightarrow> string option" where
  "bright d s = read_str_from_file (''/tmp/sys/'' @ d @ ''_led/brightness'') 64 s"

definition both_leds :: "string \<Rightarrow> os \<Rightarrow> bool" where
  "both_leds v s \<longleftrightarrow> bright ''left'' s = Some v \<and> bright ''right'' s = Some v"

lemma leds_on_off:
  assumes "box_leds e ls"
  shows "both_leds ''1'' (leds_on e ls s)" "both_leds ''0'' (leds_off e ls s)"
    "files (leds_on e ls s) syserrorfn = files s syserrorfn" "files (leds_off e ls s) syserrorfn = files s syserrorfn"
  using box_ledsD [OF assms]
  by (simp_all add: both_leds_def bright_def leds_on_def leds_off_def led_set_def read_str_from_file_def
      files_syswrite syserrorfn_def)

section \<open>The invariant of the watches\<close>

definition flags_ok :: "ledq \<Rightarrow> bool" where
  "flags_ok q \<longleftrightarrow> length (leds_pqueue q) = 3 \<and> length (degraded q) = 10 \<and> set (degraded q) \<subseteq> {0, 1} \<and>
     last_degraded q \<in> {0, 1} \<and> leds_state q \<in> {0, 1}"

definition ledq_ok :: "ledq \<Rightarrow> bool" where
  "ledq_ok q \<longleftrightarrow> flags_ok q \<and> (\<forall>i < 3. leds_pqueue q ! i \<noteq> LEDBLINK) \<and> leds_pqueue q ! PMED \<noteq> LEDON \<and>
     (last_degraded q = 1 \<longleftrightarrow> leds_pqueue q ! PHIGH = LEDON) \<and>
     (leds_state q = 1 \<longleftrightarrow> leds_pqueue q ! PLOW = LEDON) \<and>
     (1 \<in> set (take 9 (degraded q)) \<longrightarrow> last_degraded q = 1)"

lemma initial_ledq_ok: "ledq_ok initial_ledq"
  by (simp add: ledq_ok_def flags_ok_def initial_ledq_def priorities less_Suc_eq numeral_3_eq_3)

lemma queue_three: "ledq_ok q \<Longrightarrow> \<exists>a b c. leds_pqueue q = [a, b, c]"
  by (auto simp: ledq_ok_def flags_ok_def numeral_3_eq_3 length_Suc_conv)

lemma all3: "(\<forall>i < 3. P i) \<longleftrightarrow> P 0 \<and> P (Suc 0) \<and> P (2 :: nat)"
  by (auto simp: less_Suc_eq numeral_3_eq_3 numeral_2_eq_2)

lemma leds_set_simps [simp]:
  "degraded (leds_set p m q) = degraded q" "last_degraded (leds_set p m q) = last_degraded q"
  "leds_state (leds_set p m q) = leds_state q" "leds_pqueue (leds_set p m q) = (leds_pqueue q)[p := m]"
  by (simp_all add: leds_set_def)

lemma set_degraded_simps [simp]:
  "degraded (set_degraded d v q) = (degraded q)[d := v]" "last_degraded (set_degraded d v q) = last_degraded q"
  "leds_state (set_degraded d v q) = leds_state q" "leds_pqueue (set_degraded d v q) = leds_pqueue q"
  by (simp_all add: set_degraded_def)

lemma set_degraded_ok:
  assumes "ledq_ok q" and "v = 0 \<or> v = 1 \<and> last_degraded q = 1"
  shows "ledq_ok (set_degraded d v q)"
proof -
  have "set ((degraded q)[d := v]) \<subseteq> {0, 1}"
    using assms set_update_subset_insert [of "degraded q" d v] by (auto simp: ledq_ok_def flags_ok_def)
  moreover have "1 \<in> set (take 9 ((degraded q)[d := v])) \<Longrightarrow> last_degraded q = 1"
    using assms set_update_subset_insert [of "take 9 (degraded q)" d v]
    by (auto simp: ledq_ok_def take_update_swap)
  ultimately show ?thesis using assms by (auto simp: ledq_ok_def flags_ok_def)
qed

lemma raise_high_ok: "ledq_ok q \<Longrightarrow> ledq_ok (leds_set PHIGH LEDON (q\<lparr>last_degraded := 1\<rparr>))"
  using queue_three [of q] by (auto simp: ledq_ok_def flags_ok_def all3 priorities)

lemma md_dev_ok: "ledq_ok (mq m) \<Longrightarrow> ledq_ok (mq (md_dev e d m))"
proof -
  assume ok: "ledq_ok (mq m)"
  have up: "leds_set PHIGH LEDON ((set_degraded d 1 q)\<lparr>last_degraded := 1\<rparr>) =
      set_degraded d 1 (leds_set PHIGH LEDON (q\<lparr>last_degraded := 1\<rparr>))" for q
    by (simp add: leds_set_def set_degraded_def)
  have "ledq_ok (set_degraded d 1 (leds_set PHIGH LEDON (mq m\<lparr>last_degraded := 1\<rparr>)))"
    using set_degraded_ok [OF raise_high_ok [OF ok], of 1 d] by simp
  moreover have "ledq_ok (set_degraded d 0 (mq m))" using set_degraded_ok [OF ok, of 0] by simp
  ultimately show ?thesis using ok by (auto simp: md_dev_def md_degraded_def Let_def up)
qed

lemma md_fold_ok: "ledq_ok (mq m) \<Longrightarrow> ledq_ok (mq (fold (md_dev e) ds m))"
  by (induction ds arbitrary: m) (auto simp: md_dev_ok)

lemma sum_zero_one: "set xs \<subseteq> {0, 1 :: int} \<Longrightarrow> sum_list xs = 0 \<longleftrightarrow> 1 \<notin> set xs"
proof (induction xs)
  case (Cons x xs)
  have "0 \<le> sum_list xs" using Cons.prems by (intro sum_list_nonneg) auto
  then show ?case using Cons by auto
qed simp

lemma md_stat_ok:
  assumes "ledq_ok q" and "md_stat e j1 j2 j3 (q, s) = (r, q', s')"
  shows "ledq_ok q'"
proof -
  define m where "m = fold (md_dev e) [0..<9] \<lparr>mstate = j1, mlevel = j2, cdegraded = j3, mq = q, mo = s\<rparr>"
  have ok: "ledq_ok (mq m)" unfolding m_def by (rule md_fold_ok) (simp add: assms(1))
  then have "set (take 9 (degraded (mq m))) \<subseteq> {0, 1}"
    using set_take_subset [of 9 "degraded (mq m)"] by (auto simp: ledq_ok_def flags_ok_def)
  note z = sum_zero_one [OF this]
  obtain a b c where "leds_pqueue (mq m) = [a, b, c]" using queue_three [OF ok] by blast
  then have "sum_list (take 9 (degraded (mq m))) = 0 \<Longrightarrow>
      ledq_ok (leds_set PHIGH LEDOFF (mq m\<lparr>last_degraded := 0\<rparr>))"
    using ok z by (auto simp: ledq_ok_def flags_ok_def all3 priorities)
  then show ?thesis using assms ok unfolding md_stat_def
    by (auto simp: Let_def m_def [symmetric] split: if_splits)
qed

definition log_full :: "os \<Rightarrow> bool" where
  "log_full s \<longleftrightarrow> (case files s syserrorfn of None \<Rightarrow> False | Some c \<Rightarrow> c \<noteq> [])"

lemma low_request_ok:
  assumes "ledq_ok q"
  shows "ledq_ok (leds_set PLOW LEDON (q\<lparr>leds_state := 1\<rparr>))" "ledq_ok (leds_set PLOW LEDOFF (q\<lparr>leds_state := 0\<rparr>))"
  using queue_three [OF assms] assms by (auto simp: ledq_ok_def flags_ok_def all3 priorities)

lemma check_syserrlog_eq:
  "check_syserrlog (q, s) =
     (if log_full s then (1, if leds_state q = 0 then leds_set PLOW LEDON (q\<lparr>leds_state := 1\<rparr>) else q, s)
      else (0, if leds_state q = 1 then leds_set PLOW LEDOFF (q\<lparr>leds_state := 0\<rparr>) else q, s))"
  by (simp add: check_syserrlog_def log_full_def split: option.split)

lemma check_syserrlog_ok:
  assumes "ledq_ok q" and "check_syserrlog (q, s) = (r, q', s')"
  shows "ledq_ok q' \<and> s' = s \<and> (leds_state q' = 1 \<longleftrightarrow> log_full s) \<and> degraded q' = degraded q \<and>
    last_degraded q' = last_degraded q \<and>
    leds_pqueue q' = (leds_pqueue q)[PLOW := if log_full s then LEDON
      else if leds_state q = 1 then LEDOFF else leds_pqueue q ! PLOW]"
proof -
  have "leds_state q = 0 \<or> leds_state q = 1" using assms(1) by (auto simp: ledq_ok_def flags_ok_def)
  moreover have "leds_state q = 1 \<Longrightarrow> (leds_pqueue q)[PLOW := LEDON] = leds_pqueue q"
    using assms(1) by (metis ledq_ok_def list_update_id)
  ultimately show ?thesis using assms low_request_ok [OF assms(1)]
    by (cases "log_full s") (auto simp: check_syserrlog_eq split: if_splits)
qed

text \<open>\<open>leds_proc\<close>: the last request in the queue is the one the LEDs show.\<close>

fun last_request :: "ledmode list \<Rightarrow> ledmode" where
  "last_request [] = NA"
| "last_request (m # ms) = (if last_request ms = NA then m else last_request ms)"

definition served :: "ledmode \<Rightarrow> ledmode" where
  "served m = (if m = LEDOFF then NA else m)"

definition show_req :: "env \<Rightarrow> string option list \<Rightarrow> ledmode \<Rightarrow> os \<Rightarrow> os" where
  "show_req e ls m s = (case m of NA \<Rightarrow> s | LEDOFF \<Rightarrow> leds_off e ls s | LEDON \<Rightarrow> leds_on e ls s | LEDBLINK \<Rightarrow> leds_blink e ls s)"

lemma leds_step_eq:
  "leds_step e ls i (q, s) =
     (q\<lparr>leds_pqueue := (leds_pqueue q)[i := served (leds_pqueue q ! i)]\<rparr>, show_req e ls (leds_pqueue q ! i) s)"
  by (simp add: leds_step_def show_req_def served_def leds_set_def split: ledmode.split)

lemma leds_proc_eq:
  "leds_pqueue q = [a, b, c] \<Longrightarrow> leds_proc e ls (q, s) =
     (q\<lparr>leds_pqueue := [served a, served b, served c]\<rparr>, show_req e ls c (show_req e ls b (show_req e ls a s)))"
  by (simp add: leds_proc_def leds_step_eq priorities)

lemma show_req_both:
  assumes "box_leds e ls"
  shows "both_leds ''1'' (show_req e ls LEDON s)" "both_leds ''0'' (show_req e ls LEDOFF s)" "show_req e ls NA s = s"
    "m \<noteq> LEDBLINK \<Longrightarrow> log_full (show_req e ls m s) = log_full s"
  using leds_on_off [OF assms] by (auto simp: show_req_def log_full_def split: ledmode.split)

lemma served_ok: "ledq_ok q \<Longrightarrow> leds_pqueue q = [a, b, c] \<Longrightarrow> ledq_ok (q\<lparr>leds_pqueue := [served a, served b, served c]\<rparr>)"
  by (auto simp: ledq_ok_def flags_ok_def all3 priorities served_def)

lemma leds_proc_ok:
  assumes "ledq_ok q" and "box_leds e ls" and "leds_proc e ls (q, s) = (q', s')"
  shows "ledq_ok q' \<and> leds_pqueue q' = map served (leds_pqueue q) \<and>
    degraded q' = degraded q \<and> log_full s' = log_full s \<and>
    (last_request (leds_pqueue q) = LEDON \<longrightarrow> both_leds ''1'' s') \<and>
    (last_request (leds_pqueue q) = LEDOFF \<longrightarrow> both_leds ''0'' s')"
proof -
  obtain a b c where l: "leds_pqueue q = [a, b, c]" using queue_three [OF assms(1)] by blast
  have n: "a \<noteq> LEDBLINK" "b \<noteq> LEDBLINK" "c \<noteq> LEDBLINK"
    using assms(1) by (simp_all add: ledq_ok_def l all3)
  have q': "q' = q\<lparr>leds_pqueue := [served a, served b, served c]\<rparr>"
    and s': "s' = show_req e ls c (show_req e ls b (show_req e ls a s))"
    using assms(3) by (simp_all add: leds_proc_eq [OF l])
  note sh = show_req_both [OF assms(2)]
  have "(last_request [a, b, c] = LEDON \<longrightarrow> both_leds ''1'' s') \<and> (last_request [a, b, c] = LEDOFF \<longrightarrow> both_leds ''0'' s')"
    unfolding s' using n by (cases c; cases b; simp add: sh)
  then show ?thesis using served_ok [OF assms(1) l] n by (simp add: l q' s' sh)
qed

lemma md_stat_flags:
  assumes "ledq_ok q" and "md_stat e j1 j2 j3 (q, s) = (r, q', s')"
  shows "leds_state q' = leds_state q \<and> leds_pqueue q' ! PMED = leds_pqueue q ! PMED \<and>
    leds_pqueue q' ! PLOW = leds_pqueue q ! PLOW"
proof -
  have 1: "leds_state (mq (md_dev e d m)) = leds_state (mq m)" for d m
    by (simp add: md_dev_def md_degraded_def Let_def)
  have 2: "leds_pqueue (mq (md_dev e d m)) ! PMED = leds_pqueue (mq m) ! PMED"
    "leds_pqueue (mq (md_dev e d m)) ! PLOW = leds_pqueue (mq m) ! PLOW" for d m
    by (simp_all add: md_dev_def md_degraded_def Let_def priorities)
  have "leds_state (mq (fold (md_dev e) ds m)) = leds_state (mq m) \<and>
    leds_pqueue (mq (fold (md_dev e) ds m)) ! PMED = leds_pqueue (mq m) ! PMED \<and>
    leds_pqueue (mq (fold (md_dev e) ds m)) ! PLOW = leds_pqueue (mq m) ! PLOW" for ds m
    by (induction ds arbitrary: m) (simp_all add: 1 2)
  then show ?thesis using assms(2) unfolding md_stat_def
    by (auto simp: Let_def priorities split: if_splits)
qed


definition demo_env :: env where
  "demo_env = \<lparr>writable = (\<lambda>_. True), stat_of = (\<lambda>_. Some (0, 493)), script_time = (\<lambda>_. 0), self = 100,
     alive = (\<lambda>_. False), lock_free = (\<lambda>_. True), dev_opens = True, mail_set = True, powermode = (\<lambda>_. None),
     hddtemp = (\<lambda>_. []), execl_ok = (\<lambda>_. True), junk = 0, junk_str = []\<rparr>"

lemma demo_box_leds: "box_leds demo_env led_dirs"
  by (simp add: box_leds_def demo_env_def)

definition raid_os :: os where
  "raid_os = \<lparr>files = [''/proc/mdstat'' \<mapsto> ''x'', syserrorfn \<mapsto> ''<li>disk</li>''], events = [], now = 0, acts = []\<rparr>"


end
