(* ===== verification/SysButton.thy ===== *)
theory SysButton
  imports SysLeds
begin

text \<open>
  The buttons: reading the event device, debouncing, the actions of the front button and of the back buttons. The
  static variables of \<open>button\<close> and \<open>debounce\<close> are the record \<open>kbd\<close>. An operation ends with \<open>Inl\<close> when the
  process is gone, which is what a successful \<open>execl\<close> does.
\<close>

section \<open>The event device\<close>

definition NO_BT :: int where "NO_BT = 0"
definition FRONT_BT :: int where "FRONT_BT = 1"
definition RESET_BT :: int where "RESET_BT = 2"
definition USB_BT :: int where "USB_BT = 3"

lemmas buttons = NO_BT_def FRONT_BT_def RESET_BT_def USB_BT_def

definition EV_KEY :: nat where "EV_KEY = 1"
definition FRONT_EV :: nat where "FRONT_EV = 0x74"
definition RESET_EV :: nat where "RESET_EV = 0x198"
definition USB_EV :: nat where "USB_EV = 0x85"
definition PRESSED :: nat where "PRESSED = 7"

lemmas ev_codes = EV_KEY_def FRONT_EV_def RESET_EV_def USB_EV_def PRESSED_def

record kbd =
  bt :: int
  fd_open :: bool

definition initial_kbd :: kbd where
  "initial_kbd = \<lparr>bt = NO_BT, fd_open = False\<rparr>"

text \<open>One \<open>read\<close>: the next event when its time has come, otherwise \<open>None\<close> for \<open>EAGAIN\<close>.\<close>

definition read_ev :: "os \<Rightarrow> rd option \<times> os" where
  "read_ev s =
     (case events s of
        (t, r) # rest \<Rightarrow> if t \<le> now s then (Some r, s\<lparr>events := rest\<rparr>) else (None, s)
      | [] \<Rightarrow> (None, s))"

lemma read_ev_length:
  "read_ev s = (Some r, s') \<Longrightarrow> length (events s') < length (events s)"
  "read_ev s = (None, s') \<Longrightarrow> s' = s"
  by (auto simp: read_ev_def split: list.splits if_splits)

text \<open>The loop that reads the synchronisation event behind a key event.\<close>

function skip_sync :: "os \<Rightarrow> os" where
  "skip_sync s = (case read_ev (tick 10 s) of (Some Eof, s') \<Rightarrow> skip_sync s' | (_, s') \<Rightarrow> s')"
  by pat_completeness auto

termination
proof (relation "measure (\<lambda>s. length (events s))", goal_cases)
  case (2 s r s' x)
  then show ?case using read_ev_length(1) [of "tick 10 s" x s'] by (metis in_measure tick_simps(2))
qed simp

declare skip_sync.simps [simp del]

definition key_button :: "nat \<Rightarrow> int \<Rightarrow> int" where
  "key_button c v =
     (if c = FRONT_EV then FRONT_BT OR push_bit PRESSED v
      else if c = RESET_EV then RESET_BT OR push_bit PRESSED v
      else if c = USB_EV then USB_BT OR push_bit PRESSED v
      else NO_BT)"

text \<open>\<open>button\<close>, once the device is open.\<close>

definition button_read :: "os \<Rightarrow> int \<times> os" where
  "button_read s =
     (case read_ev s of
        (Some (Ev ty c v), s') \<Rightarrow> if ty = EV_KEY then (key_button c v, skip_sync s') else (NO_BT, s')
      | (Some Err, s') \<Rightarrow> (-1, s')
      | (_, s') \<Rightarrow> (NO_BT, s'))"

definition button :: "env \<Rightarrow> kbd \<times> os \<Rightarrow> int \<times> kbd \<times> os" where
  "button e = (\<lambda>(k, s).
     if \<not> fd_open k \<and> \<not> dev_opens e then (-1, k, s)
     else (case button_read s of (b, s') \<Rightarrow> (b, k\<lparr>fd_open := True\<rparr>, s')))"

section \<open>Shutting down\<close>

definition execl :: "env \<Rightarrow> string \<Rightarrow> (os, int, unit) op" where
  "execl e p s = (if execl_ok e p then (Inl 0, act (Execl p) s) else (Inr (), s))"

definition reboot :: "env \<Rightarrow> args_t \<Rightarrow> (os, int, unit) op" where
  "reboot e a s = execl e ''/sbin/reboot'' (exec_userscript e (front_button_command1 a) 5 None s)"

definition poweroff :: "env \<Rightarrow> args_t \<Rightarrow> (os, int, unit) op" where
  "poweroff e a s = execl e ''/usr/sbin/poweroff'' (exec_userscript e (front_button_command2 a) 5 None s)"

section \<open>Debouncing\<close>

text \<open>
  The loop of \<open>debounce\<close>: \<open>n\<close> is the counter before its test, set back to 50 by every event. The device is open
  here, or the first call of \<open>button\<close> had sent the caller back.
\<close>

lemma skip_sync_length: "length (events (skip_sync s)) \<le> length (events s)"
proof (induction s rule: skip_sync.induct)
  case (1 s)
  obtain r s' where r: "read_ev (tick 10 s) = (r, s')" by (cases "read_ev (tick 10 s)")
  have "length (events s') \<le> length (events s)"
    using r read_ev_length [of "tick 10 s"] by (cases r) fastforce+
  then show ?case using 1 [OF r [symmetric]] by (subst skip_sync.simps) (auto simp: r split: option.split rd.split)
qed

lemma button_read_length:
  "button_read s = (b, s') \<Longrightarrow> length (events s') \<le> length (events s) \<and> (b \<noteq> 0 \<longrightarrow> length (events s') < length (events s))"
proof -
  assume b: "button_read s = (b, s')"
  obtain r t where r: "read_ev s = (r, t)" by (cases "read_ev s")
  show ?thesis
  proof (cases r)
    case None
    then show ?thesis using b read_ev_length(2) [of s t] r by (simp add: button_read_def NO_BT_def)
  next
    case (Some x)
    then have "length (events t) < length (events s)" using read_ev_length(1) [of s x t] r by simp
    then show ?thesis using b r Some skip_sync_length [of t]
      by (auto simp: button_read_def NO_BT_def split: rd.splits if_splits)
  qed
qed

function bounce :: "nat \<Rightarrow> int \<Rightarrow> os \<Rightarrow> int \<times> os" where
  "bounce n b s =
     (if n = 0 then (b, s)
      else (case button_read s of
              (t, s') \<Rightarrow> if t \<noteq> 0 then bounce 50 t (tick 1000 s') else bounce (n - 1) b (tick 1000 s')))"
  by pat_completeness auto

termination
  by (relation "measures [\<lambda>(n, b, s). length (events s), \<lambda>(n, b, s). n]")
    (use button_read_length in \<open>force simp: eq_commute [of _ "button_read _"] le_less\<close>)+

declare bounce.simps [simp del]

definition poweroff_board :: "Board \<Rightarrow> bool" where
  "poweroff_board b \<longleftrightarrow> b = DNS_320L_Ax \<or> b = DNS_320_Bx \<or> b = DNS_327L_Ax"

definition lift_os :: "(os, 'e, 'a) op \<Rightarrow> (kbd \<times> os, 'e, 'a) op" where
  "lift_os f = (\<lambda>(k, s). case f s of (r, s') \<Rightarrow> (r, (k, s')))"

text \<open>The power button of the boards with the micro-controller is a file: 0 while it is pressed.\<close>

definition power_button :: "env \<Rightarrow> Board \<Rightarrow> args_t \<Rightarrow> (os, int, unit) op" where
  "power_button e bd a s =
     (if poweroff_board bd \<and> read_int_from_file ''/tmp/sys/power_button'' (junk e) s = (0, 0)
      then poweroff e a s else (Inr (), s))"

text \<open>The rest of \<open>debounce\<close>: \<open>-1\<close> or nothing new returns the last button.\<close>

definition settle :: "int \<Rightarrow> int" where
  "settle b = (if b AND push_bit PRESSED 1 \<noteq> 0 then b AND NOT (push_bit PRESSED 1) else NO_BT)"

definition debounce_keys :: "env \<Rightarrow> (kbd \<times> os, int, int) op" where
  "debounce_keys e st =
     (case button e st of
        (tbt, k, s) \<Rightarrow>
          if tbt = -1 \<or> tbt = 0 then (Inr (bt k), (k, s))
          else (case bounce 50 tbt s of (b, s') \<Rightarrow> (Inr (settle b), (k\<lparr>bt := settle b\<rparr>, s'))))"

definition debounce :: "env \<Rightarrow> Board \<Rightarrow> args_t \<Rightarrow> (kbd \<times> os, int, int) op" where
  "debounce e bd a = bindE (lift_os (power_button e bd a)) (\<lambda>_. debounce_keys e)"

section \<open>The back buttons\<close>

text \<open>The loop waits as long as a back button is held; \<open>None\<close> is a button that is never released.\<close>

partial_function (option) back_loop ::
  "env \<Rightarrow> Board \<Rightarrow> args_t \<Rightarrow> kbd \<times> os \<Rightarrow> ((int + unit) \<times> kbd \<times> os) option" where
  "back_loop e bd a st =
     (case debounce e bd a st of
        (Inl x, st') \<Rightarrow> Some (Inl x, st')
      | (Inr b, k, s) \<Rightarrow>
          if b = RESET_BT \<or> b = USB_BT then back_loop e bd a (k, tick 200000 s)
          else Some (Inr (), k, tick 200000 s))"

definition back_action :: "env \<Rightarrow> args_t \<Rightarrow> nat \<Rightarrow> os \<Rightarrow> os" where
  "back_action e a count s =
     (if recovery a \<noteq> 0 \<and> 20 < count then exec_userscript e (Some ''/usr/sbin/recover'') 5 (Some ''f'') s
      else if recovery a \<noteq> 0 \<and> 10 < count then exec_userscript e (Some ''/usr/sbin/recover'') 5 (Some ''t'') s
      else if back_button_command a \<noteq> None then exec_userscript e (back_button_command a) 5 None s
      else exec_userscript e (Some ''/usr/bin/eject'') 5 (Some ''usb'') s)"

definition back_button ::
  "env \<Rightarrow> box \<Rightarrow> kbd \<times> os \<Rightarrow> ((int + unit) \<times> kbd \<times> os) option" where
  "back_button e b = (\<lambda>(k, s).
     (case back_loop e (board b) (args b) (k, leds_blink e (leds b) s) of
        None \<Rightarrow> None
      | Some (Inl x, st) \<Rightarrow> Some (Inl x, st)
      | Some (Inr _, k', s') \<Rightarrow>
          Some (Inr (), k', leds_off e (leds b) (back_action e (args b) (seconds s' - seconds s) s'))))"

section \<open>How long debouncing takes\<close>

lemma read_ev_now: "read_ev s = (r, s') \<Longrightarrow> now s' = now s \<and> files s' = files s \<and> acts s' = acts s"
  by (auto simp: read_ev_def split: list.splits if_splits)

lemma skip_sync_time:
  "now s \<le> now (skip_sync s) \<and>
   now (skip_sync s) + 10 * length (events (skip_sync s)) \<le> now s + 10 + 10 * length (events s)"
proof (induction s rule: skip_sync.induct)
  case (1 s)
  obtain r s' where r: "read_ev (tick 10 s) = (r, s')" by (cases "read_ev (tick 10 s)")
  have n: "now s' = now s + 10" using read_ev_now [OF r] by simp
  have l: "r = Some x \<Longrightarrow> length (events s') < length (events s)" for x
    using r read_ev_length(1) [of "tick 10 s" x s'] by simp
  have l': "length (events s') \<le> length (events s)"
    using r l read_ev_length(2) [of "tick 10 s" s'] by (cases r) (fastforce simp: less_imp_le)+
  show ?case
  proof (cases "r = Some Eof")
    case True
    then have "skip_sync s = skip_sync s'" by (subst skip_sync.simps) (simp add: r)
    then show ?thesis using 1 [OF r [symmetric], of Eof] True n l [OF True] by auto
  next
    case False
    then have "skip_sync s = s'" by (subst skip_sync.simps) (auto simp: r split: option.split rd.split)
    then show ?thesis using n l' by auto
  qed
qed

lemma button_read_time:
  assumes "button_read s = (b, s')"
  shows "now s \<le> now s' \<and> now s' + 10 * length (events s') \<le> now s + 10 * length (events s)"
proof -
  obtain r t where r: "read_ev s = (r, t)" by (cases "read_ev s")
  have n: "now t = now s" using read_ev_now [OF r] by simp
  show ?thesis
  proof (cases r)
    case None
    then show ?thesis using assms read_ev_length(2) [of s t] r by (simp add: button_read_def)
  next
    case (Some x)
    then have l: "length (events t) < length (events s)" using read_ev_length(1) [of s x t] r by simp
    show ?thesis using assms r Some skip_sync_time [of t] n l
      by (auto simp: button_read_def split: rd.splits if_splits)
  qed
qed

lemma bounce_time:
  "bounce n b s = (b', s') \<Longrightarrow> n \<le> 50 \<Longrightarrow> now s \<le> now s' \<and>
     now s' + 50100 * length (events s') \<le> now s + 1000 * n + 50100 * length (events s)"
proof (induction n b s rule: bounce.induct)
  case (1 n b s)
  show ?case
  proof (cases "n = 0")
    case True
    then show ?thesis using 1(3) by (simp add: bounce.simps)
  next
    case False
    obtain t u where u: "button_read s = (t, u)" by (cases "button_read s")
    note tm = button_read_time [OF u] and ln = button_read_length [OF u]
    show ?thesis
    proof (cases "t = 0")
      case True
      then have "bounce (n - 1) b (tick 1000 u) = (b', s')"
        using 1(3) False by (subst (asm) bounce.simps) (simp add: u)
      moreover have "n - 1 \<le> 50" using 1(4) by simp
      ultimately have ih: "now (tick 1000 u) \<le> now s'"
          "now s' + 50100 * length (events s') \<le> now (tick 1000 u) + 1000 * (n - 1) + 50100 * length (events (tick 1000 u))"
        using 1(2) [OF False u [symmetric]] True by blast+
      have "1000 * (n - 1) + 1000 = 1000 * n" using False by (cases n) simp_all
      then show ?thesis using ih tm ln by (simp only: tick_simps) linarith
    next
      case nz: False
      then have "bounce 50 t (tick 1000 u) = (b', s')"
        using 1(3) False by (subst (asm) bounce.simps) (simp add: u)
      then have ih: "now (tick 1000 u) \<le> now s'"
          "now s' + 50100 * length (events s') \<le> now (tick 1000 u) + 1000 * 50 + 50100 * length (events (tick 1000 u))"
        using 1(1) [OF False u [symmetric]] nz by blast+
      have "length (events u) < length (events s)" using ln nz by blast
      moreover have "1000 \<le> 1000 * n" using False by simp
      ultimately show ?thesis using ih tm by (simp only: tick_simps) linarith
    qed
  qed
qed

text \<open>C25. Debouncing always comes back: besides the 50 milliseconds of the last quiet period, each event in the queue
  costs at most another 50.1 milliseconds, and the clock never runs backwards.\<close>

theorem debounce_returns:
  assumes "debounce_keys e (k, s) = (r, k', s')"
  shows "(\<exists>b. r = Inr b) \<and> now s \<le> now s' \<and>
    now s' + 50100 * length (events s') \<le> now s + 50000 + 50100 * length (events s)"
proof -
  obtain t k1 s1 where b: "button e (k, s) = (t, k1, s1)" by (cases "button e (k, s)")
  have 1: "now s \<le> now s1 \<and> now s1 + 10 * length (events s1) \<le> now s + 10 * length (events s) \<and>
      length (events s1) \<le> length (events s)"
    using b button_read_time [of s] button_read_length [of s]
    by (auto simp: button_def split: if_splits prod.splits)
  show ?thesis
  proof (cases "t = -1 \<or> t = 0")
    case True
    then show ?thesis using assms b 1 by (auto simp: debounce_keys_def)
  next
    case False
    obtain b' s2 where 2: "bounce 50 t s1 = (b', s2)" by (cases "bounce 50 t s1")
    with False show ?thesis using assms b 1 bounce_time [OF 2] by (auto simp: debounce_keys_def)
  qed
qed

lemma debounce_returns_witness:
  "\<exists>r k' s'. debounce_keys demo_env (initial_kbd, raid_os) = (r, k', s') \<and> now s' \<le> 50000"
proof -
  obtain r k' s' where d: "debounce_keys demo_env (initial_kbd, raid_os) = (r, k', s')"
    by (cases "debounce_keys demo_env (initial_kbd, raid_os)") auto
  with debounce_returns [OF d] show ?thesis by (auto simp: raid_os_def)
qed

section \<open>A key press with its bounces\<close>

text \<open>The kernel reports a key with its value and a synchronisation event behind it.\<close>

definition key :: "nat \<times> nat \<times> int \<Rightarrow> (nat \<times> rd) list" where
  "key = (\<lambda>(t, c, v). [(t, Ev EV_KEY c v), (t, Ev 0 0 0)])"

definition key_code :: "nat \<Rightarrow> bool" where
  "key_code c \<longleftrightarrow> c = FRONT_EV \<or> c = RESET_EV \<or> c = USB_EV"

definition button_of :: "nat \<Rightarrow> int" where
  "button_of c = (if c = FRONT_EV then FRONT_BT else if c = RESET_EV then RESET_BT else USB_BT)"

lemma settle_key:
  assumes "key_code c"
  shows "settle (key_button c 1) = button_of c" "settle (key_button c 0) = NO_BT"
    "key_button c 1 \<noteq> 0" "key_button c 0 \<noteq> 0" "key_button c 1 \<noteq> - 1" "key_button c 0 \<noteq> - 1"
  using assms by (auto simp: key_code_def key_button_def settle_def button_of_def ev_codes buttons)

lemma button_read_key:
  assumes "events s = key (t, c, v) @ r" and "t \<le> now s"
  shows "button_read s = (key_button c v, s\<lparr>events := r, now := now s + 10\<rparr>)"
proof -
  have "skip_sync (s\<lparr>events := (t, Ev 0 0 0) # r\<rparr>) = s\<lparr>events := r, now := now s + 10\<rparr>"
    using assms(2) by (subst skip_sync.simps) (simp add: read_ev_def tick_def)
  then show ?thesis using assms by (simp add: button_read_def read_ev_def key_def)
qed

text \<open>Nothing becomes readable within the next \<open>d\<close> microseconds.\<close>

definition quiet :: "nat \<Rightarrow> os \<Rightarrow> bool" where
  "quiet d s \<longleftrightarrow> (case events s of [] \<Rightarrow> True | (t, _) # _ \<Rightarrow> now s + d < t)"

lemma button_read_quiet: "quiet d s \<Longrightarrow> button_read s = (0, s)"
  by (auto simp: quiet_def button_read_def read_ev_def NO_BT_def split: list.splits)

lemma bounce_quiet: "quiet (1000 * n) s \<Longrightarrow> bounce n b s = (b, tick (1000 * n) s)"
proof (induction n arbitrary: s)
  case 0
  then show ?case by (simp add: bounce.simps tick_def)
next
  case (Suc n)
  then have "quiet (1000 * n) (tick 1000 s)" by (auto simp: quiet_def split: list.splits)
  then have "bounce n b (tick 1000 s) = (b, tick (1000 * n) (tick 1000 s))" by (rule Suc.IH)
  moreover have "tick (1000 * n) (tick 1000 s) = tick (1000 * Suc n) s" by (simp add: tick_def)
  ultimately show ?case
    using button_read_quiet [OF Suc.prems] by (subst bounce.simps) (simp del: mult_Suc_right)
qed

text \<open>An event that arrives while the loop counts down is picked up by one of its polls.\<close>

lemma bounce_event:
  assumes "events s = key (t, c, v) @ r" and "t + 1000 \<le> now s + 1000 * n" and "0 < n" and "key_button c v \<noteq> 0"
  shows "\<exists>d. bounce n b s = bounce 50 (key_button c v) (s\<lparr>events := r, now := d\<rparr>) \<and>
    now s \<le> d \<and> t \<le> d \<and> d \<le> max (now s) (t + 999) + 1010"
  using assms
proof (induction n arbitrary: s)
  case (Suc n)
  show ?case
  proof (cases "t \<le> now s")
    case True
    have "bounce (Suc n) b s = bounce 50 (key_button c v) (tick 1000 (s\<lparr>events := r, now := now s + 10\<rparr>))"
      using button_read_key [OF Suc.prems(1) True] Suc.prems(4) by (subst bounce.simps) simp
    then show ?thesis using True by (intro exI [of _ "now s + 1010"]) (simp add: tick_def add.commute)
  next
    case False
    then have q: "quiet 0 s" by (simp add: quiet_def Suc.prems(1) key_def)
    have n: "0 < n" using False Suc.prems(2) by (cases n) auto
    have "events (tick 1000 s) = key (t, c, v) @ r" "t + 1000 \<le> now (tick 1000 s) + 1000 * n"
      using Suc.prems by simp_all
    from Suc.IH [OF this n Suc.prems(4)] obtain d where
      d: "bounce n b (tick 1000 s) = bounce 50 (key_button c v) (tick 1000 s\<lparr>events := r, now := d\<rparr>)"
        "now (tick 1000 s) \<le> d" "t \<le> d" "d \<le> max (now (tick 1000 s)) (t + 999) + 1010" by blast
    have "bounce (Suc n) b s = bounce n b (tick 1000 s)"
      using button_read_quiet [OF q] by (subst bounce.simps) simp
    moreover have "tick 1000 s\<lparr>events := r, now := d\<rparr> = s\<lparr>events := r, now := d\<rparr>" by (simp add: tick_def)
    ultimately show ?thesis using d False by (intro exI [of _ d]) auto
  qed
qed simp

text \<open>
  A burst: the events of one key after another, each at most 45 milliseconds behind the one before it, all of them
  by the time \<open>T\<close>.
\<close>

fun burst :: "nat \<Rightarrow> (nat \<times> nat \<times> int) list \<Rightarrow> bool" where
  "burst t0 [] = True"
| "burst t0 ((t, c, v) # ks) = (t \<le> t0 + 45000 \<and> key_code c \<and> (v = 0 \<or> v = 1) \<and> burst t ks)"

lemma key_nonzero: "key_code c \<Longrightarrow> v = 0 \<or> v = 1 \<Longrightarrow> key_button c v \<noteq> 0 \<and> key_button c v \<noteq> - 1"
  using settle_key [of c] by auto

fun last_key :: "int \<Rightarrow> (nat \<times> nat \<times> int) list \<Rightarrow> int" where
  "last_key b [] = b"
| "last_key b ((t, c, v) # ks) = last_key (key_button c v) ks"

lemma bounce_burst:
  assumes "burst t0 ks" and "t0 \<le> now s" and "events s = concat (map key ks) @ r"
    and "\<forall>(t, c, v) \<in> set ks. t \<le> T" and "now s \<le> T + 2009 * m"
    and "r = [] \<or> T + 2009 * (m + length ks) + 50000 < fst (r ! 0)"
  shows "\<exists>d. bounce 50 b s = (last_key b ks, s\<lparr>events := r, now := d\<rparr>) \<and>
    now s \<le> d \<and> d \<le> T + 2009 * (m + length ks) + 50000 \<and> (\<forall>(t, c, v) \<in> set ks. t \<le> d)"
  using assms
proof (induction ks arbitrary: t0 b s m)
  case Nil
  have "quiet (1000 * 50) s"
    using Nil.prems(3,5,6) by (cases r) (auto simp: quiet_def)
  then have "bounce 50 b s = (b, tick (1000 * 50) s)" by (rule bounce_quiet)
  moreover have "tick (1000 * 50) s = s\<lparr>events := r, now := now s + 50000\<rparr>"
    using Nil.prems(3) by (cases s) (simp add: tick_def)
  ultimately show ?case using Nil.prems(5) by (intro exI [of _ "now s + 50000"]) simp
next
  case (Cons a ks)
  obtain t c v where a: "a = (t, c, v)" by (cases a) auto
  have t: "t \<le> t0 + 45000" "key_code c" "v = 0 \<or> v = 1" "burst t ks" using Cons.prems(1) by (simp_all add: a)
  have ev: "events s = key (t, c, v) @ (concat (map key ks) @ r)" using Cons.prems(3) by (simp add: a)
  have "t + 1000 \<le> now s + 1000 * 50" using t(1) Cons.prems(2) by simp
  from bounce_event [OF ev this _ conjunct1 [OF key_nonzero [OF t(2,3)]]] obtain d where
    d: "bounce 50 b s = bounce 50 (key_button c v) (s\<lparr>events := concat (map key ks) @ r, now := d\<rparr>)"
      "now s \<le> d" "t \<le> d" "d \<le> max (now s) (t + 999) + 1010" by auto
  let ?s = "s\<lparr>events := concat (map key ks) @ r, now := d\<rparr>"
  have "t \<le> T" using Cons.prems(4) by (simp add: a)
  then have "now ?s \<le> T + 2009 * Suc m" using d(4) Cons.prems(5) by simp
  then have "\<exists>d'. bounce 50 (key_button c v) ?s = (last_key (key_button c v) ks, ?s\<lparr>events := r, now := d'\<rparr>) \<and>
      now ?s \<le> d' \<and> d' \<le> T + 2009 * (Suc m + length ks) + 50000 \<and> (\<forall>(t, c, v) \<in> set ks. t \<le> d')"
    using Cons.prems(4,6) d(3) t(4) by (intro Cons.IH) (auto simp: a)
  then show ?case using d by (auto simp: a intro: order_trans)
qed

lemma debounce_burst:
  assumes "fd_open k \<or> dev_opens e" and "t1 \<le> now s" and "key_code c1" and "v1 = 0 \<or> v1 = 1" and "burst t1 ks"
    and "events s = concat (map key ((t1, c1, v1) # ks)) @ r"
    and "\<forall>(t, c, v) \<in> set ks. t \<le> T" and "now s + 10 \<le> T"
    and "r = [] \<or> T + 2009 * length ks + 50000 < fst (r ! 0)"
  shows "\<exists>d. debounce_keys e (k, s) =
      (Inr (settle (last_key (key_button c1 v1) ks)),
       (k\<lparr>fd_open := True, bt := settle (last_key (key_button c1 v1) ks)\<rparr>, s\<lparr>events := r, now := d\<rparr>)) \<and>
    now s \<le> d \<and> d \<le> T + 2009 * length ks + 50000 \<and> (\<forall>(t, c, v) \<in> set ks. t \<le> d)"
proof -
  let ?s = "s\<lparr>events := concat (map key ks) @ r, now := now s + 10\<rparr>"
  have "events s = key (t1, c1, v1) @ (concat (map key ks) @ r)" using assms(6) by simp
  note b = button_read_key [OF this assms(2)]
  have "\<exists>d. bounce 50 (key_button c1 v1) ?s = (last_key (key_button c1 v1) ks, ?s\<lparr>events := r, now := d\<rparr>) \<and>
      now ?s \<le> d \<and> d \<le> T + 2009 * (0 + length ks) + 50000 \<and> (\<forall>(t, c, v) \<in> set ks. t \<le> d)"
    using assms(2,5-9) by (intro bounce_burst) auto
  then obtain d where d: "bounce 50 (key_button c1 v1) ?s = (last_key (key_button c1 v1) ks, s\<lparr>events := r, now := d\<rparr>)"
      "now s + 10 \<le> d" "d \<le> T + 2009 * length ks + 50000" "\<forall>(t, c, v) \<in> set ks. t \<le> d" by auto
  have "debounce_keys e (k, s) =
      (Inr (settle (last_key (key_button c1 v1) ks)),
       (k\<lparr>fd_open := True, bt := settle (last_key (key_button c1 v1) ks)\<rparr>, s\<lparr>events := r, now := d\<rparr>))"
    using assms(1) key_nonzero [OF assms(3,4)] by (auto simp: debounce_keys_def button_def b d(1))
  then show ?thesis using d by (intro exI [of _ d]) simp
qed

lemma last_key_settle:
  assumes "ks \<noteq> []" and "burst t0 ks" and "last ks = (t, c, v)"
  shows "settle (last_key b ks) = (if v = 1 then button_of c else NO_BT)"
  using assms
proof (induction ks arbitrary: t0 b)
  case (Cons a ks)
  obtain t' c' v' where a: "a = (t', c', v')" by (cases a) auto
  show ?case
  proof (cases "ks = []")
    case True
    then show ?thesis using Cons.prems settle_key [of c] by (auto simp: a)
  next
    case False
    then show ?thesis using Cons.IH [of t' "key_button c' v'"] Cons.prems by (simp add: a)
  qed
qed simp

text \<open>C24. However a key bounces, \<open>debounce\<close> reports the state it settles in: for a burst of press and release events
  with gaps of at most 45 milliseconds and quiet behind it, the result is the button when the last event is a
  press and no button when it is a release, and the whole burst has been consumed.\<close>

theorem debounce_settles:
  assumes "fd_open k \<or> dev_opens e" and "ks \<noteq> []" and "fst (ks ! 0) \<le> now s" and "burst (fst (ks ! 0)) ks"
    and "events s = concat (map key ks) @ r" and "\<forall>x \<in> set ks. fst x \<le> T" and "now s + 10 \<le> T"
    and "r = [] \<or> T + 2009 * length ks + 50000 < fst (r ! 0)" and "last ks = (t, c, v)"
  shows "\<exists>k' s'. debounce_keys e (k, s) = (Inr (if v = 1 then button_of c else NO_BT), (k', s')) \<and>
    bt k' = (if v = 1 then button_of c else NO_BT) \<and> fd_open k' \<and> events s' = r \<and> acts s' = acts s"
proof -
  obtain t1 c1 v1 ks' where ks: "ks = (t1, c1, v1) # ks'"
    using assms(2) by (cases ks) auto
  have b: "burst t1 ks'" "key_code c1" "v1 = 0 \<or> v1 = 1" using assms(4) by (simp_all add: ks)
  have T: "\<forall>(t, c, v) \<in> set ks'. t \<le> T" using assms(6) by (auto simp: ks)
  have t1: "t1 \<le> now s" using assms(3) by (simp add: ks)
  have ev: "events s = concat (map key ((t1, c1, v1) # ks')) @ r" using assms(5) by (simp add: ks)
  have r: "r = [] \<or> T + 2009 * length ks' + 50000 < fst (r ! 0)" using assms(8) by (auto simp: ks)
  have "settle (last_key (key_button c1 v1) ks') = (if v = 1 then button_of c else NO_BT)"
    using last_key_settle [OF assms(2,4,9), of 0] by (simp add: ks)
  then show ?thesis using debounce_burst [OF assms(1) t1 b(2,3,1) ev T assms(7) r]
    by (elim exE conjE) simp
qed

definition bounce_os :: os where
  "bounce_os = \<lparr>files = Map.empty,
     events = concat (map key [(100, FRONT_EV, 1), (9000, FRONT_EV, 0), (14000, FRONT_EV, 1)]), now = 1000, acts = []\<rparr>"

lemma debounce_settles_witness:
  "\<exists>k' s'. debounce_keys demo_env (initial_kbd, bounce_os) = (Inr FRONT_BT, (k', s')) \<and> bt k' = FRONT_BT \<and> events s' = []"
proof -
  let ?ks = "[(100, FRONT_EV, 1), (9000, FRONT_EV, 0), (14000, FRONT_EV, 1)] :: (nat \<times> nat \<times> int) list"
  have "\<exists>k' s'. debounce_keys demo_env (initial_kbd, bounce_os) =
      (Inr (if (1 :: int) = 1 then button_of FRONT_EV else NO_BT), (k', s')) \<and>
    bt k' = (if (1 :: int) = 1 then button_of FRONT_EV else NO_BT) \<and> fd_open k' \<and> events s' = [] \<and>
    acts s' = acts bounce_os"
    by (rule debounce_settles [where ks = ?ks and T = 14000 and t = 14000])
      (simp_all add: bounce_os_def demo_env_def key_code_def)
  then show ?thesis by (auto simp: button_of_def)
qed

section \<open>Read errors\<close>

text \<open>A read error inside the window of \<open>debounce\<close> is stored as if it were a button: -1 has the pressed bit set, so
  the call returns -129, and goes on returning it as long as no new event comes.\<close>

theorem debounce_read_error:
  assumes "fd_open k" and "key_code c" and "v = 0 \<or> v = 1" and "t \<le> now s" and "events s = key (t, c, v) @ [(t, Err)]"
  shows "\<exists>s'. debounce_keys e (k, s) = (Inr (-129), (k\<lparr>bt := -129\<rparr>, s')) \<and> events s' = [] \<and>
    debounce_keys e (k\<lparr>bt := -129\<rparr>, s') = (Inr (-129), (k\<lparr>bt := -129\<rparr>, s'))"
proof -
  let ?s = "s\<lparr>events := [(t, Err)], now := now s + 10\<rparr>"
  have b: "button_read s = (key_button c v, ?s)" by (rule button_read_key [OF assms(5,4)])
  have "button_read ?s = (-1, ?s\<lparr>events := []\<rparr>)" using assms(4) by (simp add: button_read_def read_ev_def)
  moreover have "bounce 50 (-1) (tick 1000 (?s\<lparr>events := []\<rparr>)) = (-1, tick (1000 * 50) (tick 1000 (?s\<lparr>events := []\<rparr>)))"
    by (rule bounce_quiet) (simp add: quiet_def)
  ultimately have l: "bounce 50 (key_button c v) ?s = (-1, tick (1000 * 50) (tick 1000 (?s\<lparr>events := []\<rparr>)))"
    by (subst bounce.simps) simp
  have k: "k\<lparr>fd_open := True\<rparr> = k" using assms(1) by (cases k) simp
  let ?t = "tick (1000 * 50) (tick 1000 (?s\<lparr>events := []\<rparr>))"
  have "debounce_keys e (k, s) = (Inr (-129), (k\<lparr>bt := -129\<rparr>, ?t))"
    using assms(1) key_nonzero [OF assms(2,3)] k by (simp add: debounce_keys_def button_def b l settle_def PRESSED_def)
  moreover have "button_read ?t = (0, ?t)" by (rule button_read_quiet [of 0]) (simp add: quiet_def)
  then have "debounce_keys e (k\<lparr>bt := -129\<rparr>, ?t) = (Inr (-129), (k\<lparr>bt := -129\<rparr>, ?t))"
    using assms(1) k by (simp add: debounce_keys_def button_def)
  ultimately show ?thesis by (intro exI [of _ ?t]) simp
qed

lemma debounce_read_error_witness:
  "\<exists>s'. debounce_keys demo_env (\<lparr>bt = NO_BT, fd_open = True\<rparr>,
      \<lparr>files = Map.empty, events = [(5, Ev EV_KEY FRONT_EV 1), (5, Ev 0 0 0), (5, Err)], now = 7, acts = []\<rparr>) =
    (Inr (-129), (\<lparr>bt = -129, fd_open = True\<rparr>, s'))"
  using debounce_read_error [of "\<lparr>bt = NO_BT, fd_open = True\<rparr>" FRONT_EV 1 5
      "\<lparr>files = Map.empty, events = [(5, Ev EV_KEY FRONT_EV 1), (5, Ev 0 0 0), (5, Err)], now = 7, acts = []\<rparr>" demo_env]
  by (auto simp: key_code_def key_def)

section \<open>How long the back button is held\<close>

lemma led_set_frame [simp]:
  "events (led_set e ls i m s) = events s" "now (led_set e ls i m s) = now s" "acts (led_set e ls i m s) = acts s"
  by (simp_all add: led_set_def split: option.split)

lemma led_blink_frame [simp]:
  "events (led_blink e ls i m n s) = events s" "now (led_blink e ls i m n s) = now s"
  "acts (led_blink e ls i m n s) = acts s"
  by (simp_all add: led_blink_def split: option.split)

lemma leds_frame [simp]:
  "events (leds_on e ls s) = events s" "now (leds_on e ls s) = now s" "acts (leds_on e ls s) = acts s"
  "events (leds_off e ls s) = events s" "now (leds_off e ls s) = now s" "acts (leds_off e ls s) = acts s"
  "events (leds_blink e ls s) = events s" "now (leds_blink e ls s) = now s" "acts (leds_blink e ls s) = acts s"
  by (simp_all add: leds_on_def leds_off_def leds_blink_def)

lemma debounce_plain:
  "\<not> poweroff_board bd \<Longrightarrow> debounce e bd a (k, s) = debounce_keys e (k, s)"
  by (simp add: debounce_def bindE_def lift_os_def power_button_def)

lemma debounce_idle:
  assumes "fd_open k" and "quiet d s"
  shows "debounce_keys e (k, s) = (Inr (bt k), (k, s))"
proof -
  have "k\<lparr>fd_open := True\<rparr> = k" using assms(1) by (cases k) simp
  then show ?thesis using assms by (simp add: debounce_keys_def button_def button_read_quiet [OF assms(2)])
qed

lemma back_loop_release:
  assumes "\<not> poweroff_board bd" and "fd_open k" and "bt k = RESET_BT \<or> bt k = USB_BT" and "key_code c"
    and "events s = key (t, c, 0) @ r" and "r = [] \<or> max (now s) (t + 200000) + 50010 < fst (r ! 0)"
  shows "\<exists>d. back_loop e bd a (k, s) = Some (Inr (), k\<lparr>bt := NO_BT\<rparr>, s\<lparr>events := r, now := d\<rparr>) \<and>
    max (now s) t + 200000 \<le> d \<and> d \<le> max (now s) (t + 200000) + 250010"
  using assms
proof (induction "t - now s" arbitrary: s rule: less_induct)
  case less
  have kf: "k\<lparr>fd_open := True, bt := b\<rparr> = k\<lparr>bt := b\<rparr>" for b using less.prems(2) by (cases k) simp
  show ?case
  proof (cases "t \<le> now s")
    case True
    let ?ks = "[] :: (nat \<times> nat \<times> int) list"
    have "\<exists>d. debounce_keys e (k, s) =
        (Inr (settle (last_key (key_button c 0) ?ks)),
         (k\<lparr>fd_open := True, bt := settle (last_key (key_button c 0) ?ks)\<rparr>, s\<lparr>events := r, now := d\<rparr>)) \<and>
      now s \<le> d \<and> d \<le> (now s + 10) + 2009 * length ?ks + 50000 \<and> (\<forall>(t, c, v) \<in> set ?ks. t \<le> d)"
      using less.prems True by (intro debounce_burst [where T = "now s + 10" and r = r and ?t1.0 = t]) auto
    then obtain d where d: "debounce_keys e (k, s) = (Inr NO_BT, (k\<lparr>bt := NO_BT\<rparr>, s\<lparr>events := r, now := d\<rparr>))"
      "now s \<le> d" "d \<le> now s + 50010" using settle_key(2) [OF less.prems(4)] kf by auto
    then have "back_loop e bd a (k, s) = Some (Inr (), k\<lparr>bt := NO_BT\<rparr>, s\<lparr>events := r, now := d + 200000\<rparr>)"
      using less.prems(1) by (subst back_loop.simps) (simp add: debounce_plain buttons tick_def)
    then show ?thesis using d True by (intro exI [of _ "d + 200000"]) simp
  next
    case False
    then have q: "quiet 0 s" using less.prems(5) by (simp add: quiet_def key_def)
    let ?s = "tick 200000 s"
    have "t - now ?s < t - now s" using False by simp
    moreover have "events ?s = key (t, c, 0) @ r" using less.prems(5) by simp
    moreover have "r = [] \<or> max (now ?s) (t + 200000) + 50010 < fst (r ! 0)" using less.prems(6) False by auto
    ultimately have "\<exists>d. back_loop e bd a (k, ?s) = Some (Inr (), k\<lparr>bt := NO_BT\<rparr>, ?s\<lparr>events := r, now := d\<rparr>) \<and>
        max (now ?s) t + 200000 \<le> d \<and> d \<le> max (now ?s) (t + 200000) + 250010"
      using less.prems by (intro less.hyps) auto
    then obtain d where d: "back_loop e bd a (k, ?s) = Some (Inr (), k\<lparr>bt := NO_BT\<rparr>, ?s\<lparr>events := r, now := d\<rparr>)"
      "max (now ?s) t + 200000 \<le> d" "d \<le> max (now ?s) (t + 200000) + 250010" by blast
    have l: "back_loop e bd a (k, s) = back_loop e bd a (k, ?s)"
      using less.prems(1,3) debounce_idle [OF less.prems(2) q, of e]
      by (subst back_loop.simps) (auto simp: debounce_plain)
    have "?s\<lparr>events := r, now := d\<rparr> = s\<lparr>events := r, now := d\<rparr>" by (simp add: tick_def)
    then show ?thesis using d l False by (intro exI [of _ d]) simp
  qed
qed

lemma seconds_between:
  fixes a d :: nat
  shows "21000000 + a \<le> d \<Longrightarrow> 20 < d div 1000000 - a div 1000000"
    and "11000000 + a \<le> d \<Longrightarrow> d \<le> a + 20000000 \<Longrightarrow>
      10 < d div 1000000 - a div 1000000 \<and> \<not> 20 < d div 1000000 - a div 1000000"
    and "d \<le> a + 10000000 \<Longrightarrow> \<not> 10 < d div 1000000 - a div 1000000"
proof -
  have s: "(a + n * 1000000) div 1000000 = a div 1000000 + n" for n by simp
  have lo: "a div 1000000 + n \<le> d div 1000000" if "a + n * 1000000 \<le> d" for n
    using div_le_mono [OF that, of 1000000] s [of n] by simp
  have hi: "d div 1000000 \<le> a div 1000000 + n" if "d \<le> a + n * 1000000" for n
    using div_le_mono [OF that, of 1000000] s [of n] by simp
  show "21000000 + a \<le> d \<Longrightarrow> 20 < d div 1000000 - a div 1000000" using lo [of 21] by simp
  show "10 < d div 1000000 - a div 1000000 \<and> \<not> 20 < d div 1000000 - a div 1000000"
    if "11000000 + a \<le> d" "d \<le> a + 20000000"
  proof -
    have "a div 1000000 + 11 \<le> d div 1000000" "d div 1000000 \<le> a div 1000000 + 20"
      using lo [of 11] hi [of 20] that by simp_all
    then show ?thesis by linarith
  qed
  show "d \<le> a + 10000000 \<Longrightarrow> \<not> 10 < d div 1000000 - a div 1000000" using hi [of 10] by simp
qed


definition held_os :: os where
  "held_os = \<lparr>files = Map.empty, events = key (30000000, RESET_EV, 0), now = 0, acts = []\<rparr>"


end
