(* ===== verification/SysFan.thy ===== *)
theory SysFan
  imports SysButton "HOL-Library.Signed_Division"
begin

text \<open>
  Fan control: reading the temperatures under the lock directory, the smoothed temperature, the fan curves of the
  two families of boards, and the warnings. Floating-point values are rounded after every operation as in C; a
  conversion to \<open>int\<close> out of range, the overflow of an \<open>int\<close> difference of two settings and a division by zero are
  undefined there, the last gives the arbitrary value \<open>junk e\<close> here.
\<close>

section \<open>The lock of the temperature file\<close>

definition lock_pid :: string where "lock_pid = ''/var/lock/temp-lock/pid''"

text \<open>The loop over \<open>mkdir\<close>: \<open>i\<close> further attempts, 100 milliseconds apart.\<close>

fun lock_tries :: "env \<Rightarrow> nat \<Rightarrow> os \<Rightarrow> bool \<times> os" where
  "lock_tries e 0 s = (lock_free e (now s), s)"
| "lock_tries e (Suc i) s = (if lock_free e (now s) then (True, s) else lock_tries e i (tick 100000 s))"

text \<open>Whether the holder found in the pid file is another live process.\<close>

definition held_by_other :: "env \<Rightarrow> os \<Rightarrow> bool" where
  "held_by_other e s =
     (case read_int_from_file lock_pid 0 s of (r, u) \<Rightarrow> r = 0 \<and> u \<noteq> self e \<and> alive e u)"

definition dolock :: "env \<Rightarrow> (os, int, unit) op" where
  "dolock e s =
     (case lock_tries e 100 s of
        (got, s1) \<Rightarrow>
          if \<not> got \<and> held_by_other e s1 then
            (Inl 1, snd (syserrorlog e ''owner of /var/lock/temp-lock is alive, can't get lock, exiting.'' s1))
          else (Inr (), s1\<lparr>files := (files s1)(lock_pid \<mapsto> dec_int (self e) @ [CHR 0x0A])\<rparr>))"

definition clearlock :: "os \<Rightarrow> os" where
  "clearlock s = s\<lparr>files := (files s)(lock_pid := None)\<rparr>"

definition sys_temp_input :: string where "sys_temp_input = ''/tmp/sys/temp1_input''"
definition sys_pwm :: string where "sys_pwm = ''/tmp/sys/pwm1''"
definition sys_fan_input :: string where "sys_fan_input = ''/tmp/sys/fan1_input''"

definition read_temp :: "env \<Rightarrow> (os, int, int) op" where
  "read_temp e = bindE (dolock e) (\<lambda>_ s. (Inr (snd (read_int_from_file sys_temp_input 0 s)), clearlock s))"

definition read_fan :: "os \<Rightarrow> int" where
  "read_fan s = snd (read_int_from_file sys_fan_input 0 s)"

definition read_pwm :: "os \<Rightarrow> int" where
  "read_pwm s = snd (read_int_from_file sys_pwm 0 s)"

definition write_pwm :: "env \<Rightarrow> int \<Rightarrow> os \<Rightarrow> os" where
  "write_pwm e u s = snd (write_int_to_file e sys_pwm u s)"

section \<open>The temperature of the disks\<close>

function tokens :: "char \<Rightarrow> string \<Rightarrow> string list" where
  "tokens d s = (case strtok d s of None \<Rightarrow> [] | Some (t, r) \<Rightarrow> t # tokens d r)"
  by pat_completeness auto

termination
  by (relation "measure (\<lambda>(d, s). length s)") (use strtok_rest_length in \<open>auto simp: eq_commute [of "Some _"]\<close>)

declare tokens.simps [simp del]

definition trunc :: "rat \<Rightarrow> int" where
  "trunc x = (if 0 \<le> x then \<lfloor>x\<rfloor> else \<lceil>x\<rceil>)"

text \<open>One entry of the reply against the slots: only disks in the two bays count.\<close>

definition bay_disk :: "string \<Rightarrow> disk \<Rightarrow> bool" where
  "bay_disk d x \<longleftrightarrow> dev x = Some (drop 5 d) \<and> (slot x = Some ''left'' \<or> slot x = Some ''right'')"

fun disk_entries :: "disk list \<Rightarrow> string list \<Rightarrow> int \<Rightarrow> int" where
  "disk_entries ds (d # n # t # u # r) m =
     disk_entries ds r (if list_ex (bay_disk d) ds then max (trunc (flt (scan_float t))) m else m)"
| "disk_entries ds _ m = m"

fun disk_tries :: "env \<Rightarrow> disk list \<Rightarrow> nat \<Rightarrow> int \<Rightarrow> os \<Rightarrow> int \<times> os" where
  "disk_tries e ds 0 m s = (m, s)"
| "disk_tries e ds (Suc k) m s =
     (let s = tick 100000 s; reply = take 512 (hddtemp e (now s))
      in if reply = [] then disk_tries e ds k m s
         else (let m = disk_entries ds (tokens (CHR ''|'') reply) m
               in if m \<noteq> 0 then (m, s) else disk_tries e ds k m s))"

definition read_disks_temp :: "env \<Rightarrow> nat \<Rightarrow> disk list \<Rightarrow> os \<Rightarrow> int \<times> os" where
  "read_disks_temp e n ds s = disk_tries e (take n ds) 3 0 s"

section \<open>Log of fan and temperature\<close>

definition fantemplog :: string where "fantemplog = ''/var/log/fantemp.log''"

definition tab :: string where "tab = [CHR 0x09]"

definition fan_line :: "string \<Rightarrow> int \<Rightarrow> int \<Rightarrow> int \<Rightarrow> int \<Rightarrow> string" where
  "fan_line stamp stemp dtemp pwm fan =
     stamp @ tab @ ''sys_temp='' @ dec_int stemp @ tab @ ''disk_temp='' @ dec_int dtemp @ tab @ ''pwm='' @ dec_int pwm @
     tab @ ''fan='' @ dec_int fan @ [CHR 0x0A]"

text \<open>
  \<open>fanlog\<close>: the static descriptor is the offset in the open file. Beyond 32768 bytes the file is renamed and a
  new one is begun.
\<close>

definition fanlog :: "env \<Rightarrow> string \<Rightarrow> nat option \<times> os \<Rightarrow> nat option \<times> os" where
  "fanlog e line = (\<lambda>(fd, s).
     (let contents = (\<lambda>f. case files s f of None \<Rightarrow> [] | Some c \<Rightarrow> c);
          fd1 = (case fd of None \<Rightarrow> if writable e fantemplog then Some (length (contents fantemplog)) else None | Some p \<Rightarrow> Some p)
      in (case fd1 of
            None \<Rightarrow> (None, s)
          | Some p \<Rightarrow>
              if 32768 < p then
                (if writable e fantemplog then
                   (Some (length line),
                    s\<lparr>files := (files s)(fantemplog @ ''.old'' := files s fantemplog, fantemplog := Some line)\<rparr>)
                 else (None, s\<lparr>files := (files s)(fantemplog @ ''.old'' := files s fantemplog, fantemplog := None)\<rparr>))
              else (Some (p + length line),
                    s\<lparr>files := (files s)(fantemplog \<mapsto> blit p line (contents fantemplog))\<rparr>))))"

section \<open>The fan curves\<close>

definition PWM_OFF :: int where "PWM_OFF = 0"
definition PWM_LOW :: int where "PWM_LOW = 127"
definition PWM_FAST :: int where "PWM_FAST = 255"
definition RPM_OFF :: int where "RPM_OFF = 0"
definition RPM_LOW :: int where "RPM_LOW = 3000"
definition RPM_FAST :: int where "RPM_FAST = 6000"

lemmas fan_values = PWM_OFF_def PWM_LOW_def PWM_FAST_def RPM_OFF_def RPM_LOW_def RPM_FAST_def

definition flt_int :: "int \<Rightarrow> rat" where
  "flt_int i = flt (of_int i)"

definition f2p :: "rat list" where
  "f2p = map (\<lambda>x. flt (dbl x)) [266029 / 10 ^ 14, - (428952 / 10 ^ 10), 244737 / 10 ^ 6, - (328233 / 10 ^ 3)]"

definition poly :: "rat \<Rightarrow> rat list \<Rightarrow> rat" where
  "poly x coef = fold (\<lambda>i r. flt (flt (x * r) + coef ! i)) [1, 2, 3] (coef ! 0)"

definition off_minus :: "args_t \<Rightarrow> rat" where "off_minus a = flt (flt_int (fan_off_temp a) - hist_temp a)"
definition off_plus :: "args_t \<Rightarrow> rat" where "off_plus a = flt (flt_int (fan_off_temp a) + hist_temp a)"
definition lo_minus :: "args_t \<Rightarrow> rat" where "lo_minus a = flt (flt_int (lo_temp a) - hist_temp a)"
definition lo_plus :: "args_t \<Rightarrow> rat" where "lo_plus a = flt (flt_int (lo_temp a) + hist_temp a)"

text \<open>The DNS-323 A1 and B1: a straight line from temperature to speed, a polynomial from speed to the PWM value.\<close>

definition line_pwm :: "env \<Rightarrow> args_t \<Rightarrow> rat \<Rightarrow> int" where
  "line_pwm e a t =
     (if hi_temp a = lo_temp a then junk e
      else
        (let m = flt (dbl (of_int (hi_fan a - lo_fan a) / of_int (hi_temp a - lo_temp a)));
             b = flt (flt_int (lo_fan a) - flt (m * flt_int (lo_temp a)))
         in trunc (poly (flt (flt (t * m) + b)) f2p)))"

definition pwm_323 :: "env \<Rightarrow> args_t \<Rightarrow> rat \<Rightarrow> int \<Rightarrow> int \<Rightarrow> int" where
  "pwm_323 e a t fan pwm =
     (let pwm = (if t < off_minus a then 0 else if off_plus a < t then line_pwm e a t else pwm);
          tpwm = trunc (poly (flt_int (max_fan_speed a)) f2p)
      in if max_fan_speed a \<le> fan \<and> tpwm < pwm then tpwm else pwm)"

text \<open>The other boards: three speeds, with hysteresis in the automatic mode.\<close>

definition auto_pwm :: "args_t \<Rightarrow> rat \<Rightarrow> int \<Rightarrow> int" where
  "auto_pwm a t fan =
     (if fan = RPM_OFF then (if off_plus a < t then PWM_LOW else PWM_OFF)
      else if fan = RPM_LOW then
        (if t < off_minus a then PWM_OFF else if lo_plus a < t then PWM_FAST else PWM_LOW)
      else if fan = RPM_FAST then (if t < lo_minus a then PWM_LOW else PWM_FAST)
      else PWM_LOW)"

definition mode_pwm :: "args_t \<Rightarrow> rat \<Rightarrow> int \<Rightarrow> int \<Rightarrow> int" where
  "mode_pwm a t fan pwm =
     (if fan_mode a = FAN_ALWAYS_OFF then PWM_OFF
      else if fan_mode a = FAN_ALWAYS_SLOW then PWM_LOW
      else if fan_mode a = FAN_ALWAYS_FAST then PWM_FAST
      else if fan_mode a = FAN_AUTO then auto_pwm a t fan
      else pwm)"

definition next_pwm :: "env \<Rightarrow> Board \<Rightarrow> args_t \<Rightarrow> rat \<Rightarrow> int \<Rightarrow> int \<Rightarrow> int" where
  "next_pwm e bd a t fan pwm =
     (if bd = DNS_323_A1 \<or> bd = DNS_323_B1 then pwm_323 e a t fan pwm else mode_pwm a t fan pwm)"

section \<open>Warnings\<close>

text \<open>The static variables of \<open>fanctl\<close> and \<open>fanlog\<close>.\<close>

record fan_st =
  temp :: rat
  log_temp :: rat
  warn :: int
  crit :: int
  log_fan :: int
  log_fd :: "nat option"

definition initial_fan :: fan_st where
  "initial_fan = \<lparr>temp = 0, log_temp = 0, warn = 0, crit = 0, log_fan = 0, log_fd = None\<rparr>"

definition smail :: "env \<Rightarrow> string \<Rightarrow> int \<Rightarrow> int \<Rightarrow> os \<Rightarrow> os" where
  "smail e kind fan limit s = (if mail_set e then act (Mail kind fan limit) s else s)"

text \<open>\<open>%.1f\<close>\<close>

definition show_fix1 :: "rat \<Rightarrow> string" where
  "show_fix1 x =
     (let n = nat (rint (10 * \<bar>x\<bar>))
      in (if x < 0 then ''-'' else []) @ dec (n div 10) @ ''.'' @ dec (n mod 10))"

definition warn_step :: "env \<Rightarrow> args_t \<Rightarrow> int \<Rightarrow> fan_st \<times> os \<Rightarrow> fan_st \<times> os" where
  "warn_step e a fan = (\<lambda>(f, s).
     (let (f, s) =
        (if flt_int (warn_temp a) < temp f \<and> temp f < flt_int (crit_temp a) \<and> warn f = 0 then
           (let s = snd (syserrorlog e (take 255 (''WARNING TEMP: fan='' @ dec_int fan @ '' temp='' @ show_fix1 (temp f) @
                   '' exceeded warn='' @ dec_int (warn_temp a))) s);
                s = (if mail a \<noteq> 0 then smail e ''warning'' fan (warn_temp a) s else s)
            in (f\<lparr>warn := 1\<rparr>, exec_userscript e (warn_temp_command a) 20 None s))
         else (f, s))
      in (if temp f < flt_int (warn_temp a) \<and> warn f = 1 then f\<lparr>warn := 0\<rparr> else f, s)))"

definition crit_step :: "env \<Rightarrow> args_t \<Rightarrow> int \<Rightarrow> fan_st \<times> os \<Rightarrow> fan_st \<times> os" where
  "crit_step e a fan = (\<lambda>(f, s).
     (let (f, s) =
        (if flt_int (crit_temp a) < temp f \<and> crit f = 0 then
           (f\<lparr>crit := 1\<rparr>, exec_userscript e (crit_temp_command a) 20 None
              (if mail a \<noteq> 0 then smail e ''CRITICAL'' fan (crit_temp a) s else s))
         else (f, s))
      in (if temp f < flt_int (crit_temp a) \<and> crit f = 1 then f\<lparr>crit := 0\<rparr> else f, s)))"

section \<open>One round\<close>

definition smooth :: "rat \<Rightarrow> int \<Rightarrow> rat" where
  "smooth t m = flt (dbl (dbl (dbl (9 / 10) * of_int m) + dbl (dbl (1 / 10) * t)))"

text \<open>The part of \<open>fanctl\<close> behind the readings.\<close>

definition fan_round ::
  "env \<Rightarrow> (nat \<Rightarrow> string) \<Rightarrow> Board \<Rightarrow> args_t \<Rightarrow> int \<Rightarrow> int \<Rightarrow> fan_st \<times> os \<Rightarrow> fan_st \<times> os" where
  "fan_round e stamp bd a stemp dtemp = (\<lambda>(f, s).
     (let f = f\<lparr>temp := smooth (temp f) (max stemp dtemp)\<rparr>;
          pwm = read_pwm s; fan = read_fan s;
          (f, s) =
            (if 1 < \<bar>flt (temp f - log_temp f)\<bar> \<or> 400 < \<bar>fan - log_fan f\<bar> then
               (case fanlog e (fan_line (stamp (seconds s)) stemp dtemp pwm fan) (log_fd f, s) of
                  (fd, s) \<Rightarrow> (f\<lparr>log_temp := temp f, log_fan := fan, log_fd := fd\<rparr>, s))
             else (f, s));
          s = write_pwm e (next_pwm e bd a (temp f) fan pwm) s
      in crit_step e a fan (warn_step e a fan (f, s))))"

definition first_temp :: "env \<Rightarrow> fan_st \<Rightarrow> (os, int, fan_st) op" where
  "first_temp e f =
     (if temp f = 0 then bindE (read_temp e) (\<lambda>u s. (Inr (f\<lparr>temp := flt (dbl (of_int u / 1000))\<rparr>), s))
      else retE f)"

definition fanctl ::
  "env \<Rightarrow> (nat \<Rightarrow> string) \<Rightarrow> box \<Rightarrow> disk list \<Rightarrow> fan_st \<Rightarrow> (os, int, fan_st) op" where
  "fanctl e stamp b ds f =
     bindE (first_temp e f) (\<lambda>f. bindE (read_temp e) (\<lambda>u s.
       (let stemp = u sdiv 1000;
            (dtemp, s) = (if disks_temp (args b) \<noteq> 0 then read_disks_temp e (nslots b) ds s else (0, s));
            (f, s) = fan_round e stamp (board b) (args b) stemp dtemp (f, s)
        in (Inr f, s))))"

section \<open>The fan settles\<close>

text \<open>The speed a fan of the three-speed boards shows for a PWM value.\<close>

definition rpm_of :: "int \<Rightarrow> int" where
  "rpm_of p = (if p = PWM_OFF then RPM_OFF else if p = PWM_LOW then RPM_LOW else RPM_FAST)"

lemma thresholds: "0 \<le> hist_temp a \<Longrightarrow> off_minus a \<le> off_plus a \<and> lo_minus a \<le> lo_plus a"
  by (simp add: off_minus_def off_plus_def lo_minus_def lo_plus_def rnd_mono)



section \<open>The smoothed temperature\<close>

lemma smooth_mono: "0 \<le> t \<Longrightarrow> t \<le> u \<Longrightarrow> m \<le> n \<Longrightarrow> smooth t m \<le> smooth u n"
proof -
  assume "t \<le> u" "m \<le> n"
  moreover have c: "0 \<le> dbl (9 / 10)" "0 \<le> dbl (1 / 10)" by (simp_all add: rnd_nonneg)
  ultimately have "dbl (9 / 10) * of_int m \<le> dbl (9 / 10) * of_int n" "dbl (1 / 10) * t \<le> dbl (1 / 10) * u"
    by (simp_all add: mult_left_mono)
  then have "dbl (dbl (9 / 10) * of_int m) + dbl (dbl (1 / 10) * t) \<le> dbl (dbl (9 / 10) * of_int n) + dbl (dbl (1 / 10) * u)"
    by (intro add_mono rnd_mono) simp_all
  then show ?thesis unfolding smooth_def by (intro rnd_mono) simp_all
qed

lemma smooth_values: "smooth 0 0 = 0" "smooth 125 125 = 125" "54 < smooth 0 61"
  by code_simp+

lemma smooth_bounds:
  assumes "0 \<le> t" and "t \<le> 125" and "0 \<le> m" and "m \<le> 125"
  shows "0 \<le> smooth t m" and "smooth t m \<le> 125"
  using smooth_mono [of 0 t 0 m] smooth_mono [of t 125 m 125] assms smooth_values by simp_all

lemma smooth_hot: "0 \<le> t \<Longrightarrow> 61 \<le> m \<Longrightarrow> 54 < smooth t m"
  using smooth_mono [of 0 t 61 m] smooth_values(3) by simp

section \<open>The log file\<close>

definition log_ok :: "nat option \<Rightarrow> os \<Rightarrow> bool" where
  "log_ok fd s \<longleftrightarrow> (case fd of None \<Rightarrow> True | Some p \<Rightarrow> \<exists>c. files s fantemplog = Some c \<and> length c = p)"

text \<open>The log of fan and temperature stays small: after an entry the file holds at most 32768 bytes and that entry,
  which is its last, and the daemon's offset is the end of the file.\<close>

theorem fanlog_bounded:
  assumes "log_ok fd s" and "fanlog e line (fd, s) = (Some p, s')"
  shows "log_ok (Some p) s' \<and> p \<le> 32768 + length line \<and> (\<exists>old. files s' fantemplog = Some (old @ line))"
proof -
  let ?c = "case files s fantemplog of None \<Rightarrow> [] | Some c \<Rightarrow> c"
  let ?fd = "case fd of None \<Rightarrow> if writable e fantemplog then Some (length ?c) else None | Some p \<Rightarrow> Some p"
  obtain q where q: "?fd = Some q" using assms(2) by (cases ?fd) (simp_all add: fanlog_def Let_def)
  then have l: "length ?c = q" using assms(1) by (auto simp: log_ok_def split: option.splits if_splits)
  show ?thesis
  proof (cases "32768 < q")
    case True
    then show ?thesis using assms(2) q by (auto simp: fanlog_def Let_def log_ok_def split: if_splits)
  next
    case False
    have "blit q line ?c = ?c @ line" using l by (simp add: blit_def)
    then show ?thesis using assms(2) q l False by (auto simp: fanlog_def Let_def log_ok_def)
  qed
qed

lemma fanlog_bounded_witness:
  "\<exists>s'. fanlog demo_env ''entry'' (None, raid_os) = (Some 5, s') \<and> files s' fantemplog = Some ''entry''"
proof -
  have "fanlog demo_env ''entry'' (None, raid_os) =
      (Some 5, raid_os\<lparr>files := (files raid_os)(fantemplog \<mapsto> ''entry'')\<rparr>)"
    by (simp add: fanlog_def demo_env_def raid_os_def fantemplog_def syserrorfn_def blit_def)
  with fanlog_bounded [OF _ this] show ?thesis by (simp add: log_ok_def)
qed

section \<open>Overheating\<close>

lemma fanlog_frame: "fanlog e line (fd, s) = (fd', s') \<Longrightarrow> acts s' = acts s \<and> events s' = events s \<and> now s' = now s"
  by (auto simp: fanlog_def Let_def split: option.splits if_splits)

lemma write_pwm_frame [simp]:
  "acts (write_pwm e u s) = acts s" "events (write_pwm e u s) = events s" "now (write_pwm e u s) = now s"
  by (simp_all add: write_pwm_def write_int_to_file_def write_str_to_file_def)

text \<open>What a call of a user script adds to the actions.\<close>

definition script_act :: "string option \<Rightarrow> nat \<Rightarrow> action list" where
  "script_act c t = (case c of None \<Rightarrow> [] | Some p \<Rightarrow> if p = [] then [] else [Script p t None])"

lemma exec_acts: "acts (exec_userscript e c t None s) = acts s @ script_act c t"
  by (simp add: exec_userscript_def script_act_def split: option.split)

lemma smail_acts: "acts (smail e k f l s) = acts s @ (if mail_set e then [Mail k f l] else [])"
  by (simp add: smail_def)

lemma warn_step_eq:
  assumes "warn_step e a fan (f, s) = (f', s')"
  shows "temp f' = temp f \<and> crit f' = crit f \<and>
    acts s' = acts s @
      (if flt_int (warn_temp a) < temp f \<and> temp f < flt_int (crit_temp a) \<and> warn f = 0 then
         (if mail a \<noteq> 0 \<and> mail_set e then [Mail ''warning'' fan (warn_temp a)] else []) @ script_act (warn_temp_command a) 20
       else [])"
  using assms by (auto simp: warn_step_def Let_def exec_acts smail_acts split: if_splits)

lemma crit_step_eq:
  assumes "crit_step e a fan (f, s) = (f', s')"
  shows "temp f' = temp f \<and>
    crit f' = (if flt_int (crit_temp a) < temp f \<and> crit f = 0 then 1
               else if temp f < flt_int (crit_temp a) \<and> crit f = 1 then 0 else crit f) \<and>
    acts s' = acts s @
      (if flt_int (crit_temp a) < temp f \<and> crit f = 0 then
         (if mail a \<noteq> 0 \<and> mail_set e then [Mail ''CRITICAL'' fan (crit_temp a)] else []) @ script_act (crit_temp_command a) 20
       else [])"
  using assms by (auto simp: crit_step_def Let_def exec_acts smail_acts split: if_splits)

lemma fan_round_eq:
  assumes "fan_round e stamp bd a st dt (f, s) = (f', s')"
  shows "\<exists>f1 s1 f2 s2. temp f1 = smooth (temp f) (max st dt) \<and> crit f1 = crit f \<and> warn f1 = warn f \<and> acts s1 = acts s \<and>
    warn_step e a (read_fan s) (f1, s1) = (f2, s2) \<and> crit_step e a (read_fan s) (f2, s2) = (f', s')"
proof -
  let ?f = "f\<lparr>temp := smooth (temp f) (max st dt)\<rparr>"
  let ?l = "fanlog e (fan_line (stamp (seconds s)) st dt (read_pwm s) (read_fan s)) (log_fd ?f, s)"
  obtain fd s0 where l: "?l = (fd, s0)" by (cases ?l)
  let ?c = "1 < \<bar>flt (temp ?f - log_temp f)\<bar> \<or> 400 < \<bar>read_fan s - log_fan f\<bar>"
  let ?f1 = "if ?c then ?f\<lparr>log_temp := temp ?f, log_fan := read_fan s, log_fd := fd\<rparr> else ?f"
  let ?s1 = "write_pwm e (next_pwm e bd a (temp ?f) (read_fan s) (read_pwm s)) (if ?c then s0 else s)"
  obtain f2 s2 where w: "warn_step e a (read_fan s) (?f1, ?s1) = (f2, s2)"
    by (cases "warn_step e a (read_fan s) (?f1, ?s1)")
  have "crit_step e a (read_fan s) (f2, s2) = (f', s')"
    using assms w l by (cases ?c) (simp_all add: fan_round_def Let_def)
  moreover have "temp ?f1 = smooth (temp f) (max st dt) \<and> crit ?f1 = crit f \<and> warn ?f1 = warn f \<and> acts ?s1 = acts s"
    using fanlog_frame [OF l] by simp
  ultimately show ?thesis using w by blast
qed

text \<open>C27. The fan round keeps the smoothed temperature between 0 and 125 degrees when the readings are, and the critical
  flag is a latch: the critical command runs in the round in which the smoothed temperature first exceeds the
  limit and not again before a round below it. With a limit of at most 54 degrees a reading of 61 is enough to
  get there in one round.\<close>

theorem overheat_latch:
  assumes "fan_round e stamp bd a st dt (f, s) = (f', s')" and "0 \<le> temp f" and "temp f \<le> 125" and "0 \<le> max st dt" and "max st dt \<le> 125"
    and "crit f = 0 \<or> crit f = 1"
  shows "0 \<le> temp f' \<and> temp f' \<le> 125 \<and>
    (\<exists>w. acts s' = acts s @ w @ (if flt_int (crit_temp a) < temp f' \<and> crit f = 0 then script_act (crit_temp_command a) 20 else []) \<and>
       set w \<subseteq> {Mail ''warning'' (read_fan s) (warn_temp a), Mail ''CRITICAL'' (read_fan s) (crit_temp a)} \<union> set (script_act (warn_temp_command a) 20)) \<and>
    crit f' = (if flt_int (crit_temp a) < temp f' then 1 else if temp f' < flt_int (crit_temp a) then 0 else crit f) \<and>
    (61 \<le> max st dt \<and> crit_temp a \<le> 54 \<longrightarrow> flt_int (crit_temp a) < temp f' \<and> crit f' = 1)"
proof -
  obtain f1 s1 f2 s2 where r: "temp f1 = smooth (temp f) (max st dt)" "crit f1 = crit f" "acts s1 = acts s"
    "warn_step e a (read_fan s) (f1, s1) = (f2, s2)" "crit_step e a (read_fan s) (f2, s2) = (f', s')"
    using fan_round_eq [OF assms(1)] by blast
  note w = warn_step_eq [OF r(4)] and c = crit_step_eq [OF r(5)]
  have t: "temp f' = smooth (temp f) (max st dt)" using w c r by simp
  have "flt_int (crit_temp a) \<le> 54" if "crit_temp a \<le> 54"
  proof -
    have "flt (of_int (crit_temp a)) \<le> flt (of_int 54)" using that by (intro rnd_mono) simp_all
    also have "\<dots> = 54" by (subst rnd_of_int) simp_all
    finally show ?thesis by (simp add: flt_int_def)
  qed
  then have hot: "61 \<le> max st dt \<Longrightarrow> crit_temp a \<le> 54 \<Longrightarrow> flt_int (crit_temp a) < temp f'"
    using smooth_hot [OF assms(2), of "max st dt"] t by simp
  have cr: "crit f' = (if flt_int (crit_temp a) < temp f' then 1 else if temp f' < flt_int (crit_temp a) then 0 else crit f)"
    using c w r assms(6) by auto
  define k where "k = (flt_int (crit_temp a) < temp f' \<and> crit f = 0)"
  obtain w1 where w1: "acts s2 = acts s @ w1"
    "set w1 \<subseteq> {Mail ''warning'' (read_fan s) (warn_temp a)} \<union> set (script_act (warn_temp_command a) 20)"
    using w r(3) by (auto split: if_splits)
  have "acts s' = acts s2 @ (if k then (if mail a \<noteq> 0 \<and> mail_set e then [Mail ''CRITICAL'' (read_fan s) (crit_temp a)] else []) @
      script_act (crit_temp_command a) 20 else [])"
    using c w r t by (simp add: k_def)
  then have "\<exists>w. acts s' = acts s @ w @ (if k then script_act (crit_temp_command a) 20 else []) \<and>
       set w \<subseteq> {Mail ''warning'' (read_fan s) (warn_temp a), Mail ''CRITICAL'' (read_fan s) (crit_temp a)} \<union> set (script_act (warn_temp_command a) 20)"
    using w1 by (intro exI [of _ "w1 @ (if k \<and> mail a \<noteq> 0 \<and> mail_set e then [Mail ''CRITICAL'' (read_fan s) (crit_temp a)] else [])"]) auto
  then show ?thesis using hot cr smooth_bounds [OF assms(2-5)] unfolding t [symmetric] k_def by simp
qed

definition hot_os :: os where
  "hot_os = \<lparr>files = [sys_pwm \<mapsto> ''127'' @ [CHR 0x0A], sys_fan_input \<mapsto> ''3000'' @ [CHR 0x0A]], events = [], now = 0, acts = []\<rparr>"

lemma overheat_latch_witness:
  "\<exists>f' s'. fan_round demo_env (\<lambda>_. ''now'') DNS_325_Ax default_args 70 0 (initial_fan\<lparr>temp := 40\<rparr>, hot_os) = (f', s') \<and>
     crit f' = 1 \<and> Script ''/usr/sbin/poweroff'' 20 None \<in> set (acts s')"
proof -
  obtain f' s' where r: "fan_round demo_env (\<lambda>_. ''now'') DNS_325_Ax default_args 70 0 (initial_fan\<lparr>temp := 40\<rparr>, hot_os) = (f', s')"
    by (cases "fan_round demo_env (\<lambda>_. ''now'') DNS_325_Ax default_args 70 0 (initial_fan\<lparr>temp := 40\<rparr>, hot_os)")
  have "flt_int (crit_temp default_args) < temp f' \<and> crit f' = 1 \<and>
    (\<exists>w. acts s' = acts hot_os @ w @ (if flt_int (crit_temp default_args) < temp f' \<and> crit (initial_fan\<lparr>temp := 40\<rparr>) = 0
        then script_act (crit_temp_command default_args) 20 else []))"
    using overheat_latch [OF r] by (auto simp: initial_fan_def default_args_def)
  then have "crit f' = 1 \<and> Script ''/usr/sbin/poweroff'' 20 None \<in> set (acts s')"
    by (auto simp: initial_fan_def default_args_def script_act_def)
  with r show ?thesis by blast
qed

end
