(* ===== verification/SysDisks.thy ===== *)
theory SysDisks
  imports SysFan
begin

text \<open>
  The power state of the disks: asking a disk, counting its reads and writes, stopping a USB disk that has been idle
  for longer than its spin-down time, and the LEDs that go with it.
\<close>

section \<open>Asking a disk\<close>

definition sector_state :: "nat \<Rightarrow> int" where
  "sector_state n = (if n = 255 then 1 else 0)"

text \<open>\<open>check_powermode\<close>: 1 active, 0 asleep, -1 unknown. The second command is tried when the first one fails.\<close>

definition check_powermode :: "env \<Rightarrow> string \<Rightarrow> int" where
  "check_powermode e d =
     (case powermode e d of
        None \<Rightarrow> -1
      | Some (Done n, _) \<Rightarrow> sector_state n
      | Some (Fail _ _ _, Done n) \<Rightarrow> sector_state n
      | Some (Fail _ _ _, Fail eio a0 a1) \<Rightarrow> if \<not> eio \<or> a0 \<noteq> 0 \<or> a1 \<noteq> 0 then -1 else 0)"

text \<open>\<open>%lu\<close> and \<open>%*d\<close>\<close>

definition scan_lu :: "string \<Rightarrow> (nat \<times> string) option" where
  "scan_lu s =
     (let s1 = dropWhile isspace s; ds = takeWhile isdigit s1
      in if ds = [] then None else Some (min (digits_value ds) (2 ^ 32 - 1), dropWhile isdigit s1))"

definition skip_d :: "string \<Rightarrow> string option" where
  "skip_d s = (let (v, r) = strtol10 s in if length r < length s then Some r else None)"

definition scan_stat :: "string \<Rightarrow> (nat \<times> nat) option" where
  "scan_stat s =
     Option.bind (scan_lu s) (\<lambda>(rd, s). Option.bind (skip_d s) (\<lambda>s. Option.bind (skip_d s) (\<lambda>s.
       Option.bind (skip_d s) (\<lambda>s. Option.bind (scan_lu s) (\<lambda>(wr, s). Some (rd, wr))))))"

definition dstat :: "string \<Rightarrow> os \<Rightarrow> nat" where
  "dstat d s =
     (case read_str_from_file (''/sys/block/'' @ d @ ''/stat'') 128 s of
        None \<Rightarrow> 0
      | Some c \<Rightarrow> (case scan_stat c of None \<Rightarrow> 0 | Some (rd, wr) \<Rightarrow> (rd + wr) mod 2 ^ 32))"

section \<open>One round over the slots\<close>

text \<open>The new power state of a disk, with the disk and the machine; an unknown state is guessed from its traffic.\<close>

definition disk_power :: "env \<Rightarrow> string \<Rightarrow> disk \<Rightarrow> os \<Rightarrow> int \<times> disk \<times> os" where
  "disk_power e d x s =
     (let dpm = check_powermode e d
      in if dpm = -1 \<and> 0 < spindow_time x then
           (let ctime = seconds s; dst = dstat d s
            in if rdwr_cnt x < dst then (1, x\<lparr>rdwr_cnt := dst, last_access := ctime\<rparr>, s)
               else if power_state x \<noteq> 0 \<and> spindow_time x < int ctime - int (last_access x)
               then (0, x, act (Spindown d) s)
               else (power_state x, x, s))
         else (dpm, x, s))"

definition power_leds :: "env \<Rightarrow> string option list \<Rightarrow> nat \<Rightarrow> nat \<Rightarrow> int \<Rightarrow> int \<Rightarrow> os \<Rightarrow> os" where
  "power_leds e ls noleds i old new s =
     (if old \<noteq> new \<and> noleds = 0 then
        (if new = 0 then led_blink e ls i ''10'' ''2000'' s else led_set e ls i ''0'' s)
      else s)"

definition check_slot ::
  "env \<Rightarrow> string option list \<Rightarrow> nat \<Rightarrow> nat \<Rightarrow> int \<times> disk list \<times> os \<Rightarrow> int \<times> disk list \<times> os" where
  "check_slot e ls noleds i = (\<lambda>(dpmf, ds, s).
     (case dev (ds ! i) of
        None \<Rightarrow> (dpmf, ds, s)
      | Some d \<Rightarrow>
          (case disk_power e d (ds ! i) s of
             (dpm, x, s) \<Rightarrow>
               (dpmf + dpm, ds[i := x\<lparr>power_state := dpm\<rparr>],
                power_leds e ls noleds i (power_state x) dpm s))))"

definition hdd_powercheck ::
  "env \<Rightarrow> string option list \<Rightarrow> nat \<Rightarrow> nat \<Rightarrow> nat \<Rightarrow> disk list \<times> os \<Rightarrow> disk list \<times> os" where
  "hdd_powercheck e ls n ndisks noleds = (\<lambda>(ds, s).
     (case fold (check_slot e ls noleds) [0..<n] (0, ds, s) of
        (dpmf, ds, s) \<Rightarrow>
          (case led_get ls power_led (junk e) (junk_str e) s of
             (r, pled) \<Rightarrow>
               (ds,
                if r \<noteq> -1 \<and> pled = ''none'' then
                  (if dpmf \<noteq> 0 \<or> ndisks = 0 then led_set e ls power_led ''1'' s else led_set e ls power_led ''0'' s)
                else s))))"

section \<open>Spinning down\<close>

lemma power_leds_frame [simp]:
  "events (power_leds e ls k i a b s) = events s" "now (power_leds e ls k i a b s) = now s"
  "acts (power_leds e ls k i a b s) = acts s"
  by (simp_all add: power_leds_def)

lemma check_slot_length: "check_slot e ls k i (p, ds, s) = (p', ds', s') \<Longrightarrow> length ds' = length ds"
  by (auto simp: check_slot_def split: option.splits prod.splits)

text \<open>Nothing happened to a disk since it was looked at, and its power mode stays unknown.\<close>

definition idle_unknown :: "env \<Rightarrow> string \<Rightarrow> disk \<Rightarrow> os \<Rightarrow> bool" where
  "idle_unknown e d x s \<longleftrightarrow> dev x = Some d \<and> check_powermode e d = -1 \<and> 0 < spindow_time x \<and> dstat d s \<le> rdwr_cnt x"

text \<open>A disk whose power mode is unknown and that has seen no traffic is stopped exactly when it is thought to be
  awake and its idle time exceeds the spin-down time; once it has been stopped, later rounds without traffic
  leave it alone.\<close>

theorem spindown_once:
  assumes "i < length ds" and "idle_unknown e d (ds ! i) s" and "check_slot e ls k i (p, ds, s) = (p', ds', s')"
  shows "(acts s' = acts s @
      (if power_state (ds ! i) \<noteq> 0 \<and> spindow_time (ds ! i) < int (seconds s) - int (last_access (ds ! i)) then [Spindown d] else [])) \<and>
    (\<forall>t q. acts s' \<noteq> acts s \<and> dstat d t \<le> rdwr_cnt (ds ! i) \<longrightarrow> acts (snd (snd (check_slot e ls k i (q, ds', t)))) = acts t)"
proof -
  let ?x = "ds ! i"
  have x: "dev ?x = Some d" "check_powermode e d = -1" "0 < spindow_time ?x" "\<not> rdwr_cnt ?x < dstat d s"
    using assms(2) by (simp_all add: idle_unknown_def)
  let ?stop = "power_state ?x \<noteq> 0 \<and> spindow_time ?x < int (seconds s) - int (last_access ?x)"
  have p: "disk_power e d ?x s = (if ?stop then (0, ?x, act (Spindown d) s) else (power_state ?x, ?x, s))"
    using x by (simp add: disk_power_def Let_def)
  have a: "acts s' = acts s @ (if ?stop then [Spindown d] else [])"
    using assms(3) x(1) p by (auto simp: check_slot_def split: if_splits)
  have "acts (snd (snd (check_slot e ls k i (q, ds', t)))) = acts t" if "?stop" "dstat d t \<le> rdwr_cnt ?x" for q t
  proof -
    have "ds' ! i = ?x\<lparr>power_state := 0\<rparr>" using assms(1,3) x(1) p that(1) by (auto simp: check_slot_def)
    then have "disk_power e d (ds' ! i) t = (0, ds' ! i, t)" "dev (ds' ! i) = Some d"
      using x that(2) by (simp_all add: disk_power_def)
    then show ?thesis by (simp add: check_slot_def)
  qed
  then show ?thesis using a by auto
qed

definition usb_disk :: disk where
  "usb_disk = blank_disk\<lparr>dev := Some ''sdc'', slot := Some ''usb'', spindow_time := 600, power_state := 1\<rparr>"

definition idle_os :: os where
  "idle_os = \<lparr>files = Map.empty, events = [], now = 700000000, acts = []\<rparr>"

lemma spindown_once_witness:
  "\<exists>p' ds' s'. check_slot demo_env led_dirs 0 0 (0, [usb_disk], idle_os) = (p', ds', s') \<and> acts s' = [Spindown ''sdc'']"
proof -
  obtain p' ds' s' where r: "check_slot demo_env led_dirs 0 0 (0, [usb_disk], idle_os) = (p', ds', s')"
    by (cases "check_slot demo_env led_dirs 0 0 (0, [usb_disk], idle_os)")
  have "idle_unknown demo_env ''sdc'' ([usb_disk] ! 0) idle_os"
    by (simp add: idle_unknown_def usb_disk_def check_powermode_def demo_env_def dstat_def read_str_from_file_def idle_os_def)
  from spindown_once [OF _ this r] have "acts s' = [Spindown ''sdc'']"
    by (simp add: usb_disk_def idle_os_def seconds_def blank_disk_def)
  with r show ?thesis by blast
qed

text \<open>The sum that decides on the power LED adds the states as numbers: an active disk (1) and one whose state is
  unknown (-1) cancel, and the LED goes off while a disk is running.\<close>

theorem power_led_cancels:
  assumes "ds = [x, y]" and "dev x = Some a" and "dev y = Some b" and "check_powermode e a = 1" and "check_powermode e b = -1"
    and "spindow_time y = 0" and "power_state x = 1" and "power_state y = -1" and "n = 2" and "0 < k"
    and "led_get ls power_led (junk e) (junk_str e) s = (r, ''none'')" and "r \<noteq> -1"
  shows "hdd_powercheck e ls n k 0 (ds, s) = ([x, y], led_set e ls power_led ''0'' s)"
proof -
  have "x\<lparr>power_state := 1\<rparr> = x" "y\<lparr>power_state := -1\<rparr> = y" using assms(7,8) by (cases x; simp)+
  moreover have "[0..<2] = [0, 1 :: nat]" by (simp add: upt_rec)
  ultimately show ?thesis using assms
    by (simp add: hdd_powercheck_def check_slot_def disk_power_def power_leds_def)
qed

definition mixed_env :: env where
  "mixed_env = demo_env\<lparr>powermode := (\<lambda>d. if d = ''sda'' then Some (Done 255, Done 0) else None)\<rparr>"

definition led_os :: os where
  "led_os = \<lparr>files = [''/tmp/sys/power_led/trigger'' \<mapsto> ''none'' @ [CHR 0x0A], ''/tmp/sys/power_led/brightness'' \<mapsto> ''1'' @ [CHR 0x0A]],
     events = [], now = 0, acts = []\<rparr>"

lemma power_led_cancels_witness:
  "hdd_powercheck mixed_env led_dirs 2 2 0
     ([blank_disk\<lparr>dev := Some ''sda'', power_state := 1\<rparr>, blank_disk\<lparr>dev := Some ''sdc'', power_state := -1\<rparr>], led_os) =
   ([blank_disk\<lparr>dev := Some ''sda'', power_state := 1\<rparr>, blank_disk\<lparr>dev := Some ''sdc'', power_state := -1\<rparr>],
    led_set mixed_env led_dirs power_led ''0'' led_os)"
proof (rule power_led_cancels [OF refl])
  show "led_get led_dirs power_led (junk mixed_env) (junk_str mixed_env) led_os = (1, ''none'')"
    by (simp add: led_get_def led_dirs_def power_led_def led_os_def read_str_from_file_def read_int_from_file_def
        bracketed_def scan_d_def strtol10_def isspace_def isdigit_def code_def digits_value_def digit_val_def
        saturate_def LONG_MIN_def LONG_MAX_def)
  show "check_powermode mixed_env ''sdc'' = -1"
    by (simp add: mixed_env_def check_powermode_def)
qed (simp_all add: mixed_env_def check_powermode_def sector_state_def blank_disk_def)

end
