(* ===== verification/SysMain.thy ===== *)
theory SysMain
  imports SysDisks
begin

text \<open>
  The control daemon as a whole: start-up with its pid file, the main loop with the state machine of the front
  button, the signal handlers that reread the configuration, and the states the daemon can reach when the
  machine around it changes files, delivers button events and lets time pass. Counters are unbounded integers.
\<close>

section \<open>The daemon\<close>

record daemon =
  bx :: box
  disks :: "disk list"
  ndisks :: nat
  fan :: fan_st
  lq :: ledq
  kb :: kbd
  mach :: os
  count :: int
  lstate :: int
  powercheck_count :: int
  fan_count :: int
  wd_misc :: int
  wd_bay :: int
  wd_conf :: int

definition IDLE :: int where "IDLE = 0"
definition HALT :: int where "HALT = 3"
definition REBOOT :: int where "REBOOT = 6"
definition ABORT :: int where "ABORT = 9"

lemmas loop_states = IDLE_def HALT_def REBOOT_def ABORT_def

section \<open>The front button\<close>

datatype front = Stay | Show_halt | Show_reboot | Give_up | Do_poweroff | Do_reboot

text \<open>The switch of the main loop: the new count and state, and what is done.\<close>

definition front_switch :: "int \<Rightarrow> int \<Rightarrow> int \<Rightarrow> int \<times> int \<times> front" where
  "front_switch b c st =
     (if st = IDLE then
        (if b = NO_BT then (0, st, Stay) else if c = HALT then (c, HALT, Show_halt) else (c, st, Stay))
      else if st = HALT then
        (if b = NO_BT then (0, IDLE, Do_poweroff) else if c = REBOOT then (c, REBOOT, Show_reboot) else (c, st, Stay))
      else if st = REBOOT then
        (if b = NO_BT then (0, IDLE, Do_reboot) else if c = ABORT then (0, IDLE, Give_up) else (c, st, Stay))
      else (c, st, Stay))"

definition front_do :: "env \<Rightarrow> box \<Rightarrow> front \<Rightarrow> (os, int, unit) op" where
  "front_do e b f s =
     (case f of
        Stay \<Rightarrow> (Inr (), s)
      | Show_halt \<Rightarrow> (Inr (), led_blink e (leds b) right_led ''250'' ''250'' s)
      | Show_reboot \<Rightarrow> (Inr (), led_blink e (leds b) left_led ''250'' ''250'' (led_set e (leds b) right_led ''0'' s))
      | Give_up \<Rightarrow> (Inr (), leds_off e (leds b) s)
      | Do_poweroff \<Rightarrow> poweroff e (args b) (leds_off e (leds b) s)
      | Do_reboot \<Rightarrow> reboot e (args b) (leds_off e (leds b) s))"

section \<open>The main loop\<close>

definition run_fan :: "env \<Rightarrow> (nat \<Rightarrow> string) \<Rightarrow> (daemon, int, unit) op" where
  "run_fan e stamp d =
     (let due = fan_count d mod 15 = 0; d = d\<lparr>fan_count := fan_count d + 1\<rparr>
      in if due then
           (case fanctl e stamp (bx d) (disks d) (fan d) (mach d) of
              (Inl x, s) \<Rightarrow> (Inl x, d\<lparr>mach := s\<rparr>)
            | (Inr f, s) \<Rightarrow> (Inr (), d\<lparr>fan := f, mach := s\<rparr>))
         else (Inr (), d))"

definition run_debounce :: "env \<Rightarrow> (daemon, int, int) op" where
  "run_debounce e d =
     (case debounce e (board (bx d)) (args (bx d)) (kb d, mach d) of
        (r, k, s) \<Rightarrow> (r, d\<lparr>kb := k, mach := s\<rparr>))"

definition housekeeping :: "env \<Rightarrow> int \<Rightarrow> daemon \<Rightarrow> daemon" where
  "housekeeping e b d =
     (let d = d\<lparr>powercheck_count := powercheck_count d + 1\<rparr>
      in if powercheck_count d mod 5 = 0 \<and> b = NO_BT then
           (case hdd_powercheck e (leds (bx d)) (nslots (bx d)) (ndisks d) 0 (disks d, mach d) of
              (ds, s) \<Rightarrow>
                (case status_leds e (leds (bx d)) (junk_str e) (junk_str e) (junk e) (lq d, s) of
                   (q, s) \<Rightarrow> d\<lparr>disks := ds, lq := q, mach := s\<rparr>))
         else d)"

text \<open>What follows the reading of the button \<open>b\<close>; a back button starts the next round at once.\<close>

definition front_round :: "env \<Rightarrow> int \<Rightarrow> (daemon, int, unit) op" where
  "front_round e b d =
     (case front_switch b (count d) (lstate d) of
        (c, st, f) \<Rightarrow>
          (case front_do e (bx d) f (mach d) of
             (Inl x, s) \<Rightarrow> (Inl x, d\<lparr>count := c, lstate := st, mach := s\<rparr>)
           | (Inr _, s) \<Rightarrow> (Inr (), d\<lparr>count := c, lstate := st, mach := tick 1000000 s\<rparr>)))"

definition react :: "env \<Rightarrow> int \<Rightarrow> daemon \<Rightarrow> ((int + unit) \<times> daemon) option" where
  "react e b d =
     (let d = (if b \<noteq> 0 \<and> lstate d = IDLE then d\<lparr>mach := leds_off e (leds (bx d)) (mach d)\<rparr> else d)
      in if b = RESET_BT \<or> b = USB_BT then
           (case back_button e (bx d) (kb d, mach d) of
              None \<Rightarrow> None
            | Some (r, k, s) \<Rightarrow> Some (r, d\<lparr>kb := k, mach := s\<rparr>))
         else Some (front_round e b d))"

definition sense :: "env \<Rightarrow> (nat \<Rightarrow> string) \<Rightarrow> (daemon, int, int) op" where
  "sense e stamp = bindE (run_fan e stamp) (\<lambda>_. run_debounce e)"

text \<open>One round of the loop: \<open>None\<close> when a back button is never released, \<open>Inl\<close> when the process ends.\<close>

definition loop_round :: "env \<Rightarrow> (nat \<Rightarrow> string) \<Rightarrow> daemon \<Rightarrow> ((int + unit) \<times> daemon) option" where
  "loop_round e stamp d =
     (case sense e stamp d of
        (Inl x, d) \<Rightarrow> Some (Inl x, d)
      | (Inr b, d) \<Rightarrow> react e b (housekeeping e b (d\<lparr>count := count d + 1\<rparr>)))"

section \<open>Signals\<close>

definition reread_config :: "env \<Rightarrow> daemon \<Rightarrow> daemon option" where
  "reread_config e d =
     (case read_config e (mach d) (args (bx d)) of
        None \<Rightarrow> None
      | Some a \<Rightarrow> Some (d\<lparr>bx := (bx d)\<lparr>args := a\<rparr>\<rparr>))"

definition reread_bay :: "env \<Rightarrow> daemon \<Rightarrow> daemon" where
  "reread_bay e d =
     (case read_bay e (nslots (bx d)) (ndisks d, disks d) (mach d) of
        ((n, ds), s) \<Rightarrow> d\<lparr>ndisks := n, disks := ds, mach := s\<rparr>)"

definition reread_misc :: "env \<Rightarrow> daemon \<Rightarrow> daemon" where
  "reread_misc e d =
     (case read_misc e (nslots (bx d)) (disks d) (mach d) of (ds, s) \<Rightarrow> d\<lparr>disks := ds, mach := s\<rparr>)"

definition sighup_handler :: "env \<Rightarrow> daemon \<Rightarrow> daemon option" where
  "sighup_handler e d = map_option (\<lambda>d. reread_misc e (reread_bay e d)) (reread_config e d)"

definition IN_IGNORED :: nat where "IN_IGNORED = 0x8000"

text \<open>
  The events in the inotify buffer: watch descriptor and mask. A file that was replaced is watched anew, with the
  descriptor \<open>add\<close> gives for its path.
\<close>

definition inotify_event ::
  "(string \<Rightarrow> int) \<Rightarrow> int \<times> nat \<Rightarrow> daemon \<times> bool \<times> bool \<times> bool \<Rightarrow> daemon \<times> bool \<times> bool \<times> bool" where
  "inotify_event add ev = (\<lambda>(d, miscf, bayf, conff).
     (case ev of (wd, msk) \<Rightarrow>
        if wd = wd_misc d then
          (if msk = IN_IGNORED then d\<lparr>wd_misc := add ''/etc/misc.conf''\<rparr> else d, True, bayf, conff)
        else if wd = wd_bay d then
          (if msk = IN_IGNORED then d\<lparr>wd_bay := add ''/etc/bay''\<rparr> else d, miscf, True, conff)
        else if wd = wd_conf d then
          (if msk = IN_IGNORED then d\<lparr>wd_conf := add ''/etc/sysctrl.conf''\<rparr> else d, miscf, bayf, True)
        else (d, miscf, bayf, conff)))"

definition inotify_handler :: "env \<Rightarrow> (string \<Rightarrow> int) \<Rightarrow> (int \<times> nat) list \<Rightarrow> daemon \<Rightarrow> daemon option" where
  "inotify_handler e add evs d =
     (case fold (inotify_event add) evs (d, False, False, False) of
        (d, miscf, bayf, conff) \<Rightarrow>
          (let d = (if bayf then reread_bay e d else d);
               d = (if miscf then reread_misc e d else d)
           in if conff then reread_config e d else Some d))"

definition quit_handler :: "env \<Rightarrow> (daemon, int, unit) op" where
  "quit_handler e d = (Inl 0, d\<lparr>mach := act (Exit 0) (write_pwm e 127 (mach d))\<rparr>)"

section \<open>Start-up\<close>

definition pidf :: string where "pidf = ''/var/run/sysctrl.pid''"

text \<open>
  \<open>check_other_daemon\<close>: an existing pid file of a live process ends this one, and so does one without a number in
  it; a stale one is replaced. Creating the file anew succeeds.
\<close>

definition check_other_daemon :: "env \<Rightarrow> (os, int, unit) op" where
  "check_other_daemon e s =
     (let own = s\<lparr>files := (files s)(pidf \<mapsto> dec_int (self e) @ [CHR 0x0A])\<rparr>
      in (case files s pidf of
            None \<Rightarrow> (Inr (), own)
          | Some c \<Rightarrow>
              (case scan_d c of
                 None \<Rightarrow> (Inl 1, s)
               | Some opid \<Rightarrow> if alive e opid then (Inl 1, s) else (Inr (), own))))"

definition start :: "env \<Rightarrow> (string \<Rightarrow> int) \<Rightarrow> box \<Rightarrow> os \<Rightarrow> daemon" where
  "start e add b s =
     \<lparr>bx = b, disks = on_slots (nslots b) (\<lambda>d. d\<lparr>power_state := 1\<rparr>) (replicate 3 blank_disk), ndisks = 0,
      fan = initial_fan, lq = initial_ledq, kb = initial_kbd, mach = s, count = 0, lstate = IDLE,
      powercheck_count = 4, fan_count = 14, wd_misc = add ''/etc/misc.conf'', wd_bay = add ''/etc/bay'',
      wd_conf = add ''/etc/sysctrl.conf''\<rparr>"

text \<open>\<open>main\<close> up to the loop: the exit code, or the daemon that enters the loop; \<open>None\<close> is the crash of \<open>read_config\<close>.\<close>

definition boot :: "env \<Rightarrow> (string \<Rightarrow> int) \<Rightarrow> os \<Rightarrow> (int + daemon) option" where
  "boot e add s =
     (case bindE (check_board e initial_box) (\<lambda>b. bindE (check_other_daemon e) (\<lambda>_. retE b)) s of
        (Inl x, _) \<Rightarrow> Some (Inl x)
      | (Inr b, s) \<Rightarrow>
          (case reread_config e (reread_misc e (reread_bay e (start e add b s))) of
             None \<Rightarrow> None
           | Some d \<Rightarrow> Some (Inr (d\<lparr>mach := leds_off e (leds (bx d)) (mach d)\<rparr>))))"

section \<open>Reachable states\<close>

text \<open>
  A step is a round of the loop, a signal, or a change of the machine: other processes write files, button events
  arrive and time passes, while the record of the daemon's own actions stays.
\<close>

inductive step :: "daemon \<Rightarrow> daemon \<Rightarrow> bool" where
  round: "loop_round e stamp d = Some (Inr (), d') \<Longrightarrow> step d d'"
| hup: "sighup_handler e d = Some d' \<Longrightarrow> step d d'"
| inotify: "inotify_handler e add evs d = Some d' \<Longrightarrow> step d d'"
| world: "now (mach d) \<le> now s \<Longrightarrow> acts s = acts (mach d) \<Longrightarrow> step d (d\<lparr>mach := s\<rparr>)"

inductive reach :: "daemon \<Rightarrow> bool" where
  boots: "boot e add s = Some (Inr d) \<Longrightarrow> reach d"
| steps: "reach d \<Longrightarrow> step d d' \<Longrightarrow> reach d'"

inductive_cases stepE: "step d d'"

section \<open>Holding the front button\<close>

text \<open>Count and state after \<open>k\<close> rounds with the front button down.\<close>

fun held :: "nat \<Rightarrow> int \<times> int" where
  "held 0 = (0, IDLE)"
| "held (Suc k) = (case held k of (c, st) \<Rightarrow> (case front_switch FRONT_BT (c + 1) st of (c', st', f) \<Rightarrow> (c', st')))"

lemma held_mod:
  "held k = (int (k mod 9), if k mod 9 < 3 then IDLE else if k mod 9 < 6 then HALT else REBOOT)"
proof (induction k)
  case (Suc k)
  have "k mod 9 = 0 \<or> k mod 9 = 1 \<or> k mod 9 = 2 \<or> k mod 9 = 3 \<or> k mod 9 = 4 \<or> k mod 9 = 5 \<or>
      k mod 9 = 6 \<or> k mod 9 = 7 \<or> k mod 9 = 8" by presburger
  then show ?case
    by (elim disjE) (simp_all add: Suc mod_Suc front_switch_def loop_states buttons)
qed simp

definition release_act :: "nat \<Rightarrow> front" where
  "release_act k = (if k mod 9 < 3 then Stay else if k mod 9 < 6 then Do_poweroff else Do_reboot)"

lemma release_held:
  "front_switch NO_BT (fst (held k) + 1) (snd (held k)) = (0, IDLE, release_act k)"
  by (simp add: held_mod front_switch_def release_act_def loop_states)

text \<open>The parts of a round before the switch leave count and state alone.\<close>

lemma sense_frame:
  assumes "sense e stamp d = (r, d')"
  shows "count d' = count d" "lstate d' = lstate d" "bx d' = bx d" "lq d' = lq d" "ndisks d' = ndisks d"
    "disks d' = disks d"
  using assms
  by (auto simp: sense_def bindE_def run_fan_def run_debounce_def Let_def split: if_splits sum.splits prod.splits)

lemma housekeeping_frame [simp]:
  "count (housekeeping e b d) = count d" "lstate (housekeeping e b d) = lstate d" "bx (housekeeping e b d) = bx d"
  "kb (housekeeping e b d) = kb d" "ndisks (housekeeping e b d) = ndisks d" "fan (housekeeping e b d) = fan d"
  by (simp_all add: housekeeping_def Let_def split: prod.split)

lemma front_do_Inr: "f \<noteq> Do_poweroff \<Longrightarrow> f \<noteq> Do_reboot \<Longrightarrow> \<exists>s'. front_do e b f s = (Inr (), s')"
  by (cases f) (simp_all add: front_do_def)

text \<open>A round that went on and in which the button \<open>b\<close> was read.\<close>

definition round_with :: "int \<Rightarrow> daemon \<Rightarrow> daemon \<Rightarrow> bool" where
  "round_with b d d' \<longleftrightarrow>
     (\<exists>e stamp d1. sense e stamp d = (Inr b, d1) \<and>
        react e b (housekeeping e b (d1\<lparr>count := count d1 + 1\<rparr>)) = Some (Inr (), d'))"

lemma loop_round_with: "loop_round e stamp d = Some (Inr (), d') \<Longrightarrow> \<exists>b. round_with b d d'"
  by (auto simp: loop_round_def round_with_def split: prod.splits sum.splits)

lemma front_round_state:
  assumes "front_round e b d = (Inr u, d')" and "front_switch b (count d) (lstate d) = (c, st, f)"
  shows "count d' = c \<and> lstate d' = st \<and> bx d' = bx d \<and> disks d' = disks d \<and> lq d' = lq d \<and> fan d' = fan d"
  using assms by (auto simp: front_round_def split: prod.splits sum.splits)

lemma round_with_state:
  assumes "round_with b d d'"
  shows "bx d' = bx d \<and>
    (if b = RESET_BT \<or> b = USB_BT then count d' = count d + 1 \<and> lstate d' = lstate d
     else (\<exists>f. front_switch b (count d + 1) (lstate d) = (count d', lstate d', f)))"
proof -
  obtain e stamp d1 where s: "sense e stamp d = (Inr b, d1)"
    and r: "react e b (housekeeping e b (d1\<lparr>count := count d1 + 1\<rparr>)) = Some (Inr (), d')"
    using assms by (auto simp: round_with_def)
  note fr = sense_frame [OF s]
  let ?h = "housekeeping e b (d1\<lparr>count := count d1 + 1\<rparr>)"
  let ?g = "if b \<noteq> 0 \<and> lstate ?h = IDLE then ?h\<lparr>mach := leds_off e (leds (bx ?h)) (mach ?h)\<rparr> else ?h"
  have g: "count ?g = count d + 1" "lstate ?g = lstate d" "bx ?g = bx d" using fr by simp_all
  show ?thesis
  proof (cases "b = RESET_BT \<or> b = USB_BT")
    case True
    then have "count d' = count ?g \<and> lstate d' = lstate ?g \<and> bx d' = bx ?g"
      using r by (auto simp: react_def Let_def split: option.splits prod.splits)
    then show ?thesis using True g by auto
  next
    case False
    then have f: "front_round e b ?g = (Inr (), d')" using r by (simp add: react_def Let_def)
    obtain c st f' where sw: "front_switch b (count ?g) (lstate ?g) = (c, st, f')"
      by (cases "front_switch b (count ?g) (lstate ?g)")
    from front_round_state [OF f sw] sw show ?thesis using False g by auto
  qed
qed

text \<open>Rounds with the front button down, with signals and changes of the machine in between.\<close>

inductive held_rounds :: "nat \<Rightarrow> daemon \<Rightarrow> daemon \<Rightarrow> bool" where
  held_0: "held_rounds 0 d d"
| held_Suc: "held_rounds k d d1 \<Longrightarrow> round_with FRONT_BT d1 d2 \<Longrightarrow> held_rounds (Suc k) d d2"
| held_signal: "held_rounds k d d1 \<Longrightarrow> sighup_handler e d1 = Some d2 \<Longrightarrow> held_rounds k d d2"
| held_inotify: "held_rounds k d d1 \<Longrightarrow> inotify_handler e add evs d1 = Some d2 \<Longrightarrow> held_rounds k d d2"
| held_world: "held_rounds k d d1 \<Longrightarrow> now (mach d1) \<le> now s \<Longrightarrow> held_rounds k d (d1\<lparr>mach := s\<rparr>)"

lemma reread_frame [simp]:
  "count (reread_bay e d) = count d" "lstate (reread_bay e d) = lstate d"
  "count (reread_misc e d) = count d" "lstate (reread_misc e d) = lstate d"
  "bx (reread_bay e d) = bx d" "bx (reread_misc e d) = bx d" "lq (reread_bay e d) = lq d" "lq (reread_misc e d) = lq d"
  "fan (reread_bay e d) = fan d" "fan (reread_misc e d) = fan d"
  by (simp_all add: reread_bay_def reread_misc_def split: prod.split)

lemma reread_config_frame:
  "reread_config e d = Some d' \<Longrightarrow> count d' = count d \<and> lstate d' = lstate d \<and> disks d' = disks d \<and>
     lq d' = lq d \<and> fan d' = fan d \<and> mach d' = mach d"
  by (auto simp: reread_config_def split: option.splits)

lemma inotify_event_frame:
  assumes "inotify_event add ev (d, m, b, c) = (d', m', b', c')"
  shows "count d' = count d \<and> lstate d' = lstate d \<and> bx d' = bx d \<and> disks d' = disks d \<and> lq d' = lq d \<and>
    fan d' = fan d \<and> mach d' = mach d"
  using assms by (auto simp: inotify_event_def split: prod.splits if_splits)

lemma inotify_fold_frame:
  "fold (inotify_event add) evs (d, m, b, c) = (d', m', b', c') \<Longrightarrow>
   count d' = count d \<and> lstate d' = lstate d \<and> bx d' = bx d \<and> disks d' = disks d \<and> lq d' = lq d \<and>
   fan d' = fan d \<and> mach d' = mach d"
proof (induction evs arbitrary: d m b c)
  case (Cons ev evs)
  obtain d1 m1 b1 c1 where 1: "inotify_event add ev (d, m, b, c) = (d1, m1, b1, c1)"
    by (cases "inotify_event add ev (d, m, b, c)")
  from Cons.IH [of d1 m1 b1 c1] Cons.prems inotify_event_frame [OF 1] show ?case by (simp add: 1)
qed simp

lemma handlers_frame:
  "sighup_handler e d = Some d' \<Longrightarrow> count d' = count d \<and> lstate d' = lstate d"
  "inotify_handler e add evs d = Some d' \<Longrightarrow> count d' = count d \<and> lstate d' = lstate d"
proof -
  show "sighup_handler e d = Some d' \<Longrightarrow> count d' = count d \<and> lstate d' = lstate d"
    using reread_config_frame by (fastforce simp: sighup_handler_def)
  assume h: "inotify_handler e add evs d = Some d'"
  obtain d1 m b c where f: "fold (inotify_event add) evs (d, False, False, False) = (d1, m, b, c)"
    by (cases "fold (inotify_event add) evs (d, False, False, False)")
  let ?d2 = "if b then reread_bay e d1 else d1"
  let ?d3 = "if m then reread_misc e ?d2 else ?d2"
  have "count ?d3 = count d \<and> lstate ?d3 = lstate d" using inotify_fold_frame [OF f] by simp
  moreover have "(if c then reread_config e ?d3 else Some ?d3) = Some d'"
    using h by (simp add: inotify_handler_def f Let_def)
  ultimately show "count d' = count d \<and> lstate d' = lstate d"
    using reread_config_frame [of e ?d3 d'] by (cases c) auto
qed

lemma held_rounds_state:
  "held_rounds k d d' \<Longrightarrow> (count d, lstate d) = held 0 \<Longrightarrow> (count d', lstate d') = held k"
proof (induction rule: held_rounds.induct)
  case (held_Suc k d d1 d2)
  obtain c st where h: "held k = (c, st)" by (cases "held k")
  then have "count d1 = c" "lstate d1 = st" using held_Suc by simp_all
  then show ?case using round_with_state [OF held_Suc.hyps(2)] h by (auto simp: buttons)
next
  case (held_signal k d d1 e d2)
  then show ?case using handlers_frame(1) [OF held_signal.hyps(2)] by simp
next
  case (held_inotify k d d1 e add evs d2)
  then show ?case using handlers_frame(2) [OF held_inotify.hyps(2)] by simp
qed simp_all


lemma idle_front_round:
  assumes "\<not> poweroff_board (board (bx d))" and "fan_count d mod 15 \<noteq> 0" and "events (mach d) = []"
    and "kb d = \<lparr>bt = FRONT_BT, fd_open = True\<rparr>"
  shows "\<exists>d'. round_with FRONT_BT d d' \<and> events (mach d') = [] \<and> kb d' = kb d \<and> fan_count d' = fan_count d + 1 \<and> bx d' = bx d"
proof -
  let ?d = "d\<lparr>fan_count := fan_count d + 1\<rparr>"
  have "debounce demo_env (board (bx d)) (args (bx d)) (kb d, mach d) = (Inr FRONT_BT, (kb d, mach d))"
    using assms debounce_idle [of "kb d" 0 "mach d" demo_env] by (simp add: debounce_plain quiet_def)
  then have s: "sense demo_env (\<lambda>_. []) d = (Inr FRONT_BT, ?d)"
    using assms(2) by (simp add: sense_def bindE_def run_fan_def run_debounce_def Let_def)
  let ?h = "?d\<lparr>count := count d + 1, powercheck_count := powercheck_count d + 1\<rparr>"
  have hk: "housekeeping demo_env FRONT_BT (?d\<lparr>count := count ?d + 1\<rparr>) = ?h"
    by (simp add: housekeeping_def Let_def buttons)
  let ?g = "if lstate ?h = IDLE then ?h\<lparr>mach := leds_off demo_env (leds (bx d)) (mach d)\<rparr> else ?h"
  obtain c st f where sw: "front_switch FRONT_BT (count ?g) (lstate ?g) = (c, st, f)"
    by (cases "front_switch FRONT_BT (count ?g) (lstate ?g)")
  then have "f \<noteq> Do_poweroff" "f \<noteq> Do_reboot" by (auto simp: front_switch_def buttons split: if_splits)
  then obtain s' where fd: "front_do demo_env (bx d) f (mach ?g) = (Inr (), s')" using front_do_Inr by blast
  then have ev: "events s' = events (mach ?g)"
    using \<open>f \<noteq> Do_poweroff\<close> \<open>f \<noteq> Do_reboot\<close> by (cases f) (auto simp: front_do_def)
  have bx: "bx ?g = bx d" by simp
  have "front_round demo_env FRONT_BT ?g = (Inr (), ?g\<lparr>count := c, lstate := st, mach := tick 1000000 s'\<rparr>)"
    unfolding front_round_def sw bx prod.case fd by simp
  then have "react demo_env FRONT_BT ?h = Some (Inr (), ?g\<lparr>count := c, lstate := st, mach := tick 1000000 s'\<rparr>)"
    by (cases "lstate d = IDLE") (simp_all add: react_def Let_def buttons)
  then have "round_with FRONT_BT d (?g\<lparr>count := c, lstate := st, mach := tick 1000000 s'\<rparr>)"
    unfolding round_with_def using s hk by metis
  then show ?thesis using ev assms(3) by (intro exI conjI) (assumption, simp_all)
qed

definition held_daemon :: daemon where
  "held_daemon = (start demo_env (\<lambda>_. 0) initial_box raid_os)\<lparr>kb := \<lparr>bt = FRONT_BT, fd_open = True\<rparr>, fan_count := 1\<rparr>"


section \<open>The invariant of the daemon\<close>

definition count_ok :: "daemon \<Rightarrow> bool" where
  "count_ok d \<longleftrightarrow> 0 \<le> count d \<and> (lstate d = IDLE \<or> lstate d = HALT \<and> HALT \<le> count d \<or> lstate d = REBOOT \<and> REBOOT \<le> count d)"

definition box_ok :: "box \<Rightarrow> bool" where
  "box_ok b \<longleftrightarrow> length (leds b) = 4 \<and> nslots b \<le> 3 \<and> fan_mode (args b) \<in> {0..3}"

definition fan_ok :: "fan_st \<Rightarrow> bool" where
  "fan_ok f \<longleftrightarrow> warn f \<in> {0, 1} \<and> crit f \<in> {0, 1}"

definition daemon_ok :: "daemon \<Rightarrow> bool" where
  "daemon_ok d \<longleftrightarrow> count_ok d \<and> box_ok (bx d) \<and> length (disks d) = 3 \<and> ledq_ok (lq d) \<and> fan_ok (fan d)"

lemma front_switch_ok:
  assumes "0 \<le> c" and "st = IDLE \<or> st = HALT \<and> HALT \<le> c \<or> st = REBOOT \<and> REBOOT \<le> c"
    and "front_switch b (c + 1) st = (c', st', f)"
  shows "0 \<le> c' \<and> (st' = IDLE \<or> st' = HALT \<and> HALT \<le> c' \<or> st' = REBOOT \<and> REBOOT \<le> c')"
  using assms by (auto simp: front_switch_def loop_states split: if_splits)

lemma read_config_mode: "fan_mode a \<in> {0..3} \<Longrightarrow> read_config e s a = Some b \<Longrightarrow> fan_mode b \<in> {0..3}"
proof -
  have c: "fan_mode a \<in> {0..3} \<Longrightarrow> fan_mode (config e n v a) \<in> {0..3}" for n v a
    by (simp add: config_def fan_modes)
  have l: "fan_mode a \<in> {0..3} \<Longrightarrow> config_lines e ls a = Some b \<Longrightarrow> fan_mode b \<in> {0..3}" for ls a
  proof (induction ls arbitrary: a)
    case (Cons l ls)
    then obtain a' where a': "config_line e l a = Some a'" "config_lines e ls a' = Some b" by (auto split: option.splits)
    have "fan_mode a' \<in> {0..3}"
      using a'(1) c [OF Cons.prems(1)] Cons.prems(1) by (auto simp: config_line_def Let_def split: if_splits option.splits)
    then show ?case using Cons.IH a'(2) by blast
  qed simp
  show "fan_mode a \<in> {0..3} \<Longrightarrow> read_config e s a = Some b \<Longrightarrow> fan_mode b \<in> {0..3}"
    using l by (auto simp: read_config_def split: option.splits)
qed

lemma reread_config_ok: "daemon_ok d \<Longrightarrow> reread_config e d = Some d' \<Longrightarrow> daemon_ok d'"
  using read_config_mode [of "args (bx d)" e "mach d"]
  by (auto simp: reread_config_def daemon_ok_def count_ok_def box_ok_def split: option.splits)

lemma length_set_slot [simp]: "length (set_slot i f ds) = length ds"
  by (simp add: set_slot_def)

lemma fold_keeps: "(\<And>x st. g (h x st) = g st) \<Longrightarrow> g (fold h xs st) = g st"
  by (induction xs arbitrary: st) simp_all

lemma reread_disks_ok: "daemon_ok d \<Longrightarrow> daemon_ok (reread_bay e d)" "daemon_ok d \<Longrightarrow> daemon_ok (reread_misc e d)"
proof -
  have b: "length (snd (bay_line l st)) = length (snd st)" for l st
    by (auto simp: bay_line_def plug_def split: option.split prod.split)
  have "length (snd (fold bay_line ls st)) = length (snd st)" for ls st
    using fold_keeps [of "\<lambda>st. length (snd st)" bay_line, OF b] .
  then have "length (disks (reread_bay e d)) = length (disks d)"
    by (auto simp: reread_bay_def read_bay_def split: option.split prod.split) (metis length_on_slots snd_conv)
  then show "daemon_ok d \<Longrightarrow> daemon_ok (reread_bay e d)" by (simp add: daemon_ok_def count_ok_def)
  have m: "length (snd (misc_line l st)) = length (snd st)" for l st
    by (auto simp: misc_line_def Let_def split: option.split prod.split)
  have "length (snd (fold misc_line ls st)) = length (snd st)" for ls st
    using fold_keeps [of "\<lambda>st. length (snd st)" misc_line, OF m] .
  then have "length (disks (reread_misc e d)) = length (disks d)"
    by (auto simp: reread_misc_def read_misc_def split: option.split prod.split)
  then show "daemon_ok d \<Longrightarrow> daemon_ok (reread_misc e d)" by (simp add: daemon_ok_def count_ok_def)
qed

lemma sighup_ok: "daemon_ok d \<Longrightarrow> sighup_handler e d = Some d' \<Longrightarrow> daemon_ok d'"
  using reread_config_ok reread_disks_ok by (auto simp: sighup_handler_def)

lemma inotify_ok:
  assumes "daemon_ok d" and "inotify_handler e add evs d = Some d'"
  shows "daemon_ok d'"
proof -
  obtain d1 m b c where f: "fold (inotify_event add) evs (d, False, False, False) = (d1, m, b, c)"
    by (cases "fold (inotify_event add) evs (d, False, False, False)")
  have "daemon_ok d1" using inotify_fold_frame [OF f] assms(1) by (simp add: daemon_ok_def count_ok_def)
  then have "daemon_ok (if m then reread_misc e (if b then reread_bay e d1 else d1) else (if b then reread_bay e d1 else d1))"
    using reread_disks_ok by simp
  then show ?thesis using assms(2) reread_config_ok by (auto simp: inotify_handler_def f Let_def split: if_splits)
qed

lemma fanctl_parts:
  assumes "fanctl e stamp b ds f s = (Inr f', s')"
  shows "\<exists>f1 s1 u s2 dt s3. first_temp e f s = (Inr f1, s1) \<and> read_temp e s1 = (Inr u, s2) \<and>
    (if disks_temp (args b) \<noteq> 0 then read_disks_temp e (nslots b) ds s2 else (0, s2)) = (dt, s3) \<and>
    fan_round e stamp (board b) (args b) (u sdiv 1000) dt (f1, s3) = (f', s')"
proof -
  obtain f1 s1 u s2 where 1: "first_temp e f s = (Inr f1, s1)" "read_temp e s1 = (Inr u, s2)"
    and 2: "(let stemp = u sdiv 1000;
            (dtemp, s) = (if disks_temp (args b) \<noteq> 0 then read_disks_temp e (nslots b) ds s2 else (0, s2));
            (f, s) = fan_round e stamp (board b) (args b) stemp dtemp (f1, s)
        in (Inr f, s)) = (Inr f' :: int + fan_st, s')"
    using assms unfolding fanctl_def bindE_Inr_iff by blast
  obtain dt s3 where 3: "(if disks_temp (args b) \<noteq> 0 then read_disks_temp e (nslots b) ds s2 else (0, s2)) = (dt, s3)"
    by fastforce
  obtain f2 s4 where 4: "fan_round e stamp (board b) (args b) (u sdiv 1000) dt (f1, s3) = (f2, s4)" by fastforce
  have "f2 = f'" "s4 = s'" using 2 unfolding Let_def 3 prod.case 4 by simp_all
  then show ?thesis using 1 3 4 by blast
qed

lemma fanctl_ok: "fan_ok f \<Longrightarrow> fanctl e stamp b ds f s = (Inr f', s') \<Longrightarrow> fan_ok f'"
proof -
  have w: "fan_ok (fst (warn_step e a n (f, s)))" if "fan_ok f" for a n f s
    using that by (auto simp: warn_step_def Let_def fan_ok_def)
  have c: "fan_ok (fst (crit_step e a n (f, s)))" if "fan_ok f" for a n f s
    using that by (auto simp: crit_step_def Let_def fan_ok_def)
  have cw: "fan_ok (fst (crit_step e a n (warn_step e a n (f, s))))" if "fan_ok f" for a n f s
    using c w [OF that] by (metis prod.collapse)
  have r: "fan_ok (fst (fan_round e stamp bd a st dt (f, s)))" if "fan_ok f" for bd a st dt f s
    unfolding fan_round_def Let_def prod.case
    by (auto split: prod.split intro!: cw) (use that in \<open>auto simp: fan_ok_def\<close>)
  assume f: "fan_ok f" and x: "fanctl e stamp b ds f s = (Inr f', s')"
  from fanctl_parts [OF x] obtain f1 s1 u s2 dt s3 where 1: "first_temp e f s = (Inr f1, s1)"
    and 2: "fan_round e stamp (board b) (args b) (u sdiv 1000) dt (f1, s3) = (f', s')" by blast
  have "fan_ok f1" using 1(1) f by (auto simp: first_temp_def bindE_Inr_iff fan_ok_def split: if_splits)
  then show ?thesis using 2 r [of f1 "board b" "args b" "u sdiv 1000" dt s3] by simp
qed

lemma hdd_powercheck_length:
  "hdd_powercheck e ls n k z (ds, s) = (ds', s') \<Longrightarrow> length ds' = length ds"
proof -
  have c: "length (fst (snd (check_slot e ls z i st))) = length (fst (snd st))" for i st
    by (cases st) (auto simp: check_slot_def split: option.split prod.split)
  have "length (fst (snd (fold (check_slot e ls z) is st))) = length (fst (snd st))" for "is" st
    using fold_keeps [of "\<lambda>st. length (fst (snd st))" "check_slot e ls z", OF c] .
  then show "hdd_powercheck e ls n k z (ds, s) = (ds', s') \<Longrightarrow> length ds' = length ds"
    by (auto simp: hdd_powercheck_def split: prod.splits) (metis fst_conv snd_conv)
qed

lemma status_leds_ok: "ledq_ok q \<Longrightarrow> status_leds e ls j1 j2 j3 (q, s) = (q', s') \<Longrightarrow> ledq_ok q'"
proof -
  assume q: "ledq_ok q" and st: "status_leds e ls j1 j2 j3 (q, s) = (q', s')"
  obtain r1 q1 s1 where 1: "md_stat e j1 j2 j3 (q, s) = (r1, q1, s1)" by (cases "md_stat e j1 j2 j3 (q, s)")
  obtain r2 q2 s2 where 2: "check_syserrlog (q1, s1) = (r2, q2, s2)" by (cases "check_syserrlog (q1, s1)")
  have ok: "ledq_ok q2" using check_syserrlog_ok [OF md_stat_ok [OF q 1] 2] by blast
  obtain a b c where l: "leds_pqueue q2 = [a, b, c]" using queue_three [OF ok] by blast
  show "ledq_ok q'" using st served_ok [OF ok l] by (simp add: status_leds_def 1 2 leds_proc_eq [OF l])
qed

lemma run_fan_ok: "daemon_ok d \<Longrightarrow> run_fan e stamp d = (Inr u, d') \<Longrightarrow> daemon_ok d'"
  using fanctl_ok [of "fan d" e stamp "bx d" "disks d" "mach d"]
  by (auto simp: run_fan_def Let_def daemon_ok_def count_ok_def split: if_splits prod.splits sum.splits)

lemma sense_ok: "daemon_ok d \<Longrightarrow> sense e stamp d = (Inr b, d') \<Longrightarrow> daemon_ok d'"
proof -
  assume ok: "daemon_ok d" and s: "sense e stamp d = (Inr b, d')"
  from s obtain u d1 where 1: "run_fan e stamp d = (Inr u, d1)" "run_debounce e d1 = (Inr b, d')"
    unfolding sense_def bindE_Inr_iff by blast
  from run_fan_ok [OF ok 1(1)] 1(2) show "daemon_ok d'"
    by (auto simp: run_debounce_def daemon_ok_def count_ok_def split: prod.splits)
qed

lemma housekeeping_ok: "daemon_ok d \<Longrightarrow> daemon_ok (housekeeping e b d)"
proof -
  assume ok: "daemon_ok d"
  let ?d = "d\<lparr>powercheck_count := powercheck_count d + 1\<rparr>"
  obtain ds s where h: "hdd_powercheck e (leds (bx d)) (nslots (bx d)) (ndisks d) 0 (disks d, mach d) = (ds, s)"
    by fastforce
  obtain q s' where l: "status_leds e (leds (bx d)) (junk_str e) (junk_str e) (junk e) (lq d, s) = (q, s')"
    by fastforce
  have "length ds = 3" "ledq_ok q"
    using ok hdd_powercheck_length [OF h] status_leds_ok [OF _ l] by (simp_all add: daemon_ok_def)
  then show ?thesis using ok by (simp add: housekeeping_def Let_def h l daemon_ok_def count_ok_def)
qed

lemma react_ok:
  assumes "daemon_ok d" and "0 < count d" and "react e b d = Some (Inr (), d')"
    and "lstate d = IDLE \<or> lstate d = HALT \<and> HALT \<le> count d - 1 \<or> lstate d = REBOOT \<and> REBOOT \<le> count d - 1"
  shows "daemon_ok d'"
proof -
  let ?g = "if b \<noteq> 0 \<and> lstate d = IDLE then d\<lparr>mach := leds_off e (leds (bx d)) (mach d)\<rparr> else d"
  have g: "daemon_ok ?g" using assms(1) by (simp add: daemon_ok_def count_ok_def)
  show ?thesis
  proof (cases "b = RESET_BT \<or> b = USB_BT")
    case True
    then show ?thesis using assms(3) g
      by (auto simp: react_def Let_def daemon_ok_def count_ok_def split: option.splits prod.splits if_splits)
  next
    case False
    then have f: "front_round e b ?g = (Inr (), d')" using assms(3) by (simp add: react_def Let_def)
    obtain c st f' where sw0: "front_switch b (count d) (lstate d) = (c, st, f')"
      by (cases "front_switch b (count d) (lstate d)")
    have g2: "count ?g = count d" "lstate ?g = lstate d" by simp_all
    have sw: "front_switch b (count ?g) (lstate ?g) = (c, st, f')" unfolding g2 by (rule sw0)
    have "front_switch b ((count d - 1) + 1) (lstate d) = (c, st, f')" using sw0 by simp
    from front_switch_ok [OF _ assms(4) this] assms(2)
    have "0 \<le> c \<and> (st = IDLE \<or> st = HALT \<and> HALT \<le> c \<or> st = REBOOT \<and> REBOOT \<le> c)" by simp
    then show ?thesis using front_round_state [OF f sw] g by (auto simp: daemon_ok_def count_ok_def)
  qed
qed

lemma round_ok: "daemon_ok d \<Longrightarrow> loop_round e stamp d = Some (Inr (), d') \<Longrightarrow> daemon_ok d'"
proof -
  assume ok: "daemon_ok d" and l: "loop_round e stamp d = Some (Inr (), d')"
  from l obtain b d1 where s: "sense e stamp d = (Inr b, d1)"
    and r: "react e b (housekeeping e b (d1\<lparr>count := count d1 + 1\<rparr>)) = Some (Inr (), d')"
    by (auto simp: loop_round_def split: prod.splits sum.splits)
  have ok1: "daemon_ok d1" by (rule sense_ok [OF ok s])
  then have "daemon_ok (d1\<lparr>count := count d1 + 1\<rparr>)" by (auto simp: daemon_ok_def count_ok_def)
  note h = housekeeping_ok [OF this, of e b]
  show "daemon_ok d'"
    using ok1 by (intro react_ok [OF h _ r]) (auto simp: daemon_ok_def count_ok_def)
qed

lemma step_ok: "step d d' \<Longrightarrow> daemon_ok d \<Longrightarrow> daemon_ok d'"
proof (induction rule: step.induct)
  case (world d s)
  then show ?case by (simp add: daemon_ok_def count_ok_def)
qed (blast intro: round_ok sighup_ok inotify_ok)+

lemma boot_ok: "boot e add s = Some (Inr d) \<Longrightarrow> daemon_ok d"
proof -
  assume bo: "boot e add s = Some (Inr d)"
  then obtain b s1 d0 where b: "bindE (check_board e initial_box) (\<lambda>b. bindE (check_other_daemon e) (\<lambda>_. retE b)) s = (Inr b, s1)"
    and r: "reread_config e (reread_misc e (reread_bay e (start e add b s1))) = Some d0"
    and d: "d = d0\<lparr>mach := leds_off e (leds (bx d0)) (mach d0)\<rparr>"
    by (auto simp: boot_def split: prod.splits sum.splits option.splits)
  then obtain res where "set_board res initial_box = Some b"
    unfolding bindE_Inr_iff by (auto simp: check_board_def split: option.splits)
  from set_board_ok [OF this, of e] have "box_ok b" by (simp add: box_ok_def args_ok_def)
  then have "daemon_ok (start e add b s1)"
    by (simp add: daemon_ok_def count_ok_def start_def fan_ok_def initial_fan_def initial_ledq_ok)
  then have "daemon_ok d0" using r reread_config_ok reread_disks_ok by blast
  then show "daemon_ok d" by (simp add: d daemon_ok_def count_ok_def)
qed

text \<open>C21. Every state the daemon can reach, through rounds of the loop, signals and whatever the machine does in
  between, satisfies its invariant: the button state and its count agree, the LED requests agree with the RAID
  and error-log flags, the warning flags are 0 or 1, the tables have their sizes and the fan mode is known.\<close>

theorem reach_ok: "reach d \<Longrightarrow> daemon_ok d"
  by (induction rule: reach.induct) (blast intro: boot_ok step_ok)+


section \<open>Shutting down only when asked to\<close>

text \<open>Nothing but scripts, mails and spin-downs has been done in between.\<close>

definition harmless :: "os \<Rightarrow> os \<Rightarrow> bool" where
  "harmless s s' \<longleftrightarrow> (\<exists>w. acts s' = acts s @ w \<and> (\<forall>p. Execl p \<notin> set w))"

lemma harmless_refl [intro]: "acts s' = acts s \<Longrightarrow> harmless s s'"
  by (simp add: harmless_def)

lemma harmless_trans: "harmless s t \<Longrightarrow> harmless t u \<Longrightarrow> harmless s u"
  by (fastforce simp: harmless_def)

lemma harmless_Execl: "harmless s s' \<Longrightarrow> Execl p \<in> set (acts s') \<Longrightarrow> Execl p \<in> set (acts s)"
  by (auto simp: harmless_def)

lemma exec_harmless: "harmless s (exec_userscript e c t a s)"
  by (auto simp: harmless_def exec_userscript_def split: option.split)

lemma button_read_acts: "button_read s = (b, s') \<Longrightarrow> acts s' = acts s"
proof -
  have sk: "acts (skip_sync s) = acts s" for s
  proof (induction s rule: skip_sync.induct)
    case (1 s)
    obtain r s' where r: "read_ev (tick 10 s) = (r, s')" by (cases "read_ev (tick 10 s)")
    then show ?case using 1 [OF r [symmetric]] read_ev_now [OF r]
      by (subst skip_sync.simps) (auto simp: r split: option.split rd.split)
  qed
  show "button_read s = (b, s') \<Longrightarrow> acts s' = acts s"
    using sk read_ev_now by (fastforce simp: button_read_def split: prod.splits option.splits rd.splits if_splits)
qed

lemma bounce_acts: "bounce n b s = (b', s') \<Longrightarrow> acts s' = acts s"
proof (induction n b s rule: bounce.induct)
  case (1 n b s)
  obtain t u where u: "button_read s = (t, u)" by (cases "button_read s")
  show ?case using 1 button_read_acts [OF u] u
    by (subst (asm) (3) bounce.simps) (auto split: if_splits)
qed

lemma debounce_keys_acts: "debounce_keys e (k, s) = (r, k', s') \<Longrightarrow> acts s' = acts s \<and> (\<exists>b. r = Inr b)"
proof -
  assume d: "debounce_keys e (k, s) = (r, k', s')"
  obtain t k1 s1 where b: "button e (k, s) = (t, k1, s1)" by (cases "button e (k, s)")
  have "acts s1 = acts s" using b button_read_acts [of s] by (auto simp: button_def split: if_splits prod.splits)
  then show ?thesis using d b bounce_acts [of 50 t s1] by (auto simp: debounce_keys_def split: if_splits prod.splits)
qed

lemma led_harmless [intro]:
  "harmless s (leds_off e ls s)" "harmless s (leds_blink e ls s)" "harmless s (led_set e ls i m s)"
  "harmless s (led_blink e ls i m n s)"
  by (simp_all add: harmless_refl)

lemma status_leds_acts: "status_leds e ls j1 j2 j3 (q, s) = (q', s') \<Longrightarrow> acts s' = acts s"
proof -
  have d: "acts (mo (md_dev e i m)) = acts (mo m)" for i m
    by (simp add: md_dev_def md_degraded_def Let_def)
  have f: "acts (mo (fold (md_dev e) is m)) = acts (mo m)" for "is" m
    using fold_keeps [of "\<lambda>m. acts (mo m)" "md_dev e", OF d] .
  have m: "acts (snd (snd (md_stat e j1 j2 j3 (q, s)))) = acts s"
    by (simp add: md_stat_def Let_def f)
  have c: "snd (snd (check_syserrlog (q, s))) = s" for q s
    by (simp add: check_syserrlog_eq)
  have st: "acts (snd (leds_step e ls i st)) = acts (snd st)" for i st
    by (cases st) (simp add: leds_step_def split: ledmode.split)
  have p: "acts (snd (leds_proc e ls st)) = acts (snd st)" for st
    unfolding leds_proc_def using fold_keeps [of "\<lambda>st. acts (snd st)" "leds_step e ls", OF st] .
  show "status_leds e ls j1 j2 j3 (q, s) = (q', s') \<Longrightarrow> acts s' = acts s"
    using m c p by (auto simp: status_leds_def Let_def split: prod.splits) (metis snd_conv)
qed

lemma boot_demo: "\<exists>d. boot demo_env (\<lambda>_. 0) (conf_os []) = Some (Inr d)"
proof -
  let ?b = "no_usb_led (initial_box\<lparr>board := DNS_323_B1\<rparr>)"
  have b: "check_board demo_env initial_box (conf_os []) = (Inr ?b, conf_os [])"
    by (simp add: check_board_def read_str_from_file_def conf_os_def set_board_def)
  have "files (conf_os []) pidf = None" by (simp add: conf_os_def pidf_def)
  then obtain s1 where c: "check_other_daemon demo_env (conf_os []) = (Inr (), s1)"
    "files s1 ''/etc/sysctrl.conf'' = Some []"
    by (simp add: check_other_daemon_def Let_def) (simp add: conf_os_def pidf_def)
  let ?d = "reread_misc demo_env (reread_bay demo_env (start demo_env (\<lambda>_. 0) ?b s1))"
  have "files (mach ?d) ''/etc/sysctrl.conf'' = Some []"
    using c(2) by (auto simp: reread_misc_def reread_bay_def read_misc_def read_bay_def start_def syserrorlog_other
        syserrorfn_def split: option.split prod.split)
  then have "read_config demo_env (mach ?d) (args (bx ?d)) = Some (args (bx ?d))" by (simp add: read_config_def)
  then show ?thesis by (simp add: boot_def bindE_def b c(1) retE_def reread_config_def)
qed

lemma reach_ok_witness: "\<exists>d. reach d \<and> daemon_ok d"
proof -
  obtain d where "boot demo_env (\<lambda>_. 0) (conf_os []) = Some (Inr d)" using boot_demo by blast
  then have "reach d" by (rule boots)
  with reach_ok [OF this] show ?thesis by blast
qed

lemma hdd_powercheck_harmless: "hdd_powercheck e ls n k z (ds, s) = (ds', s') \<Longrightarrow> harmless s s'"
proof -
  have p: "harmless s (snd (snd (disk_power e d x s)))" for d x s
    by (simp add: disk_power_def Let_def harmless_def)
  have c: "harmless (snd (snd st)) (snd (snd (check_slot e ls z i st)))" for i st
  proof -
    obtain a ds s where st: "st = (a, ds, s)" by (cases st)
    show ?thesis
    proof (cases "dev (ds ! i)")
      case None
      then show ?thesis by (simp add: st check_slot_def harmless_refl)
    next
      case (Some d)
      obtain v x t where v: "disk_power e d (ds ! i) s = (v, x, t)" by (cases "disk_power e d (ds ! i) s")
      have "harmless s t" using p [of s d "ds ! i"] by (simp add: v)
      then show ?thesis using Some by (simp add: st check_slot_def v harmless_def)
    qed
  qed
  have "harmless (snd (snd st)) (snd (snd (fold (check_slot e ls z) is st)))" for "is" st
  proof (induction "is" arbitrary: st)
    case (Cons i "is")
    from harmless_trans [OF c [of st i] Cons.IH [of "check_slot e ls z i st"]] show ?case by simp
  qed (simp add: harmless_refl)
  from this [of "(0, ds, s)" "[0..<n]"]
  show "hdd_powercheck e ls n k z (ds, s) = (ds', s') \<Longrightarrow> harmless s s'"
    by (auto simp: hdd_powercheck_def harmless_def split: prod.splits)
qed

lemma lock_tries_acts: "acts (snd (lock_tries e i s)) = acts s"
  by (induction e i s rule: lock_tries.induct) simp_all

lemma dolock_acts: "dolock e s = (r, s') \<Longrightarrow> acts s' = acts s"
  using lock_tries_acts [of e 100 s] by (auto simp: dolock_def split: prod.splits if_splits)

lemma read_temp_acts: "read_temp e s = (r, s') \<Longrightarrow> acts s' = acts s"
  using dolock_acts [of e s] by (auto simp: read_temp_def bindE_def clearlock_def split: prod.splits sum.splits)

lemma disk_tries_acts: "acts (snd (disk_tries e ds k m s)) = acts s"
  by (induction e ds k m s rule: disk_tries.induct) (simp_all add: Let_def)

lemma script_harmless: "Execl p \<notin> set (script_act c t)"
  by (simp add: script_act_def split: option.split)

lemma fan_round_harmless: "fan_round e stamp bd a st dt (f, s) = (f', s') \<Longrightarrow> harmless s s'"
proof -
  assume "fan_round e stamp bd a st dt (f, s) = (f', s')"
  from fan_round_eq [OF this] obtain f1 s1 f2 s2 where r: "acts s1 = acts s"
    "warn_step e a (read_fan s) (f1, s1) = (f2, s2)" "crit_step e a (read_fan s) (f2, s2) = (f', s')" by blast
  have "harmless s s2" using warn_step_eq [OF r(2)] r(1) script_harmless by (auto simp: harmless_def)
  moreover have "harmless s2 s'" using crit_step_eq [OF r(3)] script_harmless by (auto simp: harmless_def)
  ultimately show "harmless s s'" by (rule harmless_trans)
qed

lemma fanctl_harmless: "fanctl e stamp b ds f s = (r, s') \<Longrightarrow> harmless s s'"
proof -
  assume x: "fanctl e stamp b ds f s = (r, s')"
  obtain r1 s1 where 1: "first_temp e f s = (r1, s1)" by (cases "first_temp e f s")
  then have a1: "acts s1 = acts s"
    using read_temp_acts [of e s] by (auto simp: first_temp_def bindE_def retE_def split: if_splits prod.splits sum.splits)
  show "harmless s s'"
  proof (cases r)
    case (Inr f')
    with fanctl_parts x obtain f1 s1 u s2 dt s3 where p: "first_temp e f s = (Inr f1, s1)" "read_temp e s1 = (Inr u, s2)"
      "(if disks_temp (args b) \<noteq> 0 then read_disks_temp e (nslots b) ds s2 else (0, s2)) = (dt, s3)"
      "fan_round e stamp (board b) (args b) (u sdiv 1000) dt (f1, s3) = (f', s')" by blast
    have "acts s3 = acts s2"
      using p(3) disk_tries_acts [of e "take (nslots b) ds" 3 0 s2] by (auto simp: read_disks_temp_def split: if_splits)
    then have "acts s3 = acts s" using p(1,2) 1 a1 read_temp_acts [OF p(2)] by simp
    with fan_round_harmless [OF p(4)] show ?thesis by (simp add: harmless_def)
  next
    case (Inl n)
    then have "acts s' = acts s"
      using x 1 a1 read_temp_acts [of e s1]
      by (auto simp: fanctl_def bindE_def Let_def split: prod.splits sum.splits)
    then show ?thesis by (rule harmless_refl)
  qed
qed

text \<open>Reading the button can end the process only on the boards with a power button file.\<close>

lemma poweroff_acts:
  "poweroff e a s = (r, s') \<Longrightarrow> \<exists>t. harmless s t \<and> (s' = t \<or> s' = act (Execl ''/usr/sbin/poweroff'') t)"
  using exec_harmless [of s e "front_button_command2 a" 5 None]
  by (auto simp: poweroff_def execl_def split: if_splits)

lemma reboot_acts:
  "reboot e a s = (r, s') \<Longrightarrow> \<exists>t. harmless s t \<and> (s' = t \<or> s' = act (Execl ''/sbin/reboot'') t)"
  using exec_harmless [of s e "front_button_command1 a" 5 None]
  by (auto simp: reboot_def execl_def split: if_splits)

text \<open>The only \<open>execl\<close> that may come new is the one of \<open>p\<close>, and only if \<open>b\<close>.\<close>

definition only_execl :: "bool \<Rightarrow> string \<Rightarrow> os \<Rightarrow> os \<Rightarrow> bool" where
  "only_execl b p s s' \<longleftrightarrow> (\<forall>q. Execl q \<in> set (acts s') \<and> Execl q \<notin> set (acts s) \<longrightarrow> b \<and> q = p)"

lemma only_execl_harmless: "harmless s s' \<Longrightarrow> only_execl b p s s'"
  using harmless_Execl by (auto simp: only_execl_def)

lemma only_execl_trans: "only_execl b p s t \<Longrightarrow> only_execl b p t u \<Longrightarrow> only_execl b p s u"
  by (auto simp: only_execl_def)

lemma poweroff_only: "poweroff e a s = (r, s') \<Longrightarrow> only_execl True ''/usr/sbin/poweroff'' s s'"
  using poweroff_acts [of e a s r s'] harmless_Execl by (fastforce simp: only_execl_def)

lemma reboot_only: "reboot e a s = (r, s') \<Longrightarrow> only_execl True ''/sbin/reboot'' s s'"
  using reboot_acts [of e a s r s'] harmless_Execl by (fastforce simp: only_execl_def)

lemma debounce_only:
  "debounce e bd a (k, s) = (r, k', s') \<Longrightarrow> only_execl (poweroff_board bd) ''/usr/sbin/poweroff'' s s'"
proof -
  assume d: "debounce e bd a (k, s) = (r, k', s')"
  obtain r1 s1 where p: "power_button e bd a s = (r1, s1)" by (cases "power_button e bd a s")
  have 1: "only_execl (poweroff_board bd) ''/usr/sbin/poweroff'' s s1"
    using p poweroff_only [of e a s] by (auto simp: power_button_def only_execl_def split: if_splits)
  have "acts s' = acts s1"
    using d p debounce_keys_acts [of e k s1]
    by (auto simp: debounce_def bindE_def lift_os_def split: prod.splits sum.splits)
  with 1 show ?thesis by (simp add: only_execl_def)
qed

lemma back_loop_only:
  "back_loop e bd a st = Some y \<Longrightarrow> only_execl (poweroff_board bd) ''/usr/sbin/poweroff'' (snd st) (snd (snd y))"
proof (erule back_loop.raw_induct [where P = "\<lambda>e bd a st y. only_execl (poweroff_board bd) ''/usr/sbin/poweroff'' (snd st) (snd (snd y))", rotated])
  fix f e bd a st y
  assume ih: "\<And>e bd a st y. f e bd a st = Some y \<Longrightarrow> only_execl (poweroff_board bd) ''/usr/sbin/poweroff'' (snd st) (snd (snd y))"
    and body: "(case debounce e bd a st of (Inl x, st') \<Rightarrow> Some (Inl x, st')
      | (Inr b, k, s) \<Rightarrow> if b = RESET_BT \<or> b = USB_BT then f e bd a (k, tick 200000 s) else Some (Inr (), k, tick 200000 s)) = Some y"
  obtain k s where st: "st = (k, s)" by (cases st)
  obtain r k1 s1 where d: "debounce e bd a (k, s) = (r, k1, s1)" by (cases "debounce e bd a (k, s)") auto
  note o = debounce_only [OF d]
  have t: "only_execl b p s1 (tick 200000 s1)" for b p by (simp add: only_execl_def)
  show "only_execl (poweroff_board bd) ''/usr/sbin/poweroff'' (snd st) (snd (snd y))"
  proof (cases r)
    case (Inl x)
    then show ?thesis using body o by (auto simp: st d)
  next
    case (Inr b)
    then have "(if b = RESET_BT \<or> b = USB_BT then f e bd a (k1, tick 200000 s1) else Some (Inr (), k1, tick 200000 s1)) = Some y"
      using body by (simp add: st d)
    then have "only_execl (poweroff_board bd) ''/usr/sbin/poweroff'' s1 (snd (snd y))"
      using ih [of e bd a "(k1, tick 200000 s1)" y] only_execl_trans [OF t] t by (auto split: if_splits)
    then show ?thesis using only_execl_trans [OF o] by (simp add: st)
  qed
qed

lemma back_button_only:
  "back_button e b (k, s) = Some (r, k', s') \<Longrightarrow> only_execl (poweroff_board (board b)) ''/usr/sbin/poweroff'' s s'"
proof -
  assume bb: "back_button e b (k, s) = Some (r, k', s')"
  let ?bd = "poweroff_board (board b)" and ?p = "''/usr/sbin/poweroff''"
  have 0: "only_execl ?bd ?p s (leds_blink e (leds b) s)" by (simp add: only_execl_def)
  have act: "harmless t (leds_off e (leds b) (back_action e a c t))" for a c t
    using exec_harmless [of t e] by (auto simp: back_action_def harmless_def)
  obtain r1 k1 s1 where l: "back_loop e (board b) (args b) (k, leds_blink e (leds b) s) = Some (r1, k1, s1)"
    using bb by (auto simp: back_button_def split: option.splits sum.splits)
  have 1: "only_execl ?bd ?p s s1" using only_execl_trans [OF 0] back_loop_only [OF l] by simp
  show ?thesis
  proof (cases r1)
    case (Inl x)
    then show ?thesis using bb 1 by (simp add: back_button_def l)
  next
    case (Inr u)
    then have "s' = leds_off e (leds b) (back_action e (args b) (seconds s1 - seconds s) s1)"
      using bb by (simp add: back_button_def l)
    then show ?thesis using only_execl_trans [OF 1 only_execl_harmless [OF act]] by simp
  qed
qed

lemma sense_only:
  "sense e stamp d = (r, d') \<Longrightarrow> only_execl (poweroff_board (board (bx d))) ''/usr/sbin/poweroff'' (mach d) (mach d')"
proof -
  assume s: "sense e stamp d = (r, d')"
  obtain r1 d1 where f: "run_fan e stamp d = (r1, d1)" by (cases "run_fan e stamp d")
  have b: "bx d1 = bx d" and h: "harmless (mach d) (mach d1)"
    using f fanctl_harmless [of e stamp "bx d" "disks d" "fan d" "mach d"] harmless_refl
    by (auto simp: run_fan_def Let_def split: if_splits prod.splits sum.splits)
  note 1 = only_execl_harmless [OF h]
  show ?thesis
  proof (cases r1)
    case (Inl x)
    then show ?thesis using s f 1 by (simp add: sense_def)
  next
    case (Inr u)
    then have db: "run_debounce e d1 = (r, d')" using s f by (simp add: sense_def)
    obtain r2 k s2 where d: "debounce e (board (bx d1)) (args (bx d1)) (kb d1, mach d1) = (r2, k, s2)"
      by (cases "debounce e (board (bx d1)) (args (bx d1)) (kb d1, mach d1)") auto
    have "mach d' = s2" using db by (auto simp: run_debounce_def d)
    then show ?thesis using only_execl_trans [OF 1 debounce_only [OF d, unfolded b]] by simp
  qed
qed

lemma housekeeping_harmless: "harmless (mach d) (mach (housekeeping e b d))"
proof -
  obtain ds s where h: "hdd_powercheck e (leds (bx d)) (nslots (bx d)) (ndisks d) 0 (disks d, mach d) = (ds, s)"
    by fastforce
  obtain q s' where l: "status_leds e (leds (bx d)) (junk_str e) (junk_str e) (junk e) (lq d, s) = (q, s')"
    by fastforce
  have "harmless (mach d) s'"
    using hdd_powercheck_harmless [OF h] status_leds_acts [OF l] by (simp add: harmless_def)
  then show ?thesis by (simp add: housekeeping_def Let_def h l harmless_refl)
qed

lemma front_round_only:
  assumes "front_round e b d = (r, d')" and "Execl p \<in> set (acts (mach d'))" and "Execl p \<notin> set (acts (mach d))"
  shows "b = NO_BT \<and> (p = ''/usr/sbin/poweroff'' \<and> lstate d = HALT \<or> p = ''/sbin/reboot'' \<and> lstate d = REBOOT)"
proof -
  obtain c st f where sw: "front_switch b (count d) (lstate d) = (c, st, f)"
    by (cases "front_switch b (count d) (lstate d)")
  obtain r1 s1 where fd: "front_do e (bx d) f (mach d) = (r1, s1)" by (cases "front_do e (bx d) f (mach d)")
  have "acts (mach d') = acts s1"
    using assms(1) by (auto simp: front_round_def sw fd split: sum.splits)
  then have new: "Execl p \<in> set (acts s1)" using assms(2) by simp
  have f: "f = Do_poweroff \<and> p = ''/usr/sbin/poweroff'' \<or> f = Do_reboot \<and> p = ''/sbin/reboot''"
  proof (cases f)
    case Do_poweroff
    then have "only_execl True ''/usr/sbin/poweroff'' (leds_off e (leds (bx d)) (mach d)) s1"
      using fd by (auto simp: front_do_def intro: poweroff_only)
    then show ?thesis using new assms(3) Do_poweroff by (auto simp: only_execl_def)
  next
    case Do_reboot
    then have "only_execl True ''/sbin/reboot'' (leds_off e (leds (bx d)) (mach d)) s1"
      using fd by (auto simp: front_do_def intro: reboot_only)
    then show ?thesis using new assms(3) Do_reboot by (auto simp: only_execl_def)
  qed (use fd new assms(3) in \<open>auto simp: front_do_def\<close>)
  then show ?thesis using sw by (auto simp: front_switch_def split: if_splits)
qed


definition pressed_os :: os where
  "pressed_os = \<lparr>files = [''/tmp/sys/power_button'' \<mapsto> ''0'' @ [CHR 0x0A]], events = [], now = 0, acts = []\<rparr>"

definition board_320L :: box where
  "board_320L = initial_box\<lparr>board := DNS_320L_Ax\<rparr>"

definition pressed_daemon :: daemon where
  "pressed_daemon = (start demo_env (\<lambda>_. 0) board_320L pressed_os)\<lparr>fan_count := 1\<rparr>"


end
