(* ===== verification/McuLink.thy ===== *)
theory McuLink
  imports CLib "HOL-Library.Signed_Division"
begin

text \<open>
  The serial link of \<open>dns320l-daemon\<close>: the packets of \<open>dns320l.h\<close> and the functions of
  \<open>dns320l-daemon.c\<close> that exchange them with the microcontroller of the box. The microcontroller is an
  argument: a function from its state and a byte written to it to the bytes it sends, or \<open>None\<close> when the write
  fails. The bytes it has sent wait in \<open>pend\<close>; a read that finds none times out. \<open>char\<close> is unsigned, as on the
  ARM processor of the box, so the packets are lists of bytes. What an uninitialised array holds is an argument
  too. A write behind the end of an array ends the run with \<open>Overrun\<close>, a read behind it with
  \<open>Out_of_table\<close>, a search for a free place that finds none with \<open>Bad_slot\<close>.
\<close>

section \<open>Packets\<close>

definition SUCCESS :: int where "SUCCESS = 0"
definition ERR_WRONG_ANSWER :: int where "ERR_WRONG_ANSWER = -1"
definition ERR_WRITE_ERROR :: int where "ERR_WRITE_ERROR = -2"
definition CMD_START_MAGIC :: byte where "CMD_START_MAGIC = 0xFA"
definition CMD_STOP_MAGIC :: byte where "CMD_STOP_MAGIC = 0xFB"

definition RDateAndTimeCmd :: "byte list" where "RDateAndTimeCmd = [0xFA, 0x01, 0x08, 0x01, 0x01, 0x00, 0xFB]"
definition WDateAndTimeCmd :: "byte list" where "WDateAndTimeCmd = [0xFA, 0x01, 0x08, 0x02, 0x07, 0x17, 0x06, 0x21, 0x02, 0x10, 0x09, 0x13, 0xFB]"
definition RAlarmMonthCmd :: "byte list" where "RAlarmMonthCmd = [0xFA, 0x01, 0x0A, 0x01, 0x01, 0x00, 0xFB]"
definition WAlarmMonthCmd :: "byte list" where "WAlarmMonthCmd = [0xFA, 0x01, 0x0A, 0x02, 0x01, 0x00, 0xFB]"
definition RAlarmDateCmd :: "byte list" where "RAlarmDateCmd = [0xFA, 0x01, 0x0B, 0x01, 0x01, 0x00, 0xFB]"
definition WAlarmDateCmd :: "byte list" where "WAlarmDateCmd = [0xFA, 0x01, 0x0B, 0x02, 0x01, 0x00, 0xFB]"
definition RAlarmHourCmd :: "byte list" where "RAlarmHourCmd = [0xFA, 0x01, 0x0C, 0x01, 0x01, 0x00, 0xFB]"
definition WAlarmHourCmd :: "byte list" where "WAlarmHourCmd = [0xFA, 0x01, 0x0C, 0x02, 0x01, 0x00, 0xFB]"
definition RAlarmMinuteCmd :: "byte list" where "RAlarmMinuteCmd = [0xFA, 0x01, 0x0D, 0x01, 0x01, 0x00, 0xFB]"
definition WAlarmMinuteCmd :: "byte list" where "WAlarmMinuteCmd = [0xFA, 0x01, 0x0D, 0x02, 0x01, 0x00, 0xFB]"
definition RAlarmSecondCmd :: "byte list" where "RAlarmSecondCmd = [0xFA, 0x01, 0x0E, 0x01, 0x01, 0x00, 0xFB]"
definition WAlarmSecondCmd :: "byte list" where "WAlarmSecondCmd = [0xFA, 0x01, 0x0E, 0x02, 0x01, 0x00, 0xFB]"
definition RAlarmFlagCmd :: "byte list" where "RAlarmFlagCmd = [0xFA, 0x01, 0x0F, 0x01, 0x01, 0x00, 0xFB]"
definition WAlarmDisableCmd :: "byte list" where "WAlarmDisableCmd = [0xFA, 0x01, 0x10, 0x02, 0x01, 0x00, 0xFB]"
definition WAlarmEnableCmd :: "byte list" where "WAlarmEnableCmd = [0xFA, 0x01, 0x10, 0x02, 0x01, 0x01, 0xFB]"
definition FanStopCmd :: "byte list" where "FanStopCmd = [0xFA, 0x02, 0x00, 0x00, 0x00, 0x00, 0xFB]"
definition FanHalfCmd :: "byte list" where "FanHalfCmd = [0xFA, 0x02, 0x00, 0x01, 0x00, 0x00, 0xFB]"
definition FanFullCmd :: "byte list" where "FanFullCmd = [0xFA, 0x02, 0x00, 0x02, 0x00, 0x00, 0xFB]"
definition DeviceReadyCmd :: "byte list" where "DeviceReadyCmd = [0xFA, 0x03, 0x01, 0x00, 0x00, 0x00, 0xFB]"
definition APRDisableCmd :: "byte list" where "APRDisableCmd = [0xFA, 0x03, 0x02, 0x00, 0x00, 0x00, 0xFB]"
definition APREnableCmd :: "byte list" where "APREnableCmd = [0xFA, 0x03, 0x02, 0x01, 0x00, 0x00, 0xFB]"
definition APRStatusCmd :: "byte list" where "APRStatusCmd = [0xFA, 0x03, 0x02, 0x02, 0x00, 0x00, 0xFB]"
definition DeviceShutdownCmd :: "byte list" where "DeviceShutdownCmd = [0xFA, 0x03, 0x03, 0x01, 0x01, 0x05, 0xFB]"
definition PwrLedOffCmd :: "byte list" where "PwrLedOffCmd = [0xFA, 0x03, 0x06, 0x00, 0x00, 0x01, 0xFB]"
definition PwrLedOnCmd :: "byte list" where "PwrLedOnCmd = [0xFA, 0x03, 0x06, 0x01, 0x00, 0x01, 0xFB]"
definition PwrLedBlinkCmd :: "byte list" where "PwrLedBlinkCmd = [0xFA, 0x03, 0x06, 0x02, 0x00, 0x01, 0xFB]"
definition ThermalStatusGetCmd :: "byte list" where "ThermalStatusGetCmd = [0xFA, 0x03, 0x08, 0x00, 0x00, 0x00, 0xFB]"
definition WOLStatusDisableCmd :: "byte list" where "WOLStatusDisableCmd = [0xFA, 0x03, 0x0A, 0x00, 0x00, 0x00, 0xFB]"
definition WOLStatusEnableCmd :: "byte list" where "WOLStatusEnableCmd = [0xFA, 0x03, 0x0A, 0x01, 0x00, 0x00, 0xFB]"
definition WOLStatusGetCmd :: "byte list" where "WOLStatusGetCmd = [0xFA, 0x03, 0x0A, 0x02, 0x00, 0x00, 0xFB]"
definition AckFromSerial :: "byte list" where "AckFromSerial = [0xFA, 0x30, 0x00, 0x00, 0x00, 0x00, 0xFB]"

lemmas packet_defs =
  RDateAndTimeCmd_def WDateAndTimeCmd_def RAlarmMonthCmd_def WAlarmMonthCmd_def RAlarmDateCmd_def WAlarmDateCmd_def
  RAlarmHourCmd_def WAlarmHourCmd_def RAlarmMinuteCmd_def WAlarmMinuteCmd_def WAlarmDisableCmd_def
  WAlarmEnableCmd_def FanStopCmd_def FanHalfCmd_def FanFullCmd_def DeviceReadyCmd_def APRDisableCmd_def
  APREnableCmd_def APRStatusCmd_def DeviceShutdownCmd_def PwrLedOffCmd_def PwrLedOnCmd_def PwrLedBlinkCmd_def
  ThermalStatusGetCmd_def WOLStatusDisableCmd_def WOLStatusEnableCmd_def WOLStatusGetCmd_def

definition ThermalTable :: "nat list" where
  "ThermalTable =
   [0x74, 0x73, 0x72, 0x71, 0x70, 0x6F, 0x6E, 0x6D, 0x6C, 0x6B, 0x6A, 0x69,
    0x68, 0x67, 0x66, 0x65, 0x64, 0x63, 0x62, 0x61, 0x60, 0x5F, 0x5E, 0x5D,
    0x5C, 0x5B, 0x5A, 0x59, 0x58, 0x57, 0x56, 0x55, 0x54, 0x53, 0x52, 0x51,
    0x50, 0x4F, 0x4E, 0x4D, 0x4C, 0x4B, 0x4A, 0x49, 0x48, 0x47, 0x46, 0x45,
    0x44, 0x43, 0x42, 0x41, 0x41, 0x40, 0x3F, 0x3E, 0x3E, 0x3D, 0x3D, 0x3C,
    0x3B, 0x3A, 0x3A, 0x39, 0x38, 0x38, 0x37, 0x36, 0x36, 0x35, 0x34, 0x34,
    0x33, 0x33, 0x32, 0x31, 0x31, 0x30, 0x30, 0x2F, 0x2F, 0x2E, 0x2E, 0x2D,
    0x2C, 0x2C, 0x2B, 0x2B, 0x2A, 0x2A, 0x29, 0x29, 0x28, 0x28, 0x27, 0x27,
    0x27, 0x26, 0x26, 0x25, 0x25, 0x24, 0x24, 0x23, 0x23, 0x22, 0x22, 0x21,
    0x21, 0x21, 0x20, 0x20, 0x1F, 0x1F, 0x1E, 0x1E, 0x1E, 0x1D, 0x1D, 0x1C,
    0x1C, 0x1B, 0x1B, 0x1B, 0x1B, 0x1A, 0x19, 0x19, 0x19, 0x18, 0x18, 0x17,
    0x17, 0x25, 0x1B, 0x1B, 0x19, 0x19, 0x19, 0x18, 0x18, 0x17, 0x17, 0x16,
    0x16, 0x16, 0x15, 0x15, 0x14, 0x14, 0x14, 0x13, 0x13, 0x12, 0x12, 0x12,
    0x11, 0x11, 0x10, 0x10, 0x10, 0x0F, 0x0F, 0x0E, 0x0E, 0x0E, 0x0D, 0x0D,
    0x0C, 0x0C, 0x0C, 0x0B, 0x0B, 0x0A, 0x0A, 0x09, 0x09, 0x09, 0x08, 0x08,
    0x07, 0x07, 0x07, 0x06, 0x06, 0x05, 0x05, 0x04, 0x04, 0x04, 0x03, 0x03,
    0x02, 0x02, 0x01, 0x01, 0x00, 0x00, 0x00, 0x00, 0x00, 0x00, 0x00, 0x00]"

section \<open>Binary coded decimals\<close>

text \<open>Both work on \<open>int\<close>; the shift of a negative number, undefined in C, is the arithmetic one of the compiler.\<close>

definition bcd2int :: "int \<Rightarrow> int" where
  "bcd2int n = (n AND 0x0F) + 10 * drop_bit 4 (n AND 0xF0)"

definition int2bcd :: "int \<Rightarrow> int" where
  "int2bcd n = push_bit 4 (n sdiv 10) + n smod 10"

section \<open>The link\<close>

text \<open>The microcontroller's state, the bytes that can be read, all bytes written so far, and how often
  \<open>_SendCommand\<close> was entered (its uninitialised buffer may differ from call to call).\<close>

record 'm link =
  dev :: 'm
  pend :: "byte list"
  wire :: "byte list"
  entered :: nat

record 'm uc =
  step :: "byte \<Rightarrow> 'm \<Rightarrow> byte list option \<times> 'm"
  stack :: "nat \<Rightarrow> nat \<Rightarrow> byte"

datatype mcu_exit = Overrun | Out_of_table | Bad_slot | Exit int

text \<open>
  \<open>ClearSerialPort\<close>: one read of up to 64 bytes. Each byte takes three characters of the 64-character message,
  so more than 21 bytes write behind it; the loop never gets to a second read.
\<close>

definition ClearSerialPort :: "(('m, 'z) link_scheme, mcu_exit, unit) op" where
  "ClearSerialPort s =
     (if pend s = [] then (Inr (), s)
      else let n = min 64 (length (pend s)); s = s\<lparr>pend := drop n (pend s)\<rparr>
           in if 64 < 3 * n + 1 then (Inl Overrun, s) else (Inr (), s))"

text \<open>\<open>send_pkt\<close>: byte by byte up to the stop magic; \<open>k\<close> bytes were sent before.\<close>

fun send_bytes :: "('m, 'y) uc_scheme \<Rightarrow> nat \<Rightarrow> byte list \<Rightarrow> (('m, 'z) link_scheme, mcu_exit, int) op" where
  "send_bytes e k [] s = (Inl Overrun, s)"
| "send_bytes e k (b # bs) s =
     (if 64 < 3 * k + 4 then (Inl Overrun, s)
      else (case step e b (dev s) of
              (None, d) \<Rightarrow> (Inr ERR_WRITE_ERROR, s\<lparr>dev := d\<rparr>)
            | (Some r, d) \<Rightarrow>
                (let s = s\<lparr>dev := d, pend := pend s @ r, wire := wire s @ [b]\<rparr>
                 in if b = CMD_STOP_MAGIC then (Inr SUCCESS, s) else send_bytes e (Suc k) bs s)))"

definition send_pkt :: "('m, 'y) uc_scheme \<Rightarrow> byte list \<Rightarrow> (('m, 'z) link_scheme, mcu_exit, int) op" where
  "send_pkt e cmd = send_bytes e 0 cmd"

text \<open>
  \<open>receive_pkt\<close> into a buffer of \<open>sz\<close> bytes: a read that times out leaves the byte of the buffer as it was, and
  the loop and the final test look at that byte all the same. The result is the status and the buffer.
\<close>

function receive_loop :: "nat \<Rightarrow> nat \<Rightarrow> byte list \<Rightarrow> ('m, 'z) link_scheme \<Rightarrow> (nat \<times> byte list) \<times> ('m, 'z) link_scheme" where
  "receive_loop sz i buf s =
     (case pend s of
        [] \<Rightarrow> ((Suc i, buf), s)
      | b # r \<Rightarrow>
          if b \<noteq> CMD_STOP_MAGIC \<and> Suc i < sz then receive_loop sz (Suc i) (buf[i := b]) (s\<lparr>pend := r\<rparr>)
          else ((Suc i, buf[i := b]), s\<lparr>pend := r\<rparr>))"
  by pat_completeness simp
termination
  by (relation "measure (\<lambda>(sz, i, buf, s). sz - i)") auto

declare receive_loop.simps [simp del]

definition receive_pkt :: "byte list \<Rightarrow> ('m, 'z) link_scheme \<Rightarrow> (int \<times> byte list) \<times> ('m, 'z) link_scheme" where
  "receive_pkt buf s =
     (case receive_loop 16 0 buf s of
        ((i, buf), s) \<Rightarrow> ((if buf ! (i - 1) \<noteq> CMD_STOP_MAGIC then ERR_WRONG_ANSWER else SUCCESS, buf), s))"

definition CheckResponse :: "byte list \<Rightarrow> byte list \<Rightarrow> int" where
  "CheckResponse cmd resp =
     (if \<exists>i\<in>set [0..<5]. resp ! i \<noteq> cmd ! i then ERR_WRONG_ANSWER else SUCCESS)"

text \<open>
  \<open>_SendCommand\<close>: first what follows the sending, with the buffer \<open>buf\<close>. The flag says whether \<open>outArray\<close> is
  given; the second result is what it holds when the answer was copied into it.
\<close>

definition read_replies ::
  "byte list \<Rightarrow> bool \<Rightarrow> byte list \<Rightarrow> ('m, 'z) link_scheme \<Rightarrow> (int \<times> byte list option) \<times> ('m, 'z) link_scheme" where
  "read_replies cmd want buf s =
     (let ((r, buf), s) = (if want then receive_pkt buf s else ((SUCCESS, buf), s))
      in if r \<noteq> SUCCESS then ((ERR_WRONG_ANSWER, None), s)
         else if want \<and> CheckResponse cmd buf \<noteq> SUCCESS then ((ERR_WRONG_ANSWER, None), s)
         else
           (let out = (if want then Some buf else None); ((r, buf), s) = receive_pkt buf s
            in if r \<noteq> SUCCESS then ((ERR_WRONG_ANSWER, out), s)
               else if CheckResponse AckFromSerial buf \<noteq> SUCCESS then ((ERR_WRONG_ANSWER, out), s)
               else ((SUCCESS, out), s)))"

definition raw_SendCommand ::
  "('m, 'y) uc_scheme \<Rightarrow> byte list \<Rightarrow> bool \<Rightarrow> (('m, 'z) link_scheme, mcu_exit, int \<times> byte list option) op" where
  "raw_SendCommand e cmd want s =
     (let buf = map (stack e (entered s)) [0..<16]; s = s\<lparr>entered := Suc (entered s)\<rparr>
      in bindE ClearSerialPort (\<lambda>_. bindE (send_pkt e cmd) (\<lambda>r s.
           if r \<noteq> SUCCESS then (Inr (1, None), s)
           else (case read_replies cmd want buf s of (x, s) \<Rightarrow> (Inr x, s)))) s)"

text \<open>\<open>SendCommand\<close>: \<open>k\<close> attempts were made before, and another one is made while \<open>k\<close> is at most \<open>nRetries\<close>.\<close>

function send_retry ::
  "('m, 'y) uc_scheme \<Rightarrow> nat \<Rightarrow> nat \<Rightarrow> byte list \<Rightarrow> bool \<Rightarrow> (('m, 'z) link_scheme, mcu_exit, int \<times> byte list option) op" where
  "send_retry e n k cmd want s =
     bindE (raw_SendCommand e cmd want)
       (\<lambda>(r, out) s. if r \<noteq> SUCCESS \<and> Suc k \<le> n then send_retry e n (Suc k) cmd want s else (Inr (r, out), s)) s"
  by pat_completeness auto
termination
  by (relation "measure (\<lambda>(e, n, k, cmd, want, s). Suc n - k)") auto

declare send_retry.simps [simp del]

text \<open>The retries of the configuration: \<open>main\<close> sets \<open>nRetries\<close> to 2 and nothing changes it.\<close>

definition nRetries :: nat where "nRetries = 2"

definition SendCommand ::
  "('m, 'y) uc_scheme \<Rightarrow> byte list \<Rightarrow> bool \<Rightarrow> (('m, 'z) link_scheme, mcu_exit, int \<times> byte list option) op" where
  "SendCommand e cmd want = send_retry e nRetries 0 cmd want"

section \<open>One exchange with a device that answers\<close>

text \<open>What the device sends while a packet is written to it.\<close>

fun feed :: "('m, 'y) uc_scheme \<Rightarrow> byte list \<Rightarrow> 'm \<Rightarrow> (byte list \<times> 'm) option" where
  "feed e [] d = Some ([], d)"
| "feed e (b # bs) d =
     (case step e b d of
        (None, d) \<Rightarrow> None
      | (Some r, d) \<Rightarrow> (case feed e bs d of None \<Rightarrow> None | Some (t, d) \<Rightarrow> Some (r @ t, d)))"

text \<open>A packet: the stop magic ends it and is nowhere else, and it fits the 16-byte buffers.\<close>

definition framed :: "byte list \<Rightarrow> bool" where
  "framed p \<longleftrightarrow> p \<noteq> [] \<and> length p \<le> 16 \<and> last p = CMD_STOP_MAGIC \<and> CMD_STOP_MAGIC \<notin> set (butlast p)"

lemma framed_Cons:
  "framed (b # p) \<longleftrightarrow> (if p = [] then b = CMD_STOP_MAGIC else b \<noteq> CMD_STOP_MAGIC \<and> framed p \<and> length p \<le> 15)"
  by (auto simp: framed_def)

text \<open>The documented replies: an acknowledgement, with the packet's echo and the data before it when data is asked for.\<close>

definition is_ack :: "byte list \<Rightarrow> bool" where
  "is_ack p \<longleftrightarrow> framed p \<and> take 5 p = take 5 AckFromSerial"

definition acks :: "('m, 'y) uc_scheme \<Rightarrow> byte list \<Rightarrow> 'm \<Rightarrow> 'm \<Rightarrow> bool" where
  "acks e p d d' \<longleftrightarrow> (\<exists>a. feed e p d = Some (a, d') \<and> is_ack a)"

definition answers :: "('m, 'y) uc_scheme \<Rightarrow> byte list \<Rightarrow> 'm \<Rightarrow> byte list \<Rightarrow> 'm \<Rightarrow> bool" where
  "answers e p d r d' \<longleftrightarrow> (\<exists>a. feed e p d = Some (r @ a, d') \<and> is_ack a \<and> framed r \<and> take 5 r = take 5 p)"

lemma send_bytes_feed:
  "framed p \<Longrightarrow> feed e p (dev s) = Some (r, d) \<Longrightarrow> 3 * k + 3 * length p + 1 \<le> 64 \<Longrightarrow>
   send_bytes e k p s = (Inr SUCCESS, s\<lparr>dev := d, pend := pend s @ r, wire := wire s @ p\<rparr>)"
proof (induction p arbitrary: k s r)
  case Nil
  then show ?case by (simp add: framed_def)
next
  case (Cons b p)
  from Cons.prems(2) obtain r1 d1 r2 where st: "step e b (dev s) = (Some r1, d1)"
    and f: "feed e p d1 = Some (r2, d)" and r: "r = r1 @ r2"
    by (auto split: prod.splits option.splits)
  show ?case
  proof (cases "p = []")
    case True
    then show ?thesis using Cons.prems st f r by (simp add: framed_Cons Let_def)
  next
    case False
    let ?s = "s\<lparr>dev := d1, pend := pend s @ r1, wire := wire s @ [b]\<rparr>"
    have "send_bytes e (Suc k) p ?s = (Inr SUCCESS, ?s\<lparr>dev := d, pend := pend ?s @ r2, wire := wire ?s @ p\<rparr>)"
      using Cons.prems False f by (intro Cons.IH) (simp_all add: framed_Cons)
    then show ?thesis using Cons.prems False st r by (simp add: framed_Cons Let_def)
  qed
qed

lemma receive_loop_framed:
  "framed p \<Longrightarrow> pend s = p @ q \<Longrightarrow> i + length p \<le> 16 \<Longrightarrow> length buf = 16 \<Longrightarrow>
   receive_loop 16 i buf s = ((i + length p, blit i p buf), s\<lparr>pend := q\<rparr>)"
proof (induction p arbitrary: i buf s)
  case Nil
  then show ?case by (simp add: framed_def)
next
  case (Cons b p)
  have one: "blit (Suc i) p (buf[i := b]) = blit i (b # p) buf"
    using Cons.prems by (simp add: blit_def take_Suc_conv_app_nth)
  show ?case
  proof (cases "p = []")
    case True
    then show ?thesis using Cons.prems one
      by (subst receive_loop.simps) (simp add: framed_Cons)
  next
    case False
    have "receive_loop 16 (Suc i) (buf[i := b]) (s\<lparr>pend := p @ q\<rparr>) =
        ((Suc i + length p, blit (Suc i) p (buf[i := b])), s\<lparr>pend := p @ q\<rparr>\<lparr>pend := q\<rparr>)"
      using Cons.prems False by (intro Cons.IH) (simp_all add: framed_Cons)
    moreover have "Suc i < 16" using Cons.prems(3) False by (cases p) simp_all
    ultimately show ?thesis using Cons.prems False one
      by (subst receive_loop.simps) (simp add: framed_Cons)
  qed
qed

lemma receive_pkt_framed:
  assumes "framed p" and "pend s = p @ q" and "length buf = 16"
  shows "receive_pkt buf s = ((SUCCESS, blit 0 p buf), s\<lparr>pend := q\<rparr>)"
proof -
  have l: "length p \<le> 16" "p \<noteq> []" using assms(1) by (simp_all add: framed_def)
  have "blit 0 p buf ! (length p - 1) = last p"
    using l by (simp add: blit_def nth_append last_conv_nth)
  then show ?thesis
    using assms receive_loop_framed [OF assms(1,2), of 0 buf] l
    by (simp add: receive_pkt_def framed_def)
qed

lemma CheckResponse_take:
  assumes "5 \<le> length cmd" and "5 \<le> length resp"
  shows "CheckResponse cmd resp = SUCCESS \<longleftrightarrow> take 5 resp = take 5 cmd"
proof -
  have "take 5 resp = take 5 cmd \<longleftrightarrow> (\<forall>i<5. resp ! i = cmd ! i)"
    using assms by (auto simp: list_eq_iff_nth_eq min_absorb2)
  moreover have "(\<exists>i\<in>set [0..<5]. resp ! i \<noteq> cmd ! i) \<longleftrightarrow> \<not> (\<forall>i<5. resp ! i = cmd ! i)" by auto
  ultimately show ?thesis
    by (simp add: CheckResponse_def SUCCESS_def ERR_WRONG_ANSWER_def)
qed

lemma packet_five: "take 5 p = take 5 AckFromSerial \<Longrightarrow> 5 \<le> length p"
  by (cases "5 \<le> length p") (auto simp: AckFromSerial_def dest: arg_cong [where f = length])

lemma ack_response:
  assumes "is_ack a" and "length buf = 16"
  shows "CheckResponse AckFromSerial (blit 0 a buf) = SUCCESS"
proof -
  have l: "5 \<le> length a" using assms(1) packet_five by (simp add: is_ack_def)
  then have "take 5 (blit 0 a buf) = take 5 a" by (simp add: blit_def)
  then show ?thesis using assms l by (subst CheckResponse_take) (auto simp: is_ack_def AckFromSerial_def framed_def)
qed

lemma raw_SendCommand_acks:
  assumes "framed p" and "acks e p (dev s) d" and "pend s = []"
  shows "raw_SendCommand e p False s =
    (Inr (SUCCESS, None), s\<lparr>entered := Suc (entered s), dev := d, wire := wire s @ p, pend := []\<rparr>)"
proof -
  obtain a where f: "feed e p (dev s) = Some (a, d)" and a: "is_ack a" using assms(2) by (auto simp: acks_def)
  let ?t = "s\<lparr>entered := Suc (entered s)\<rparr>"
  have snd: "send_pkt e p ?t = (Inr SUCCESS, ?t\<lparr>dev := d, pend := pend ?t @ a, wire := wire ?t @ p\<rparr>)"
    unfolding send_pkt_def using assms(1) f by (intro send_bytes_feed) (auto simp: framed_def)
  let ?u = "?t\<lparr>dev := d, pend := a, wire := wire s @ p\<rparr>"
  have rc: "receive_pkt buf ?u = ((SUCCESS, blit 0 a buf), ?u\<lparr>pend := []\<rparr>)" if "length buf = 16" for buf
    using a that by (intro receive_pkt_framed [where q = "[]"]) (simp_all add: is_ack_def)
  have cl: "ClearSerialPort ?t = (Inr (), ?t)" using assms(3) by (simp add: ClearSerialPort_def)
  show ?thesis
    using snd rc ack_response [OF a] assms(3)
    by (simp add: raw_SendCommand_def read_replies_def Let_def cl)
qed

lemma raw_SendCommand_answers:
  assumes "framed p" and "answers e p (dev s) r d" and "pend s = []" and "5 \<le> length p"
  shows "raw_SendCommand e p True s =
    (Inr (SUCCESS, Some (blit 0 r (map (stack e (entered s)) [0..<16]))),
     s\<lparr>entered := Suc (entered s), dev := d, wire := wire s @ p, pend := []\<rparr>)"
proof -
  obtain a where f: "feed e p (dev s) = Some (r @ a, d)" and a: "is_ack a" and r: "framed r" "take 5 r = take 5 p"
    using assms(2) by (auto simp: answers_def)
  let ?t = "s\<lparr>entered := Suc (entered s)\<rparr>" and ?b = "map (stack e (entered s)) [0..<16]"
  have snd: "send_pkt e p ?t = (Inr SUCCESS, ?t\<lparr>dev := d, pend := pend ?t @ r @ a, wire := wire ?t @ p\<rparr>)"
    unfolding send_pkt_def using assms(1) f by (intro send_bytes_feed) (auto simp: framed_def)
  let ?u = "?t\<lparr>dev := d, pend := r @ a, wire := wire s @ p\<rparr>"
  have r1: "receive_pkt ?b ?u = ((SUCCESS, blit 0 r ?b), ?u\<lparr>pend := a\<rparr>)"
    using r by (intro receive_pkt_framed) simp_all
  have l: "length (blit 0 r ?b) = 16" using r(1) by (subst length_blit) (simp_all add: framed_def)
  have r2: "receive_pkt (blit 0 r ?b) (?u\<lparr>pend := a\<rparr>) = ((SUCCESS, blit 0 a (blit 0 r ?b)), ?u\<lparr>pend := []\<rparr>)"
    using receive_pkt_framed [of a "?u\<lparr>pend := a\<rparr>" "[]" "blit 0 r ?b"] a l by (simp add: is_ack_def)
  have l5: "5 \<le> length r" using r(2) assms(4) by (cases "5 \<le> length r") (auto dest: arg_cong [where f = length])
  then have "take 5 (blit 0 r ?b) = take 5 p" using r(2) by (simp add: blit_def)
  then have c: "CheckResponse p (blit 0 r ?b) = SUCCESS"
    by (subst CheckResponse_take) (simp_all add: l assms(4))
  have cl: "ClearSerialPort ?t = (Inr (), ?t)" using assms(3) by (simp add: ClearSerialPort_def)
  show ?thesis
    using snd r1 r2 c ack_response [OF a l] assms(3)
    by (simp add: raw_SendCommand_def read_replies_def Let_def cl)
qed

text \<open>With a device that answers at once there is one attempt.\<close>

lemma SendCommand_acks:
  "framed p \<Longrightarrow> acks e p (dev s) d \<Longrightarrow> pend s = [] \<Longrightarrow>
   SendCommand e p False s = (Inr (SUCCESS, None), s\<lparr>entered := Suc (entered s), dev := d, wire := wire s @ p, pend := []\<rparr>)"
  unfolding SendCommand_def by (subst send_retry.simps) (simp add: raw_SendCommand_acks)

lemma SendCommand_answers:
  "framed p \<Longrightarrow> answers e p (dev s) r d \<Longrightarrow> pend s = [] \<Longrightarrow> 5 \<le> length p \<Longrightarrow>
   SendCommand e p True s =
    (Inr (SUCCESS, Some (blit 0 r (map (stack e (entered s)) [0..<16]))),
     s\<lparr>entered := Suc (entered s), dev := d, wire := wire s @ p, pend := []\<rparr>)"
  unfolding SendCommand_def by (subst send_retry.simps) (simp add: raw_SendCommand_answers)

section \<open>Whatever the device does\<close>

lemma ClearSerialPort_frame: "ClearSerialPort s = (Inr u, t) \<Longrightarrow> wire t = wire s \<and> entered t = entered s"
  by (auto simp: ClearSerialPort_def Let_def split: if_splits)

lemma send_bytes_wire:
  "send_bytes e k p s = (Inr r, t) \<Longrightarrow>
   \<exists>n\<le>length p. wire t = wire s @ take n p \<and> (framed p \<and> r = SUCCESS \<longrightarrow> n = length p)"
proof (induction e k p s rule: send_bytes.induct)
  case (1 e k s)
  then show ?case by simp
next
  case (2 e k b p s)
  obtain x d where st: "step e b (dev s) = (x, d)" by fastforce
  have k: "\<not> 64 < 3 * k + 4" using "2.prems" by (auto split: if_splits)
  show ?case
  proof (cases x)
    case None
    then have "r = ERR_WRITE_ERROR \<and> wire t = wire s" using "2.prems" st k by auto
    then show ?thesis by (intro exI [of _ 0]) (simp add: ERR_WRITE_ERROR_def SUCCESS_def)
  next
    case (Some ans)
    show ?thesis
    proof (cases "b = CMD_STOP_MAGIC")
      case True
      then have "r = SUCCESS \<and> wire t = wire s @ [b]" using "2.prems" st k Some by (auto simp: Let_def)
      then show ?thesis using True by (intro exI [of _ 1]) (auto simp: framed_Cons)
    next
      case False
      then obtain n where "n \<le> length p" "wire t = wire s @ [b] @ take n p"
        "framed p \<and> r = SUCCESS \<longrightarrow> n = length p"
        using "2.IH" [OF k st [symmetric] Some refl False] "2.prems" st k Some by (auto simp: Let_def)
      then show ?thesis using False by (intro exI [of _ "Suc n"]) (auto simp: framed_Cons split: if_splits)
    qed
  qed
qed

lemma receive_loop_frame:
  "receive_loop sz i buf s = ((j, b), t) \<Longrightarrow> wire t = wire s \<and> entered t = entered s \<and> length b = length buf \<and> i < j"
proof (induction sz i buf s arbitrary: j b t rule: receive_loop.induct)
  case (1 sz i buf s)
  show ?case
  proof (cases "pend s")
    case Nil
    then show ?thesis using "1.prems" by (subst (asm) receive_loop.simps) auto
  next
    case (Cons x r)
    show ?thesis
    proof (cases "x \<noteq> CMD_STOP_MAGIC \<and> Suc i < sz")
      case True
      have "receive_loop sz (Suc i) (buf[i := x]) (s\<lparr>pend := r\<rparr>) = ((j, b), t)"
        using "1.prems" Cons True by (subst (asm) receive_loop.simps) simp
      from "1.IH" [OF Cons True this] show ?thesis by simp
    next
      case False
      then show ?thesis using "1.prems" Cons by (subst (asm) receive_loop.simps) auto
    qed
  qed
qed

lemma receive_pkt_frame:
  "receive_pkt buf s = ((r, b), t) \<Longrightarrow> wire t = wire s \<and> entered t = entered s \<and> length b = length buf"
  by (auto simp: receive_pkt_def split: prod.splits dest: receive_loop_frame)

lemma read_replies_sound:
  assumes "read_replies p want buf s = ((r, out), t)" and "length buf = 16" and "5 \<le> length p"
  shows "wire t = wire s \<and> (r = SUCCESS \<longrightarrow>
           (if want then \<exists>b. out = Some b \<and> length b = 16 \<and> take 5 b = take 5 p else out = None))"
proof -
  obtain r1 b1 s1 where r1: "(if want then receive_pkt buf s else ((SUCCESS, buf), s)) = ((r1, b1), s1)"
    by (metis prod.collapse)
  have f1: "wire s1 = wire s \<and> length b1 = 16"
    using r1 assms(2) receive_pkt_frame [of buf s r1 b1 s1] by (auto split: if_splits)
  obtain r2 b2 s2 where r2: "receive_pkt b1 s1 = ((r2, b2), s2)" by (metis prod.collapse)
  have f2: "wire s2 = wire s1" using receive_pkt_frame [OF r2] by simp
  have bad: "ERR_WRONG_ANSWER \<noteq> SUCCESS" by (simp_all add: SUCCESS_def ERR_WRONG_ANSWER_def)
  show ?thesis
    using assms(1) f1 f2 bad CheckResponse_take [OF assms(3), of b1]
    by (auto simp: read_replies_def r1 r2 Let_def split: if_splits)
qed

lemma raw_SendCommand_sound:
  assumes "raw_SendCommand e p want s = (Inr (r, out), t)" and "framed p" and "5 \<le> length p"
  shows "\<exists>n. wire t = wire s @ take n p \<and> (r = SUCCESS \<longrightarrow> n = length p \<and>
           (if want then \<exists>b. out = Some b \<and> length b = 16 \<and> take 5 b = take 5 p else out = None))"
proof -
  let ?b = "map (stack e (entered s)) [0..<16]"
  obtain u s1 q s2 where cl: "ClearSerialPort (s\<lparr>entered := Suc (entered s)\<rparr>) = (Inr u, s1)"
    and snd: "send_pkt e p s1 = (Inr q, s2)"
    and rest: "(if q \<noteq> SUCCESS then (Inr (1, None), s2)
           else (case read_replies p want ?b s2 of (x, s) \<Rightarrow> (Inr x, s))) = (Inr (r, out) :: mcu_exit + _, t)"
    using assms(1) unfolding raw_SendCommand_def Let_def bindE_Inr_iff by (elim exE conjE) (rule that)
  obtain n where n: "wire s2 = wire s1 @ take n p" "q = SUCCESS \<longrightarrow> n = length p"
    using send_bytes_wire [OF snd [unfolded send_pkt_def]] assms(2) by auto
  have w1: "wire s1 = wire s" using ClearSerialPort_frame [OF cl] by simp
  show ?thesis
  proof (cases "q = SUCCESS")
    case True
    then have rr: "read_replies p want ?b s2 = ((r, out), t)" using rest by (auto split: prod.splits)
    have "length ?b = 16" by simp
    from read_replies_sound [OF rr this assms(3)] show ?thesis
      using n w1 True by (intro exI [of _ "length p"]) auto
  next
    case False
    then have "r = 1" "t = s2" using rest by auto
    then show ?thesis using n(1) w1 by (auto simp: SUCCESS_def)
  qed
qed

lemma send_retry_sound:
  "send_retry e m k p want s = (Inr (r, out), t) \<Longrightarrow> framed p \<Longrightarrow> 5 \<le> length p \<Longrightarrow>
   \<exists>ns n. wire t = wire s @ concat (map (\<lambda>n. take n p) ns) @ take n p \<and> length ns \<le> m - k \<and>
     (r = SUCCESS \<longrightarrow> n = length p \<and>
        (if want then \<exists>b. out = Some b \<and> length b = 16 \<and> take 5 b = take 5 p else out = None))"
proof (induction e m k p want s arbitrary: r out t rule: send_retry.induct)
  case (1 e m k p want s)
  from "1.prems"(1) obtain r1 o1 s1 where a: "raw_SendCommand e p want s = (Inr (r1, o1), s1)"
    and b: "(if r1 \<noteq> SUCCESS \<and> Suc k \<le> m then send_retry e m (Suc k) p want s1 else (Inr (r1, o1), s1)) = (Inr (r, out), t)"
    by (subst (asm) send_retry.simps) (auto simp: bindE_Inr_iff)
  from raw_SendCommand_sound [OF a "1.prems"(2,3)] obtain n where
    n: "wire s1 = wire s @ take n p"
    and ok: "r1 = SUCCESS \<longrightarrow> n = length p \<and>
        (if want then \<exists>b. o1 = Some b \<and> length b = 16 \<and> take 5 b = take 5 p else o1 = None)" by auto
  show ?case
  proof (cases "r1 \<noteq> SUCCESS \<and> Suc k \<le> m")
    case True
    then have c: "send_retry e m (Suc k) p want s1 = (Inr (r, out), t)" using b by simp
    from "1.IH" [OF True c "1.prems"(2,3)] obtain ns n' where
      "wire t = wire s1 @ concat (map (\<lambda>n. take n p) ns) @ take n' p \<and> length ns \<le> m - Suc k \<and>
     (r = SUCCESS \<longrightarrow> n' = length p \<and>
        (if want then \<exists>b. out = Some b \<and> length b = 16 \<and> take 5 b = take 5 p else out = None))" by blast
    with n True show ?thesis by (intro exI [of _ "n # ns"] exI [of _ n']) (auto simp: Suc_diff_Suc)
  next
    case False
    then have "r1 = r" "o1 = out" "s1 = t" using b by (auto split: if_splits)
    with n ok show ?thesis by (intro exI [of _ "[]"] exI [of _ n]) auto
  qed
qed

section \<open>What a command guarantees\<close>

text \<open>C35. When \<open>SendCommand\<close> reports success, whatever the device sent: the packet was written in full in the last of at
  most three attempts, before which there were only beginnings of it, and an answer that was asked for has sixteen
  bytes and the packet's first five.\<close>

theorem send_command_sound:
  assumes "SendCommand e p want s = (Inr (SUCCESS, out), t)" and "framed p" and "5 \<le> length p"
  shows "\<exists>ns. wire t = wire s @ concat (map (\<lambda>n. take n p) ns) @ p \<and> length ns \<le> 2 \<and>
    (if want then \<exists>b. out = Some b \<and> length b = 16 \<and> take 5 b = take 5 p else out = None)"
  using send_retry_sound [OF assms(1) [unfolded SendCommand_def] assms(2,3)] by (auto simp: nRetries_def)

text \<open>A device that says \<open>ans\<close> after the last byte of a packet and nothing else.\<close>

definition chatter :: "byte list \<Rightarrow> unit uc" where
  "chatter ans = \<lparr>step = (\<lambda>b d. (Some (if b = CMD_STOP_MAGIC then ans else []), d)), stack = (\<lambda>_ _. 0)\<rparr>"

definition quiet :: "unit link" where
  "quiet = \<lparr>dev = (), pend = [], wire = [], entered = 0\<rparr>"

lemma send_command_sound_witness:
  "\<exists>ns. wire (snd (SendCommand (chatter (ThermalStatusGetCmd @ AckFromSerial)) ThermalStatusGetCmd True quiet)) =
     wire quiet @ concat (map (\<lambda>n. take n ThermalStatusGetCmd) ns) @ ThermalStatusGetCmd \<and> length ns \<le> 2 \<and>
    (if True then \<exists>b. Some (ThermalStatusGetCmd @ replicate 9 0) = Some b \<and> length b = 16 \<and>
       take 5 b = take 5 ThermalStatusGetCmd else Some (ThermalStatusGetCmd @ replicate 9 0) = None)"
proof (rule send_command_sound [of "chatter (ThermalStatusGetCmd @ AckFromSerial)"])
  show "SendCommand (chatter (ThermalStatusGetCmd @ AckFromSerial)) ThermalStatusGetCmd True quiet =
    (Inr (SUCCESS, Some (ThermalStatusGetCmd @ replicate 9 0)),
     snd (SendCommand (chatter (ThermalStatusGetCmd @ AckFromSerial)) ThermalStatusGetCmd True quiet))" by code_simp
  show "framed ThermalStatusGetCmd" by code_simp
  show "5 \<le> length ThermalStatusGetCmd" by code_simp
qed

lemma receive_loop_timeout:
  "CMD_STOP_MAGIC \<notin> set p \<Longrightarrow> pend s = p \<Longrightarrow> i + length p < 16 \<Longrightarrow> length buf = 16 \<Longrightarrow>
   receive_loop 16 i buf s = ((Suc (i + length p), blit i p buf), s\<lparr>pend := []\<rparr>)"
proof (induction p arbitrary: i buf s)
  case Nil
  then show ?case by (subst receive_loop.simps) simp
next
  case (Cons b p)
  have "receive_loop 16 (Suc i) (buf[i := b]) (s\<lparr>pend := p\<rparr>) =
      ((Suc (Suc i + length p), blit (Suc i) p (buf[i := b])), s\<lparr>pend := p\<rparr>\<lparr>pend := []\<rparr>)"
    using Cons.prems by (intro Cons.IH) simp_all
  moreover have "blit (Suc i) p (buf[i := b]) = blit i (b # p) buf"
    using Cons.prems by (simp add: blit_def take_Suc_conv_app_nth)
  ultimately show ?case using Cons.prems by (subst receive_loop.simps) auto
qed

text \<open>More than 21 bytes waiting on the line, which the next command is to clear, run over the 64 characters of the
  log message.\<close>

theorem line_noise_overruns:
  assumes "21 < length (pend s)"
  shows "fst (SendCommand e p want s) = Inl Overrun"
proof -
  have "fst (ClearSerialPort (s\<lparr>entered := Suc (entered s)\<rparr>)) = Inl Overrun"
    using assms by (auto simp: ClearSerialPort_def Let_def)
  then obtain t where c: "ClearSerialPort (s\<lparr>entered := Suc (entered s)\<rparr>) = (Inl Overrun, t)"
    by (metis prod.collapse)
  have "raw_SendCommand e p want s = (Inl Overrun, t)" by (simp add: raw_SendCommand_def Let_def c)
  then show ?thesis by (simp add: SendCommand_def send_retry.simps)
qed

lemma line_noise_overruns_witness:
  "fst (SendCommand (chatter []) DeviceReadyCmd False (quiet\<lparr>pend := replicate 30 0\<rparr>)) = Inl Overrun"
  by (rule line_noise_overruns) simp

text \<open>A truncated acknowledgement passes. The buffer of the answer is used again for the acknowledgement, and a read
  that times out leaves its byte as it was: when the stop magic of a seven-byte acknowledgement is lost, the one of
  the answer is still there.\<close>

theorem truncated_ack_accepted:
  assumes "framed p" and "5 \<le> length p" and "pend s = []"
    and "feed e p (dev s) = Some (r @ butlast AckFromSerial, d)"
    and "framed r" and "length r = 7" and "take 5 r = take 5 p"
  shows "fst (SendCommand e p True s) = Inr (SUCCESS, Some (blit 0 r (map (stack e (entered s)) [0..<16])))"
proof -
  let ?t = "s\<lparr>entered := Suc (entered s)\<rparr>" and ?b = "map (stack e (entered s)) [0..<16]"
    and ?a = "butlast AckFromSerial"
  let ?u = "?t\<lparr>dev := d, pend := r @ ?a, wire := wire s @ p\<rparr>"
  have cl: "ClearSerialPort ?t = (Inr (), ?t)" using assms(3) by (simp add: ClearSerialPort_def)
  have snd: "send_pkt e p ?t = (Inr SUCCESS, ?u)"
    unfolding send_pkt_def using assms(1,3,4) send_bytes_feed [of p e ?t "r @ ?a" d 0] by (simp add: framed_def)
  have r1: "receive_pkt ?b ?u = ((SUCCESS, blit 0 r ?b), ?u\<lparr>pend := ?a\<rparr>)"
    using assms(5) by (intro receive_pkt_framed) simp_all
  have l: "length (blit 0 r ?b) = 16" using assms(6) by (subst length_blit) simp_all
  have a: "?a = [0xFA, 0x30, 0x00, 0x00, 0x00, 0x00]" by (simp add: AckFromSerial_def)
  have last: "r ! 6 = CMD_STOP_MAGIC"
    using assms(5,6) by (cases r rule: rev_cases) (auto simp: framed_def nth_append)
  then have l6: "blit 0 ?a (blit 0 r ?b) ! 6 = CMD_STOP_MAGIC"
    using assms(6) by (simp add: blit_def nth_append a eval_nat_numeral)
  have "receive_loop 16 0 (blit 0 r ?b) (?u\<lparr>pend := ?a\<rparr>) = ((7, blit 0 ?a (blit 0 r ?b)), ?u\<lparr>pend := ?a\<rparr>\<lparr>pend := []\<rparr>)"
    using receive_loop_timeout [of ?a "?u\<lparr>pend := ?a\<rparr>" 0 "blit 0 r ?b"] l by (simp add: a CMD_STOP_MAGIC_def)
  then have r2: "receive_pkt (blit 0 r ?b) (?u\<lparr>pend := ?a\<rparr>) =
      ((SUCCESS, blit 0 ?a (blit 0 r ?b)), ?u\<lparr>pend := ?a\<rparr>\<lparr>pend := []\<rparr>)"
    using l6 by (simp add: receive_pkt_def)
  have "take 5 (blit 0 r ?b) = take 5 p" using assms(6,7) by (simp add: blit_def)
  then have c1: "CheckResponse p (blit 0 r ?b) = SUCCESS"
    by (subst CheckResponse_take) (simp_all add: l assms(2))
  have "take 5 (blit 0 ?a (blit 0 r ?b)) = take 5 AckFromSerial" by (simp add: blit_def AckFromSerial_def)
  moreover have "length (blit 0 ?a (blit 0 r ?b)) = 16" using l by (subst length_blit) (simp_all add: AckFromSerial_def)
  ultimately have c2: "CheckResponse AckFromSerial (blit 0 ?a (blit 0 r ?b)) = SUCCESS"
    by (subst CheckResponse_take) (simp_all add: AckFromSerial_def)
  have "raw_SendCommand e p True s = (Inr (SUCCESS, Some (blit 0 r ?b)), ?u\<lparr>pend := []\<rparr>)"
    using snd r1 r2 c1 c2 by (simp add: raw_SendCommand_def read_replies_def Let_def cl)
  then show ?thesis by (simp add: SendCommand_def send_retry.simps)
qed

lemma truncated_ack_accepted_witness:
  "fst (SendCommand (chatter (ThermalStatusGetCmd @ butlast AckFromSerial)) ThermalStatusGetCmd True quiet) =
    Inr (SUCCESS, Some (blit 0 ThermalStatusGetCmd
      (map (stack (chatter (ThermalStatusGetCmd @ butlast AckFromSerial)) (entered quiet)) [0..<16])))"
proof (rule truncated_ack_accepted)
  show "feed (chatter (ThermalStatusGetCmd @ butlast AckFromSerial)) ThermalStatusGetCmd (dev quiet) =
    Some (ThermalStatusGetCmd @ butlast AckFromSerial, ())" by code_simp
qed (code_simp+)

end
