(* ===== verification/CTime.thy ===== *)
theory CTime
  imports CLib
begin

text \<open>
  The parts of the C library's \<open>time.h\<close> the sources use, in Coordinated Universal Time: \<open>gmtime\<close>, \<open>timegm\<close>,
  \<open>asctime\<close> and the formats \<open>%F %R\<close> of \<open>strftime\<close>. A time is the number of seconds since 1970, an \<open>int\<close>. Times
  of the local zone are not here: \<open>localtime\<close> and \<open>mktime\<close> depend on the configuration of the box and are
  arguments of the programs. The theory shows that \<open>timegm\<close> undoes \<open>gmtime\<close>.
\<close>

record tm =
  tm_sec :: int
  tm_min :: int
  tm_hour :: int
  tm_mday :: int
  tm_mon :: int
  tm_year :: int
  tm_wday :: int

section \<open>The calendar\<close>

definition leap :: "int \<Rightarrow> bool" where
  "leap y \<longleftrightarrow> y mod 4 = 0 \<and> (y mod 100 \<noteq> 0 \<or> y mod 400 = 0)"

definition year_days :: "int \<Rightarrow> int" where
  "year_days y = (if leap y then 366 else 365)"

definition month_days :: "int \<Rightarrow> int list" where
  "month_days y = [31, if leap y then 29 else 28, 31, 30, 31, 30, 31, 31, 30, 31, 30, 31]"

text \<open>Days from the first of January 1970 to the first of January of a year.\<close>

definition leaps :: "int \<Rightarrow> int" where
  "leaps y = y div 4 - y div 100 + y div 400"

definition days_to_year :: "int \<Rightarrow> int" where
  "days_to_year y = 365 * (y - 1970) + (leaps (y - 1) - leaps 1969)"

definition days_to_month :: "int \<Rightarrow> nat \<Rightarrow> int" where
  "days_to_month y m = sum_list (take m (month_days y))"

text \<open>\<open>timegm\<close> accepts months out of range; the other fields just count.\<close>

definition timegm :: "tm \<Rightarrow> int" where
  "timegm t =
     (let y = 1900 + tm_year t + tm_mon t div 12;
          d = days_to_year y + days_to_month y (nat (tm_mon t mod 12)) + tm_mday t - 1
      in ((d * 24 + tm_hour t) * 60 + tm_min t) * 60 + tm_sec t)"

text \<open>The year of a day, by steps from 1970, with the day of that year.\<close>

function year_down :: "int \<Rightarrow> int \<Rightarrow> int \<times> int" where
  "year_down y d = (if 0 \<le> d then (y, d) else year_down (y - 1) (d + year_days (y - 1)))"
  by pat_completeness auto
termination
  by (relation "measure (\<lambda>(y, d). nat (- d))") (auto simp: year_days_def)

function year_up :: "int \<Rightarrow> int \<Rightarrow> int \<times> int" where
  "year_up y d = (if d < year_days y then (y, d) else year_up (y + 1) (d - year_days y))"
  by pat_completeness auto
termination
  by (relation "measure (\<lambda>(y, d). nat d)") (auto simp: year_days_def split: if_splits)

declare year_down.simps [simp del] year_up.simps [simp del]

fun month_of :: "int list \<Rightarrow> int \<Rightarrow> nat \<times> int" where
  "month_of [] d = (0, d)"
| "month_of (m # ms) d = (if d < m then (0, d) else (case month_of ms (d - m) of (i, r) \<Rightarrow> (Suc i, r)))"

definition gmtime :: "int \<Rightarrow> tm" where
  "gmtime t =
     (let d = t div 86400; r = t mod 86400;
          (y, yd) = (case year_down 1970 d of (y, d) \<Rightarrow> year_up y d);
          (m, md) = month_of (month_days y) yd
      in \<lparr>tm_sec = r mod 60, tm_min = r div 60 mod 60, tm_hour = r div 3600, tm_mday = md + 1, tm_mon = int m,
          tm_year = y - 1900, tm_wday = (d + 4) mod 7\<rparr>)"

section \<open>Printing\<close>

definition pad2 :: "int \<Rightarrow> string" where
  "pad2 n = (if 0 \<le> n \<and> n < 10 then CHR ''0'' # dec_int n else dec_int n)"

definition day_names :: "string list" where
  "day_names = [''Sun'', ''Mon'', ''Tue'', ''Wed'', ''Thu'', ''Fri'', ''Sat'']"

definition month_names :: "string list" where
  "month_names = [''Jan'', ''Feb'', ''Mar'', ''Apr'', ''May'', ''Jun'', ''Jul'', ''Aug'', ''Sep'', ''Oct'', ''Nov'', ''Dec'']"

definition name_of :: "string list \<Rightarrow> int \<Rightarrow> string" where
  "name_of ns i = (if 0 \<le> i \<and> i < int (length ns) then ns ! nat i else ''???'')"

definition asctime :: "tm \<Rightarrow> string" where
  "asctime t =
     name_of day_names (tm_wday t) @ '' '' @ name_of month_names (tm_mon t) @
     (if 0 \<le> tm_mday t \<and> tm_mday t < 10 then ''  '' else '' '') @ dec_int (tm_mday t) @ '' '' @
     pad2 (tm_hour t) @ '':'' @ pad2 (tm_min t) @ '':'' @ pad2 (tm_sec t) @ '' '' @ dec_int (1900 + tm_year t) @ [CHR 0x0A]"

definition strftime_FR :: "tm \<Rightarrow> string" where
  "strftime_FR t =
     dec_int (1900 + tm_year t) @ ''-'' @ pad2 (tm_mon t + 1) @ ''-'' @ pad2 (tm_mday t) @ '' '' @
     pad2 (tm_hour t) @ '':'' @ pad2 (tm_min t)"

section \<open>Calendar arithmetic\<close>

lemma div_step: "0 < n \<Longrightarrow> y div n = (y - 1) div n + (if y mod n = 0 then 1 else 0)" for n y :: int
proof (cases "y mod n = 0")
  case True
  assume "0 < n"
  moreover have "n * (y div n) = y" using True mult_div_mod_eq [of n y] by simp
  then have e: "y - 1 = n * (y div n - 1) + (n - 1)" by (simp add: right_diff_distrib)
  ultimately have "(y - 1) div n = y div n - 1" by (intro int_div_pos_eq [OF e]) linarith+
  with True show ?thesis by simp
next
  case False
  assume n: "0 < n"
  then have "0 \<le> y mod n" "y mod n < n" by simp_all
  moreover have e: "y - 1 = n * (y div n) + (y mod n - 1)" using mult_div_mod_eq [of n y] by simp
  ultimately have "(y - 1) div n = y div n" using False by (intro int_div_pos_eq [OF e]) linarith+
  with False show ?thesis by simp
qed

lemma leaps_step: "leaps y = leaps (y - 1) + (if leap y then 1 else 0)"
proof -
  have m: "y mod 100 = 0 \<Longrightarrow> y mod 4 = 0" "y mod 400 = 0 \<Longrightarrow> y mod 100 = 0"
    by (auto simp: mod_eq_0_iff_dvd elim: dvd_trans [rotated])
  have sum: "a = a' + (if P then 1 else 0) \<Longrightarrow> b = b' + (if Q then 1 else 0) \<Longrightarrow> c = c' + (if R then 1 else 0) \<Longrightarrow>
      (Q \<Longrightarrow> P) \<Longrightarrow> (R \<Longrightarrow> Q) \<Longrightarrow> a - b + c = a' - b' + c' + (if P \<and> (\<not> Q \<or> R) then 1 else 0)"
    for a b c a' b' c' :: int and P Q R by auto
  show ?thesis unfolding leaps_def leap_def by (rule sum) (rule div_step m, simp | assumption)+
qed

lemma days_to_year_step: "days_to_year (y + 1) = days_to_year y + year_days y"
  using leaps_step [of y] by (simp add: days_to_year_def year_days_def)

lemma days_to_1970: "days_to_year 1970 = 0"
  by (simp add: days_to_year_def)

lemma year_down_days:
  "year_down y d = (y', d') \<Longrightarrow> days_to_year y' + d' = days_to_year y + d \<and> 0 \<le> d'"
proof (induction y d rule: year_down.induct)
  case (1 y d)
  show ?case
  proof (cases "0 \<le> d")
    case True
    then show ?thesis using "1.prems" by (subst (asm) year_down.simps) simp
  next
    case False
    then have "year_down (y - 1) (d + year_days (y - 1)) = (y', d')"
      using "1.prems" by (subst (asm) year_down.simps) simp
    from "1.IH" [OF False this] days_to_year_step [of "y - 1"] show ?thesis by simp
  qed
qed

lemma year_up_days:
  "year_up y d = (y', d') \<Longrightarrow> 0 \<le> d \<Longrightarrow> days_to_year y' + d' = days_to_year y + d \<and> 0 \<le> d' \<and> d' < year_days y'"
proof (induction y d rule: year_up.induct)
  case (1 y d)
  show ?case
  proof (cases "d < year_days y")
    case True
    then show ?thesis using "1.prems" by (subst (asm) year_up.simps) auto
  next
    case False
    then have "year_up (y + 1) (d - year_days y) = (y', d')"
      using "1.prems" by (subst (asm) year_up.simps) simp
    from "1.IH" [OF False this] days_to_year_step [of y] False show ?thesis by simp
  qed
qed

lemma month_of_days:
  "month_of ms d = (i, r) \<Longrightarrow> 0 \<le> d \<Longrightarrow> d < sum_list ms \<Longrightarrow>
   i < length ms \<and> sum_list (take i ms) + r = d \<and> 0 \<le> r \<and> r < ms ! i"
proof (induction ms arbitrary: d i r)
  case (Cons m ms)
  then show ?case by (fastforce split: if_splits prod.splits)
qed simp

lemma month_days_year: "sum_list (month_days y) = year_days y" "length (month_days y) = 12"
  by (simp_all add: month_days_def year_days_def)

lemma month_days_31: "i < 12 \<Longrightarrow> month_days y ! i \<le> 31"
  by (auto simp: month_days_def less_Suc_eq numeral_eq_Suc)

text \<open>The parts of a time, and the way back.\<close>

lemma gmtime_parts:
  "\<exists>y m md. gmtime t = \<lparr>tm_sec = t mod 86400 mod 60, tm_min = t mod 86400 div 60 mod 60, tm_hour = t mod 86400 div 3600,
       tm_mday = md + 1, tm_mon = int m, tm_year = y - 1900, tm_wday = (t div 86400 + 4) mod 7\<rparr> \<and>
     days_to_year y + days_to_month y m + md = t div 86400 \<and> m < 12 \<and> 0 \<le> md \<and> md < 31 \<and>
     0 \<le> days_to_month y m + md \<and> days_to_month y m + md < year_days y"
proof -
  obtain y1 d1 where y1: "year_down 1970 (t div 86400) = (y1, d1)" by fastforce
  obtain y d where y: "year_up y1 d1 = (y, d)" by fastforce
  obtain m md where m: "month_of (month_days y) d = (m, md)" by fastforce
  have d1: "days_to_year y1 + d1 = t div 86400" "0 \<le> d1" using year_down_days [OF y1] days_to_1970 by simp_all
  have d: "days_to_year y + d = t div 86400" "0 \<le> d" "d < year_days y" using year_up_days [OF y d1(2)] d1 by simp_all
  have mm: "m < 12" "days_to_month y m + md = d" "0 \<le> md" "md < month_days y ! m"
    using month_of_days [OF m] d by (simp_all add: month_days_year days_to_month_def)
  have "md < 31" using mm(4) month_days_31 [OF mm(1), of y] by linarith
  then show ?thesis using d mm y1 y m
    by (intro exI [of _ y] exI [of _ m] exI [of _ md]) (simp add: gmtime_def Let_def)
qed

lemma timegm_gmtime: "timegm (gmtime t) = t"
proof -
  obtain y m md where g: "gmtime t = \<lparr>tm_sec = t mod 86400 mod 60, tm_min = t mod 86400 div 60 mod 60,
      tm_hour = t mod 86400 div 3600, tm_mday = md + 1, tm_mon = int m, tm_year = y - 1900,
      tm_wday = (t div 86400 + 4) mod 7\<rparr>"
    and d: "days_to_year y + days_to_month y m + md = t div 86400" "m < 12" using gmtime_parts by blast
  have "timegm (gmtime t) =
      ((t div 86400 * 24 + t mod 86400 div 3600) * 60 + t mod 86400 div 60 mod 60) * 60 + t mod 86400 mod 60"
    using d by (simp add: g timegm_def Let_def)
  moreover have "((q * 24 + h) * 60 + m) * 60 + s = q * 86400 + r" if "x = 60 * h + m" "r = 60 * x + s"
    for q h m s x r :: int using that by simp
  moreover have "t mod 86400 div 60 = 60 * (t mod 86400 div 3600) + t mod 86400 div 60 mod 60"
    using mult_div_mod_eq [of 60 "t mod 86400 div 60"] zdiv_zmult2_eq [of 60 "t mod 86400" 60] by simp
  moreover have "t mod 86400 = 60 * (t mod 86400 div 60) + t mod 86400 mod 60" by simp
  ultimately have "timegm (gmtime t) = t div 86400 * 86400 + t mod 86400" by metis
  then show ?thesis by simp
qed

lemma gmtime_ranges:
  "0 \<le> tm_sec (gmtime t) \<and> tm_sec (gmtime t) < 60" "0 \<le> tm_min (gmtime t) \<and> tm_min (gmtime t) < 60"
  "0 \<le> tm_hour (gmtime t) \<and> tm_hour (gmtime t) < 24" "1 \<le> tm_mday (gmtime t) \<and> tm_mday (gmtime t) \<le> 31"
  "0 \<le> tm_mon (gmtime t) \<and> tm_mon (gmtime t) < 12" "0 \<le> tm_wday (gmtime t) \<and> tm_wday (gmtime t) < 7"
proof -
  have hour: "h < 24 \<and> 0 \<le> h" if "x = 3600 * h + k" "0 \<le> k" "k < 3600" "0 \<le> x" "x < 86400" for h k x :: int
    using that by linarith
  have "t mod 86400 div 3600 < 24 \<and> 0 \<le> t mod 86400 div 3600"
    by (rule hour [where x = "t mod 86400" and k = "t mod 86400 mod 3600", OF _ _ _ pos_mod_sign pos_mod_bound]) simp_all
  moreover obtain y m md where g: "gmtime t = \<lparr>tm_sec = t mod 86400 mod 60, tm_min = t mod 86400 div 60 mod 60,
      tm_hour = t mod 86400 div 3600, tm_mday = md + 1, tm_mon = int m, tm_year = y - 1900,
      tm_wday = (t div 86400 + 4) mod 7\<rparr>" and b: "m < 12" "0 \<le> md" "md < 31" using gmtime_parts by blast
  ultimately show "0 \<le> tm_hour (gmtime t) \<and> tm_hour (gmtime t) < 24" unfolding g by simp
  show "0 \<le> tm_sec (gmtime t) \<and> tm_sec (gmtime t) < 60" "0 \<le> tm_min (gmtime t) \<and> tm_min (gmtime t) < 60"
    unfolding g tm.simps by (simp_all only: pos_mod_sign pos_mod_bound zero_less_numeral simp_thms)
  show "0 \<le> tm_wday (gmtime t) \<and> tm_wday (gmtime t) < 7"
    unfolding g tm.simps by (simp only: pos_mod_sign pos_mod_bound zero_less_numeral simp_thms)
  show "1 \<le> tm_mday (gmtime t) \<and> tm_mday (gmtime t) \<le> 31" "0 \<le> tm_mon (gmtime t) \<and> tm_mon (gmtime t) < 12"
    unfolding g tm.simps using b by simp_all
qed

lemma days_to_year_mono: "days_to_year y \<le> days_to_year (y + int n)"
proof (induction n)
  case (Suc n)
  have "0 \<le> year_days (y + int n)" by (simp add: year_days_def)
  then show ?case using Suc days_to_year_step [of "y + int n"] by (simp add: add.commute add.left_commute)
qed simp

lemma gmtime_year:
  assumes "days_to_year a \<le> t div 86400" and "t div 86400 < days_to_year b"
  shows "a \<le> 1900 + tm_year (gmtime t) \<and> 1900 + tm_year (gmtime t) < b"
proof -
  obtain y m md where g: "1900 + tm_year (gmtime t) = y"
    and d: "days_to_year y + days_to_month y m + md = t div 86400"
      "0 \<le> days_to_month y m + md" "days_to_month y m + md < year_days y"
    using gmtime_parts [of t] by fastforce
  have "a \<le> y"
  proof (rule ccontr)
    assume "\<not> a \<le> y"
    then have "days_to_year (y + 1) \<le> days_to_year a" using days_to_year_mono [of "y + 1" "nat (a - y - 1)"] by simp
    with d assms(1) days_to_year_step [of y] show False by linarith
  qed
  moreover have "y < b"
  proof (rule ccontr)
    assume "\<not> y < b"
    then have "days_to_year b \<le> days_to_year y" using days_to_year_mono [of b "nat (y - b)"] by simp
    with d assms(2) show False by linarith
  qed
  ultimately show ?thesis using g by simp
qed

lemma century: "days_to_year 2000 = 10957" "days_to_year 2100 = 47482"
  by code_simp+

end
