(* ===== verification/McuDaemon.thy ===== *)
theory McuDaemon
  imports McuLink CTime
begin

text \<open>
  The commands of \<open>dns320l-daemon.c\<close>: fan, temperature, power LED, clock and wake-up alarm of the box, behind the
  table \<open>cmds\<close> and \<open>HandleCommand\<close>. A handler gets the packet of the table, the text of the reply buffer (the
  command's arguments on entry) and the size of that buffer, and returns its status and the reply. The zone of the
  box (\<open>localtime\<close>, \<open>mktime\<close>), the files that can be written and whether the clock can be set are arguments.
\<close>

section \<open>State\<close>

record 'm daemon = "'m link" +
  fanSpeed :: int
  curr_led_trigger :: string
  curr_led_brightness :: int
  old_pwm :: int
  mfiles :: "string \<Rightarrow> string option"
  clock :: int

record 'm denv = "'m uc" +
  can_write :: "string \<Rightarrow> bool"
  localtime :: "int \<Rightarrow> tm"
  mktime :: "tm \<Rightarrow> int"
  can_settime :: bool
  junk_int :: int  \<comment> \<open>an uninitialised local variable\<close>

definition sys_pled_trigger :: string where "sys_pled_trigger = ''/tmp/sys/power_led/trigger''"
definition sys_pled_brightness :: string where "sys_pled_brightness = ''/tmp/sys/power_led/brightness''"
definition sys_pwm :: string where "sys_pwm = ''/tmp/sys/pwm1''"
definition sys_fan_input :: string where "sys_fan_input = ''/tmp/sys/fan1_input''"
definition sys_temp_input :: string where "sys_temp_input = ''/tmp/sys/temp1_input''"

text \<open>The helpers on files; a newline is written after the text and the last character read is dropped.\<close>

definition read_str_from_file :: "string \<Rightarrow> nat \<Rightarrow> ('m, 'z) daemon_scheme \<Rightarrow> string option" where
  "read_str_from_file f sz s =
     (case mfiles s f of
        None \<Rightarrow> None
      | Some c \<Rightarrow> if length (take sz c) < 1 then None else Some (butlast (take sz c)))"

definition write_str_to_file ::
  "('m, 'y) denv_scheme \<Rightarrow> string \<Rightarrow> string \<Rightarrow> ('m, 'z) daemon_scheme \<Rightarrow> ('m, 'z) daemon_scheme" where
  "write_str_to_file e f v s = (if can_write e f then s\<lparr>mfiles := (mfiles s)(f \<mapsto> v @ [CHR 0x0A])\<rparr> else s)"

text \<open>\<open>read_int_from_file\<close> leaves \<open>*u\<close> as it was when the text is no number.\<close>

definition read_int_from_file :: "string \<Rightarrow> int \<Rightarrow> ('m, 'z) daemon_scheme \<Rightarrow> int option" where
  "read_int_from_file f u s =
     (case read_str_from_file f 64 s of
        None \<Rightarrow> None
      | Some b \<Rightarrow> Some (case scan_d b of None \<Rightarrow> u | Some v \<Rightarrow> v))"

definition write_int_to_file ::
  "('m, 'y) denv_scheme \<Rightarrow> string \<Rightarrow> int \<Rightarrow> ('m, 'z) daemon_scheme \<Rightarrow> ('m, 'z) daemon_scheme" where
  "write_int_to_file e f u s = write_str_to_file e f (dec_int u) s"

section \<open>Simple commands\<close>

type_synonym ('m, 'z) cmd = "string \<Rightarrow> nat \<Rightarrow> (('m, 'z) daemon_scheme, mcu_exit, int \<times> string) op"

text \<open>A command with an answer: its status and the answer's sixteen bytes (none when nothing was copied).\<close>

definition ask :: "('m, 'y) denv_scheme \<Rightarrow> byte list \<Rightarrow> (('m, 'z) daemon_scheme, mcu_exit, int \<times> byte list) op" where
  "ask e cmd = bindE (SendCommand e cmd True) (\<lambda>(r, out). retE (r, case out of None \<Rightarrow> [] | Some b \<Rightarrow> b))"

definition simple_cmd :: "('m, 'y) denv_scheme \<Rightarrow> byte list \<Rightarrow> ('m, 'z) cmd" where
  "simple_cmd e mcmd ret n =
     bindE (SendCommand e mcmd False) (\<lambda>(r, _). retE (if r \<noteq> SUCCESS then (1, ''ERR'') else (0, ''OK'')))"

definition simple_cmd2 :: "('m, 'y) denv_scheme \<Rightarrow> byte list \<Rightarrow> ('m, 'z) cmd" where
  "simple_cmd2 e mcmd ret n =
     bindE (ask e mcmd) (\<lambda>(r, buf).
       retE (if r \<noteq> SUCCESS then (1, ''ERR'') else (0, take (n - 1) (dec (unat (buf ! 5))))))"

definition setfan_cmd :: "('m, 'y) denv_scheme \<Rightarrow> byte list \<Rightarrow> ('m, 'z) cmd" where
  "setfan_cmd e mcmd ret n =
     bindE (simple_cmd e mcmd ret n) (\<lambda>(r, _) s.
       if r \<noteq> SUCCESS then (Inr (1, ''ERR''), s)
       else
         (let (buf, s) = (if mcmd ! 3 = 0 then (''0'', s\<lparr>fanSpeed := 0\<rparr>)
                          else if mcmd ! 3 = 1 then (''3000'', s\<lparr>fanSpeed := 1\<rparr>)
                          else if mcmd ! 3 = 2 then (''6000'', s\<lparr>fanSpeed := 2\<rparr>)
                          else (''0'', s))
          in (Inr (0, ''OK''), write_str_to_file e sys_fan_input buf s)))"

definition gettemperature_cmd :: "('m, 'y) denv_scheme \<Rightarrow> byte list \<Rightarrow> ('m, 'z) cmd" where
  "gettemperature_cmd e mcmd ret n =
     bindE (ask e mcmd) (\<lambda>(r, buf) s.
       if r \<noteq> SUCCESS then (Inr (1, ''ERR''), s)
       else if length ThermalTable \<le> unat (buf ! 5) then (Inl Out_of_table, s)
       else (let msg = take (n - 1) (dec (ThermalTable ! unat (buf ! 5) * 1000))
             in (Inr (0, msg), write_str_to_file e sys_temp_input msg s)))"

definition setpowerled_cmd :: "('m, 'y) denv_scheme \<Rightarrow> byte list \<Rightarrow> ('m, 'z) cmd" where
  "setpowerled_cmd e mcmd ret n =
     bindE (simple_cmd e mcmd ret n) (\<lambda>(r, _) s.
       if r \<noteq> 0 then (Inr (1, ''ERR''), s)
       else
         (let s = (if mcmd ! 3 = 0 then s\<lparr>curr_led_trigger := ''none'', curr_led_brightness := 0\<rparr>
                   else if mcmd ! 3 = 1 then s\<lparr>curr_led_trigger := ''none'', curr_led_brightness := 1\<rparr>
                   else if mcmd ! 3 = 2 then s\<lparr>curr_led_trigger := ''timer''\<rparr>
                   else s);
              s = write_str_to_file e sys_pled_trigger (curr_led_trigger s) s;
              s = write_int_to_file e sys_pled_brightness (curr_led_brightness s) s
          in (Inr (0, ''OK''), s)))"

section \<open>The clock\<close>

text \<open>A field as it goes into a packet: cast to \<open>char\<close>, coded, and cast again.\<close>

definition bcd_byte :: "int \<Rightarrow> byte" where
  "bcd_byte i = word_of_int (int2bcd (uint (word_of_int i :: byte)))"

definition rtc_packet :: "byte list \<Rightarrow> tm \<Rightarrow> byte list" where
  "rtc_packet mcmd t =
     take 5 mcmd @ map bcd_byte [tm_sec t, tm_min t, tm_hour t, tm_wday t, tm_mday t, tm_mon t + 1, tm_year t - 100] @
     drop 12 (take 13 mcmd)"

definition systohc_cmd :: "('m, 'y) denv_scheme \<Rightarrow> byte list \<Rightarrow> ('m, 'z) cmd" where
  "systohc_cmd e mcmd ret n s =
     bindE (SendCommand e (rtc_packet mcmd (gmtime (clock s))) False)
       (\<lambda>(r, _). retE (if r \<noteq> SUCCESS then (1, ''ERR'') else (0, ''OK''))) s"

text \<open>The time of an answer; the day of the week is not looked at.\<close>

definition bcd_field :: "byte list \<Rightarrow> nat \<Rightarrow> int" where
  "bcd_field buf i = uint (word_of_int (bcd2int (uint (buf ! i))) :: byte)"

definition rtc_time :: "byte list \<Rightarrow> tm" where
  "rtc_time buf =
     \<lparr>tm_sec = bcd_field buf 5, tm_min = bcd_field buf 6, tm_hour = bcd_field buf 7, tm_mday = bcd_field buf 9,
      tm_mon = bcd_field buf 10 - 1, tm_year = 100 + bcd_field buf 11, tm_wday = 0\<rparr>"

definition hctosys_cmd :: "('m, 'y) denv_scheme \<Rightarrow> byte list \<Rightarrow> ('m, 'z) cmd" where
  "hctosys_cmd e mcmd ret n =
     bindE (ask e RDateAndTimeCmd) (\<lambda>(r, buf) s.
       if r \<noteq> SUCCESS then (Inr (1, ''ERR''), s)
       else
         (let rtcTime = timegm (rtc_time buf); timeStr = asctime (localtime e rtcTime); sysTime = clock s
          in if \<not> can_settime e then (Inr (0, ''ERR''), s)
             else (Inr (0, take (n - 1) (timeStr @ ''Sys: '' @ asctime (localtime e sysTime) @ ''Diff: '' @
                                         dec_int (sysTime - rtcTime) @ ''s'')),
                   s\<lparr>clock := rtcTime\<rparr>)))"

definition readrtc_cmd :: "('m, 'y) denv_scheme \<Rightarrow> byte list \<Rightarrow> ('m, 'z) cmd" where
  "readrtc_cmd e mcmd ret n =
     bindE (ask e mcmd) (\<lambda>(r, buf) s.
       if r \<noteq> SUCCESS then (Inr (1, ''ERR''), s)
       else (Inr (0, take (n - 1) (butlast (asctime (localtime e (mktime e (rtc_time buf)))))), s))"

section \<open>The wake-up alarm\<close>

text \<open>\<open>readalarm\<close>: the four values, of which those that were not read keep what they were.\<close>

type_synonym alarm = "int \<times> int \<times> int \<times> int"

definition alarm_part :: "('m, 'y) denv_scheme \<Rightarrow> byte list \<Rightarrow> (('m, 'z) daemon_scheme, mcu_exit, int option) op" where
  "alarm_part e cmd = bindE (ask e cmd) (\<lambda>(r, buf). retE (if r \<noteq> SUCCESS then None else Some (bcd2int (uint (buf ! 5)))))"

definition readalarm :: "('m, 'y) denv_scheme \<Rightarrow> alarm \<Rightarrow> (('m, 'z) daemon_scheme, mcu_exit, int \<times> alarm) op" where
  "readalarm e = (\<lambda>(month, day, hour, mnt).
     bindE (alarm_part e RAlarmMonthCmd) (\<lambda>v. case v of None \<Rightarrow> retE (1, month, day, hour, mnt) | Some month \<Rightarrow>
     bindE (alarm_part e RAlarmDateCmd) (\<lambda>v. case v of None \<Rightarrow> retE (1, month, day, hour, mnt) | Some day \<Rightarrow>
     bindE (alarm_part e RAlarmHourCmd) (\<lambda>v. case v of None \<Rightarrow> retE (1, month, day, hour, mnt) | Some hour \<Rightarrow>
     bindE (alarm_part e RAlarmMinuteCmd) (\<lambda>v. case v of None \<Rightarrow> retE (1, month, day, hour, mnt) | Some mnt \<Rightarrow>
     retE (0, month, day, hour, mnt))))))"

text \<open>The packets of \<open>writealarm\<close> are changed in place before each use; only their sixth byte ever changes.\<close>

definition send_part :: "('m, 'y) denv_scheme \<Rightarrow> byte list \<Rightarrow> int \<Rightarrow> (('m, 'z) daemon_scheme, mcu_exit, int) op" where
  "send_part e cmd v = bindE (SendCommand e (cmd[5 := word_of_int (int2bcd v)]) False) (\<lambda>(r, _). retE r)"

definition writealarm :: "('m, 'y) denv_scheme \<Rightarrow> int \<Rightarrow> int \<Rightarrow> int \<Rightarrow> int \<Rightarrow> (('m, 'z) daemon_scheme, mcu_exit, int) op" where
  "writealarm e month day hour mnt =
     bindE (send_part e WAlarmMonthCmd (month + 1)) (\<lambda>r. if r \<noteq> SUCCESS then retE 1 else
     bindE (send_part e WAlarmDateCmd day) (\<lambda>r. if r \<noteq> SUCCESS then retE 1 else
     bindE (send_part e WAlarmHourCmd hour) (\<lambda>r. if r \<noteq> SUCCESS then retE 1 else
     bindE (send_part e WAlarmMinuteCmd mnt) (\<lambda>r. if r \<noteq> SUCCESS then retE 1 else retE 0))))"

definition alarm_error :: "alarm \<Rightarrow> nat \<Rightarrow> string" where
  "alarm_error = (\<lambda>(month, day, hour, mnt) n.
     take (n - 1) (''ERR '' @ dec_int month @ ''/'' @ dec_int day @ '' '' @ dec_int hour @ '':'' @ dec_int mnt))"

definition readAlarm_cmd :: "('m, 'y) denv_scheme \<Rightarrow> byte list \<Rightarrow> ('m, 'z) cmd" where
  "readAlarm_cmd e mcmd ret n =
     bindE (readalarm e (-1, -1, -1, -1)) (\<lambda>(r, month, day, hour, mnt).
       if r \<noteq> 0 then retE (1, alarm_error (month, day, hour, mnt) n)
       else if day = 0 \<and> month = 0 \<and> hour = 0 \<and> mnt = 0 then
         bindE (simple_cmd e WAlarmDisableCmd ret n) (\<lambda>_. retE (3, take (n - 1) ''Wakeup alarm disabled''))
       else
         bindE (simple_cmd e WAlarmEnableCmd ret n) (\<lambda>_ s.
           (let ltime = clock s; year = tm_year (localtime e ltime);
                utime = timegm \<lparr>tm_sec = 0, tm_min = mnt, tm_hour = hour, tm_mday = day, tm_mon = month - 1,
                                tm_year = year, tm_wday = 0\<rparr>
            in if utime = -1 then (Inr (1, alarm_error (month, day, hour, mnt) n), s)
               else (Inr (if utime < ltime then 2 else 0,
                          take (n - 1) (''Wakeup alarm'' @ (if utime < ltime then '' (elapsed) '' else '' '') @ ''set to: '' @
                                        strftime_FR (localtime e utime))), s))))"

text \<open>
  The argument of \<open>WriteAlarm\<close>: what becomes of it is an error, the request to disable the alarm, or a month, day,
  hour and minute of local time.
\<close>

datatype request = Bad | Disable | At int int int int

definition strncaseeq :: "nat \<Rightarrow> string \<Rightarrow> string \<Rightarrow> bool" where
  "strncaseeq n a b \<longleftrightarrow> strneq n (map to_lower a) (map to_lower b)"

definition now_alarm :: "tm \<Rightarrow> alarm" where
  "now_alarm t = (tm_mon t + 1, tm_mday t, tm_hour t, tm_min t + 3)"

definition relative_alarm ::
  "('m, 'y) denv_scheme \<Rightarrow> tm \<Rightarrow> string \<Rightarrow> (('m, 'z) daemon_scheme, mcu_exit, request) op" where
  "relative_alarm e otm p =
     (let (i, q) = strtol10 p
      in if length q = length p then retE Bad
         else if take 1 q \<noteq> ''m'' \<and> take 1 q \<noteq> ''d'' then retE Bad
         else
           bindE (readalarm e (-1, -1, -1, -1)) (\<lambda>(r, month, day, hour, mnt).
             if r \<noteq> 0 then retE Bad
             else
               (let (month, day, hour, mnt) =
                      (if day = 0 \<and> month = 0 \<and> hour = 0 \<and> mnt = 0 then now_alarm otm else (month, day, hour, mnt))
                in retE (At (month + (if take 1 q = ''m'' then i else 0)) (day + (if take 1 q = ''d'' then i else 0)) hour mnt))))"

definition absolute_alarm :: "string \<Rightarrow> request" where
  "absolute_alarm p =
     (let (month, q1) = strtol10 p; (day, q2) = strtol10 q1; (hour, q3) = strtol10 q2; (mnt, q4) = strtol10 q3
      in if length q1 = length p \<or> length q2 = length q1 \<or> length q3 = length q2 \<or> length q4 = length q3 then Bad
         else if day < 1 \<or> 31 < day \<or> month < 1 \<or> 12 < month \<or> hour < 0 \<or> 23 < hour \<or> mnt < 0 \<or> 59 < mnt then Bad
         else At month day hour mnt)"

definition alarm_request ::
  "('m, 'y) denv_scheme \<Rightarrow> tm \<Rightarrow> string \<Rightarrow> (('m, 'z) daemon_scheme, mcu_exit, request) op" where
  "alarm_request e otm p =
     (if strncaseeq 3 p ''now'' then retE (case now_alarm otm of (a, b, c, d) \<Rightarrow> At a b c d)
      else if strncaseeq 7 p ''disable'' then retE Disable
      else if take 1 p = ''+'' then relative_alarm e otm p
      else retE (absolute_alarm p))"

definition alarm_usage :: string where
  "alarm_usage = ''ERR WriteAlarm: month day hour min | +N{d|m} (days|month) | now | disable''"

text \<open>The date in universal time, with the month counted from 0, that is written for a request.\<close>

definition alarm_fields :: "('m, 'y) denv_scheme \<Rightarrow> int \<Rightarrow> request \<Rightarrow> alarm option" where
  "alarm_fields e year q =
     (case q of
        Bad \<Rightarrow> None
      | Disable \<Rightarrow> Some (-1, 0, 0, 0)
      | At month day hour mnt \<Rightarrow>
          (let utime = mktime e \<lparr>tm_sec = 0, tm_min = mnt, tm_hour = hour, tm_mday = day, tm_mon = month - 1,
                                 tm_year = year, tm_wday = 0\<rparr>;
               t = gmtime utime
           in if utime = -1 then None else Some (tm_mon t, tm_mday t, tm_hour t, tm_min t)))"

definition writeAlarm_cmd :: "('m, 'y) denv_scheme \<Rightarrow> byte list \<Rightarrow> ('m, 'z) cmd" where
  "writeAlarm_cmd e mcmd ret n s =
     (let otm = localtime e (clock s); err = retE (1, take (n - 1) alarm_usage)
      in bindE (alarm_request e otm ret) (\<lambda>q.
           case alarm_fields e (tm_year otm) q of
             None \<Rightarrow> err
           | Some (month, day, hour, mn) \<Rightarrow>
               bindE (writealarm e month day hour mn) (\<lambda>r.
                 if r \<noteq> 0 then err else readAlarm_cmd e [] ret n)) s)"

section \<open>The table of commands\<close>

definition deviceshutdown_cmd :: "('m, 'y) denv_scheme \<Rightarrow> byte list \<Rightarrow> ('m, 'z) cmd" where
  "deviceshutdown_cmd e mcmd ret n =
     (let (v, q) = strtol10 ret; delay = (if length q = length ret then 5 else v)
      in simple_cmd e (DeviceShutdownCmd[5 := word_of_int (int2bcd delay)]) ret n)"

definition shutdowndaemon_cmd :: "byte list \<Rightarrow> ('m, 'z) cmd" where
  "shutdowndaemon_cmd mcmd ret n = retE (-2, ''OK'')"

definition quit_cmd :: "byte list \<Rightarrow> ('m, 'z) cmd" where
  "quit_cmd mcmd ret n = retE (-1, ''Bye'')"

datatype handler =
  Simple | Simple2 | Set_powerled | Set_fan | Read_rtc | Read_alarm | Write_alarm | Sys_to_hc | Hc_to_sys
| Get_temperature | Help | Quit | Shutdown_daemon | Device_shutdown

definition cmds :: "(string \<times> byte list \<times> handler) list" where
  "cmds =
     [(''DeviceReady'', DeviceReadyCmd, Simple),
      (''DeviceShutdown'', DeviceShutdownCmd, Device_shutdown),
      (''ShutdownDaemon'', [], Shutdown_daemon),
      (''EnablePowerRecovery'', APREnableCmd, Simple),
      (''DisablePowerRecovery'', APRDisableCmd, Simple),
      (''GetPowerRecoveryState'', APRStatusCmd, Simple2),
      (''EnableWOL'', WOLStatusEnableCmd, Simple),
      (''DisableWOL'', WOLStatusDisableCmd, Simple),
      (''GetWOLState'', WOLStatusGetCmd, Simple2),
      (''SetFanStop'', FanStopCmd, Set_fan),
      (''SetFanHalf'', FanHalfCmd, Set_fan),
      (''SetFanFull'', FanFullCmd, Set_fan),
      (''PowerLedOn'', PwrLedOnCmd, Set_powerled),
      (''PowerLedOff'', PwrLedOffCmd, Set_powerled),
      (''PowerLedBlink'', PwrLedBlinkCmd, Set_powerled),
      (''ReadRtc'', RDateAndTimeCmd, Read_rtc),
      (''ReadAlarm'', [], Read_alarm),
      (''WriteAlarm'', [], Write_alarm),
      (''EnableAlarm'', WAlarmEnableCmd, Simple),
      (''DisableAlarm'', WAlarmDisableCmd, Simple),
      (''systohc'', WDateAndTimeCmd, Sys_to_hc),
      (''hctosys'', RDateAndTimeCmd, Hc_to_sys),
      (''GetTemperature'', ThermalStatusGetCmd, Get_temperature),
      (''help'', [], Help),
      (''quit'', [], Quit)]"

definition help_text :: string where
  "help_text =
     (let t = concat (map (\<lambda>(u, _). u @ '', '') cmds)
      in ''Available Commands:'' @ [CHR 0x0A, CHR 0x0A] @ take (length t - 2) t @ ''.'')"

definition help_cmd :: "byte list \<Rightarrow> ('m, 'z) cmd" where
  "help_cmd mcmd ret n = (if n \<le> length help_text + 1 then failE Overrun else retE (1, help_text))"

definition run_handler :: "('m, 'y) denv_scheme \<Rightarrow> handler \<Rightarrow> byte list \<Rightarrow> ('m, 'z) cmd" where
  "run_handler e h =
     (case h of
        Simple \<Rightarrow> simple_cmd e | Simple2 \<Rightarrow> simple_cmd2 e | Set_powerled \<Rightarrow> setpowerled_cmd e
      | Set_fan \<Rightarrow> setfan_cmd e | Read_rtc \<Rightarrow> readrtc_cmd e | Read_alarm \<Rightarrow> readAlarm_cmd e
      | Write_alarm \<Rightarrow> writeAlarm_cmd e | Sys_to_hc \<Rightarrow> systohc_cmd e | Hc_to_sys \<Rightarrow> hctosys_cmd e
      | Get_temperature \<Rightarrow> gettemperature_cmd e | Help \<Rightarrow> help_cmd | Quit \<Rightarrow> quit_cmd
      | Shutdown_daemon \<Rightarrow> shutdowndaemon_cmd | Device_shutdown \<Rightarrow> deviceshutdown_cmd e)"

text \<open>
  \<open>HandleCommand\<close>: what follows the first space are the arguments. An unknown command is put into the reply
  without a look at its size.
\<close>

definition unknown_reply :: "string \<Rightarrow> string" where
  "unknown_reply c = ''ERR Unknown command '' @ [CHR 0x22] @ c @ [CHR 0x22]"

definition HandleCommand :: "('m, 'y) denv_scheme \<Rightarrow> string \<Rightarrow> ('m, 'z) cmd" where
  "HandleCommand e line ret n =
     (let (c, ret) = (case strchr (CHR '' '') line of None \<Rightarrow> (line, ret) | Some (a, b) \<Rightarrow> (a, b))
      in case filter (\<lambda>(u, _). strcaseeq u c) cmds of
           (u, mcmd, h) # _ \<Rightarrow> run_handler e h mcmd ret n
         | [] \<Rightarrow> if n < length (unknown_reply c) + 1 then failE Overrun else retE (1, unknown_reply c))"

section \<open>Packets that are sent\<close>

lemma bcd_table:
  "list_all (\<lambda>i. uint (word_of_int (bcd2int (uint (bcd_byte i))) :: byte) = i \<and> bcd_byte i \<noteq> CMD_STOP_MAGIC \<and>
     bcd_byte i = word_of_int (int2bcd i)) [0..99]"
  by code_simp

lemma bcd_small:
  assumes "0 \<le> i" and "i < 100"
  shows "uint (word_of_int (bcd2int (uint (bcd_byte i))) :: byte) = i" "bcd_byte i \<noteq> CMD_STOP_MAGIC"
    "word_of_int (int2bcd i) = bcd_byte i"
proof -
  have "i \<in> set [0..99]" using assms by simp
  with bcd_table show "uint (word_of_int (bcd2int (uint (bcd_byte i))) :: byte) = i" "bcd_byte i \<noteq> CMD_STOP_MAGIC"
    "word_of_int (int2bcd i) = bcd_byte i"
    unfolding list_all_iff by fastforce+
qed

definition rtc_range :: "int \<Rightarrow> bool" where
  "rtc_range t \<longleftrightarrow> days_to_year 2000 \<le> t div 86400 \<and> t div 86400 < days_to_year 2100"

lemma rtc_fields:
  assumes "rtc_range t"
  defines "g \<equiv> gmtime t"
  shows "0 \<le> tm_sec g \<and> tm_sec g < 100" "0 \<le> tm_min g \<and> tm_min g < 100" "0 \<le> tm_hour g \<and> tm_hour g < 100"
    "0 \<le> tm_wday g \<and> tm_wday g < 100" "0 \<le> tm_mday g \<and> tm_mday g < 100" "0 \<le> tm_mon g + 1 \<and> tm_mon g + 1 < 100"
    "0 \<le> tm_year g - 100 \<and> tm_year g - 100 < 100"
  using gmtime_ranges [of t] gmtime_year [of 2000 t 2100] assms by (auto simp: rtc_range_def)

lemma rtc_packet_eq:
  "rtc_packet WDateAndTimeCmd g =
     [0xFA, 0x01, 0x08, 0x02, 0x07, bcd_byte (tm_sec g), bcd_byte (tm_min g), bcd_byte (tm_hour g), bcd_byte (tm_wday g),
      bcd_byte (tm_mday g), bcd_byte (tm_mon g + 1), bcd_byte (tm_year g - 100), 0xFB]"
  by (simp add: rtc_packet_def WDateAndTimeCmd_def)

lemma rtc_packet_framed:
  assumes "rtc_range t"
  shows "framed (rtc_packet WDateAndTimeCmd (gmtime t))"
proof -
  note r = rtc_fields [OF assms]
  have "bcd_byte x \<noteq> 0xFB" if "0 \<le> x \<and> x < 100" for x
    using bcd_small(2) [of x] that by (simp add: CMD_STOP_MAGIC_def)
  then show ?thesis using r unfolding rtc_packet_eq
    by (simp add: framed_Cons CMD_STOP_MAGIC_def)
qed

text \<open>The answer of a clock chip that keeps what was written.\<close>

definition rtc_answer :: "byte list \<Rightarrow> byte list" where
  "rtc_answer p = take 5 RDateAndTimeCmd @ take 7 (drop 5 p) @ [CMD_STOP_MAGIC]"

lemma rtc_time_answer:
  assumes "rtc_range t" and "length junk = 16"
  shows "timegm (rtc_time (blit 0 (rtc_answer (rtc_packet WDateAndTimeCmd (gmtime t))) junk)) = t"
proof -
  note r = rtc_fields [OF assms(1)]
  let ?g = "gmtime t"
  let ?b = "blit 0 (rtc_answer (rtc_packet WDateAndTimeCmd ?g)) junk"
  have b: "?b = [0xFA, 0x01, 0x08, 0x01, 0x01, bcd_byte (tm_sec ?g), bcd_byte (tm_min ?g), bcd_byte (tm_hour ?g),
      bcd_byte (tm_wday ?g), bcd_byte (tm_mday ?g), bcd_byte (tm_mon ?g + 1), bcd_byte (tm_year ?g - 100), CMD_STOP_MAGIC] @
      drop 13 junk"
    unfolding rtc_answer_def rtc_packet_eq by (simp add: blit_def RDateAndTimeCmd_def eval_nat_numeral)
  have f: "?b ! i = bcd_byte x \<Longrightarrow> 0 \<le> x \<and> x < 100 \<Longrightarrow> bcd_field ?b i = x" for i x
    using bcd_small(1) [of x] by (simp add: bcd_field_def)
  have "bcd_field ?b 5 = tm_sec ?g" "bcd_field ?b 6 = tm_min ?g" "bcd_field ?b 7 = tm_hour ?g"
    "bcd_field ?b 9 = tm_mday ?g" "bcd_field ?b 10 = tm_mon ?g + 1" "bcd_field ?b 11 = tm_year ?g - 100"
    by (rule f [OF _ r(1)], simp add: b) (rule f [OF _ r(2)], simp add: b, rule f [OF _ r(3)], simp add: b,
        rule f [OF _ r(5)], simp add: b, rule f [OF _ r(6)], simp add: b, rule f [OF _ r(7)], simp add: b)
  then have "timegm (rtc_time ?b) = timegm ?g" by (simp add: rtc_time_def timegm_def)
  then show ?thesis by (simp add: timegm_gmtime)
qed

text \<open>C33. The clock survives: after \<open>systohc\<close> and, with any system time in between, \<open>hctosys\<close>, the system time is the one
  stored, from 2000 to 2099, when the clock chip answers with the seven bytes that were written to it.\<close>

theorem clock_roundtrip:
  assumes "rtc_range (clock s)" and "can_settime e" and "pend s = []"
    and "p = rtc_packet WDateAndTimeCmd (gmtime (clock s))"
    and "acks e p (dev s) d1" and "answers e RDateAndTimeCmd d1 (rtc_answer p) d2"
  shows "\<exists>t u. systohc_cmd e WDateAndTimeCmd ret n s = (Inr (0, ''OK''), t) \<and>
    (\<exists>msg. hctosys_cmd e RDateAndTimeCmd ret n (t\<lparr>clock := c\<rparr>) = (Inr (0, msg), u)) \<and> clock u = clock s"
proof -
  have fr: "framed p" using rtc_packet_framed [OF assms(1)] assms(4) by simp
  let ?t = "s\<lparr>entered := Suc (entered s), dev := d1, wire := wire s @ p, pend := []\<rparr>"
  have t: "systohc_cmd e WDateAndTimeCmd ret n s = (Inr (0, ''OK''), ?t)"
    using SendCommand_acks [OF fr assms(5,3)] assms(4) by (simp add: systohc_cmd_def retE_def)
  let ?t' = "?t\<lparr>clock := c\<rparr>"
  have rd: "framed RDateAndTimeCmd" "5 \<le> length RDateAndTimeCmd" by code_simp+
  have "answers e RDateAndTimeCmd (dev ?t') (rtc_answer p) d2" "pend ?t' = []" using assms(6) by simp_all
  note a = SendCommand_answers [OF rd(1) this rd(2)]
  have tm: "timegm (rtc_time (blit 0 (rtc_answer p) (map (stack e k) [0..<16]))) = clock s" for k
    unfolding assms(4) by (rule rtc_time_answer [OF assms(1)]) simp
  have "\<exists>msg u. hctosys_cmd e RDateAndTimeCmd ret n ?t' = (Inr (0, msg), u) \<and> clock u = clock s"
    using a assms(2) tm by (simp add: hctosys_cmd_def ask_def bindE_def retE_def Let_def)
  with t show ?thesis by blast
qed

text \<open>A box for examples: a microcontroller that keeps the clock's seven bytes and acknowledges every packet.\<close>

definition chip :: "byte \<Rightarrow> byte list \<times> byte list \<Rightarrow> byte list option \<times> byte list \<times> byte list" where
  "chip b = (\<lambda>(got, mem).
     (let p = got @ [b]
      in if b \<noteq> CMD_STOP_MAGIC then (Some [], p, mem)
         else if take 4 p = take 4 WDateAndTimeCmd then (Some AckFromSerial, [], take 7 (drop 5 p))
         else if p = RDateAndTimeCmd then (Some (take 5 p @ mem @ [CMD_STOP_MAGIC] @ AckFromSerial), [], mem)
         else (Some AckFromSerial, [], mem)))"

definition demo_env :: "(byte list \<times> byte list) denv" where
  "demo_env = \<lparr>step = chip, stack = (\<lambda>_ _. 0), can_write = (\<lambda>_. True), localtime = gmtime, mktime = timegm,
     can_settime = True, junk_int = 0\<rparr>"

definition demo_daemon :: "(byte list \<times> byte list) daemon" where
  "demo_daemon = \<lparr>dev = ([], []), pend = [], wire = [], entered = 0, fanSpeed = -1, curr_led_trigger = [],
     curr_led_brightness = -1, old_pwm = -1, mfiles = (\<lambda>_. None), clock = 1500000000\<rparr>"

lemma clock_roundtrip_witness:
  "\<exists>t u. systohc_cmd demo_env WDateAndTimeCmd [] 512 demo_daemon = (Inr (0, ''OK''), t) \<and>
    (\<exists>msg. hctosys_cmd demo_env RDateAndTimeCmd [] 512 (t\<lparr>clock := 0\<rparr>) = (Inr (0, msg), u)) \<and>
    clock u = clock demo_daemon"
proof (rule clock_roundtrip [OF _ _ _ refl])
  let ?p = "rtc_packet WDateAndTimeCmd (gmtime (clock demo_daemon))"
  show "rtc_range (clock demo_daemon)" "can_settime demo_env" "pend demo_daemon = []" by code_simp+
  have "feed demo_env ?p (dev demo_daemon) = Some (AckFromSerial, ([], take 7 (drop 5 ?p)))" by code_simp
  moreover have "is_ack AckFromSerial" by code_simp
  ultimately show "acks demo_env ?p (dev demo_daemon) ([], take 7 (drop 5 ?p))" unfolding acks_def by blast
  have "feed demo_env RDateAndTimeCmd ([], take 7 (drop 5 ?p)) = Some (rtc_answer ?p @ AckFromSerial, ([], take 7 (drop 5 ?p)))"
    by code_simp
  moreover have "framed (rtc_answer ?p)" "take 5 (rtc_answer ?p) = take 5 RDateAndTimeCmd" by code_simp+
  ultimately show "answers demo_env RDateAndTimeCmd ([], take 7 (drop 5 ?p)) (rtc_answer ?p) ([], take 7 (drop 5 ?p))"
    using \<open>is_ack AckFromSerial\<close> unfolding answers_def by blast
qed

text \<open>Every packet of the table, and every alarm or shutdown packet with two decimal digits, is well formed.\<close>

lemma table_packets: "list_all (\<lambda>(u, p, h). p = [] \<or> framed p \<and> length p \<in> {7, 13} \<and> hd p = CMD_START_MAGIC) cmds"
  by code_simp

lemma part_packets:
  "list_all (\<lambda>p. list_all (\<lambda>v. framed (p[5 := word_of_int (int2bcd v)])) [0..99])
     [WAlarmMonthCmd, WAlarmDateCmd, WAlarmHourCmd, WAlarmMinuteCmd, DeviceShutdownCmd]"
  by code_simp

text \<open>A delay of -5 puts the stop magic in the place of the delay: the microcontroller sees the end of the packet there.\<close>

lemma shutdown_minus_five: "DeviceShutdownCmd[5 := word_of_int (int2bcd (-5))] = [0xFA, 0x03, 0x03, 0x01, 0x01, 0xFB, 0xFB]"
  by code_simp

section \<open>Dispatch\<close>

lemma cmds_distinct: "distinct (map (map to_lower \<circ> fst) cmds)"
  by code_simp

lemma filter_key:
  "distinct (map f xs) \<Longrightarrow> x \<in> set xs \<Longrightarrow> filter (\<lambda>y. f y = f x) xs = [x]"
proof (induction xs)
  case (Cons y xs)
  show ?case
  proof (cases "y = x")
    case True
    then have "\<forall>z\<in>set xs. f z \<noteq> f x" using Cons.prems(1) by (metis distinct.simps(2) image_eqI list.map(2) list.set_map)
    then show ?thesis using True by simp
  next
    case False
    then have "f y \<noteq> f x" using Cons.prems by (metis distinct.simps(2) image_eqI list.map(2) list.set_map set_ConsD)
    then show ?thesis using Cons False by simp
  qed
qed simp

text \<open>A command of the table, in capital or small letters, runs its own handler with its own packet, and the handler
  gets what follows the first space; without a space it gets what the reply buffer held.\<close>

theorem command_dispatched:
  assumes "(u, p, h) \<in> set cmds" and "strcaseeq u c" and "CHR '' '' \<notin> set c"
  shows "HandleCommand e (c @ CHR '' '' # opts) ret n = run_handler e h p opts n \<and>
    HandleCommand e c ret n = run_handler e h p ret n"
proof -
  have "map to_lower u = map to_lower c" using assms(2) by (simp add: strcaseeq_def)
  then have "filter (\<lambda>(v, _). strcaseeq v c) cmds = [(u, p, h)]"
    using filter_key [OF cmds_distinct assms(1)] by (simp add: strcaseeq_def case_prod_unfold o_def)
  then show ?thesis
    using strchr_append [OF assms(3)] assms(3) strchr_None [of "CHR '' ''" c]
    by (simp_all add: HandleCommand_def)
qed

lemma command_dispatched_witness:
  "HandleCommand demo_env (''setfanfull'' @ CHR '' '' # ''x'') [] 512 = run_handler demo_env Set_fan FanFullCmd ''x'' 512 \<and>
   HandleCommand demo_env ''setfanfull'' [] 512 = run_handler demo_env Set_fan FanFullCmd [] 512"
proof (rule command_dispatched)
  show "(''SetFanFull'', FanFullCmd, Set_fan) \<in> set cmds" by (simp add: cmds_def)
  show "strcaseeq ''SetFanFull'' ''setfanfull''" by code_simp
  show "CHR '' '' \<notin> set ''setfanfull''" by code_simp
qed

text \<open>An unknown command of more than 489 characters, which fits the 512-byte message, overruns the 512-byte reply.\<close>

theorem unknown_command_overruns:
  assumes "filter (\<lambda>(u, _). strcaseeq u c) cmds = []" and "CHR '' '' \<notin> set c"
  shows "HandleCommand e c ret 512 s =
    (if 489 < length c then (Inl Overrun, s) else (Inr (1, unknown_reply c), s))"
  using assms strchr_None [of "CHR '' ''" c]
  by (simp add: HandleCommand_def failE_def retE_def unknown_reply_def)

lemma unknown_command_overruns_witness:
  "HandleCommand demo_env (replicate 500 CHR ''x'') [] 512 demo_daemon =
    (if 489 < length (replicate 500 CHR ''x'') then (Inl Overrun, demo_daemon)
     else (Inr (1, unknown_reply (replicate 500 CHR ''x'')), demo_daemon))"
proof (rule unknown_command_overruns)
  have "length u \<noteq> 500" if "u \<in> set (map fst cmds)" for u
    using that by (auto simp: cmds_def)
  moreover have "length u = length c" if "strcaseeq u c" for u c
    using that by (auto simp: strcaseeq_def dest: arg_cong [where f = length])
  ultimately show "filter (\<lambda>(u, _). strcaseeq u (replicate 500 CHR ''x'')) cmds = []"
    by (fastforce simp: filter_empty_conv)
  show "CHR '' '' \<notin> set (replicate 500 CHR ''x'')" by simp
qed

end
