(* ===== verification/McuServer.thy ===== *)
theory McuServer
  imports McuDaemon
begin

text \<open>
  The server of \<open>dns320l-daemon.c\<close>: the table of connections (\<open>fds\<close>, \<open>nfds\<close>), one call of \<open>poll_wait\<close>, the two
  periodic jobs, the main loop and the client mode. What \<open>poll\<close>, \<open>accept\<close>, \<open>recv\<close> and \<open>send\<close> return in a round is
  an argument of the round.
\<close>

section \<open>State\<close>

text \<open>Besides the descriptors, the state keeps what was done to them: the descriptors closed and the replies sent.\<close>

record 'm server = "'m daemon" +
  slots :: "int list"
  nfds :: int
  sleepCount :: u32
  shut :: "int list"
  replies :: "(int \<times> string) list"

definition MAXFDS :: nat where "MAXFDS = 10"

record revents =
  pollin :: bool
  pollhup :: bool
  pollerr :: bool
  pollnval :: bool

definition no_events :: revents where
  "no_events = \<lparr>pollin = False, pollhup = False, pollerr = False, pollnval = False\<rparr>"

text \<open>A round's system calls. \<open>received i\<close> is \<open>None\<close> for an error and the empty string for a shutdown.\<close>

record calls =
  nev :: int
  eintr :: bool
  revs :: "nat \<Rightarrow> revents"
  accepted :: int
  received :: "nat \<Rightarrow> string option"
  sent :: "nat \<Rightarrow> bool"

definition poll_setup :: "int \<Rightarrow> ('m, 'z) server_scheme \<Rightarrow> ('m, 'z) server_scheme" where
  "poll_setup ls s = s\<lparr>slots := ls # replicate (MAXFDS - 1) (-1), nfds := 1\<rparr>"

section \<open>One call of \<open>poll_wait\<close>\<close>

text \<open>A new connection on the listening socket: the first free place from 1 on.\<close>

definition accept_conn ::
  "calls \<Rightarrow> (nat \<Rightarrow> revents) \<Rightarrow> (('m, 'z) server_scheme, mcu_exit, nat \<Rightarrow> revents) op" where
  "accept_conn p rv s =
     (if nfds s = int MAXFDS then (Inr rv, s)
      else (case filter (\<lambda>j. slots s ! j = -1) [1..<MAXFDS] of
              [] \<Rightarrow> (Inl Bad_slot, s)
            | j # _ \<Rightarrow>
                (let s = s\<lparr>slots := (slots s)[j := accepted p]\<rparr>
                 in if accepted p = -1 then (Inr rv, s)
                    else (Inr (rv(j := no_events)), s\<lparr>nfds := nfds s + 1\<rparr>))))"

definition drop_conn :: "bool \<Rightarrow> nat \<Rightarrow> ('m, 'z) server_scheme \<Rightarrow> ('m, 'z) server_scheme" where
  "drop_conn close i s =
     s\<lparr>shut := (if close then shut s @ [slots s ! i] else shut s), slots := (slots s)[i := -1], nfds := nfds s - 1\<rparr>"

text \<open>
  A message: its last character is taken for the newline, and the text ends at the first NUL. A client that says
  \<open>quit\<close>, or that the reply cannot be sent to, is closed, but its place is not freed here.
\<close>

definition client_message :: "string \<Rightarrow> string" where
  "client_message m = takeWhile (\<lambda>c. c \<noteq> CHR 0x00) (butlast (take 512 m))"

definition serve_client ::
  "('m, 'y) denv_scheme \<Rightarrow> calls \<Rightarrow> nat \<Rightarrow> (('m, 'z) server_scheme, mcu_exit, unit) op" where
  "serve_client e p i s =
     (case received p i of
        None \<Rightarrow> (Inr (), drop_conn True i s)
      | Some m \<Rightarrow>
          if m = [] then (Inr (), drop_conn True i s)
          else
            bindE (HandleCommand e (client_message m) [] 512) (\<lambda>(r, msg) s.
              (let s = s\<lparr>replies := replies s @ [(slots s ! i, msg)]\<rparr>;
                   s = (if \<not> sent p i \<or> r = -1 then s\<lparr>shut := shut s @ [slots s ! i]\<rparr> else s)
               in if r = -2 then (Inl (Exit 0), s) else (Inr (), s))) s)"

definition serve_slot ::
  "('m, 'y) denv_scheme \<Rightarrow> calls \<Rightarrow> nat \<Rightarrow> (nat \<Rightarrow> revents) \<Rightarrow> (('m, 'z) server_scheme, mcu_exit, nat \<Rightarrow> revents) op" where
  "serve_slot e p i rv s =
     (if pollin (rv i) \<and> i = 0 then accept_conn p rv s
      else if pollin (rv i) then bindE (serve_client e p i) (\<lambda>_. retE rv) s
      else if pollhup (rv i) \<or> pollerr (rv i) \<or> pollnval (rv i)
        then (Inr rv, drop_conn (pollhup (rv i) \<or> pollerr (rv i)) i s)
      else (Inr rv, s))"

text \<open>The loop over the places; \<open>n\<close> events are left to be processed.\<close>

fun serve_slots ::
  "('m, 'y) denv_scheme \<Rightarrow> calls \<Rightarrow> nat list \<Rightarrow> int \<Rightarrow> (nat \<Rightarrow> revents) \<Rightarrow> (('m, 'z) server_scheme, mcu_exit, unit) op" where
  "serve_slots e p [] n rv s = (Inr (), s)"
| "serve_slots e p (i # is) n rv s =
     (if n = 0 then (Inr (), s)
      else if slots s ! i = -1 \<or> rv i = no_events then serve_slots e p is n rv s
      else bindE (serve_slot e p i rv) (serve_slots e p is (n - 1)) s)"

definition poll_wait :: "('m, 'y) denv_scheme \<Rightarrow> calls \<Rightarrow> (('m, 'z) server_scheme, mcu_exit, unit) op" where
  "poll_wait e p s =
     (if nev p = 0 then (Inr (), s)
      else if nev p = -1 then (if eintr p then (Inr (), s) else (Inl (Exit 1), s))
      else serve_slots e p [0..<MAXFDS] (nev p) (revs p) s)"

section \<open>The periodic jobs\<close>

text \<open>The state the files ask for is noted before the command is sent, whether the command succeeds or not.\<close>

definition led_blinking ::
  "('m, 'y) denv_scheme \<Rightarrow> string \<Rightarrow> (('m, 'z) daemon_scheme, mcu_exit, unit) op" where
  "led_blinking e t s =
     (if curr_led_trigger s = t then (Inr (), s)
      else
        (let s = s\<lparr>curr_led_trigger := t\<rparr>
         in if t = ''heartbeat'' \<or> t = ''timer'' then
              bindE (setpowerled_cmd e PwrLedBlinkCmd [] 16)
                (\<lambda>(r, _) s. (Inr (), if r \<noteq> 0 then s else s\<lparr>curr_led_brightness := -1\<rparr>)) s
            else (Inr (), s)))"

definition led_steady :: "('m, 'y) denv_scheme \<Rightarrow> (('m, 'z) daemon_scheme, mcu_exit, unit) op" where
  "led_steady e s =
     (case read_int_from_file sys_pled_brightness (junk_int e) s of
        None \<Rightarrow> (Inr (), s)
      | Some b \<Rightarrow>
          if curr_led_brightness s = b then (Inr (), s)
          else
            (let s = s\<lparr>curr_led_brightness := b\<rparr>
             in if b = 0 then bindE (setpowerled_cmd e PwrLedOffCmd [] 16) (\<lambda>_. retE ()) s
                else if b = 1 then bindE (setpowerled_cmd e PwrLedOnCmd [] 16) (\<lambda>_. retE ()) s
                else (Inr (), s)))"

definition readset_powerled :: "('m, 'y) denv_scheme \<Rightarrow> (('m, 'z) daemon_scheme, mcu_exit, unit) op" where
  "readset_powerled e s =
     (case read_str_from_file sys_pled_trigger 32 s of
        None \<Rightarrow> (Inr (), s)
      | Some t \<Rightarrow> bindE (led_blinking e t) (\<lambda>_. if t = ''none'' then led_steady e else retE ()) s)"

text \<open>The temperature is written by \<open>gettemperature_cmd\<close>; the copy of it that is only logged is left out.\<close>

definition set_pwm :: "('m, 'y) denv_scheme \<Rightarrow> int \<Rightarrow> (('m, 'z) daemon_scheme, mcu_exit, unit) op" where
  "set_pwm e pwm s =
     (let cmd = (\<lambda>want p. if fanSpeed s \<noteq> want then bindE (setfan_cmd e p [] 16) (\<lambda>_. retE ()) s else (Inr (), s))
      in if pwm = 0 then cmd 0 FanStopCmd else if pwm < 128 then cmd 1 FanHalfCmd else cmd 2 FanFullCmd)"

definition follow_pwm :: "('m, 'y) denv_scheme \<Rightarrow> (('m, 'z) daemon_scheme, mcu_exit, unit) op" where
  "follow_pwm e s =
     (case read_int_from_file sys_pwm (junk_int e) s of
        None \<Rightarrow> (Inr (), s)
      | Some pwm \<Rightarrow> if pwm = old_pwm s then (Inr (), s) else set_pwm e pwm (s\<lparr>old_pwm := pwm\<rparr>))"

definition readset_temp :: "('m, 'y) denv_scheme \<Rightarrow> (('m, 'z) daemon_scheme, mcu_exit, unit) op" where
  "readset_temp e = bindE (gettemperature_cmd e ThermalStatusGetCmd [] 16) (\<lambda>_. follow_pwm e)"

section \<open>The main loop\<close>

text \<open>\<open>(sleepCount * pollTimeMs) % n == 0\<close> with 32-bit arithmetic, the product wrapping around.\<close>

definition due :: "int \<Rightarrow> u32 \<Rightarrow> bool" where
  "due n k \<longleftrightarrow> sint (k * 10) smod n = 0"

definition main_round :: "('m, 'y) denv_scheme \<Rightarrow> calls \<Rightarrow> (('m, 'z) server_scheme, mcu_exit, unit) op" where
  "main_round e p s =
     bindE (if due 500 (sleepCount s) then readset_powerled e else retE ()) (\<lambda>_.
     bindE (if due 15000 (sleepCount s) then readset_temp e else retE ()) (\<lambda>_ s.
       poll_wait e p (s\<lparr>sleepCount := sleepCount s + 1\<rparr>))) s"

definition server_start :: "('m, 'y) denv_scheme \<Rightarrow> int \<Rightarrow> (('m, 'z) server_scheme, mcu_exit, unit) op" where
  "server_start e ls s = bindE (SendCommand e DeviceReadyCmd False) (\<lambda>_. retE ()) (poll_setup ls s)"

section \<open>The client mode\<close>

text \<open>
  \<open>client_cmd\<close>: without a server the command goes to the microcontroller from here, else to the server. The buffer
  of the request is also that of the reply, so it is printed when the reply cannot be read (\<open>None\<close>). The result is
  the exit status and the text printed.
\<close>

definition client_direct ::
  "('m, 'y) denv_scheme \<Rightarrow> string \<Rightarrow> string option \<Rightarrow> (('m, 'z) daemon_scheme, mcu_exit, int \<times> string) op" where
  "client_direct e xcmd opts =
     bindE (HandleCommand e xcmd (case opts of None \<Rightarrow> [] | Some x \<Rightarrow> x) 512) (\<lambda>(st, msg).
       retE (if strneq 3 ''ERR'' msg then 1 else st, msg))"

definition client_request :: "string \<Rightarrow> string option \<Rightarrow> string" where
  "client_request xcmd opts =
     (case opts of None \<Rightarrow> xcmd @ [CHR 0x0A] | Some x \<Rightarrow> xcmd @ '' '' @ x @ [CHR 0x0A])"

definition client_status :: "string \<Rightarrow> int" where
  "client_status msg = (if strneq 2 ''OK'' msg then 0 else if strneq 3 ''ERR'' msg then 1 else 0)"

definition client_server :: "string \<Rightarrow> bool \<Rightarrow> string option \<Rightarrow> int \<times> string" where
  "client_server request written answer =
     (if \<not> written then (1, [])
      else (let msg = (case answer of None \<Rightarrow> request | Some m \<Rightarrow> m) in (client_status msg, msg)))"

text \<open>The arguments of \<open>-x\<close> are joined in 64 bytes of memory; each takes a space and the NUL behind it.\<close>

fun join_opts :: "nat \<Rightarrow> string list \<Rightarrow> mcu_exit + string" where
  "join_opts n [] = Inr []"
| "join_opts n (a # as) =
     (if 64 \<le> n then Inr []
      else if 64 < n + length a + 2 then Inl Overrun
      else (case join_opts (n + length a + 1) as of Inl x \<Rightarrow> Inl x | Inr r \<Rightarrow> Inr (a @ '' '' @ r)))"

section \<open>What the commands leave alone\<close>

text \<open>A command leaves the server's part of the state alone, and only an overrun or a bad index can end it.\<close>

definition faults :: "mcu_exit set" where
  "faults = {Overrun, Out_of_table}"

lemma keeps_ClearSerialPort [keeps]: "keeps_part link.more faults ClearSerialPort"
  by (simp add: keeps_part_def faults_def ClearSerialPort_def Let_def)

lemma send_bytes_more:
  "link.more (snd (send_bytes e k p s)) = link.more s \<and> (\<forall>x. fst (send_bytes e k p s) = Inl x \<longrightarrow> x = Overrun)"
  by (induction e k p s rule: send_bytes.induct) (auto simp: Let_def faults_def split: prod.splits option.splits)

lemma receive_loop_more: "link.more (snd (receive_loop sz i buf s)) = link.more s"
proof (induction sz i buf s rule: receive_loop.induct)
  case (1 sz i buf s)
  then show ?case by (subst receive_loop.simps) (auto split: list.splits)
qed

lemma receive_pkt_more: "receive_pkt buf s = (x, t) \<Longrightarrow> link.more t = link.more s"
  using receive_loop_more [of 16 0 buf s] by (auto simp: receive_pkt_def split: prod.splits)

lemma read_replies_more: "read_replies p w buf s = (x, t) \<Longrightarrow> link.more t = link.more s"
  by (auto simp: read_replies_def Let_def split: prod.splits if_splits dest!: receive_pkt_more)

lemma keeps_read_replies [keeps]: "keeps_part link.more faults (\<lambda>s. case read_replies p w buf s of (x, s) \<Rightarrow> (Inr x, s))"
  by (auto simp: keeps_part_def split: prod.splits dest: read_replies_more)

lemma keeps_send_pkt [keeps]: "keeps_part link.more faults (send_pkt e p)"
  by (simp add: keeps_part_def faults_def send_pkt_def send_bytes_more)

lemma keeps_exchange: "keeps_part link.more faults (bindE ClearSerialPort (\<lambda>_. bindE (send_pkt e p) (\<lambda>r s.
    if r \<noteq> SUCCESS then (Inr (1, None), s) else (case read_replies p w buf s of (x, s) \<Rightarrow> (Inr x, s)))))"
  by (intro keeps)

lemma keeps_raw_SendCommand [keeps]: "keeps_part link.more faults (raw_SendCommand e p w)"
  unfolding keeps_part_def
proof
  fix s
  show "link.more (snd (raw_SendCommand e p w s)) = link.more s \<and>
      (\<forall>x. fst (raw_SendCommand e p w s) = Inl x \<longrightarrow> x \<in> faults)"
    using keeps_after' [OF keeps_exchange, of e p w "map (stack e (entered s)) [0..<16]" "s\<lparr>entered := Suc (entered s)\<rparr>"]
    by (simp add: raw_SendCommand_def)
qed

lemma send_retry_more:
  "link.more (snd (send_retry e n k p w s)) = link.more s \<and> (\<forall>x. fst (send_retry e n k p w s) = Inl x \<longrightarrow> x \<in> faults)"
proof (induction e n k p w s rule: send_retry.induct)
  case (1 e n k p w s)
  obtain x t where r: "raw_SendCommand e p w s = (x, t)" by fastforce
  have "link.more t = link.more s" using keeps_partD [OF keeps_raw_SendCommand r] .
  moreover have "x = Inl y \<Longrightarrow> y \<in> faults" for y using keeps_part_exit [OF keeps_raw_SendCommand] r by blast
  ultimately show ?case using 1 r by (subst send_retry.simps, subst send_retry.simps) (auto simp: bindE_def split: sum.splits prod.splits)
qed

lemma keeps_SendCommand [keeps]: "keeps_part link.more faults (SendCommand e p w)"
  unfolding keeps_part_def SendCommand_def using send_retry_more by blast

text \<open>The same for the state of the server, the extension of the daemon's.\<close>

lemma link_daemon_more: "link.more s = link.more t \<Longrightarrow> daemon.more s = daemon.more t"
  by (cases s; cases t) simp

lemma keeps_SendCommand_server [keeps]: "keeps_part daemon.more faults (SendCommand e p w)"
  by (rule keeps_mono [OF keeps_SendCommand link_daemon_more])

lemma write_str_more [simp]: "daemon.more (write_str_to_file e f v s) = daemon.more s"
  "daemon.more (write_int_to_file e f i s) = daemon.more s"
  by (simp_all add: write_str_to_file_def write_int_to_file_def)

lemma keeps_leaf:
  "(\<And>s. daemon.more (snd (f s)) = daemon.more s \<and> (\<forall>x. fst (f s) = Inl x \<longrightarrow> x \<in> faults)) \<Longrightarrow>
   keeps_part daemon.more faults f"
  by (simp add: keeps_part_def)

lemma keeps_ask [keeps]: "keeps_part daemon.more faults (ask e p)"
  unfolding ask_def by (intro keeps)

lemma keeps_simple [keeps]: "keeps_part daemon.more faults (simple_cmd e p r n)"
  unfolding simple_cmd_def by (intro keeps)

lemma keeps_simple2 [keeps]: "keeps_part daemon.more faults (simple_cmd2 e p r n)"
  unfolding simple_cmd2_def by (intro keeps)

lemma keeps_fan [keeps]: "keeps_part daemon.more faults (setfan_cmd e p r n)"
  unfolding setfan_cmd_def by (intro keeps keeps_leaf) (auto simp: Let_def faults_def split: prod.splits if_splits)

lemma keeps_temperature [keeps]: "keeps_part daemon.more faults (gettemperature_cmd e p r n)"
  unfolding gettemperature_cmd_def by (intro keeps keeps_leaf) (auto simp: Let_def faults_def split: prod.splits)

lemma keeps_powerled [keeps]: "keeps_part daemon.more faults (setpowerled_cmd e p r n)"
  unfolding setpowerled_cmd_def by (intro keeps keeps_leaf) (auto simp: Let_def faults_def split: prod.splits)

lemma keeps_hctosys [keeps]: "keeps_part daemon.more faults (hctosys_cmd e p r n)"
  unfolding hctosys_cmd_def by (intro keeps keeps_leaf) (auto simp: Let_def faults_def split: prod.splits)

lemma keeps_readrtc [keeps]: "keeps_part daemon.more faults (readrtc_cmd e p r n)"
  unfolding readrtc_cmd_def by (intro keeps keeps_leaf) (auto simp: Let_def faults_def split: prod.splits)

lemma keeps_systohc [keeps]: "keeps_part daemon.more faults (systohc_cmd e p r n)"
  by (rule keeps_leaf, unfold systohc_cmd_def, rule keeps_after', intro keeps)

lemma keeps_overrun [keeps]: "keeps_part part faults (failE Overrun)"
  by (simp add: keeps_part_def failE_def faults_def)

lemma keeps_alarm_part [keeps]: "keeps_part daemon.more faults (alarm_part e p)"
  unfolding alarm_part_def by (intro keeps)

lemma keeps_readalarm [keeps]: "keeps_part daemon.more faults (readalarm e a)"
  unfolding readalarm_def by (intro keeps)

lemma keeps_send_part [keeps]: "keeps_part daemon.more faults (send_part e p v)"
  unfolding send_part_def by (intro keeps)

lemma keeps_writealarm [keeps]: "keeps_part daemon.more faults (writealarm e a b c d)"
  unfolding writealarm_def by (intro keeps)

lemma keeps_readAlarm [keeps]: "keeps_part daemon.more faults (readAlarm_cmd e p r n)"
  unfolding readAlarm_cmd_def by (intro keeps keeps_leaf) (auto simp: Let_def)

lemma keeps_alarm_request [keeps]: "keeps_part daemon.more faults (alarm_request e t p)"
  unfolding alarm_request_def relative_alarm_def by (intro keeps)

lemma keeps_writeAlarm [keeps]: "keeps_part daemon.more faults (writeAlarm_cmd e p r n)"
  by (rule keeps_leaf, unfold writeAlarm_cmd_def Let_def, rule keeps_after' , intro keeps)

lemma keeps_deviceshutdown [keeps]: "keeps_part daemon.more faults (deviceshutdown_cmd e p r n)"
  unfolding deviceshutdown_cmd_def by (intro keeps)

lemma keeps_trivial [keeps]:
  "keeps_part daemon.more faults (help_cmd p r n)" "keeps_part daemon.more faults (quit_cmd p r n)"
  "keeps_part daemon.more faults (shutdowndaemon_cmd p r n)"
  unfolding help_cmd_def quit_cmd_def shutdowndaemon_cmd_def by (intro keeps)+

lemma keeps_run_handler [keeps]: "keeps_part daemon.more faults (run_handler e h p r n)"
  by (cases h) (simp_all add: run_handler_def keeps)

lemma keeps_HandleCommand [keeps]: "keeps_part daemon.more faults (HandleCommand e c r n)"
  unfolding HandleCommand_def by (auto simp: Let_def split: list.splits prod.splits option.splits intro: keeps)

section \<open>The table of connections\<close>

lemma server_parts: "daemon.more s = daemon.more t \<Longrightarrow>
    slots s = slots t \<and> nfds s = nfds t \<and> sleepCount s = sleepCount t \<and> shut s = shut t \<and> replies s = replies t"
  by (cases s; cases t) simp

text \<open>\<open>nfds\<close> counts the open places.\<close>

definition in_use :: "int list \<Rightarrow> nat" where
  "in_use fs = length (filter (\<lambda>f. f \<noteq> -1) fs)"

definition table_ok :: "('m, 'z) server_scheme \<Rightarrow> bool" where
  "table_ok s \<longleftrightarrow> length (slots s) = MAXFDS \<and> nfds s = int (in_use (slots s))"

lemma in_use_Cons: "int (in_use (f # fs)) = (if f \<noteq> -1 then 1 else 0) + int (in_use fs)"
  by (simp add: in_use_def)

lemma in_use_update:
  "i < length fs \<Longrightarrow> int (in_use (fs[i := f])) = int (in_use fs) - (if fs ! i \<noteq> -1 then 1 else 0) + (if f \<noteq> -1 then 1 else 0)"
proof (induction fs arbitrary: i)
  case (Cons a fs)
  show ?case
  proof (cases i)
    case 0
    then show ?thesis by (simp add: in_use_def)
  next
    case (Suc k)
    then show ?thesis using Cons.IH [of k] Cons.prems
      by (simp only: list_update_code nth_Cons_Suc in_use_Cons list.size)
  qed
qed simp

lemma in_use_full: "in_use fs = length fs \<longleftrightarrow> -1 \<notin> set fs"
proof -
  have "in_use fs = length fs \<longleftrightarrow> filter (\<lambda>f. f \<noteq> -1) fs = fs"
    by (metis in_use_def length_filter_less filter_id_conv less_irrefl)
  then show ?thesis by (auto simp: filter_id_conv)
qed

lemma table_after: "daemon.more t = daemon.more s \<Longrightarrow> table_ok s \<Longrightarrow> table_ok t"
  using server_parts [of t s] by (simp add: table_ok_def)

lemma table_keeps: "keeps_part daemon.more faults f \<Longrightarrow> f s = (r, t) \<Longrightarrow> table_ok s \<Longrightarrow> table_ok t"
  by (rule table_after) (rule keeps_partD)

lemma drop_conn_ok: "table_ok s \<Longrightarrow> i < MAXFDS \<Longrightarrow> slots s ! i \<noteq> -1 \<Longrightarrow> table_ok (drop_conn c i s)"
  by (simp add: table_ok_def drop_conn_def in_use_update)

lemma accept_conn_ok:
  assumes "table_ok s" and "slots s ! 0 \<noteq> -1" and "accept_conn p rv s = (r, t)"
  shows "table_ok t \<and> r \<noteq> Inl Bad_slot"
proof (cases "nfds s = int MAXFDS")
  case True
  then show ?thesis using assms by (auto simp: accept_conn_def)
next
  case False
  have "\<not> (\<forall>j\<in>set [1..<MAXFDS]. slots s ! j \<noteq> -1)"
  proof
    assume a: "\<forall>j\<in>set [1..<MAXFDS]. slots s ! j \<noteq> -1"
    have "slots s ! j \<noteq> -1" if "j < MAXFDS" for j using a assms(2) that by (cases j) auto
    then have "-1 \<notin> set (slots s)" using assms(1) unfolding table_ok_def in_set_conv_nth by metis
    then show False using in_use_full assms(1) False by (metis table_ok_def)
  qed
  then obtain j js where f: "filter (\<lambda>j. slots s ! j = -1) [1..<MAXFDS] = j # js"
    by (metis (mono_tags, lifting) filter_empty_conv neq_Nil_conv)
  then have "j \<in> set (filter (\<lambda>j. slots s ! j = -1) [1..<MAXFDS])" by simp
  then have j: "j < MAXFDS" "slots s ! j = -1" by auto
  then show ?thesis using assms(1,3) False f
    by (auto simp: accept_conn_def Let_def table_ok_def in_use_update split: if_splits)
qed

definition exits :: "mcu_exit set" where
  "exits = insert (Exit 0) (insert (Exit 1) faults)"

definition result_ok :: "(mcu_exit + 'a) \<times> ('m, 'z) server_scheme \<Rightarrow> bool" where
  "result_ok rt \<longleftrightarrow> table_ok (snd rt) \<and> (\<forall>x. fst rt = Inl x \<longrightarrow> x \<in> exits)"

lemma result_okI: "table_ok t \<Longrightarrow> (\<And>x. r = Inl x \<Longrightarrow> x \<in> exits) \<Longrightarrow> result_ok (r, t)"
  by (simp add: result_ok_def)

lemma result_ok_keeps: "keeps_part daemon.more faults f \<Longrightarrow> table_ok s \<Longrightarrow> result_ok (f s)"
  unfolding result_ok_def using keeps_after' [of daemon.more faults f s] table_after [of "snd (f s)" s]
  by (auto simp: exits_def)

lemma result_ok_bindE:
  assumes "result_ok (f s)" and "\<And>a t. f s = (Inr a, t) \<Longrightarrow> table_ok t \<Longrightarrow> result_ok (g a t)"
  shows "result_ok (bindE f g s)"
proof (cases "f s")
  case (Pair r t)
  then show ?thesis using assms by (cases r) (auto simp: bindE_def result_ok_def)
qed

lemma result_ok_serve_client:
  assumes "table_ok s" and "i < MAXFDS" and "slots s ! i \<noteq> -1"
  shows "result_ok (serve_client e p i s)"
proof (cases "received p i")
  case None
  then show ?thesis using drop_conn_ok [OF assms] by (simp add: serve_client_def result_ok_def)
next
  case (Some m)
  show ?thesis
  proof (cases "m = []")
    case True
    then show ?thesis using Some drop_conn_ok [OF assms] by (simp add: serve_client_def result_ok_def)
  next
    case False
    have "result_ok (bindE (HandleCommand e (client_message m) [] 512) (\<lambda>(r, msg) s.
              (let s = s\<lparr>replies := replies s @ [(slots s ! i, msg)]\<rparr>;
                   s = (if \<not> sent p i \<or> r = -1 then s\<lparr>shut := shut s @ [slots s ! i]\<rparr> else s)
               in if r = -2 then (Inl (Exit 0), s) else (Inr (), s))) s)"
      by (rule result_ok_bindE, rule result_ok_keeps [OF keeps_HandleCommand assms(1)])
        (auto simp: Let_def result_ok_def table_ok_def exits_def split: if_splits)
    then show ?thesis using Some False by (simp add: serve_client_def)
  qed
qed

lemma result_ok_serve_slot:
  assumes "table_ok s" and "i < MAXFDS" and "slots s ! i \<noteq> -1"
  shows "result_ok (serve_slot e p i rv s)"
proof -
  have "result_ok (accept_conn p rv s)" if "i = 0"
  proof -
    obtain r t where a: "accept_conn p rv s = (r, t)" by fastforce
    have "r = Inl x \<Longrightarrow> x = Bad_slot" for x
      using a by (auto simp: accept_conn_def Let_def split: if_splits list.splits)
    then show ?thesis using accept_conn_ok [OF assms(1) _ a] assms(3) that a by (auto simp: result_ok_def)
  qed
  moreover have "result_ok (bindE (serve_client e p i) (\<lambda>_. retE rv) s)"
    by (rule result_ok_bindE, rule result_ok_serve_client [OF assms]) (simp add: result_ok_def retE_def)
  ultimately show ?thesis using assms drop_conn_ok [OF assms]
    by (simp add: serve_slot_def result_ok_def)
qed

lemma result_ok_serve_slots:
  "table_ok s \<Longrightarrow> \<forall>i\<in>set is. i < MAXFDS \<Longrightarrow> result_ok (serve_slots e p is n rv s)"
proof (induction e p "is" n rv s rule: serve_slots.induct)
  case (1 e p n rv s)
  then show ?case by (simp add: result_ok_def)
next
  case (2 e p i "is" n rv s)
  show ?case
  proof (cases "n = 0 \<or> slots s ! i = -1 \<or> rv i = no_events")
    case True
    then show ?thesis using 2 by (auto simp: result_ok_def)
  next
    case False
    have "result_ok (bindE (serve_slot e p i rv) (serve_slots e p is (n - 1)) s)"
      using False 2 by (intro result_ok_bindE result_ok_serve_slot) auto
    then show ?thesis using False by simp
  qed
qed

lemma result_ok_poll_wait: "table_ok s \<Longrightarrow> result_ok (poll_wait e p s)"
  using result_ok_serve_slots [of s "[0..<MAXFDS]" e p "nev p" "revs p"]
  by (auto simp: poll_wait_def exits_def [THEN eqset_imp_iff] intro!: result_okI)

lemma keeps_led_blinking [keeps]: "keeps_part daemon.more faults (led_blinking e t)"
proof (rule keeps_leaf)
  fix s :: "('a, 'b) daemon_scheme"
  let ?s = "s\<lparr>curr_led_trigger := t\<rparr>"
  have "keeps_part daemon.more faults (bindE (setpowerled_cmd e PwrLedBlinkCmd [] 16)
      (\<lambda>(r, _) s. (Inr (), if r \<noteq> 0 then s else s\<lparr>curr_led_brightness := -1\<rparr>)))"
    by (intro keeps keeps_leaf) auto
  from keeps_after' [OF this, of ?s] show "daemon.more (snd (led_blinking e t s)) = daemon.more s \<and>
      (\<forall>x. fst (led_blinking e t s) = Inl x \<longrightarrow> x \<in> faults)"
    by (simp add: led_blinking_def Let_def)
qed

lemma keeps_led_steady [keeps]: "keeps_part daemon.more faults (led_steady e)"
proof (rule keeps_leaf)
  fix s :: "('a, 'b) daemon_scheme"
  have "keeps_part daemon.more faults (bindE (setpowerled_cmd e p [] 16) (\<lambda>_. retE ()))" for p
    by (intro keeps)
  from keeps_after' [where s = "s\<lparr>curr_led_brightness := b\<rparr>" for b, OF this]
  show "daemon.more (snd (led_steady e s)) = daemon.more s \<and> (\<forall>x. fst (led_steady e s) = Inl x \<longrightarrow> x \<in> faults)"
    by (simp add: led_steady_def Let_def split: option.splits)
qed

lemma keeps_readset_powerled [keeps]: "keeps_part daemon.more faults (readset_powerled e)"
proof (rule keeps_leaf)
  fix s :: "('a, 'b) daemon_scheme"
  have "keeps_part daemon.more faults (bindE (led_blinking e t) (\<lambda>_. if t = ''none'' then led_steady e else retE ()))" for t
    by (intro keeps)
  from keeps_after' [where s = s, OF this] show "daemon.more (snd (readset_powerled e s)) = daemon.more s \<and>
      (\<forall>x. fst (readset_powerled e s) = Inl x \<longrightarrow> x \<in> faults)"
    by (simp add: readset_powerled_def split: option.splits)
qed

lemma keeps_set_pwm [keeps]: "keeps_part daemon.more faults (set_pwm e v)"
proof (rule keeps_leaf)
  fix s :: "('a, 'b) daemon_scheme"
  have "keeps_part daemon.more faults (bindE (setfan_cmd e p [] 16) (\<lambda>_. retE ()))" for p
    by (intro keeps)
  from keeps_after' [where s = s, OF this] show "daemon.more (snd (set_pwm e v s)) = daemon.more s \<and>
      (\<forall>x. fst (set_pwm e v s) = Inl x \<longrightarrow> x \<in> faults)"
    by (simp add: set_pwm_def Let_def)
qed

lemma keeps_follow_pwm [keeps]: "keeps_part daemon.more faults (follow_pwm e)"
proof (rule keeps_leaf)
  fix s :: "('a, 'b) daemon_scheme"
  from keeps_after' [where s = "s\<lparr>old_pwm := v\<rparr>" for v, OF keeps_set_pwm [of e]] show
    "daemon.more (snd (follow_pwm e s)) = daemon.more s \<and> (\<forall>x. fst (follow_pwm e s) = Inl x \<longrightarrow> x \<in> faults)"
    by (simp add: follow_pwm_def split: option.splits)
qed

lemma keeps_readset_temp [keeps]: "keeps_part daemon.more faults (readset_temp e)"
  unfolding readset_temp_def by (intro keeps)

lemma result_ok_main_round:
  assumes "table_ok s"
  shows "result_ok (main_round e p s)"
proof -
  have "result_ok (bindE (if b then readset_powerled e else retE ()) (\<lambda>_.
     bindE (if c then readset_temp e else retE ()) (\<lambda>_ s. poll_wait e p (s\<lparr>sleepCount := sleepCount s + 1\<rparr>))) s)" for b c
    by (rule result_ok_bindE, rule result_ok_keeps [OF _ assms], intro keeps, rule result_ok_bindE, rule result_ok_keeps,
        intro keeps, assumption) (simp add: result_ok_poll_wait table_ok_def)
  then show ?thesis by (simp add: main_round_def)
qed

text \<open>The states of the running server: after the start, after each round that does not end it. What the system calls
  of a round return is arbitrary, and so is what the files, the clock and the microcontroller do between the rounds.\<close>

inductive serving :: "('m, 'y) denv_scheme \<Rightarrow> 'm server \<Rightarrow> bool" for e where
  start: "server_start e ls s = (Inr (), t) \<Longrightarrow> ls \<noteq> -1 \<Longrightarrow> serving e t"
| round: "serving e s \<Longrightarrow> main_round e p s = (Inr (), t) \<Longrightarrow> serving e t"
| outside: "serving e s \<Longrightarrow> serving e (s\<lparr>mfiles := fs, clock := c, dev := d, pend := q\<rparr>)"

lemma serving_ok: "serving e s \<Longrightarrow> table_ok s"
proof (induction rule: serving.induct)
  case (start ls s t)
  have ok: "table_ok (poll_setup ls s)"
    using start(2) by (simp add: table_ok_def poll_setup_def in_use_def MAXFDS_def)
  have "keeps_part daemon.more faults (bindE (SendCommand e DeviceReadyCmd False) (\<lambda>_. retE ()))" by (intro keeps)
  then show ?case using table_keeps [OF _ _ ok] start(1) by (simp add: server_start_def)
next
  case (round s p t)
  then show ?case using result_ok_main_round [of s e p] by (simp add: result_ok_def)
next
  case (outside s fs c d q)
  then show ?case by (simp add: table_ok_def)
qed

text \<open>C32. The table of connections of the running server always has ten places, \<open>nfds\<close> is the number of them in use, and
  a round never searches for a place in vain: it goes on, or the daemon ends because a client asked for it or \<open>poll\<close>
  failed, or because of an overrun or a bad index in a command.\<close>

theorem server_table_ok:
  assumes "serving e s"
  shows "length (slots s) = MAXFDS \<and> nfds s = int (in_use (slots s)) \<and>
    (case fst (main_round e p s) of Inr _ \<Rightarrow> True | Inl x \<Rightarrow> x \<in> {Exit 0, Exit 1, Overrun, Out_of_table})"
  using serving_ok [OF assms] result_ok_main_round [OF serving_ok [OF assms], of e p]
  by (auto simp: table_ok_def result_ok_def exits_def faults_def split: sum.splits)

section \<open>After twenty-five days\<close>

lemma smod_0_dvd: "x smod n = 0 \<longleftrightarrow> n dvd x" for x n :: int
  by (simp add: signed_modulo_int_def sgn_if mod_eq_0_iff_dvd)

lemma sint_product: "sint (k * 10 :: u32) = (10 * int (unat k) + 2147483648) mod 4294967296 - 2147483648"
proof -
  have "k * 10 = word_of_int (10 * int (unat k))" by simp
  then have "sint (k * 10) = signed_take_bit 31 (10 * int (unat k))" by (simp only: signed_of_int len_bit1 ) simp
  then show ?thesis by (simp add: signed_take_bit_eq_take_bit_shift take_bit_eq_mod)
qed

lemma jobs_stop_range:
  "(unat k \<le> 214748364 \<longrightarrow> (due 500 k \<longleftrightarrow> unat k mod 50 = 0) \<and> (due 15000 k \<longleftrightarrow> unat k mod 1500 = 0)) \<and>
   (214748365 \<le> unat k \<and> unat k \<le> 1932735283 \<longrightarrow> \<not> due 500 k \<and> \<not> due 15000 k)"
proof -
  let ?x = "int (unat k)" and ?v = "sint (k * 10 :: u32)"
  have small: "?v = 10 * ?x" if "unat k \<le> 214748364"
  proof -
    have "10 * ?x + 2147483648 < 4294967296" "0 \<le> 10 * ?x + 2147483648" using that by linarith+
    then show ?thesis unfolding sint_product by (subst mod_pos_pos_trivial) linarith+
  qed
  have "10 * m dvd 10 * ?x \<longleftrightarrow> m dvd ?x" for m :: int by simp
  from this [of 50] this [of 1500] have "(500 dvd 10 * ?x \<longleftrightarrow> 50 dvd ?x) \<and> (15000 dvd 10 * ?x \<longleftrightarrow> 1500 dvd ?x)" by simp
  moreover have "int m dvd ?x \<longleftrightarrow> unat k mod m = 0" for m by (simp only: int_dvd_int_iff mod_eq_0_iff_dvd)
  from this [of 50] this [of 1500] have "(50 dvd ?x \<longleftrightarrow> unat k mod 50 = 0) \<and> (1500 dvd ?x \<longleftrightarrow> unat k mod 1500 = 0)" by simp
  ultimately have one: "unat k \<le> 214748364 \<longrightarrow> (due 500 k \<longleftrightarrow> unat k mod 50 = 0) \<and> (due 15000 k \<longleftrightarrow> unat k mod 1500 = 0)"
    using small by (simp add: due_def smod_0_dvd)
  have wrap: "\<not> 10 dvd 10 * x - 4294967296 * j" if "1 \<le> j" "j \<le> 4" for x j :: int
  proof
    assume "10 dvd 10 * x - 4294967296 * j"
    then have "10 dvd 10 * (x - 429496729 * j) - (10 * x - 4294967296 * j)" by (rule dvd_diff [OF dvd_triv_left])
    moreover have "10 * (x - 429496729 * j) - (10 * x - 4294967296 * j) = 6 * j" by (simp add: right_diff_distrib)
    ultimately have "10 dvd 6 * j" by (simp only:)
    moreover have "j = 1 \<or> j = 2 \<or> j = 3 \<or> j = 4" using that by linarith
    ultimately show False by auto
  qed
  have two: "\<not> 10 dvd ?v" if "214748365 \<le> unat k" "unat k \<le> 1932735283"
  proof -
    have "1 \<le> (10 * ?x + 2147483648) div 4294967296" "(10 * ?x + 2147483648) div 4294967296 \<le> 4" using that by linarith+
    from wrap [OF this, of ?x] show ?thesis unfolding sint_product minus_mult_div_eq_mod [symmetric] by (simp add: algebra_simps)
  qed
  have "n * 10 dvd ?v \<Longrightarrow> 10 dvd ?v" for n by (rule dvd_trans [OF dvd_triv_right])
  from this [of 50] this [of 1500] two have
    "214748365 \<le> unat k \<and> unat k \<le> 1932735283 \<longrightarrow> \<not> due 500 k \<and> \<not> due 15000 k"
    by (auto simp: due_def smod_0_dvd)
  with one show ?thesis by blast
qed



definition demo_server :: "(byte list \<times> byte list) server" where
  "demo_server = \<lparr>dev = ([], []), pend = [], wire = [], entered = 0, fanSpeed = -1, curr_led_trigger = [],
     curr_led_brightness = -1, old_pwm = -1, mfiles = (\<lambda>_. None), clock = 1500000000, slots = [], nfds = 0,
     sleepCount = 0, shut = [], replies = []\<rparr>"

definition no_calls :: calls where
  "no_calls = \<lparr>nev = 0, eintr = False, revs = (\<lambda>_. no_events), accepted = -1, received = (\<lambda>_. None), sent = (\<lambda>_. True)\<rparr>"


lemma server_table_ok_witness:
  "length (slots (snd (server_start demo_env 5 demo_server))) = MAXFDS \<and>
   nfds (snd (server_start demo_env 5 demo_server)) = int (in_use (slots (snd (server_start demo_env 5 demo_server)))) \<and>
   (case fst (main_round demo_env no_calls (snd (server_start demo_env 5 demo_server))) of Inr _ \<Rightarrow> True
    | Inl x \<Rightarrow> x \<in> {Exit 0, Exit 1, Overrun, Out_of_table})"
proof (rule server_table_ok, rule serving.start)
  have "fst (server_start demo_env 5 demo_server) = Inr ()" by code_simp
  then show "server_start demo_env 5 demo_server = (Inr (), snd (server_start demo_env 5 demo_server))"
    by (metis prod.collapse)
qed simp

section \<open>The fan\<close>

definition speed_for :: "int \<Rightarrow> int" where
  "speed_for v = (if v = 0 then 0 else if v < 128 then 1 else 2)"

definition packet_for :: "int \<Rightarrow> byte list" where
  "packet_for v = (if v = 0 then FanStopCmd else if v < 128 then FanHalfCmd else FanFullCmd)"

lemma link_parts: "link.more s = link.more t \<Longrightarrow>
    fanSpeed s = fanSpeed t \<and> old_pwm s = old_pwm t \<and> mfiles s = mfiles t \<and> clock s = clock t"
  by (cases s; cases t) simp

lemma packet_for_framed: "framed (packet_for v)"
proof -
  have "framed FanStopCmd" "framed FanHalfCmd" "framed FanFullCmd" by code_simp+
  then show ?thesis by (simp add: packet_for_def)
qed

lemma set_pwm_eq: "set_pwm e v s = (if fanSpeed s = speed_for v then (Inr (), s)
    else bindE (setfan_cmd e (packet_for v) [] 16) (\<lambda>_. retE ()) s)"
  by (simp add: set_pwm_def Let_def speed_for_def packet_for_def)

lemma packet_speed:
  "(packet_for v ! 3 = 0 \<longleftrightarrow> speed_for v = 0) \<and> (packet_for v ! 3 = 1 \<longleftrightarrow> speed_for v = 1) \<and>
   (packet_for v ! 3 = 2 \<longleftrightarrow> speed_for v = 2)"
  by (simp add: packet_for_def speed_for_def FanStopCmd_def FanHalfCmd_def FanFullCmd_def)

lemma speed_for_cases: "speed_for v = 0 \<or> speed_for v = 1 \<or> speed_for v = 2"
  by (simp add: speed_for_def)

text \<open>C34. A new PWM value is followed: when the microcontroller acknowledges, the fan is told its speed, once, unless it has
  it already, and \<open>fanSpeed\<close> and the value followed are what they should be.\<close>

theorem fan_follows:
  assumes "read_int_from_file sys_pwm (junk_int e) s = Some v" and "v \<noteq> old_pwm s"
    and "acks e (packet_for v) (dev s) d" and "pend s = []"
  shows "\<exists>t. follow_pwm e s = (Inr (), t) \<and> fanSpeed t = speed_for v \<and> old_pwm t = v \<and>
    wire t = wire s @ (if fanSpeed s = speed_for v then [] else packet_for v)"
proof (cases "fanSpeed s = speed_for v")
  case True
  then show ?thesis using assms(1,2) by (simp add: follow_pwm_def set_pwm_eq)
next
  case False
  let ?s = "s\<lparr>old_pwm := v\<rparr>"
  let ?t = "?s\<lparr>entered := Suc (entered ?s), dev := d, wire := wire ?s @ packet_for v, pend := []\<rparr>"
  have "SendCommand e (packet_for v) False ?s = (Inr (SUCCESS, None), ?t)"
    using assms(3,4) by (intro SendCommand_acks [OF packet_for_framed]) simp_all
  then have c: "simple_cmd e (packet_for v) [] 16 ?s = (Inr (0, ''OK''), ?t)" by (simp add: simple_cmd_def retE_def)
  have "\<exists>u. setfan_cmd e (packet_for v) [] 16 ?s = (Inr (0, ''OK''), u) \<and> fanSpeed u = speed_for v \<and> old_pwm u = v \<and>
      wire u = wire s @ packet_for v"
    using c packet_speed [of v] speed_for_cases [of v]
    by (auto simp: setfan_cmd_def SUCCESS_def Let_def write_str_to_file_def)
  then show ?thesis using False assms(1,2)
    by (auto simp: follow_pwm_def set_pwm_eq retE_def)
qed

text \<open>A command that fails is forgotten: when the microcontroller does not take the new speed in three attempts, the
  value counts as followed all the same, and the next look at it, and every other one until the value changes, sends
  nothing.\<close>

theorem fan_failure_forgotten:
  assumes "read_int_from_file sys_pwm (junk_int e) s = Some v" and "v \<noteq> old_pwm s" and "fanSpeed s \<noteq> speed_for v"
    and "SendCommand e (packet_for v) False (s\<lparr>old_pwm := v\<rparr>) = (Inr (r, out), t)" and "r \<noteq> SUCCESS"
  shows "follow_pwm e s = (Inr (), t) \<and> fanSpeed t = fanSpeed s \<and> fanSpeed t \<noteq> speed_for v \<and> follow_pwm e t = (Inr (), t)"
proof -
  have "link.more t = link.more (s\<lparr>old_pwm := v\<rparr>)" by (rule keeps_partD [OF keeps_SendCommand assms(4)])
  then have t: "fanSpeed t = fanSpeed s" "old_pwm t = v" "mfiles t = mfiles s"
    using link_parts [of t "s\<lparr>old_pwm := v\<rparr>"] by simp_all
  have "simple_cmd e (packet_for v) [] 16 (s\<lparr>old_pwm := v\<rparr>) = (Inr (1, ''ERR''), t)"
    using assms(4,5) by (simp add: simple_cmd_def retE_def)
  then have "setfan_cmd e (packet_for v) [] 16 (s\<lparr>old_pwm := v\<rparr>) = (Inr (1, ''ERR''), t)"
    by (simp add: setfan_cmd_def SUCCESS_def)
  moreover have "read_int_from_file sys_pwm (junk_int e) t = Some v"
    using assms(1) t(3) by (simp add: read_int_from_file_def read_str_from_file_def)
  ultimately show ?thesis using assms(1-3) t by (simp add: follow_pwm_def set_pwm_eq retE_def)
qed

definition pwm_server :: "(byte list \<times> byte list) server" where
  "pwm_server = demo_server\<lparr>mfiles := [sys_pwm \<mapsto> ''255'' @ [CHR 0x0A]]\<rparr>"

lemma fan_follows_witness:
  "\<exists>t. follow_pwm demo_env pwm_server = (Inr (), t) \<and> fanSpeed t = speed_for 255 \<and> old_pwm t = 255 \<and>
    wire t = wire pwm_server @ (if fanSpeed pwm_server = speed_for 255 then [] else packet_for 255)"
proof (rule fan_follows)
  show "read_int_from_file sys_pwm (junk_int demo_env) pwm_server = Some 255" by code_simp
  have "feed demo_env (packet_for 255) (dev pwm_server) = Some (AckFromSerial, ([], []))" by code_simp
  moreover have "is_ack AckFromSerial" by code_simp
  ultimately show "acks demo_env (packet_for 255) (dev pwm_server) ([], [])" unfolding acks_def by blast
qed (code_simp+)

definition dead_env :: "(byte list \<times> byte list) denv" where
  "dead_env = demo_env\<lparr>step := (\<lambda>b d. (Some [], d))\<rparr>"

lemma fan_failure_forgotten_witness:
  "follow_pwm dead_env pwm_server = (Inr (), snd (SendCommand dead_env (packet_for 255) False (pwm_server\<lparr>old_pwm := 255\<rparr>))) \<and>
   fanSpeed (snd (SendCommand dead_env (packet_for 255) False (pwm_server\<lparr>old_pwm := 255\<rparr>))) = fanSpeed pwm_server \<and>
   fanSpeed (snd (SendCommand dead_env (packet_for 255) False (pwm_server\<lparr>old_pwm := 255\<rparr>))) \<noteq> speed_for 255 \<and>
   follow_pwm dead_env (snd (SendCommand dead_env (packet_for 255) False (pwm_server\<lparr>old_pwm := 255\<rparr>))) =
     (Inr (), snd (SendCommand dead_env (packet_for 255) False (pwm_server\<lparr>old_pwm := 255\<rparr>)))"
proof (rule fan_failure_forgotten)
  show "read_int_from_file sys_pwm (junk_int dead_env) pwm_server = Some 255" by code_simp
  have "fst (SendCommand dead_env (packet_for 255) False (pwm_server\<lparr>old_pwm := 255\<rparr>)) = Inr (ERR_WRONG_ANSWER, None)"
    by code_simp
  then show "SendCommand dead_env (packet_for 255) False (pwm_server\<lparr>old_pwm := 255\<rparr>) =
      (Inr (ERR_WRONG_ANSWER, None), snd (SendCommand dead_env (packet_for 255) False (pwm_server\<lparr>old_pwm := 255\<rparr>)))"
    by (metis prod.collapse)
qed (code_simp+)

section \<open>Client and server\<close>

text \<open>C36. A command means the same through the server as without one: what the server makes of the message of the client is
  the call the client makes itself when no server runs, for any command without a space and any arguments that fit
  the 512-byte buffers.\<close>

theorem client_transparent:
  assumes "CHR '' '' \<notin> set x" and "CHR 0x00 \<notin> set x" and "\<forall>a. opts = Some a \<longrightarrow> CHR 0x00 \<notin> set a"
    and "length (client_request x opts) \<le> 512"
  shows "HandleCommand e (client_message (client_request x opts)) [] 512 =
    HandleCommand e x (case opts of None \<Rightarrow> [] | Some a \<Rightarrow> a) 512"
proof -
  let ?l = "case opts of None \<Rightarrow> x | Some a \<Rightarrow> x @ CHR '' '' # a"
  have r: "client_request x opts = ?l @ [CHR 0x0A]" by (simp add: client_request_def split: option.splits)
  have "takeWhile (\<lambda>c. c \<noteq> CHR 0x00) ?l = ?l"
    using assms(2,3) by (intro takeWhile_eq_all_conv [THEN iffD2]) (auto split: option.splits)
  then have "client_message (client_request x opts) = ?l"
    using assms(4) unfolding r client_message_def by (simp add: butlast_append)
  then show ?thesis
    using strchr_append [OF assms(1)] assms(1) strchr_None [of "CHR '' ''" x]
    by (cases opts) (simp_all add: HandleCommand_def)
qed

lemma client_transparent_witness:
  "HandleCommand demo_env (client_message (client_request ''DeviceShutdown'' (Some ''10 ''))) [] 512 =
    HandleCommand demo_env ''DeviceShutdown'' (case Some ''10 '' of None \<Rightarrow> [] | Some a \<Rightarrow> a) 512"
  by (rule client_transparent) (auto simp: client_request_def)

end
