(* ===== verification/Sstrip.thy ===== *)
theory Sstrip
  imports Prelude
begin

text \<open>
  \<open>toolchain/sstrip/sstrip.c\<close>: cutting off the end of an ELF file that is not needed to run it. A file is its list
  of bytes; reading past its end is a short read, which the program reports, and writing and truncating succeed.
  The macro \<open>HEADER_FUNCTIONS\<close> makes each function once for 32-bit and once for 64-bit files: here the layout of
  \<open>elf.h\<close> is an argument. \<open>unsigned long\<close> and the values of \<open>EGET\<close> have 64 bits and are numbers taken modulo
  \<open>2 ^ 64\<close>; the tool runs on a little-endian machine.
\<close>

section \<open>Layouts\<close>

text \<open>A field: its offset and its width in bytes.\<close>

type_synonym field = "nat \<times> nat"

record layout =
  ehdr_size :: nat
  phdr_size :: nat
  e_type :: field
  e_phoff :: field
  e_shoff :: field
  e_ehsize :: field
  e_phentsize :: field
  e_phnum :: field
  e_shentsize :: field
  e_shnum :: field
  e_shstrndx :: field
  p_type :: field
  p_offset :: field
  p_filesz :: field
  p_memsz :: field

definition elf32 :: layout where
  "elf32 = \<lparr>ehdr_size = 52, phdr_size = 32, e_type = (16, 2), e_phoff = (28, 4), e_shoff = (32, 4), e_ehsize = (40, 2),
     e_phentsize = (42, 2), e_phnum = (44, 2), e_shentsize = (46, 2), e_shnum = (48, 2), e_shstrndx = (50, 2),
     p_type = (0, 4), p_offset = (4, 4), p_filesz = (16, 4), p_memsz = (20, 4)\<rparr>"

definition elf64 :: layout where
  "elf64 = \<lparr>ehdr_size = 64, phdr_size = 56, e_type = (16, 2), e_phoff = (32, 8), e_shoff = (40, 8), e_ehsize = (52, 2),
     e_phentsize = (54, 2), e_phnum = (56, 2), e_shentsize = (58, 2), e_shnum = (60, 2), e_shstrndx = (62, 2),
     p_type = (0, 4), p_offset = (8, 8), p_filesz = (32, 8), p_memsz = (40, 8)\<rparr>"

definition EI_NIDENT :: nat where "EI_NIDENT = 16"
definition PT_NULL :: nat where "PT_NULL = 0"
definition ET_EXEC :: nat where "ET_EXEC = 2"
definition ET_DYN :: nat where "ET_DYN = 3"

definition W64 :: nat where "W64 = 2 ^ 64"

text \<open>\<open>EGET\<close> and \<open>ESET\<close>; the flag is \<open>do_reverse_endian\<close>, and \<open>bswap\<close> reverses the bytes of a field.\<close>

definition EGET :: "bool \<Rightarrow> field \<Rightarrow> byte list \<Rightarrow> nat" where
  "EGET r f bs = (let b = take (snd f) (drop (fst f) bs) in le_val (if r then rev b else b))"

definition ESET :: "bool \<Rightarrow> field \<Rightarrow> nat \<Rightarrow> byte list \<Rightarrow> byte list" where
  "ESET r f v bs = (let b = le_bytes (snd f) v in blit (fst f) (if r then rev b else b) bs)"

section \<open>Reading the headers\<close>

datatype elf_error =
  Incomplete_header | No_signature | Bad_endianness | Bad_class | Bad_header_size | Bad_phdr_size | Not_executable
| No_program_headers | Incomplete_program_headers | Cannot_read | Blank

text \<open>\<open>readelfheaderident\<close>: the layout for the class of the file and the endianness flag.\<close>

definition readelfheaderident :: "byte list \<Rightarrow> elf_error + layout \<times> bool" where
  "readelfheaderident f =
     (if length f < EI_NIDENT then Inl Incomplete_header
      else if take 4 f \<noteq> [0x7F, 0x45, 0x4C, 0x46] then Inl No_signature
      else if f ! 5 \<noteq> 1 \<and> f ! 5 \<noteq> 2 then Inl Bad_endianness
      else if f ! 4 = 1 then Inr (elf32, f ! 5 = 2)
      else if f ! 4 = 2 then Inr (elf64, f ! 5 = 2)
      else Inl Bad_class)"

definition readelfheader :: "layout \<Rightarrow> bool \<Rightarrow> byte list \<Rightarrow> elf_error + byte list" where
  "readelfheader L r f =
     (let ehdr = take (ehdr_size L) f
      in if length ehdr < ehdr_size L then Inl Incomplete_header
         else if EGET r (e_ehsize L) ehdr \<noteq> ehdr_size L then Inl Bad_header_size
         else if EGET r (e_phentsize L) ehdr \<noteq> phdr_size L then Inl Bad_phdr_size
         else if EGET r (e_type L) ehdr \<noteq> ET_EXEC \<and> EGET r (e_type L) ehdr \<noteq> ET_DYN then Inl Not_executable
         else Inr ehdr)"

fun chunks :: "nat \<Rightarrow> nat \<Rightarrow> 'a list \<Rightarrow> 'a list list" where
  "chunks k 0 xs = []"
| "chunks k (Suc n) xs = take k xs # chunks k n (drop k xs)"

text \<open>\<open>readphdrtable\<close> reads on behind the ELF header, wherever \<open>e_phoff\<close> says the table is.\<close>

definition readphdrtable :: "layout \<Rightarrow> bool \<Rightarrow> byte list \<Rightarrow> byte list \<Rightarrow> elf_error + byte list list" where
  "readphdrtable L r f ehdr =
     (if EGET r (e_phoff L) ehdr = 0 \<or> EGET r (e_phnum L) ehdr = 0 then Inl No_program_headers
      else let n = EGET r (e_phnum L) ehdr; t = take (n * phdr_size L) (drop (ehdr_size L) f)
           in if length t < n * phdr_size L then Inl Incomplete_program_headers
              else Inr (chunks (phdr_size L) n t))"

section \<open>The new size\<close>

definition getmemorysize :: "layout \<Rightarrow> bool \<Rightarrow> byte list \<Rightarrow> byte list list \<Rightarrow> nat" where
  "getmemorysize L r ehdr phdrs =
     (let sz = (EGET r (e_phoff L) ehdr + EGET r (e_phnum L) ehdr * phdr_size L) mod W64;
          sz = (if sz < ehdr_size L then ehdr_size L else sz)
      in fold (\<lambda>ph sz.
           if EGET r (p_type L) ph \<noteq> PT_NULL then
             (let n = (EGET r (p_offset L) ph + EGET r (p_filesz L) ph) mod W64 in if sz < n then n else sz)
           else sz) phdrs sz)"

text \<open>
  \<open>truncatezeros\<close>: the inner loop over the bytes of a block, which gives the index it stopped at and the size, and
  the outer loop. It need not end, so its value is \<open>None\<close> when it never returns.
\<close>

fun zeros_back :: "byte list \<Rightarrow> nat \<Rightarrow> nat \<Rightarrow> nat \<times> nat" where
  "zeros_back c 0 sz = (0, sz)"
| "zeros_back c (Suc n) sz = (if c ! n = 0 then zeros_back c n (sz - 1) else (n, sz))"

partial_function (option) truncate_loop :: "byte list \<Rightarrow> nat \<Rightarrow> (elf_error + nat) option" where
  "truncate_loop f sz =
     (let n = min 1024 sz; c = take n (drop (sz - n) f)
      in if length c < n then Some (Inl Cannot_read)
         else (case zeros_back c n sz of
                 (n, sz) \<Rightarrow> if sz \<noteq> 0 \<and> n = 0 then truncate_loop f sz else Some (Inr sz)))"

definition truncatezeros :: "byte list \<Rightarrow> nat \<Rightarrow> (elf_error + nat) option" where
  "truncatezeros f sz =
     (case truncate_loop f sz of
        Some (Inr s) \<Rightarrow> if s = 0 then Some (Inl Blank) else Some (Inr s)
      | x \<Rightarrow> x)"

section \<open>The new headers\<close>

text \<open>The loop of \<open>modifyheaders\<close>. The size is the function's own copy, and a truncated segment changes it.\<close>

definition modify_phdr :: "layout \<Rightarrow> bool \<Rightarrow> nat \<Rightarrow> byte list \<Rightarrow> nat \<times> byte list" where
  "modify_phdr L r newsize ph =
     (if newsize \<le> EGET r (p_offset L) ph then
        (newsize, ESET r (p_filesz L) 0 (ESET r (p_offset L) newsize ph))
      else if newsize < (EGET r (p_offset L) ph + EGET r (p_filesz L) ph) mod W64 then
        (let newsize = newsize - EGET r (p_offset L) ph in (newsize, ESET r (p_filesz L) newsize ph))
      else (newsize, ph))"

fun modify_phdrs :: "layout \<Rightarrow> bool \<Rightarrow> nat \<Rightarrow> byte list list \<Rightarrow> byte list list" where
  "modify_phdrs L r newsize [] = []"
| "modify_phdrs L r newsize (ph # phs) =
     (case modify_phdr L r newsize ph of (newsize, ph) \<Rightarrow> ph # modify_phdrs L r newsize phs)"

definition modify_ehdr :: "layout \<Rightarrow> bool \<Rightarrow> nat \<Rightarrow> byte list \<Rightarrow> byte list" where
  "modify_ehdr L r newsize ehdr =
     (if newsize \<le> EGET r (e_shoff L) ehdr then
        ESET r (e_shstrndx L) 0 (ESET r (e_shentsize L) 0 (ESET r (e_shnum L) 0 (ESET r (e_shoff L) 0 ehdr)))
      else ehdr)"

text \<open>Writing at an offset, which may lie behind the end of the file, and setting the size.\<close>

definition write_at :: "nat \<Rightarrow> byte list \<Rightarrow> byte list \<Rightarrow> byte list" where
  "write_at i bs f = (let f = f @ replicate (i - length f) 0 in take i f @ bs @ drop (i + length bs) f)"

definition ftruncate :: "nat \<Rightarrow> byte list \<Rightarrow> byte list" where
  "ftruncate n f = take n f @ replicate (n - length f) 0"

definition commitchanges :: "layout \<Rightarrow> bool \<Rightarrow> byte list \<Rightarrow> byte list list \<Rightarrow> nat \<Rightarrow> byte list \<Rightarrow> byte list" where
  "commitchanges L r ehdr phdrs newsize f =
     (let f = write_at 0 ehdr f; off = EGET r (e_phoff L) ehdr; n = EGET r (e_phnum L) ehdr * phdr_size L;
          f = write_at off (concat phdrs) f
      in ftruncate (if newsize < (off + n) mod W64 then (off + n) mod W64 else newsize) f)"

section \<open>A file, and all files\<close>

text \<open>The outer \<open>None\<close>: the program never returns.\<close>

definition sstrip_file :: "byte list \<Rightarrow> (elf_error + byte list) option" where
  "sstrip_file f =
     (case readelfheaderident f of
        Inl e \<Rightarrow> Some (Inl e)
      | Inr (L, r) \<Rightarrow>
          (case readelfheader L r f of
             Inl e \<Rightarrow> Some (Inl e)
           | Inr ehdr \<Rightarrow>
               (case readphdrtable L r f ehdr of
                  Inl e \<Rightarrow> Some (Inl e)
                | Inr phdrs \<Rightarrow>
                    (case truncatezeros f (getmemorysize L r ehdr phdrs) of
                       None \<Rightarrow> None
                     | Some (Inl e) \<Rightarrow> Some (Inl e)
                     | Some (Inr newsize) \<Rightarrow>
                         Some (Inr (commitchanges L r (modify_ehdr L r newsize ehdr)
                                      (modify_phdrs L r newsize phdrs) newsize f))))))"

text \<open>\<open>main\<close>: the files are changed in place, one that cannot be opened counts as a failure.\<close>

fun sstrip_main :: "string list \<Rightarrow> (string \<Rightarrow> byte list option) \<Rightarrow> nat \<Rightarrow> (int \<times> (string \<Rightarrow> byte list option)) option" where
  "sstrip_main [] fs failures = Some (if failures = 0 then 0 else 1, fs)"
| "sstrip_main (a # as) fs failures =
     (case fs a of
        None \<Rightarrow> sstrip_main as fs (Suc failures)
      | Some f \<Rightarrow>
          (case sstrip_file f of
             None \<Rightarrow> None
           | Some (Inl e) \<Rightarrow> sstrip_main as fs (Suc failures)
           | Some (Inr f) \<Rightarrow> sstrip_main as (fs(a \<mapsto> f)) failures))"

section \<open>Fields\<close>

definition fits :: "field \<Rightarrow> byte list \<Rightarrow> bool" where
  "fits f bs \<longleftrightarrow> fst f + snd f \<le> length bs"

definition apart :: "field \<Rightarrow> field \<Rightarrow> bool" where
  "apart f g \<longleftrightarrow> fst f + snd f \<le> fst g \<or> fst g + snd g \<le> fst f"

lemma length_ESET [simp]: "fits f bs \<Longrightarrow> length (ESET r f v bs) = length bs"
  by (simp add: ESET_def fits_def Let_def)

lemma fits_ESET [simp]: "fits f bs \<Longrightarrow> fits g (ESET r f v bs) = fits g bs"
  by (simp add: fits_def [of g])

lemma EGET_ESET [simp]: "fits f bs \<Longrightarrow> EGET r f (ESET r f v bs) = v mod 256 ^ snd f"
  by (simp add: EGET_def ESET_def fits_def blit_def Let_def le_val_le_bytes)

lemma take_drop_blit:
  assumes "i + length b \<le> length bs" and "i + length b \<le> j \<or> j + n \<le> i"
  shows "take n (drop j (blit i b bs)) = take n (drop j bs)"
proof (cases "j + n \<le> i")
  case True
  then have "take n (drop j (take i bs @ x)) = take n (drop j (take i bs))" for x
    using assms(1) by simp
  moreover have "take n (drop j (take i bs)) = take n (drop j bs)"
    using True by (simp add: drop_take min_absorb1)
  ultimately show ?thesis unfolding blit_def by metis
next
  case False
  then have "drop j (take i bs @ b @ drop (i + length b) bs) = drop j bs"
    using assms by simp
  then show ?thesis by (simp add: blit_def)
qed

lemma EGET_ESET_apart:
  assumes "fits f bs" and "fits g bs" and "apart f g"
  shows "EGET r g (ESET r f v bs) = EGET r g bs"
  using take_drop_blit [of "fst f" b bs "fst g" "snd g" for b] assms
  by (simp add: EGET_def ESET_def Let_def fits_def apart_def)

lemma EGET_bound: "EGET r f bs < 256 ^ snd f"
proof -
  let ?b = "take (snd f) (drop (fst f) bs)"
  have "le_val (if r then rev ?b else ?b) < 256 ^ length ?b" using le_val_bound [of ?b] le_val_bound [of "rev ?b"] by auto
  also have "\<dots> \<le> 256 ^ snd f" by (intro power_increasing) auto
  finally show ?thesis by (simp add: EGET_def Let_def)
qed

definition layout_ok :: "layout \<Rightarrow> bool" where
  "layout_ok L \<longleftrightarrow>
     list_all (\<lambda>f. fst f + snd f \<le> phdr_size L) [p_type L, p_offset L, p_filesz L, p_memsz L] \<and>
     apart (p_offset L) (p_filesz L) \<and> apart (p_offset L) (p_type L) \<and> apart (p_offset L) (p_memsz L) \<and>
     apart (p_filesz L) (p_type L) \<and> apart (p_filesz L) (p_memsz L) \<and> snd (p_filesz L) = snd (p_offset L) \<and>
     snd (p_offset L) \<le> 8 \<and> 0 < phdr_size L \<and>
     list_all (\<lambda>f. fst f + snd f \<le> ehdr_size L \<and> list_all (\<lambda>g. apart f g) [e_ehsize L, e_phentsize L, e_phoff L, e_phnum L, e_type L])
       [e_shoff L, e_shnum L, e_shentsize L, e_shstrndx L] \<and>
     list_all (\<lambda>f. fst f + snd f \<le> ehdr_size L) [e_ehsize L, e_phentsize L, e_phoff L, e_phnum L, e_type L] \<and>
     4 \<le> ehdr_size L"

lemma layouts_ok: "layout_ok elf32" "layout_ok elf64"
  by code_simp+

section \<open>Cutting off zeros\<close>

lemma zeros_back_kept:
  "zeros_back c n sz = (k, s) \<Longrightarrow> n \<le> sz \<Longrightarrow>
   \<exists>m\<le>n. s = sz - n + m \<and> (\<forall>i. m \<le> i \<and> i < n \<longrightarrow> c ! i = 0) \<and> (m = 0 \<and> k = 0 \<or> 0 < m \<and> k = m - 1 \<and> c ! (m - 1) \<noteq> 0)"
proof (induction c n sz rule: zeros_back.induct)
  case (1 c sz)
  then show ?case by simp
next
  case (2 c n sz)
  show ?case
  proof (cases "c ! n = 0")
    case True
    then obtain m where "m \<le> n" "s = sz - 1 - n + m" "\<forall>i. m \<le> i \<and> i < n \<longrightarrow> c ! i = 0"
      "m = 0 \<and> k = 0 \<or> 0 < m \<and> k = m - 1 \<and> c ! (m - 1) \<noteq> 0" using 2 by fastforce
    then show ?thesis using True "2.prems"(2) by (intro exI [of _ m]) (auto simp: less_Suc_eq)
  next
    case False
    then show ?thesis using "2.prems" by (intro exI [of _ "Suc n"]) auto
  qed
qed

text \<open>The loop returns when a byte other than the first is not zero, with the size after the last such byte.\<close>

lemma truncate_loop_ends:
  assumes "sz \<le> length f" and "0 < i" and "i < sz" and "f ! i \<noteq> 0"
  shows "\<exists>s. truncate_loop f sz = Some (Inr s) \<and> i < s \<and> s \<le> sz \<and> (\<forall>j. s \<le> j \<and> j < sz \<longrightarrow> f ! j = 0) \<and> f ! (s - 1) \<noteq> 0"
  using assms
proof (induction sz rule: less_induct)
  case (less sz)
  define n where "n = min 1024 sz"
  define c where "c = take n (drop (sz - n) f)"
  obtain k s where z: "zeros_back c n sz = (k, s)" by fastforce
  have n: "n \<le> sz" "0 < n" using less.prems by (simp_all add: n_def)
  have c: "length c = n" using less.prems(1) n by (simp add: c_def)
  have cf: "c ! j = f ! (sz - n + j)" if "j < n" for j using that less.prems(1) n by (simp add: c_def)
  from zeros_back_kept [OF z n(1)] obtain m where m: "m \<le> n" "s = sz - n + m" "\<forall>i. m \<le> i \<and> i < n \<longrightarrow> c ! i = 0"
    "m = 0 \<and> k = 0 \<or> 0 < m \<and> k = m - 1 \<and> c ! (m - 1) \<noteq> 0" by blast
  have step: "truncate_loop f sz = (if s \<noteq> 0 \<and> k = 0 then truncate_loop f s else Some (Inr s))"
    using z c by (subst truncate_loop.simps) (simp only: n_def [symmetric] c_def [symmetric] Let_def less_irrefl if_False prod.case)
  have zero: "f ! j = 0" if "s \<le> j" "j < sz" for j
  proof -
    let ?i = "j - (sz - n)"
    have i: "m \<le> ?i" "?i < n" "sz - n + ?i = j" using that m(2) n by linarith+
    then have "c ! ?i = 0" using m(3) by blast
    then show ?thesis using cf [OF i(2)] i(3) by simp
  qed
  then have i: "i < s" using less.prems(3,4) by (metis not_le)
  have s: "s \<le> sz" using m(1,2) n by linarith
  show ?case
  proof (cases "k = 0 \<and> s < sz")
    case True
    have "\<exists>t. truncate_loop f s = Some (Inr t) \<and> i < t \<and> t \<le> s \<and> (\<forall>j. t \<le> j \<and> j < s \<longrightarrow> f ! j = 0) \<and> f ! (t - 1) \<noteq> 0"
      using True s i less.prems by (intro less.IH) auto
    then obtain t where t: "truncate_loop f s = Some (Inr t)" "i < t" "t \<le> s"
      "\<forall>j. t \<le> j \<and> j < s \<longrightarrow> f ! j = 0" "f ! (t - 1) \<noteq> 0" by blast
    have "f ! j = 0" if "t \<le> j" "j < sz" for j using t(4) zero that by (cases "j < s") auto
    then show ?thesis using step True i t s by (intro exI [of _ t]) auto
  next
    case False
    have kk: "k \<noteq> 0 \<and> 0 < m"
    proof (cases "s = sz")
      case True
      then have "m = n" using m(1,2) n by linarith
      moreover have "1 < n" using less.prems(2,3) by (simp add: n_def)
      ultimately show ?thesis using m(4) by auto
    next
      case f: False
      then show ?thesis using False s m(4) by auto
    qed
    then have "f ! (s - 1) \<noteq> 0" using cf [of "m - 1"] m n by (simp add: add.commute)
    then show ?thesis using step kk i s zero by (intro exI [of _ s]) auto
  qed
qed

section \<open>The table of segments\<close>

lemma length_chunks [simp]: "length (chunks k n xs) = n"
  by (induction n arbitrary: xs) simp_all

lemma chunk_length: "n * k \<le> length xs \<Longrightarrow> c \<in> set (chunks k n xs) \<Longrightarrow> length c = k"
proof (induction n arbitrary: xs)
  case (Suc n)
  have "n * k \<le> length (drop k xs)" using Suc.prems(1) by simp
  with Suc.IH [OF this] Suc.prems show ?case by (cases "c = take k xs") auto
qed simp

lemma concat_chunks: "length xs = n * k \<Longrightarrow> concat (chunks k n xs) = xs"
  by (induction n arbitrary: xs) auto

lemma chunks_concat: "\<forall>c\<in>set cs. length c = k \<Longrightarrow> chunks k (length cs) (concat cs @ r) = cs"
  by (induction cs) auto

lemma length_concat_const: "\<forall>c\<in>set cs. length c = k \<Longrightarrow> length (concat cs) = length cs * k"
  by (induction cs) auto

definition phdr_fits :: "layout \<Rightarrow> byte list \<Rightarrow> bool" where
  "phdr_fits L ph \<longleftrightarrow> length ph = phdr_size L"

lemma phdr_fields:
  assumes "layout_ok L" and "phdr_fits L ph"
  shows "fits (p_type L) ph" "fits (p_offset L) ph" "fits (p_filesz L) ph" "fits (p_memsz L) ph"
  using assms by (simp_all add: layout_ok_def phdr_fits_def fits_def)

text \<open>What one segment becomes: cut off whole, cut short, or left alone.\<close>

definition lost :: "layout \<Rightarrow> bool \<Rightarrow> nat \<Rightarrow> byte list \<Rightarrow> bool" where
  "lost L r s ph \<longleftrightarrow> s \<le> EGET r (p_offset L) ph"

definition cut :: "layout \<Rightarrow> bool \<Rightarrow> nat \<Rightarrow> byte list \<Rightarrow> bool" where
  "cut L r s ph \<longleftrightarrow> \<not> lost L r s ph \<and> s < (EGET r (p_offset L) ph + EGET r (p_filesz L) ph) mod W64"

lemma modify_phdr_cases:
  "modify_phdr L r s ph =
    (if lost L r s ph then (s, ESET r (p_filesz L) 0 (ESET r (p_offset L) s ph))
     else if cut L r s ph then (s - EGET r (p_offset L) ph, ESET r (p_filesz L) (s - EGET r (p_offset L) ph) ph)
     else (s, ph))"
  by (simp add: modify_phdr_def lost_def cut_def Let_def)

lemma modify_phdr_fits:
  "layout_ok L \<Longrightarrow> phdr_fits L ph \<Longrightarrow> phdr_fits L (snd (modify_phdr L r s ph))"
  using phdr_fields [of L ph] by (simp add: modify_phdr_cases phdr_fits_def)

lemma modify_phdrs_Cons:
  "modify_phdrs L r s (ph # phs) = snd (modify_phdr L r s ph) # modify_phdrs L r (fst (modify_phdr L r s ph)) phs"
  by (simp add: case_prod_unfold)

declare modify_phdrs.simps(2) [simp del]

lemma modify_phdrs_length [simp]: "length (modify_phdrs L r s phs) = length phs"
  by (induction phs arbitrary: s) (simp_all add: modify_phdrs_Cons)

lemma modify_phdrs_fits:
  "layout_ok L \<Longrightarrow> \<forall>ph\<in>set phs. phdr_fits L ph \<Longrightarrow> \<forall>ph\<in>set (modify_phdrs L r s phs). phdr_fits L ph"
proof (induction phs arbitrary: s)
  case (Cons ph phs)
  then show ?case using modify_phdr_fits [of L ph r s] by (simp add: modify_phdrs_Cons)
qed simp

text \<open>As long as no segment before was cut short the size is still the one the file gets.\<close>

lemma modify_phdrs_nth:
  "j < length phs \<Longrightarrow> \<forall>i<j. \<not> cut L r s (phs ! i) \<Longrightarrow> modify_phdrs L r s phs ! j = snd (modify_phdr L r s (phs ! j))"
proof (induction phs arbitrary: j)
  case (Cons ph phs)
  show ?case
  proof (cases j)
    case 0
    then show ?thesis by (simp add: modify_phdrs_Cons)
  next
    case (Suc i)
    have "\<not> cut L r s ph" using Cons.prems(2) Suc by auto
    then have "fst (modify_phdr L r s ph) = s" by (simp add: modify_phdr_cases)
    moreover have "modify_phdrs L r s phs ! i = snd (modify_phdr L r s (phs ! i))"
      using Cons.prems Suc by (intro Cons.IH) auto
    ultimately show ?thesis using Suc by (simp add: modify_phdrs_Cons)
  qed
qed simp

section \<open>The size of the image\<close>

definition seg_end :: "layout \<Rightarrow> bool \<Rightarrow> byte list \<Rightarrow> nat" where
  "seg_end L r ph = (EGET r (p_offset L) ph + EGET r (p_filesz L) ph) mod W64"

lemma getmemorysize_fold:
  "getmemorysize L r ehdr phs =
     fold (\<lambda>ph m. if EGET r (p_type L) ph \<noteq> PT_NULL then max m (seg_end L r ph) else m) phs
       (max ((EGET r (e_phoff L) ehdr + EGET r (e_phnum L) ehdr * phdr_size L) mod W64) (ehdr_size L))"
proof -
  have m: "(if a < b then b else a) = max a b" for a b :: nat by simp
  show ?thesis unfolding getmemorysize_def Let_def seg_end_def m ..
qed

lemma fold_max_ge:
  "m \<le> fold (\<lambda>ph m. if P ph then max m (g ph) else m) phs m" for m :: nat
proof (induction phs arbitrary: m)
  case (Cons ph phs)
  then show ?case by (simp, meson le_trans max.cobounded1)
qed simp

lemma fold_max_in:
  "ph \<in> set phs \<Longrightarrow> P ph \<Longrightarrow> (g ph :: nat) \<le> fold (\<lambda>ph m. if P ph then max m (g ph) else m) phs m"
proof (induction phs arbitrary: m)
  case (Cons a phs)
  then show ?case using fold_max_ge [of "max m (g ph)" P g phs] by (cases "ph = a") auto
qed simp

lemma getmemorysize_seg: "ph \<in> set phs \<Longrightarrow> EGET r (p_type L) ph \<noteq> PT_NULL \<Longrightarrow> seg_end L r ph \<le> getmemorysize L r ehdr phs"
  unfolding getmemorysize_fold by (rule fold_max_in)

lemma getmemorysize_head:
  "ehdr_size L \<le> getmemorysize L r ehdr phs"
  "(EGET r (e_phoff L) ehdr + EGET r (e_phnum L) ehdr * phdr_size L) mod W64 \<le> getmemorysize L r ehdr phs"
proof -
  have "max ((EGET r (e_phoff L) ehdr + EGET r (e_phnum L) ehdr * phdr_size L) mod W64) (ehdr_size L) \<le>
      getmemorysize L r ehdr phs" unfolding getmemorysize_fold by (rule fold_max_ge)
  then show "ehdr_size L \<le> getmemorysize L r ehdr phs"
    "(EGET r (e_phoff L) ehdr + EGET r (e_phnum L) ehdr * phdr_size L) mod W64 \<le> getmemorysize L r ehdr phs" by simp_all
qed

section \<open>What is kept\<close>

definition hdr_end :: "layout \<Rightarrow> byte list list \<Rightarrow> nat" where
  "hdr_end L phdrs = ehdr_size L + length phdrs * phdr_size L"

text \<open>A file that is accepted, whose table of segments follows the ELF header, and that is as long as its segments say.\<close>

definition elf_input :: "byte list \<Rightarrow> layout \<Rightarrow> bool \<Rightarrow> byte list \<Rightarrow> byte list list \<Rightarrow> bool" where
  "elf_input f L r ehdr phdrs \<longleftrightarrow>
     readelfheaderident f = Inr (L, r) \<and> readelfheader L r f = Inr ehdr \<and> readphdrtable L r f ehdr = Inr phdrs \<and>
     EGET r (e_phoff L) ehdr = ehdr_size L \<and> getmemorysize L r ehdr phdrs \<le> length f \<and>
     length f < 256 ^ snd (p_offset L) \<and>
     (\<forall>ph\<in>set phdrs. EGET r (p_offset L) ph + EGET r (p_filesz L) ph < W64)"

text \<open>Byte \<open>k\<close> of the memory of a segment: what the file has, and zeros behind that.\<close>

definition seg_byte :: "layout \<Rightarrow> bool \<Rightarrow> byte list \<Rightarrow> byte list \<Rightarrow> nat \<Rightarrow> byte" where
  "seg_byte L r f ph k = (if k < EGET r (p_filesz L) ph then f ! (EGET r (p_offset L) ph + k) else 0)"

lemma ident_facts:
  assumes "readelfheaderident f = Inr (L, r)"
  shows "layout_ok L" and "f ! 1 = 0x45" and "16 \<le> length f"
proof -
  from assms have l: "16 \<le> length f" and t: "take 4 f = [0x7F, 0x45, 0x4C, 0x46]" and L: "L = elf32 \<or> L = elf64"
    by (auto simp: readelfheaderident_def EI_NIDENT_def not_less split: if_splits)
  have "take 4 f ! 1 = f ! 1" by simp
  then show "f ! 1 = 0x45" using t by simp
  show "layout_ok L" using L layouts_ok by blast
  show "16 \<le> length f" by (rule l)
qed

lemma input_facts:
  assumes "elf_input f L r ehdr phdrs"
  shows "layout_ok L" and "ehdr = take (ehdr_size L) f" and "ehdr_size L \<le> length f"
    and "length phdrs = EGET r (e_phnum L) ehdr" and "\<forall>ph\<in>set phdrs. phdr_fits L ph"
    and "hdr_end L phdrs \<le> getmemorysize L r ehdr phdrs" and "hdr_end L phdrs \<le> length f"
    and "length f < W64"
proof -
  have hd: "readelfheader L r f = Inr ehdr" and tb: "readphdrtable L r f ehdr = Inr phdrs"
    and off: "EGET r (e_phoff L) ehdr = ehdr_size L" and len: "length f < 256 ^ snd (p_offset L)"
    and mem: "getmemorysize L r ehdr phdrs \<le> length f" using assms by (simp_all add: elf_input_def)
  show lo: "layout_ok L" using assms ident_facts(1) [of f L r] by (simp add: elf_input_def)
  show e: "ehdr = take (ehdr_size L) f" "ehdr_size L \<le> length f"
    using hd by (auto simp: readelfheader_def Let_def split: if_splits)
  have t: "phdrs = chunks (phdr_size L) (EGET r (e_phnum L) ehdr) (take (EGET r (e_phnum L) ehdr * phdr_size L) (drop (ehdr_size L) f))"
    "\<not> length (take (EGET r (e_phnum L) ehdr * phdr_size L) (drop (ehdr_size L) f)) < EGET r (e_phnum L) ehdr * phdr_size L"
    using tb by (auto simp: readphdrtable_def Let_def split: if_splits)
  show n: "length phdrs = EGET r (e_phnum L) ehdr" using t(1) length_chunks by metis
  show "\<forall>ph\<in>set phdrs. phdr_fits L ph"
  proof
    fix ph assume "ph \<in> set phdrs"
    then have "ph \<in> set (chunks (phdr_size L) (EGET r (e_phnum L) ehdr)
        (take (EGET r (e_phnum L) ehdr * phdr_size L) (drop (ehdr_size L) f)))" using t(1) by metis
    then show "phdr_fits L ph" unfolding phdr_fits_def by (rule chunk_length [OF leI [OF t(2)]])
  qed
  show H: "hdr_end L phdrs \<le> length f" using t(2) e(2) n by (simp add: hdr_end_def not_less)
  have "(256 :: nat) ^ snd (p_offset L) \<le> 256 ^ 8" using lo by (intro power_increasing) (simp_all add: layout_ok_def)
  then show w: "length f < W64" using len by (simp add: W64_def)
  have "hdr_end L phdrs mod W64 = hdr_end L phdrs" using H w by simp
  then show "hdr_end L phdrs \<le> getmemorysize L r ehdr phdrs"
    using getmemorysize_head(2) [of r L ehdr phdrs] off n by (simp add: hdr_end_def)
qed

lemma modify_ehdr_facts:
  assumes "layout_ok L" and "length ehdr = ehdr_size L"
  shows "length (modify_ehdr L r s ehdr) = ehdr_size L"
    and "EGET r (e_phoff L) (modify_ehdr L r s ehdr) = EGET r (e_phoff L) ehdr"
    and "EGET r (e_phnum L) (modify_ehdr L r s ehdr) = EGET r (e_phnum L) ehdr"
    and "EGET r (e_type L) (modify_ehdr L r s ehdr) = EGET r (e_type L) ehdr"
    and "EGET r (e_ehsize L) (modify_ehdr L r s ehdr) = EGET r (e_ehsize L) ehdr"
    and "EGET r (e_phentsize L) (modify_ehdr L r s ehdr) = EGET r (e_phentsize L) ehdr"
proof -
  have "fits f ehdr" if "f \<in> {e_shoff L, e_shnum L, e_shentsize L, e_shstrndx L, e_ehsize L, e_phentsize L, e_phoff L, e_phnum L, e_type L}" for f
    using that assms by (auto simp: layout_ok_def fits_def)
  then have ft: "fits (e_shoff L) ehdr" "fits (e_shnum L) ehdr" "fits (e_shentsize L) ehdr" "fits (e_shstrndx L) ehdr"
    "fits (e_ehsize L) ehdr" "fits (e_phentsize L) ehdr" "fits (e_phoff L) ehdr" "fits (e_phnum L) ehdr" "fits (e_type L) ehdr"
    by simp_all
  have ap: "apart f g" if "f \<in> {e_shoff L, e_shnum L, e_shentsize L, e_shstrndx L}"
    "g \<in> {e_ehsize L, e_phentsize L, e_phoff L, e_phnum L, e_type L}" for f g
    using that assms(1) by (auto simp: layout_ok_def)
  show "length (modify_ehdr L r s ehdr) = ehdr_size L"
    using assms(2) ft by (simp add: modify_ehdr_def)
  show "EGET r (e_phoff L) (modify_ehdr L r s ehdr) = EGET r (e_phoff L) ehdr"
    "EGET r (e_phnum L) (modify_ehdr L r s ehdr) = EGET r (e_phnum L) ehdr"
    "EGET r (e_type L) (modify_ehdr L r s ehdr) = EGET r (e_type L) ehdr"
    "EGET r (e_ehsize L) (modify_ehdr L r s ehdr) = EGET r (e_ehsize L) ehdr"
    "EGET r (e_phentsize L) (modify_ehdr L r s ehdr) = EGET r (e_phentsize L) ehdr"
    using ft ap by (simp_all add: modify_ehdr_def EGET_ESET_apart)
qed

lemma truncatezeros_input:
  assumes "elf_input f L r ehdr phdrs"
  shows "\<exists>s. truncatezeros f (getmemorysize L r ehdr phdrs) = Some (Inr s) \<and> s \<le> getmemorysize L r ehdr phdrs \<and>
    f ! (s - 1) \<noteq> 0 \<and> (\<forall>j. s \<le> j \<and> j < getmemorysize L r ehdr phdrs \<longrightarrow> f ! j = 0)"
proof -
  let ?S = "getmemorysize L r ehdr phdrs"
  have "f ! 1 \<noteq> 0" using ident_facts(2) [of f L r] assms by (simp add: elf_input_def)
  moreover have "1 < ?S" using getmemorysize_head(1) [of L r ehdr phdrs] input_facts(1) [OF assms] by (simp add: layout_ok_def)
  moreover have "?S \<le> length f" using assms by (simp add: elf_input_def)
  ultimately obtain s where "truncate_loop f ?S = Some (Inr s)" "1 < s" "s \<le> ?S"
    "\<forall>j. s \<le> j \<and> j < ?S \<longrightarrow> f ! j = 0" "f ! (s - 1) \<noteq> 0" using truncate_loop_ends [of ?S f 1] by auto
  then show ?thesis by (intro exI [of _ s]) (simp add: truncatezeros_def)
qed

lemma commit_bytes:
  assumes "elf_input f L r ehdr phdrs" and "s \<le> getmemorysize L r ehdr phdrs"
  defines "f' \<equiv> commitchanges L r (modify_ehdr L r s ehdr) (modify_phdrs L r s phdrs) s f"
  shows "f' = take (max s (hdr_end L phdrs))
           (modify_ehdr L r s ehdr @ concat (modify_phdrs L r s phdrs) @ drop (hdr_end L phdrs) f)"
    and "length f' \<le> length f" and "s \<le> length f'" and "hdr_end L phdrs \<le> length f'"
proof -
  note i = input_facts [OF assms(1)]
  let ?e = "modify_ehdr L r s ehdr" and ?t = "concat (modify_phdrs L r s phdrs)" and ?H = "hdr_end L phdrs"
  have le: "length ehdr = ehdr_size L" using i(2,3) by simp
  note m = modify_ehdr_facts [OF i(1) le, of r s]
  have "\<forall>c\<in>set (modify_phdrs L r s phdrs). length c = phdr_size L"
    using modify_phdrs_fits [OF i(1,5)] by (simp add: phdr_fits_def)
  from length_concat_const [OF this] have lt: "length ?t = length phdrs * phdr_size L" by simp
  have off: "EGET r (e_phoff L) ehdr = ehdr_size L" and sl: "s \<le> length f" using assms(1,2) by (simp_all add: elf_input_def)
  have w1: "write_at 0 ?e f = ?e @ drop (ehdr_size L) f" using m(1) by (simp add: write_at_def)
  have w2: "write_at (ehdr_size L) ?t (?e @ drop (ehdr_size L) f) = ?e @ ?t @ drop ?H f"
    using m(1) lt i(3) by (simp add: write_at_def hdr_end_def add.commute)
  have lF: "length (?e @ ?t @ drop ?H f) = length f" using m(1) lt i(7) by (simp add: hdr_end_def)
  have Hm: "?H mod W64 = ?H" using i(7,8) by simp
  have nn: "(if s < ?H then ?H else s) = max s ?H" by simp
  have mx: "max s ?H \<le> length f" using sl i(7) by simp
  have e1: "EGET r (e_phoff L) ?e = ehdr_size L" "ehdr_size L + EGET r (e_phnum L) ?e * phdr_size L = ?H"
    using m(2,3) off i(4) by (simp_all add: hdr_end_def)
  show f': "f' = take (max s ?H) (?e @ ?t @ drop ?H f)"
    unfolding f'_def commitchanges_def Let_def e1 Hm nn w1 w2 ftruncate_def lF
    by (simp only: diff_is_0_eq [THEN iffD2, OF mx] replicate_0 append_Nil2)
  show "length f' \<le> length f" "s \<le> length f'" "?H \<le> length f'"
    unfolding f' length_take lF using mx by simp_all
qed

text \<open>The headers of the new file are those that were written.\<close>

lemma commit_headers:
  assumes "elf_input f L r ehdr phdrs" and "s \<le> getmemorysize L r ehdr phdrs"
  defines "f' \<equiv> commitchanges L r (modify_ehdr L r s ehdr) (modify_phdrs L r s phdrs) s f"
  shows "readelfheader L r f' = Inr (modify_ehdr L r s ehdr)"
    and "readphdrtable L r f' (modify_ehdr L r s ehdr) = Inr (modify_phdrs L r s phdrs)"
proof -
  note i = input_facts [OF assms(1)] and c = commit_bytes [OF assms(1,2), folded f'_def]
  let ?e = "modify_ehdr L r s ehdr" and ?ts = "modify_phdrs L r s phdrs" and ?H = "hdr_end L phdrs"
  have le: "length ehdr = ehdr_size L" using i(2,3) by simp
  note m = modify_ehdr_facts [OF i(1) le, of r s]
  have tl: "\<forall>c\<in>set ?ts. length c = phdr_size L" using modify_phdrs_fits [OF i(1,5)] by (simp add: phdr_fits_def)
  have lt: "length (concat ?ts) = length phdrs * phdr_size L" using length_concat_const [OF tl] by simp
  have H: "?H = length (?e @ concat ?ts)" using m(1) lt by (simp add: hdr_end_def)
  obtain x where f': "f' = ?e @ concat ?ts @ x"
  proof
    show "f' = ?e @ concat ?ts @ take (max s ?H - ?H) (drop ?H f)"
      unfolding c(1) using H by simp
  qed
  have hd: "readelfheader L r f = Inr ehdr" and tb: "readphdrtable L r f ehdr = Inr phdrs"
    using assms(1) by (simp_all add: elf_input_def)
  show "readelfheader L r f' = Inr ?e"
    using hd m by (simp add: readelfheader_def Let_def f' split: if_splits)
  have "EGET r (e_phoff L) ehdr \<noteq> 0" "EGET r (e_phnum L) ehdr \<noteq> 0"
    using tb by (auto simp: readphdrtable_def split: if_splits)
  moreover have "chunks (phdr_size L) (length phdrs) (take (length phdrs * phdr_size L) (concat ?ts @ x)) = ?ts"
    using chunks_concat [OF tl, of "[]"] lt by simp
  ultimately show "readphdrtable L r f' ?e = Inr ?ts"
    using m i(4) lt by (simp add: readphdrtable_def Let_def f')
qed

text \<open>Bytes behind the headers and before the new end are those of the old file.\<close>

lemma commit_rest:
  assumes "elf_input f L r ehdr phdrs" and "s \<le> getmemorysize L r ehdr phdrs" and "hdr_end L phdrs \<le> i" and "i < s"
  shows "commitchanges L r (modify_ehdr L r s ehdr) (modify_phdrs L r s phdrs) s f ! i = f ! i"
proof -
  note j = input_facts [OF assms(1)]
  let ?e = "modify_ehdr L r s ehdr" and ?ts = "modify_phdrs L r s phdrs"
  have le: "length ehdr = ehdr_size L" using j(2,3) by simp
  have tl: "\<forall>c\<in>set ?ts. length c = phdr_size L" using modify_phdrs_fits [OF j(1,5)] by (simp add: phdr_fits_def)
  have H: "hdr_end L phdrs = length (?e @ concat ?ts)"
    using modify_ehdr_facts(1) [OF j(1) le, of r s] length_concat_const [OF tl] by (simp add: hdr_end_def)
  have "((?e @ concat ?ts) @ drop (hdr_end L phdrs) f) ! i = f ! i"
    using assms(3) j(7) unfolding H by (subst nth_append) simp
  then show ?thesis unfolding commit_bytes(1) [OF assms(1,2)] using assms(4) by (simp del: take_append)
qed

text \<open>The memory of a segment before and after.\<close>

lemma modify_phdr_image:
  assumes "elf_input f L r ehdr phdrs" and "ph \<in> set phdrs" and "EGET r (p_type L) ph \<noteq> PT_NULL"
    and "s \<le> getmemorysize L r ehdr phdrs" and "\<forall>j. s \<le> j \<and> j < getmemorysize L r ehdr phdrs \<longrightarrow> f ! j = 0"
    and "EGET r (p_filesz L) ph \<le> k \<or> hdr_end L phdrs \<le> EGET r (p_offset L) ph + k"
  shows "seg_byte L r (commitchanges L r (modify_ehdr L r s ehdr) (modify_phdrs L r s phdrs) s f) (snd (modify_phdr L r s ph)) k =
    seg_byte L r f ph k"
proof -
  note i = input_facts [OF assms(1)]
  let ?f = "commitchanges L r (modify_ehdr L r s ehdr) (modify_phdrs L r s phdrs) s f"
  let ?o = "EGET r (p_offset L) ph" and ?z = "EGET r (p_filesz L) ph"
  have fit: "phdr_fits L ph" using i(5) assms(2) by blast
  note ft = phdr_fields [OF i(1) fit]
  have ap1: "apart (p_offset L) (p_filesz L)" and same: "snd (p_filesz L) = snd (p_offset L)"
    using i(1) by (simp_all add: layout_ok_def)
  then have ap: "apart (p_filesz L) (p_offset L)" "apart (p_offset L) (p_filesz L)" by (auto simp: apart_def)
  have noo: "(?o + ?z) mod W64 = ?o + ?z" using assms(1,2) by (simp add: elf_input_def)
  then have e: "?o + ?z \<le> getmemorysize L r ehdr phdrs"
    using getmemorysize_seg [OF assms(2,3)] by (simp add: seg_end_def)
  have len: "getmemorysize L r ehdr phdrs \<le> length f" "length f < 256 ^ snd (p_offset L)"
    using assms(1) by (simp_all add: elf_input_def)
  have rest: "?f ! (?o + k) = f ! (?o + k)" if "k < ?z" "?o + k < s"
    using commit_rest [OF assms(1,4), of "?o + k"] assms(6) that by simp
  have zero: "f ! (?o + k) = 0" if "k < ?z" "s \<le> ?o + k" using assms(5) e that by simp
  consider (lost) "lost L r s ph" | (cut) "\<not> lost L r s ph" "cut L r s ph" | (kept) "\<not> lost L r s ph" "\<not> cut L r s ph" by blast
  then show ?thesis
  proof cases
    case lost
    then have "EGET r (p_filesz L) (snd (modify_phdr L r s ph)) = 0"
      using ft by (simp add: modify_phdr_cases)
    then show ?thesis using zero lost by (auto simp: seg_byte_def lost_def)
  next
    case cut
    have "s - ?o < 256 ^ snd (p_filesz L)" using assms(4) len same by simp
    then have "EGET r (p_filesz L) (snd (modify_phdr L r s ph)) = s - ?o"
      "EGET r (p_offset L) (snd (modify_phdr L r s ph)) = ?o"
      using cut ft ap by (simp_all add: modify_phdr_cases EGET_ESET_apart)
    moreover have "?o < s" "s < ?o + ?z" using cut noo by (simp_all add: lost_def cut_def)
    ultimately show ?thesis using rest zero by (auto simp: seg_byte_def)
  next
    case kept
    then have "snd (modify_phdr L r s ph) = ph" "?o + ?z \<le> s"
      using noo by (auto simp: modify_phdr_cases cut_def not_less)
    then show ?thesis using rest by (auto simp: seg_byte_def)
  qed
qed

lemma modify_phdr_other:
  assumes "layout_ok L" and "phdr_fits L ph"
  shows "EGET r (p_type L) (snd (modify_phdr L r s ph)) = EGET r (p_type L) ph"
    and "EGET r (p_memsz L) (snd (modify_phdr L r s ph)) = EGET r (p_memsz L) ph"
  using phdr_fields [OF assms] assms(1)
  by (simp_all add: modify_phdr_cases EGET_ESET_apart layout_ok_def)


text \<open>An executable with two segments, the second with eight zeros at its end, and section headers behind them.\<close>

definition demo_elf :: "byte list" where
  "demo_elf =
    [0x7F, 0x45, 0x4C, 0x46, 1, 1, 1, 0, 0, 0, 0, 0, 0, 0, 0, 0, 0x02, 0, 0x28, 0, 1, 0, 0, 0, 0x54, 0x80, 0, 0,
     0x34, 0, 0, 0, 0x8C, 0, 0, 0, 0, 0, 0, 0, 0x34, 0, 0x20, 0, 0x02, 0, 0x28, 0, 0x03, 0, 0x02, 0, 1, 0, 0, 0,
     0x74, 0, 0, 0, 0x74, 0x80, 0, 0, 0, 0, 0, 0, 0x08, 0, 0, 0, 0x08, 0, 0, 0, 0x05, 0, 0, 0, 0x04, 0, 0, 0, 1, 0,
     0, 0, 0x7C, 0, 0, 0, 0x7C, 0x80, 0, 0, 0, 0, 0, 0, 0x0C, 0, 0, 0, 0x14, 0, 0, 0, 0x05, 0, 0, 0, 0x04, 0, 0, 0,
     1, 0x02, 0x03, 0x04, 0x05, 0x06, 0x07, 0x08, 0x09, 0x0A, 0x0B, 0x0C, 0, 0, 0, 0, 0, 0, 0, 0, 0x73, 0x73, 0x73,
     0x73, 0x73, 0x73]"

definition demo_ehdr :: "byte list" where "demo_ehdr = take 52 demo_elf"

definition demo_phdrs :: "byte list list" where "demo_phdrs = chunks 32 2 (take 64 (drop 52 demo_elf))"

lemma demo_ehdr_eq: "demo_ehdr = [0x7F, 0x45, 0x4C, 0x46, 1, 1, 1, 0, 0, 0, 0, 0, 0, 0, 0, 0, 0x02, 0, 0x28, 0, 1, 0, 0, 0, 0x54, 0x80, 0, 0,
     0x34, 0, 0, 0, 0x8C, 0, 0, 0, 0, 0, 0, 0, 0x34, 0, 0x20, 0, 0x02, 0, 0x28, 0, 0x03, 0, 0x02, 0]"
  by (simp add: demo_ehdr_def demo_elf_def)

lemma demo_phdrs_eq: "demo_phdrs =
  [[1, 0, 0, 0, 0x74, 0, 0, 0, 0x74, 0x80, 0, 0, 0, 0, 0, 0, 0x08, 0, 0, 0, 0x08, 0, 0, 0, 0x05, 0, 0, 0, 0x04, 0, 0, 0],
   [1, 0, 0, 0, 0x7C, 0, 0, 0, 0x7C, 0x80, 0, 0, 0, 0, 0, 0, 0x0C, 0, 0, 0, 0x14, 0, 0, 0, 0x05, 0, 0, 0, 0x04, 0, 0, 0]]"
  by (simp add: demo_phdrs_def demo_elf_def numeral_eq_Suc)


lemma demo_fields:
  "EGET False (e_phoff elf32) demo_ehdr = 52" "EGET False (e_phnum elf32) demo_ehdr = 2"
  "EGET False (e_ehsize elf32) demo_ehdr = 52" "EGET False (e_phentsize elf32) demo_ehdr = 32"
  "EGET False (e_type elf32) demo_ehdr = 2"
  by (simp_all add: demo_ehdr_eq EGET_def elf32_def)

lemma demo_segments:
  "EGET False (p_type elf32) (demo_phdrs ! 0) = 1" "EGET False (p_offset elf32) (demo_phdrs ! 0) = 116"
  "EGET False (p_filesz elf32) (demo_phdrs ! 0) = 8" "EGET False (p_type elf32) (demo_phdrs ! 1) = 1"
  "EGET False (p_offset elf32) (demo_phdrs ! 1) = 124" "EGET False (p_filesz elf32) (demo_phdrs ! 1) = 12"
  by (simp_all add: demo_phdrs_eq EGET_def elf32_def)

lemma demo_sizes: "length (demo_phdrs ! 0) = 32" by (simp add: demo_phdrs_eq)

lemma demo_length: "length demo_elf = 142" by (simp add: demo_elf_def)

lemma demo_layout: "ehdr_size elf32 = 52" "phdr_size elf32 = 32" "snd (p_offset elf32) = 4" by (simp_all add: elf32_def)

lemma demo_two: "demo_phdrs = [demo_phdrs ! 0, demo_phdrs ! 1]" by (simp add: demo_phdrs_def numeral_eq_Suc)

lemma demo_memory: "getmemorysize elf32 False demo_ehdr demo_phdrs = 136"
  by (subst demo_two) (simp add: getmemorysize_def demo_fields demo_segments [simplified] demo_layout W64_def PT_NULL_def)

lemma demo_input: "elf_input demo_elf elf32 False demo_ehdr demo_phdrs"
proof -
  have "readelfheaderident demo_elf = Inr (elf32, False)"
    by (simp add: readelfheaderident_def EI_NIDENT_def demo_elf_def)
  moreover have "readelfheader elf32 False demo_elf = Inr demo_ehdr"
    unfolding readelfheader_def demo_layout demo_ehdr_def [symmetric]
    by (simp add: demo_fields ET_EXEC_def) (simp add: demo_ehdr_def demo_length)
  moreover have "readphdrtable elf32 False demo_elf demo_ehdr = Inr demo_phdrs"
    by (simp add: readphdrtable_def demo_fields demo_layout demo_length demo_phdrs_def)
  moreover have "\<forall>ph\<in>set demo_phdrs. EGET False (p_offset elf32) ph + EGET False (p_filesz elf32) ph < W64"
    by (subst demo_two) (simp add: demo_segments [simplified] W64_def)
  ultimately show ?thesis
    by (simp add: elf_input_def demo_memory demo_fields demo_layout demo_length)
qed

text \<open>A segment that was cut short spoils the next one. From then on \<open>modifyheaders\<close> compares with the length of that
  segment instead of the size of the file: the next segment, although all of it is still in the file, loses all its
  bytes when its offset is not less than that length.\<close>

theorem cut_segment_spoils_next:
  assumes "layout_ok L" and "phdr_fits L b" and "cut L r s a"
    and "s - EGET r (p_offset L) a \<le> EGET r (p_offset L) b"
    and "EGET r (p_offset L) b + EGET r (p_filesz L) b \<le> s"
  shows "EGET r (p_filesz L) (modify_phdrs L r s (a # b # phs) ! 1) = 0"
proof -
  have "fst (modify_phdr L r s a) = s - EGET r (p_offset L) a" using assms(3) by (simp add: modify_phdr_cases cut_def)
  then have "modify_phdrs L r s (a # b # phs) ! 1 = snd (modify_phdr L r (s - EGET r (p_offset L) a) b)"
    by (simp add: modify_phdrs_Cons)
  moreover have "lost L r (s - EGET r (p_offset L) a) b" using assms(4) by (simp add: lost_def)
  ultimately show ?thesis using phdr_fields [OF assms(1,2)] by (simp add: modify_phdr_cases)
qed

lemma cut_segment_spoils_next_witness:
  "EGET False (p_filesz elf32) (modify_phdrs elf32 False 128 (demo_phdrs ! 1 # demo_phdrs ! 0 # []) ! 1) = 0"
  by (rule cut_segment_spoils_next)
    (simp_all add: layouts_ok cut_def lost_def demo_segments [simplified] phdr_fits_def demo_layout demo_sizes W64_def)

end
