(* ===== verification/Bstrip.thy ===== *)
theory Bstrip
  imports Prelude CLib
begin

text \<open>
  \<open>package/webif/src/bstrip.c\<close>, the filter behind the upload pages of the web interface: it reads the body of a
  request from standard input and writes what comes before the line with the boundary, without the line end in
  front of it. Lines are read in pieces of 14 bytes, and what was read behind a line feed waits in \<open>rbuf\<close>.

  The input is what is still to come, with the most each of the next calls of \<open>read\<close> may return (a call that is not
  listed returns as much as was asked for and is there; 0 stands for an end of file or an error). The contents of the
  two local buffers at the start are arguments.
\<close>

section \<open>Reading a line\<close>

definition BUF_SIZE :: nat where "BUF_SIZE = 1024"
definition READ_LEN :: nat where "READ_LEN = 14"

record stdin =
  read_len :: nat
  rbuf :: string
  inp :: string
  sizes :: "nat list"

definition sys_read :: "nat \<Rightarrow> stdin \<Rightarrow> string \<times> stdin" where
  "sys_read n s =
     (let r = (case sizes s of [] \<Rightarrow> n | m # ms \<Rightarrow> min m n)
      in (take r (inp s), s\<lparr>inp := drop r (inp s), sizes := tl (sizes s)\<rparr>))"

text \<open>The loop of \<open>do_gets\<close>; \<open>c\<close> bytes of \<open>buf\<close> are filled.\<close>

definition see_dashes :: "nat \<Rightarrow> string \<Rightarrow> stdin \<Rightarrow> stdin" where
  "see_dashes c buf s = (if 3 < c \<and> take 3 (drop (c - 3) buf) = ''---'' then s\<lparr>read_len := 1\<rparr> else s)"

function gets_loop :: "nat \<Rightarrow> string \<Rightarrow> stdin \<Rightarrow> nat \<times> string \<times> stdin" where
  "gets_loop c buf s =
     (if c + read_len s < BUF_SIZE then
        (case sys_read (read_len s) s of
           (d, s) \<Rightarrow>
             if d = [] then (c, buf, s)
             else
               let buf = blit c d buf
               in case strchr CHR 0x0A d of
                    Some (l, rest) \<Rightarrow>
                      let c = c + length l + 1 in (c, buf, see_dashes c buf (s\<lparr>rbuf := rest\<rparr>))
                  | None \<Rightarrow>
                      let c = c + length d in gets_loop c buf (see_dashes c buf (s\<lparr>rbuf := []\<rparr>)))
      else (c, buf, s))"
  by pat_completeness auto

termination
  by (relation "measure (\<lambda>(c, buf, s). BUF_SIZE - c)") (auto intro!: diff_less_mono2 simp flip: length_greater_0_conv)

declare gets_loop.simps [simp del]

definition do_gets :: "string \<Rightarrow> stdin \<Rightarrow> nat \<times> string \<times> stdin" where
  "do_gets buf s = gets_loop (length (rbuf s)) (blit 0 (rbuf s) buf) s"

section \<open>The program\<close>

text \<open>\<open>strncmp\<close> against the boundary, which has no zero byte.\<close>

definition at_boundary :: "string \<Rightarrow> string \<Rightarrow> bool" where
  "at_boundary b buf \<longleftrightarrow> take (length b) buf = b \<or> take (length b) (drop 2 buf) = b"

text \<open>The loop of \<open>main\<close>, with the number of rounds left; a result is the way the program ends and what was written.\<close>

datatype ending = Exit int | Return

fun main_loop :: "nat \<Rightarrow> string \<Rightarrow> string \<Rightarrow> string \<Rightarrow> nat \<Rightarrow> stdin \<Rightarrow> string \<Rightarrow> (ending \<times> string) option" where
  "main_loop 0 b buf buf1 r s out = None"
| "main_loop (Suc n) b buf buf1 r s out =
     (if at_boundary b buf then Some (Return, if 2 < length buf1 then out @ take (length buf1 - 2) buf1 else out)
      else
        let (out, buf1) = (if 0 < r then (out @ buf1, take r buf) else (out, buf1))
        in case do_gets buf s of
             (r, buf, s) \<Rightarrow> if r = 0 then Some (Exit 1, out) else main_loop n b buf buf1 r s out)"

definition bstrip :: "nat \<Rightarrow> string \<Rightarrow> string list \<Rightarrow> stdin \<Rightarrow> (ending \<times> string) option" where
  "bstrip n buf args s =
     (case args of
        [prog, b] \<Rightarrow> main_loop n (takeWhile (\<lambda>c. c \<noteq> CHR 0x0D) b) (CHR 0x00 # tl buf) [] 0 s []
      | _ \<Rightarrow> Some (Exit 1, []))"

definition start :: "string \<Rightarrow> nat list \<Rightarrow> stdin" where
  "start i ms = \<lparr>read_len = READ_LEN, rbuf = [], inp = i, sizes = ms\<rparr>"

section \<open>What is read\<close>

text \<open>No call of \<open>read\<close> fails, and \<open>rbuf\<close> is never fuller than one piece.\<close>

definition reading :: "stdin \<Rightarrow> bool" where
  "reading s \<longleftrightarrow> read_len s \<in> {1, READ_LEN} \<and> length (rbuf s) < READ_LEN \<and> (\<forall>m\<in>set (sizes s). 0 < m)"

lemma sys_read_split:
  assumes "reading s" and "sys_read (read_len s) s = (d, s')"
  shows "inp s = d @ inp s'" "length d \<le> read_len s" "inp s \<noteq> [] \<Longrightarrow> d \<noteq> []" "reading s'" "read_len s' = read_len s" "rbuf s' = rbuf s"
proof -
  have "set (tl (sizes s)) \<subseteq> set (sizes s)" by (cases "sizes s") auto
  then show "inp s = d @ inp s'" "length d \<le> read_len s" "inp s \<noteq> [] \<Longrightarrow> d \<noteq> []" "reading s'" "read_len s' = read_len s" "rbuf s' = rbuf s"
    using assms by (auto simp: sys_read_def reading_def Let_def READ_LEN_def split: list.splits)
qed

lemma see_dashes_same [simp]: "rbuf (see_dashes c buf s) = rbuf s" "inp (see_dashes c buf s) = inp s"
  by (simp_all add: see_dashes_def)

lemma reading_update: "reading s \<Longrightarrow> length l < READ_LEN \<Longrightarrow> reading (see_dashes c buf (s\<lparr>rbuf := l\<rparr>))"
  by (simp add: reading_def see_dashes_def)

definition whole_line :: "nat \<Rightarrow> string \<Rightarrow> nat \<times> string \<times> stdin \<Rightarrow> string \<Rightarrow> bool" where
  "whole_line c buf r stream \<longleftrightarrow>
     (case r of (c', buf', s') \<Rightarrow>
        c \<le> c' \<and> c' \<le> BUF_SIZE \<and> length buf' = BUF_SIZE \<and> reading s' \<and> take c' buf' @ rbuf s' @ inp s' = take c buf @ stream)"

text \<open>One round of the loop that reads something.\<close>

abbreviation after_piece :: "nat \<Rightarrow> string \<Rightarrow> string \<Rightarrow> stdin \<Rightarrow> stdin" where
  "after_piece c d buf s \<equiv> see_dashes (c + length d) (blit c d buf) (s\<lparr>rbuf := []\<rparr>)"

lemma gets_round:
  assumes s: "reading s" and c: "c + read_len s < BUF_SIZE" and b: "length buf = BUF_SIZE"
    and d: "sys_read (read_len s) s = (d, s1)" "d \<noteq> []"
    and next_round: "strchr CHR 0x0A d = None \<Longrightarrow> reading (after_piece c d buf s1) \<Longrightarrow>
      whole_line (c + length d) (blit c d buf) (gets_loop (c + length d) (blit c d buf) (after_piece c d buf s1)) (inp s1)"
  shows "whole_line c buf (gets_loop c buf s) (inp s)"
proof -
  note r = sys_read_split [OF s d(1)]
  have l: "length (blit c d buf) = BUF_SIZE" using c b r(2) by simp
  have t: "take (c + length d) (blit c d buf) = take c buf @ d" using c b by simp
  have rl: "read_len s \<le> READ_LEN" using s by (auto simp: reading_def READ_LEN_def)
  show ?thesis
  proof (cases "strchr CHR 0x0A d")
    case None
    have "reading (after_piece c d buf s1)" using r(4) by (intro reading_update) (simp_all add: READ_LEN_def)
    then have "whole_line (c + length d) (blit c d buf) (gets_loop (c + length d) (blit c d buf) (after_piece c d buf s1)) (inp s1)"
      by (rule next_round [OF None])
    moreover have "gets_loop c buf s = gets_loop (c + length d) (blit c d buf) (after_piece c d buf s1)"
      using c d None by (subst gets_loop.simps) (simp add: Let_def)
    ultimately show ?thesis using t r(1) by (auto simp: whole_line_def split: prod.splits)
  next
    case (Some p)
    obtain x y where p: "p = (x, y)" by (cases p)
    then have x: "d = x @ CHR 0x0A # y" using strchr_Some [of _ d x y] Some by simp
    let ?s = "see_dashes (c + length x + 1) (blit c d buf) (s1\<lparr>rbuf := y\<rparr>)"
    have "gets_loop c buf s = (c + length x + 1, blit c d buf, ?s)"
      using c d Some p by (subst gets_loop.simps) (simp add: Let_def)
    moreover have "take (c + length x + 1) (blit c d buf) = take c buf @ x @ [CHR 0x0A]"
      using x c b by (simp add: blit_def)
    moreover have "reading ?s" using r(2,4) rl x by (intro reading_update) auto
    ultimately show ?thesis using r(1,2) x c l by (simp add: whole_line_def)
  qed
qed

lemma gets_empty:
  assumes "reading s" and "inp s = []"
  shows "\<exists>s'. gets_loop c buf s = (c, buf, s') \<and> reading s' \<and> inp s' = [] \<and> rbuf s' = rbuf s"
proof -
  obtain d s1 where d: "sys_read (read_len s) s = (d, s1)" by (cases "sys_read (read_len s) s")
  have "d = []" "reading s1" "inp s1 = []" "rbuf s1 = rbuf s" using sys_read_split [OF assms(1) d] assms(2) by auto
  then show ?thesis using d assms by (subst gets_loop.simps) auto
qed

lemma gets_loop_stream:
  "reading s \<Longrightarrow> rbuf s = [] \<Longrightarrow> c \<le> BUF_SIZE \<Longrightarrow> length buf = BUF_SIZE \<Longrightarrow> whole_line c buf (gets_loop c buf s) (inp s)"
proof (induction c buf s rule: gets_loop.induct)
  case (1 c buf s)
  obtain d s1 where d: "sys_read (read_len s) s = (d, s1)" by (cases "sys_read (read_len s) s")
  consider "\<not> c + read_len s < BUF_SIZE" | "inp s = []" | "c + read_len s < BUF_SIZE" "d \<noteq> []"
    using sys_read_split(3) [OF 1(2) d] by blast
  then show ?case
  proof cases
    case 1
    then show ?thesis using "1.prems" by (subst gets_loop.simps) (simp add: whole_line_def)
  next
    case 2
    then show ?thesis using "1.prems" gets_empty [of s c buf] by (auto simp: whole_line_def)
  next
    case 3
    have r: "whole_line (c + length d) (blit c d buf) (gets_loop (c + length d) (blit c d buf) (after_piece c d buf s1)) (inp s1)"
      if "strchr CHR 0x0A d = None" "reading (after_piece c d buf s1)"
      using "1.IH" [OF 3(1) d [symmetric] 3(2) refl that(1) refl that(2)] "1.prems" 3(1) sys_read_split(2) [OF "1.prems"(1) d]
      by simp
    show ?thesis by (rule gets_round [OF "1.prems"(1) 3(1) "1.prems"(4) d 3(2) r])
  qed
qed

text \<open>As long as there is input, a line and what waits behind it are what waited before and the input.\<close>

lemma do_gets_stream:
  assumes s: "reading s" and b: "length buf = BUF_SIZE" and i: "inp s \<noteq> []" and g: "do_gets buf s = (r, buf', s')"
  shows "take r buf' @ rbuf s' @ inp s' = rbuf s @ inp s \<and> length buf' = BUF_SIZE \<and> reading s'"
proof -
  obtain d s1 where d: "sys_read (read_len s) s = (d, s1)" by (cases "sys_read (read_len s) s")
  have c: "length (rbuf s) + read_len s < BUF_SIZE" using s by (auto simp: reading_def READ_LEN_def BUF_SIZE_def)
  have b': "length (blit 0 (rbuf s) buf) = BUF_SIZE" using c b by simp
  have r: "whole_line (length (rbuf s) + length d) (blit (length (rbuf s)) d (blit 0 (rbuf s) buf))
        (gets_loop (length (rbuf s) + length d) (blit (length (rbuf s)) d (blit 0 (rbuf s) buf))
           (after_piece (length (rbuf s)) d (blit 0 (rbuf s) buf) s1)) (inp s1)"
    if "reading (after_piece (length (rbuf s)) d (blit 0 (rbuf s) buf) s1)"
    using gets_loop_stream [OF that] sys_read_split(2) [OF s d] c b' by simp
  have "whole_line (length (rbuf s)) (blit 0 (rbuf s) buf) (do_gets buf s) (inp s)"
    unfolding do_gets_def by (rule gets_round [OF s c b' d sys_read_split(3) [OF s d i] r])
  moreover have "take (length (rbuf s)) (blit 0 (rbuf s) buf) = rbuf s" by (simp add: blit_def)
  ultimately show ?thesis using g by (simp add: whole_line_def)
qed

text \<open>At the end of the input what waits is returned again and again.\<close>

lemma do_gets_end:
  assumes "reading s" and "inp s = []"
  shows "\<exists>s'. do_gets buf s = (length (rbuf s), blit 0 (rbuf s) buf, s') \<and> reading s' \<and> inp s' = [] \<and> rbuf s' = rbuf s"
  using gets_empty [OF assms] by (simp add: do_gets_def)

lemma endless:
  assumes "reading s" and "inp s = []" and "rbuf s \<noteq> []" and "blit 0 (rbuf s) buf = buf" and "\<not> at_boundary b buf"
  shows "main_loop n b buf buf1 r s out = None"
  using assms
proof (induction n arbitrary: buf1 r s out)
  case (Suc n)
  obtain s' where s': "do_gets buf s = (length (rbuf s), buf, s')" "reading s'" "inp s' = []" "rbuf s' = rbuf s"
    using do_gets_end [OF Suc.prems(1,2), of buf] Suc.prems(4) by auto
  then have "main_loop n b buf x q s' y = None" for x q y using Suc.IH [of s'] Suc.prems by simp
  then show ?case using Suc.prems(3,5) s'(1) by simp
qed simp

section \<open>What is written\<close>

text \<open>The last line loses two characters, or is left out when there are no more.\<close>

definition trim :: "string \<Rightarrow> string" where
  "trim l = (if 2 < length l then take (length l - 2) l else [])"

text \<open>The boundary is at the start or at offset 2 of the buffer that holds the next line.\<close>

definition found_at :: "string \<Rightarrow> string \<Rightarrow> bool" where
  "found_at b rest \<longleftrightarrow> (\<exists>r buf. r \<le> length rest \<and> take r buf = take r rest \<and> at_boundary b buf)"

lemma blit_same: "length x \<le> length buf \<Longrightarrow> blit 0 x (blit 0 x buf) = blit 0 x buf"
  by (simp add: blit_def)

lemma main_loop_output:
  assumes "main_loop n b buf buf1 r s out = Some (Return, res)"
    and "reading s" and "length buf = BUF_SIZE" and "out @ buf1 @ take r buf @ rbuf s @ inp s = w"
    and "r = 0 \<longrightarrow> buf1 = []"
  shows "\<exists>pre last rest. w = pre @ last @ rest \<and> res = pre @ trim last \<and> found_at b rest"
  using assms
proof (induction n arbitrary: buf buf1 r s out)
  case (Suc n)
  show ?case
  proof (cases "at_boundary b buf")
    case True
    then have "res = out @ trim buf1" using Suc.prems(1) by (simp add: trim_def split: if_splits)
    moreover have "found_at b (take r buf @ rbuf s @ inp s)" unfolding found_at_def using True
      by (intro exI [of _ "min r BUF_SIZE"] exI [of _ buf]) (simp add: Suc.prems(3) min_def)
    ultimately show ?thesis using Suc.prems(4) by blast
  next
    case False
    define out' where "out' = (if 0 < r then out @ buf1 else out)"
    define buf1' where "buf1' = (if 0 < r then take r buf else buf1)"
    obtain q buf' s' where g: "do_gets buf s = (q, buf', s')" by (cases "do_gets buf s")
    have m: "q \<noteq> 0" "main_loop n b buf' buf1' q s' out' = Some (Return, res)"
      using Suc.prems(1) False g by (auto simp: out'_def buf1'_def split: if_splits)
    have o: "out' @ buf1' = out @ buf1 @ take r buf" using Suc.prems(5) by (simp add: out'_def buf1'_def)
    show ?thesis
    proof (cases "inp s = []")
      case i: False
      then have "take q buf' @ rbuf s' @ inp s' = rbuf s @ inp s" "length buf' = BUF_SIZE" "reading s'"
        using do_gets_stream [OF Suc.prems(2,3) i g] by auto
      then show ?thesis using Suc.IH [OF m(2)] Suc.prems(4) o m(1) by (metis append.assoc)
    next
      case i: True
      have e: "q = length (rbuf s)" "buf' = blit 0 (rbuf s) buf" "reading s'" "inp s' = []" "rbuf s' = rbuf s"
        using do_gets_end [OF Suc.prems(2) i, of buf] g by auto
      have l: "length (rbuf s) \<le> length buf" using Suc.prems(2,3) by (simp add: reading_def READ_LEN_def BUF_SIZE_def)
      have at: "at_boundary b buf'"
      proof (rule ccontr)
        assume "\<not> at_boundary b buf'"
        then show False using endless [OF e(3,4), of buf' b n buf1' q out'] e m blit_same [OF l] by auto
      qed
      obtain k where "n = Suc k" using m(2) by (cases n) auto
      then have "res = out' @ trim buf1'" using m(2) at by (simp add: trim_def split: if_splits)
      moreover have "take (length (rbuf s)) buf' = rbuf s" using e(2) by (simp add: blit_def)
      then have "found_at b (rbuf s)" unfolding found_at_def using at by (intro exI [of _ "length (rbuf s)"] exI [of _ buf']) simp
      moreover have "w = out' @ buf1' @ rbuf s" using Suc.prems(4) i o by (metis append.assoc append_Nil2)
      ultimately show ?thesis by blast
    qed
  qed
qed simp

text \<open>Every round takes something from the input, so the rounds are bounded for a run that ends.\<close>

lemma main_loop_fuel:
  assumes "main_loop n b buf buf1 r s out = Some x"
    and "reading s" and "length buf = BUF_SIZE" and "length (rbuf s) + length (inp s) + 2 \<le> m"
  shows "main_loop m b buf buf1 r s out = Some x"
  using assms
proof (induction n arbitrary: buf buf1 r s out m)
  case (Suc n)
  obtain k where k: "m = Suc k" using Suc.prems(4) by (cases m) auto
  show ?case
  proof (cases "at_boundary b buf")
    case True
    then show ?thesis using Suc.prems(1) k by simp
  next
    case False
    define out' where "out' = (if 0 < r then out @ buf1 else out)"
    define buf1' where "buf1' = (if 0 < r then take r buf else buf1)"
    obtain q buf' s' where g: "do_gets buf s = (q, buf', s')" by (cases "do_gets buf s")
    have step: "main_loop (Suc j) b buf buf1 r s out = (if q = 0 then Some (Exit 1, out') else main_loop j b buf' buf1' q s' out')" for j
      using False g by (simp add: out'_def buf1'_def)
    show ?thesis
    proof (cases "q = 0")
      case False
      then have m: "main_loop n b buf' buf1' q s' out' = Some x" using Suc.prems(1) step [of n] by simp
      have "main_loop k b buf' buf1' q s' out' = Some x"
      proof (cases "inp s = []")
        case i: False
        then have e: "take q buf' @ rbuf s' @ inp s' = rbuf s @ inp s" "length buf' = BUF_SIZE" "reading s'"
          using do_gets_stream [OF Suc.prems(2,3) i g] by auto
        have "0 < length (take q buf')" using False e(2) by (simp add: BUF_SIZE_def)
        then have "length (rbuf s') + length (inp s') < length (rbuf s) + length (inp s)"
          using arg_cong [OF e(1), of length] unfolding length_append by linarith
        then show ?thesis using Suc.IH [OF m e(3,2)] Suc.prems(4) k by simp
      next
        case i: True
        have e: "q = length (rbuf s)" "buf' = blit 0 (rbuf s) buf" "reading s'" "inp s' = []" "rbuf s' = rbuf s"
          using do_gets_end [OF Suc.prems(2) i, of buf] g by auto
        have l: "length (rbuf s) \<le> length buf" using Suc.prems(2,3) by (simp add: reading_def READ_LEN_def BUF_SIZE_def)
        have at: "at_boundary b buf'"
        proof (rule ccontr)
          assume "\<not> at_boundary b buf'"
          then show False using endless [OF e(3,4), of buf' b n buf1' q out'] e m False blit_same [OF l] by auto
        qed
        obtain j where "k = Suc j" using Suc.prems(4) k e(1) False by (cases k) auto
        moreover obtain h where "n = Suc h" using m by (cases n) auto
        ultimately show ?thesis using at m by simp
      qed
      then show ?thesis using step [of k] k False by simp
    qed (use step [of n] step [of k] k Suc.prems(1) in simp)
  qed
qed simp



definition upload :: string where
  "upload = ''file: some bytes'' @ [CHR 0x0D, CHR 0x0A] @ ''-----------B'' @ [CHR 0x0D, CHR 0x0A]"



end
