(* ===== verification/WebPage.thy ===== *)
theory WebPage
  imports Prelude CLib
begin

text \<open>
  \<open>package/webif/src/webif-page.c\<close>, which shows a page of the web interface in the language of the user: it runs the
  interpreter of the page and replaces the marked phrases in its output by their translations, which it has read from
  the files of the language into a hash table. The box is a 32-bit ARM with unsigned \<open>char\<close>. What is read from files
  and from the interpreter are arguments; \<open>None\<close> is a null pointer that is followed or a buffer that is exceeded.
\<close>

unbundle bit_operations_syntax

section \<open>The table of translations\<close>

definition HASH_MAX :: nat where "HASH_MAX = 100"
definition LINE_BUF :: nat where "LINE_BUF = 1024"
definition MAX_TR :: nat where "MAX_TR = 32"
definition TR_START :: string where "TR_START = ''@TR<<''"
definition TR_END :: string where "TR_END = ''>>''"

text \<open>\<open>strstr\<close>: the text before the first occurrence and the text behind it.\<close>

fun strstr :: "string \<Rightarrow> string \<Rightarrow> (string \<times> string) option" where
  "strstr p [] = (if p = [] then Some ([], []) else None)"
| "strstr p (c # cs) =
     (if take (length p) (c # cs) = p then Some ([], drop (length p) (c # cs))
      else (case strstr p cs of None \<Rightarrow> None | Some (a, b) \<Rightarrow> Some (c # a, b)))"

definition hash :: "string \<Rightarrow> u32" where
  "hash s = foldl (\<lambda>h c. push_bit 5 h + h + of_nat (code c)) 5381 s"

definition chain :: "string \<Rightarrow> nat" where
  "chain n = unat (hash n mod of_nat HASH_MAX)"

type_synonym ltable = "(string \<times> string) list list"

definition no_lines :: ltable where "no_lines = replicate HASH_MAX []"

definition add_line :: "string \<times> string \<Rightarrow> ltable \<Rightarrow> ltable" where
  "add_line e t = t[chain (fst e) := t ! chain (fst e) @ [e]]"

text \<open>A phrase may have a default text behind a bar or a hash sign.\<close>

definition split_phrase :: "string \<Rightarrow> string \<times> string" where
  "split_phrase s =
     (case strchr CHR ''|'' s of
        Some (n, d) \<Rightarrow> (n, d)
      | None \<Rightarrow> (case strchr CHR ''#'' s of Some (n, d) \<Rightarrow> (n, d) | None \<Rightarrow> (s, s)))"

fun find_line :: "string \<Rightarrow> (string \<times> string) list \<Rightarrow> string option" where
  "find_line n [] = None"
| "find_line n ((m, v) # es) = (if n = m then Some v else find_line n es)"

definition translate_lookup :: "ltable \<Rightarrow> string \<Rightarrow> string" where
  "translate_lookup t s =
     (case split_phrase s of
        (n, d) \<Rightarrow> (case find_line n (t ! chain n) of None \<Rightarrow> d | Some v \<Rightarrow> v))"

section \<open>Translating a line\<close>

lemma strstr_length: "strstr p s = Some (a, b) \<Longrightarrow> length s = length a + length p + length b"
proof (induction s arbitrary: a)
  case (Cons c s)
  show ?case
  proof (cases "take (length p) (c # s) = p")
    case True
    then have "length p \<le> length (c # s)" by (metis length_take min.absorb_iff2)
    then show ?thesis using Cons.prems True by auto
  next
    case False
    then show ?thesis using Cons by (auto split: option.splits)
  qed
qed (auto split: if_splits)

function tokens :: "ltable \<Rightarrow> string \<Rightarrow> string list" where
  "tokens t l =
     (case strstr TR_START l of
        None \<Rightarrow> [l]
      | Some (a, p) \<Rightarrow>
          (case strstr TR_END p of
             None \<Rightarrow> []
           | Some (k, rest) \<Rightarrow> a # translate_lookup t k # tokens t rest))"
  by pat_completeness auto

termination
  by (relation "measure (\<lambda>(t, l). length l)") (auto dest!: strstr_length simp: TR_START_def TR_END_def)

declare tokens.simps [simp del]

definition translate_line :: "ltable \<Rightarrow> string \<Rightarrow> string option" where
  "translate_line t l = (if MAX_TR * 3 < length (tokens t l) then None else Some (concat (tokens t l)))"

section \<open>The files of a language\<close>

definition rstrip :: "string \<Rightarrow> string" where
  "rstrip s = rev (dropWhile isspace (rev s))"

text \<open>One line \<open>name => value\<close>.\<close>

definition lang_line :: "string \<Rightarrow> (string \<times> string) option" where
  "lang_line l =
     (let b = dropWhile isspace l
      in if b = [] then None
         else (case strstr ''=>'' b of
                 None \<Rightarrow> None
               | Some (n, v) \<Rightarrow>
                   let w = rstrip (dropWhile isspace v)
                   in if v = [] \<or> w = [] then None else Some (rstrip n, w)))"

definition c_lines :: "string \<Rightarrow> string list" where
  "c_lines s = map (takeWhile (\<lambda>c. c \<noteq> CHR 0x00)) (fgets_all (LINE_BUF - 1) s)"

definition load_lang :: "string \<Rightarrow> ltable \<Rightarrow> ltable" where
  "load_lang s t = fold (\<lambda>l t. case lang_line l of None \<Rightarrow> t | Some e \<Rightarrow> add_line e t) (c_lines s) t"

text \<open>The setting \<open>lang\<close> in \<open>/etc/config/webif\<close>. For an empty file the line is what the buffer happens to hold.\<close>

definition lang_setting :: "string \<Rightarrow> string option" where
  "lang_setting l =
     (if map to_lower (take 4 l) \<noteq> ''lang'' then None
      else let v = dropWhile isspace (drop 4 l)
           in if take 1 v \<noteq> ''='' then None else Some (take 32 (takeWhile isalpha (dropWhile isspace (tl v)))))"

fun find_lang :: "string list \<Rightarrow> string option" where
  "find_lang [] = None"
| "find_lang (l # ls) = (case lang_setting l of None \<Rightarrow> find_lang ls | Some v \<Rightarrow> Some v)"

definition lang_path :: "string option \<Rightarrow> string" where
  "lang_path l = ''/usr/lib/webif/lang/'' @ (case l of None \<Rightarrow> ''(null)'' | Some v \<Rightarrow> v) @ ''/*.txt''"

text \<open>\<open>glob\<close> gives the contents of the files of a pattern; a file that cannot be opened is a null pointer.\<close>

fun load_files :: "string option list \<Rightarrow> ltable \<Rightarrow> ltable option" where
  "load_files [] t = Some t"
| "load_files (None # fs) t = None"
| "load_files (Some s # fs) t = load_files fs (load_lang s t)"

definition load_all :: "(string \<Rightarrow> string option list) \<Rightarrow> string \<Rightarrow> string option \<Rightarrow> ltable option" where
  "load_all glob junk config =
     (case config of
        None \<Rightarrow> Some no_lines
      | Some s \<Rightarrow> load_files (glob (lang_path (find_lang (if s = [] then [junk] else c_lines s)))) no_lines)"

section \<open>The program\<close>

text \<open>The options in the first argument: commands to run, another interpreter. The result is the rest of the argument.\<close>

record options =
  arg1 :: "string option"
  commands :: "string list"
  proc :: string

lemma strchr_shorter: "strchr c s = Some (a, b) \<Longrightarrow> length b < length s"
  using strchr_Some by fastforce

function read_options :: "options \<Rightarrow> options option" where
  "read_options opt =
     (case arg1 opt of
        None \<Rightarrow> Some opt
      | Some s \<Rightarrow>
          if take 2 s = ''-e'' \<or> take 2 s = ''-p'' then
            (case strchr CHR '' '' s of
               None \<Rightarrow> None
             | Some (_, r) \<Rightarrow>
                 (case strchr CHR '' '' r of
                    None \<Rightarrow>
                      Some (if take 2 s = ''-e'' then opt\<lparr>arg1 := None, commands := commands opt @ [r]\<rparr>
                            else opt\<lparr>arg1 := None, proc := r\<rparr>)
                  | Some (a, b) \<Rightarrow>
                      read_options
                        (if take 2 s = ''-e'' then opt\<lparr>arg1 := Some b, commands := commands opt @ [a]\<rparr>
                         else opt\<lparr>arg1 := Some b, proc := a\<rparr>)))
          else Some opt)"
  by pat_completeness auto

termination
proof (relation "measure (\<lambda>opt. case arg1 opt of None \<Rightarrow> 0 | Some s \<Rightarrow> length s)")
  fix opt s x p r y a b
  assume "arg1 opt = Some s" and 1: "strchr CHR '' '' s = Some x" "(p, r) = x" and 2: "strchr CHR '' '' r = Some y" "(a, b) = y"
  then show "((if take 2 s = ''-e'' then opt\<lparr>arg1 := Some b, commands := commands opt @ [a]\<rparr>
      else opt\<lparr>arg1 := Some b, proc := a\<rparr>), opt) \<in> measure (\<lambda>opt. case arg1 opt of None \<Rightarrow> 0 | Some s \<Rightarrow> length s)"
    using strchr_shorter [of _ s p r] strchr_shorter [of _ r a b] by force
qed simp

declare read_options.simps [simp del]

text \<open>The command line for the interpreter, in the buffer of one line.\<close>

definition command_line :: "options \<Rightarrow> string list \<Rightarrow> string option" where
  "command_line opt args =
     (let c = proc opt @ concat (map ((@) '' '') ((case arg1 opt of None \<Rightarrow> [] | Some s \<Rightarrow> [s]) @ args))
      in if length c < LINE_BUF then Some c else None)"

fun translate_all :: "ltable \<Rightarrow> string list \<Rightarrow> string option" where
  "translate_all t [] = Some []"
| "translate_all t (l # ls) =
     (case translate_line t l of
        None \<Rightarrow> None
      | Some a \<Rightarrow> (case translate_all t ls of None \<Rightarrow> None | Some b \<Rightarrow> Some (a @ b)))"

text \<open>The commands run, and the page shown; \<open>popen\<close> gives the output of the interpreter.\<close>

definition webif_page ::
    "(string \<Rightarrow> string option list) \<Rightarrow> string \<Rightarrow> string option \<Rightarrow> (string \<Rightarrow> string) \<Rightarrow> string list \<Rightarrow> (string list \<times> string) option" where
  "webif_page glob junk config popen args =
     (case load_all glob junk config of
        None \<Rightarrow> None
      | Some t \<Rightarrow>
          (case read_options \<lparr>arg1 = (case args of [] \<Rightarrow> None | a # _ \<Rightarrow> Some a), commands = [], proc = ''/usr/bin/haserl''\<rparr> of
             None \<Rightarrow> None
           | Some opt \<Rightarrow>
               (case command_line opt (tl args) of
                  None \<Rightarrow> None
                | Some c \<Rightarrow> map_option (Pair (commands opt)) (translate_all t (c_lines (popen c))))))"

section \<open>The table as a map\<close>

text \<open>The first of the lines with a name counts, whatever chain it is in.\<close>

lemma chain_less: "chain n < HASH_MAX"
  by (simp add: chain_def HASH_MAX_def unat_mod)

lemma find_line_append: "find_line n (a @ b) = (case find_line n a of None \<Rightarrow> find_line n b | Some v \<Rightarrow> Some v)"
  by (induction n a rule: find_line.induct) auto

lemma find_added:
  "length t = HASH_MAX \<Longrightarrow>
   find_line n (fold add_line es t ! chain n) = (case find_line n (t ! chain n) of None \<Rightarrow> map_of es n | Some v \<Rightarrow> Some v)"
proof (induction es arbitrary: t)
  case (Cons e es)
  obtain m v where e: "e = (m, v)" by (cases e)
  have "length (add_line e t) = HASH_MAX" using Cons.prems by (simp add: add_line_def)
  then have ih: "find_line n (fold add_line es (add_line e t) ! chain n) =
      (case find_line n (add_line e t ! chain n) of None \<Rightarrow> map_of es n | Some v \<Rightarrow> Some v)"
    by (rule Cons.IH)
  have a: "add_line e t ! chain n = (if chain m = chain n then t ! chain n @ [(m, v)] else t ! chain n)"
    using Cons.prems chain_less [of n] e by (simp add: add_line_def nth_list_update)
  show ?case
  proof (cases "n = m")
    case True
    then show ?thesis using ih a e by (cases "find_line n (t ! chain n)") (simp_all add: find_line_append)
  next
    case False
    then have "find_line n (add_line e t ! chain n) = find_line n (t ! chain n)"
      using a by (cases "find_line n (t ! chain n)") (simp_all add: find_line_append)
    then show ?thesis using ih e False by (cases "find_line n (t ! chain n)") simp_all
  qed
qed (simp split: option.splits)

definition phrase :: "(string \<times> string) list \<Rightarrow> string \<Rightarrow> string" where
  "phrase es s = (case split_phrase s of (n, d) \<Rightarrow> (case map_of es n of None \<Rightarrow> d | Some v \<Rightarrow> v))"

lemma lookup_phrase: "translate_lookup (fold add_line es no_lines) s = phrase es s"
proof -
  have "find_line n (no_lines ! chain n) = None" for n using chain_less [of n] by (simp add: no_lines_def)
  then have "find_line n (fold add_line es no_lines ! chain n) = map_of es n" for n
    using find_added [of no_lines n es] by (simp add: no_lines_def)
  then show ?thesis by (simp add: translate_lookup_def phrase_def)
qed

lemma load_lang_fold: "load_lang s t = fold add_line (List.map_filter lang_line (c_lines s)) t"
proof -
  have "fold (\<lambda>l t. case lang_line l of None \<Rightarrow> t | Some e \<Rightarrow> add_line e t) ls t = fold add_line (List.map_filter lang_line ls) t" for ls t
    by (induction ls arbitrary: t) (auto simp: List.map_filter_simps split: option.splits)
  then show ?thesis by (simp add: load_lang_def)
qed

definition lang_entries :: "string list \<Rightarrow> (string \<times> string) list" where
  "lang_entries fs = concat (map (\<lambda>s. List.map_filter lang_line (c_lines s)) fs)"

lemma load_files_fold: "load_files (map Some fs) t = Some (fold add_line (lang_entries fs) t)"
  by (induction fs arbitrary: t) (simp_all add: lang_entries_def load_lang_fold)

section \<open>Marked phrases\<close>

lemma strstr_first:
  assumes "c \<notin> set q" and "strstr (c # q) t = None"
  shows "strstr (c # q) (t @ (c # q) @ x) = Some (t, x)"
  using assms(2)
proof (induction t)
  case (Cons a t)
  have n: "take (length (c # q)) (a # t) \<noteq> c # q" "strstr (c # q) t = None"
    using Cons.prems by (auto split: if_splits option.splits)
  have "take (length (c # q)) ((a # t) @ (c # q) @ x) \<noteq> c # q"
  proof
    assume e: "take (length (c # q)) ((a # t) @ (c # q) @ x) = c # q"
    show False
    proof (cases "length (c # q) \<le> length (a # t)")
      case True
      then show False using e n(1) by simp
    next
      case False
      then have "(c # q) ! length (a # t) = ((a # t) @ (c # q) @ x) ! length (a # t)"
        using nth_take [of "length (a # t)" "length (c # q)" "(a # t) @ (c # q) @ x"] e by simp
      then have "q ! length t = c" by (simp add: nth_append)
      then show False using assms(1) False by (auto dest: nth_mem)
    qed
  qed
  then show ?case using Cons.IH [OF n(2)] by simp
qed simp

lemma start_first: "strstr TR_START t = None \<Longrightarrow> strstr TR_START (t @ TR_START @ x) = Some (t, x)"
  unfolding TR_START_def by (rule strstr_first) simp_all

lemma end_first: "CHR ''>'' \<notin> set k \<Longrightarrow> strstr TR_END (k @ TR_END @ x) = Some (k, x)"
  by (induction k) (auto simp: TR_END_def)

lemma no_end: "CHR ''>'' \<notin> set k \<Longrightarrow> strstr TR_END k = None"
  by (induction k) (auto simp: TR_END_def)

definition marked :: "(string \<times> string) list \<Rightarrow> string" where
  "marked ps = concat (map (\<lambda>(t, k). t @ TR_START @ k @ TR_END) ps)"

definition well_marked :: "(string \<times> string) list \<Rightarrow> string \<Rightarrow> bool" where
  "well_marked ps l \<longleftrightarrow> list_all (\<lambda>(t, k). strstr TR_START t = None \<and> CHR ''>'' \<notin> set k) ps \<and> strstr TR_START l = None"

lemma tokens_marked:
  "well_marked ps l \<Longrightarrow> tokens t (marked ps @ l) = concat (map (\<lambda>(a, k). [a, translate_lookup t k]) ps) @ [l]"
proof (induction ps)
  case Nil
  then show ?case by (subst tokens.simps) (simp add: marked_def well_marked_def)
next
  case (Cons p ps)
  obtain a k where p: "p = (a, k)" by (cases p)
  have a: "strstr TR_START a = None" "CHR ''>'' \<notin> set k" "well_marked ps l" using Cons.prems p by (simp_all add: well_marked_def)
  have m: "marked (p # ps) @ l = a @ TR_START @ k @ TR_END @ marked ps @ l" using p by (simp add: marked_def)
  show ?case unfolding m using start_first [OF a(1)] end_first [OF a(2)] Cons.IH [OF a(3)] p
    by (subst tokens.simps) simp
qed

lemma length_tokens_marked: "well_marked ps l \<Longrightarrow> length (tokens t (marked ps @ l)) = 2 * length ps + 1"
proof -
  have "length (concat (map (\<lambda>(a, k). [a, translate_lookup t k]) qs)) = 2 * length qs" for qs by (induction qs) auto
  then show "well_marked ps l \<Longrightarrow> length (tokens t (marked ps @ l)) = 2 * length ps + 1" by (simp add: tokens_marked)
qed


text \<open>More than 47 phrases in a line exceed the array of 96 pieces; 48 of them fit a line of the page.\<close>

theorem too_many_phrases:
  assumes "well_marked ps l" and "48 \<le> length ps"
  shows "translate_line t (marked ps @ l) = None"
  using length_tokens_marked [OF assms(1), of t] assms(2) by (simp add: translate_line_def MAX_TR_def)

text \<open>A phrase that is not closed takes the text in front of it with it.\<close>

theorem unclosed_phrase_loses_text:
  assumes "strstr TR_START a = None" and "CHR ''>'' \<notin> set k"
  shows "translate_line t (a @ TR_START @ k) = Some []"
  using start_first [OF assms(1), of k] no_end [OF assms(2)]
  by (subst translate_line_def, subst (1 2) tokens.simps) simp


lemma too_many_phrases_witness:
  "translate_line no_lines (concat (replicate 48 ''@TR<<a>>'')) = None \<and> length (concat (replicate 48 ''@TR<<a>>'')) < LINE_BUF - 1"
proof -
  have m: "marked (replicate n ([], ''a'')) @ [] = concat (replicate n ''@TR<<a>>'')" for n
    by (induction n) (simp_all add: marked_def TR_START_def TR_END_def)
  have w: "well_marked (replicate n ([], ''a'')) []" for n
    by (induction n) (simp_all add: well_marked_def TR_START_def)
  have l: "length (concat (replicate n ''@TR<<a>>'')) = 8 * n" for n by (induction n) simp_all
  have "48 \<le> length (replicate 48 ([] :: string, ''a''))" unfolding length_replicate by (rule order_refl)
  from too_many_phrases [OF w [of 48] this, of no_lines]
  show ?thesis unfolding m l LINE_BUF_def by simp
qed

lemma unclosed_phrase_loses_text_witness: "translate_line no_lines ''lost @TR<<Disk'' = Some []"
  using unclosed_phrase_loses_text [of "''lost ''" "''Disk''" no_lines] by (simp add: TR_START_def)

end
