(* ===== verification/Spec2Isabelle.thy ===== *)
theory Spec2Isabelle
  imports Firmware Mcookie Makedevs KConf SysMain McuServer Sstrip Bstrip WebPage
begin

text \<open>
  A verification development for the C programs of the Alt-F firmware (a Linux distribution for D-Link and other NAS
  boxes, built with a branch of Buildroot). Paths below are relative to the directory \<open>src\<close>.

  \<^bold>\<open>The programs and how they fit together.\<close> On the build host, the configuration tools of
  \<open>package/config\<close> decide what is built, \<open>toolchain/sstrip\<close> shortens the executables, \<open>target/makedevs\<close> fills the
  device directory of the root file system, and \<open>dns323-fw\<close> joins kernel and file systems to a firmware file a vendor
  accepts (it runs on the box too, to take such a file apart). On the box, \<open>sysctrl\<close> looks after buttons, LEDs, fan,
  disks and error log; on the DNS-320L it is joined by \<open>dns320l-daemon\<close>, which talks to the microcontroller that owns
  fan, temperature sensor, clock and power LED, and serves commands over a socket. The pages of the web interface pass
  through \<open>webif-page\<close> and their uploads through \<open>bstrip\<close>. \<open>sysctrl\<close> writes the fan speed it
  wants to a file, and \<open>dns320l-daemon\<close> follows that file. \<open>mcookie\<close> makes the cookie of an X server.

  \<^bold>\<open>The theories.\<close>

    \<^item> \<open>Prelude\<close>: machine integers, little-endian bytes, operations that pass a state and may exit (the type \<open>op\<close> with
      \<open>bindE\<close> and \<open>retE\<close>), and the collection \<open>keeps\<close> for the parts of a state an operation leaves alone. \<open>CLib\<close>,
      \<open>CTime\<close>, \<open>CFloat\<close>: what the sources use of the C library on strings and numbers, on times, and of floating
      point (rounded after every operation).

    \<^item> \<open>Firmware\<close> (\<open>alt-f-utils/dns323-fw.c\<close>): both headers as records and bytes, \<open>readwrite\<close> with its running XOR,
      \<open>savefile\<close>, \<open>check_sig\<close>, \<open>merge\<close>, \<open>split\<close> over a file system with capacity and access rights. What merge writes
      split gives back; changed words are detected.

    \<^item> \<open>Mcookie\<close> (\<open>x11r7/mcookie/mcookie.c\<close>): MD5 with its buffered interface, refined to the padded-block definition,
      and the program around it.

    \<^item> \<open>Makedevs\<close> (\<open>target/makedevs/makedevs.c\<close>): reading and parsing a device table, directories with their parents,
      nodes and ranges of nodes, on a tree of nodes.

    \<^item> \<open>KExpr\<close> (\<open>config/expr.c\<close>, \<open>expr.h\<close>): dependency expressions, their three-valued meaning and the rewriting the
      tools do. \<open>KSymbol\<close> (\<open>config/symbol.c\<close>): the state of the tools, all operations on symbols. \<open>KValue\<close>, \<open>KChoice\<close>,
      \<open>KCalc\<close>: the specified value of a symbol, and the proof that \<open>sym_calc_value\<close> computes it; \<open>KSettle\<close>: what holds
      after every change of the configuration, and what follows for selected symbols, ranges and choices; \<open>KSet\<close>:
      setting and toggling values, accepted numbers, names. \<open>KConf\<close> (\<open>config/confdata.c\<close>): reading and writing
      configuration files; what is written from calculated values is read back as the same values, as long as the lines
      fit the buffer.

    \<^item> \<open>SysFiles\<close>, \<open>SysConf\<close>, \<open>SysFan\<close>, \<open>SysLeds\<close>, \<open>SysButton\<close>, \<open>SysDisks\<close>, \<open>SysMain\<close> (\<open>alt-f-utils/sysctrl.c\<close>): helpers on
      files, configuration and boards, fan control, LEDs with the two watches that use them, buttons with debouncing,
      power states of disks, and the main loop with its state machine, signals and reachable states.

    \<^item> \<open>McuLink\<close>, \<open>McuDaemon\<close>, \<open>McuServer\<close> (\<open>alt-f-utils/dns320l-daemon.c\<close> and its headers): packets and retries on the
      serial line, the commands, the table of connections with the periodic jobs, the main loop and the client.

    \<^item> \<open>Sstrip\<close> (\<open>toolchain/sstrip/sstrip.c\<close>): both classes and byte orders of ELF headers, the new size, the changed
      headers, the rewritten file.

    \<^item> \<open>Bstrip\<close>, \<open>WebPage\<close> (\<open>webif/src/bstrip.c\<close>, \<open>webif-page.c\<close>): the upload filter of the web interface, which passes on
      what comes before a boundary, and the translation of its pages.

  \<^bold>\<open>Conventions.\<close> A struct is a record, an enumeration a datatype or the code's numbers, a machine integer a word
  or an integer with its wrap-around written out where a bound matters. An operation takes and returns the state;
  errors and exits are values (\<open>Inl\<close> or \<open>None\<close>). What lies outside the sources - the kernel, devices, the
  network, uninitialised memory - is an argument of the definitions (the records \<open>env\<close>, \<open>denv\<close>, \<open>uc\<close> and others).
  The definitions compute. Interfaces between components are locales, interpreted on the definitions of the
  component that provides them: for instance \<open>settings\<close> in \<open>SysFiles\<close> (a file gives back what was written) and
  \<open>callee\<close> in \<open>KValue\<close> (what the functions of \<open>symbol.c\<close> rely on when they call \<open>sym_calc_value\<close>, interpreted on
  \<open>sym_calc_value\<close> itself in \<open>KCalc\<close>).

  \<^bold>\<open>Values of configuration symbols.\<close> \<open>sym_calc_value\<close> calls itself through \<open>expr_calc_value\<close>, defaults, ranges and
  choices, marks a symbol as valid before its value is known, and stores results in symbols on the way. The
  specification (\<open>visible_spec\<close>, \<open>rev_spec\<close>, \<open>tri_spec\<close>, \<open>chars_spec\<close>, \<open>choice_spec\<close>) says what value the properties of a
  symbol ask for, given the values of the others. A configuration is in order (\<open>conf_ok\<close>) when the symbols can be
  numbered so that what a symbol depends on has smaller numbers; \<open>sym_check_deps\<close> is there to reject the others.
  A symbol is \<open>settled\<close> when it has the specified value and keeps it whatever is calculated later. The proof shows
  for each function of \<open>symbol.c\<close> what it does to a state in which the symbols below are settled as far as they are
  valid (the context \<open>callee\<close>), then closes the recursion by induction on the fuel: the number of the symbol plus two
  is enough, and as numbers need not exceed the number of symbols, \<open>length (hashed k) + 2\<close>, which the other functions
  use, always is.

  \<^bold>\<open>Bounds and fuel.\<close> Loops are structural recursion, functions with a termination measure, or, where the length of a
  loop depends on the data, recursion on an amount of fuel with a theorem that gives a sufficient amount:
  \<open>expr_transform\<close> and \<open>expr_eq\<close> in \<open>KExpr\<close> (functions of the size of the expression), \<open>sym_calc_value\<close> (above), and the
  debouncing loop in \<open>SysButton\<close> (the events in the queue). The recursive \<open>sym_check_deps\<close> takes its fuel as an
  argument. Sizes of buffers are explicit where the code can reach them.

  \<^bold>\<open>Not modelled.\<close> The user interfaces of the configuration tools (curses, GTK, Qt) and the \<open>lxdialog\<close> windows are
  calls of libraries around the data of \<open>symbol.c\<close> and \<open>menu.c\<close>; the scanner and parser \<open>lex.zconf.c\<close> and \<open>zconf.tab.c\<close>
  are generated; \<open>elf2flt.c\<close> works on the data of the BFD library, which is not in the repository; \<open>rpcinfo.c\<close> is a
  client of the RPC library and \<open>unbuffer.c\<close> only sets up streams and executes its arguments; the shell scripts, CGI
  pages, patches and build files are not C. Of the modelled programs: terminal output and log messages, failing
  \<open>malloc\<close>, the sharing and freeing of expressions and the elimination of duplicates in them,
  the system calls that open and configure devices, and, in \<open>confdata.c\<close>, temporary files, directories and time stamps.
\<close>

end
